(* ===== verification/Base.thy ===== *)
theory Base
  imports Main "HOL-Library.Word" "HOL-Library.Monad_Syntax" "HOL-Library.Multiset"
begin

text \<open>
  Prelude of the development: the machine types of the Rust sources, results and panics, the
  slice and vector operations of the Rust standard library that the sources call, and the
  generic lemmas the components share.

  Conventions. A byte is an \<open>8 word\<close>; a Rust \<open>usize\<close> is a \<open>nat\<close> (lengths and indices);
  fixed-width integers whose wrap-around matters are words. A function that can panic (an index
  or slice out of range) returns an \<open>option\<close> whose \<open>None\<close> is the panic; a fallible function
  returns a \<open>res\<close>. An \<open>Instant\<close> is a number of microseconds and a \<open>Duration\<close> a number of
  nanoseconds, as in the sources and in \<open>core::time\<close>.
\<close>

unbundle bit_operations_syntax

section \<open>Machine types\<close>

type_synonym u8 = "8 word"
type_synonym u16 = "16 word"
type_synonym u32 = "32 word"
type_synonym u64 = "64 word"

text \<open>An IPv4 address is its 32 bits, as \<open>Ipv4Addr::to_bits\<close> gives them.\<close>

type_synonym ipv4addr = u32

lemma unat_u8: "unat (b :: u8) < 256"
  using unsigned_less [of b, where ?'a = nat] by simp

lemma unat_u16: "unat (v :: u16) < 65536"
  using unsigned_less [of v, where ?'a = nat] by simp

lemma unat_u32: "unat (v :: u32) < 4294967296"
  using unsigned_less [of v, where ?'a = nat] by simp

section \<open>Results\<close>

datatype ('e, 'a) res = Ok 'a | Err 'e

fun map_res :: "('a \<Rightarrow> 'b) \<Rightarrow> ('e, 'a) res \<Rightarrow> ('e, 'b) res" where
  "map_res f (Ok x) = Ok (f x)"
| "map_res f (Err e) = Err e"

text \<open>The \<open>?\<close> of a function that returns an \<open>Option\<close> and can panic.\<close>

definition try_some :: "'a option \<Rightarrow> ('a \<Rightarrow> 'b option option) \<Rightarrow> 'b option option" where
  "try_some x f = (case x of None \<Rightarrow> Some None | Some y \<Rightarrow> f y)"

lemma try_some_simps [simp]: "try_some None f = Some None" "try_some (Some y) f = f y"
  by (simp_all add: try_some_def)

lemma try_some_total: "(\<And>y. x = Some y \<Longrightarrow> \<exists>r. f y = Some r) \<Longrightarrow> \<exists>r. try_some x f = Some r"
  by (cases x) auto

section \<open>Time\<close>

type_synonym instant = nat
type_synonym duration = nat

definition from_secs :: "nat \<Rightarrow> duration" where
  "from_secs s = s * 1000000000"

definition from_millis :: "nat \<Rightarrow> duration" where
  "from_millis ms = ms * 1000000"

text \<open>\<open>time.rs\<close>: adding a duration drops what is below a microsecond; subtracting instants
  saturates at zero.\<close>

definition instant_add :: "instant \<Rightarrow> duration \<Rightarrow> instant" where
  "instant_add t d = t + d div 1000"

definition instant_sub :: "instant \<Rightarrow> instant \<Rightarrow> duration" where
  "instant_sub t earlier = (t - earlier) * 1000"

lemma instant_add_mono: "t \<le> t' \<Longrightarrow> instant_add t d \<le> instant_add t' d"
  by (simp add: instant_add_def)

lemma instant_add_ge: "t \<le> instant_add t d"
  by (simp add: instant_add_def)

lemma instant_sub_le: "t \<le> s \<Longrightarrow> instant_sub t s = 0"
  by (simp add: instant_sub_def)

section \<open>Slices and vectors\<close>

text \<open>\<open>xs[a..b]\<close>: panics unless \<open>a \<le> b \<le> len\<close>.\<close>

definition slice :: "'a list \<Rightarrow> nat \<Rightarrow> nat \<Rightarrow> 'a list option" where
  "slice xs a b = (if a \<le> b \<and> b \<le> length xs then Some (take (b - a) (drop a xs)) else None)"

text \<open>\<open>xs[at..at + n].copy_from_slice(src)\<close> with \<open>n = src.len()\<close>.\<close>

definition copy_at :: "'a list \<Rightarrow> nat \<Rightarrow> 'a list \<Rightarrow> 'a list option" where
  "copy_at xs at src =
     (if at + length src \<le> length xs
      then Some (take at xs @ src @ drop (at + length src) xs) else None)"

text \<open>\<open>Vec::resize\<close>.\<close>

definition vec_resize :: "'a list \<Rightarrow> nat \<Rightarrow> 'a \<Rightarrow> 'a list" where
  "vec_resize xs n x = take n xs @ replicate (n - length xs) x"

text \<open>\<open>Vec::swap_remove\<close>: the last element takes the place of the removed one.\<close>

definition swap_remove :: "'a list \<Rightarrow> nat \<Rightarrow> 'a list" where
  "swap_remove xs i = (butlast (xs[i := last xs]))"

text \<open>\<open>Iterator::position\<close>.\<close>

fun position :: "('a \<Rightarrow> bool) \<Rightarrow> 'a list \<Rightarrow> nat option" where
  "position p [] = None"
| "position p (x # xs) = (if p x then Some 0 else map_option Suc (position p xs))"

text \<open>\<open>Iterator::min_by_key\<close> on the indices of a vector: the first index with the least key.\<close>

fun min_index_by :: "('a \<Rightarrow> nat) \<Rightarrow> 'a list \<Rightarrow> nat option" where
  "min_index_by k [] = None"
| "min_index_by k (x # xs) =
     (case min_index_by k xs of None \<Rightarrow> Some 0
      | Some j \<Rightarrow> if k x \<le> k (xs ! j) then Some 0 else Some (Suc j))"

text \<open>\<open>Iterator::min\<close> and the \<open>flatten().min()\<close> of optional values.\<close>

definition min_option :: "nat list \<Rightarrow> nat option" where
  "min_option xs = (if xs = [] then None else Some (Min (set xs)))"

definition somes :: "'a option list \<Rightarrow> 'a list" where
  "somes xs = concat (map (\<lambda>x. case x of None \<Rightarrow> [] | Some y \<Rightarrow> [y]) xs)"

section \<open>Lemmas on slices\<close>

lemma slice_Some: "slice xs a b = Some ys \<longleftrightarrow> a \<le> b \<and> b \<le> length xs \<and> ys = take (b - a) (drop a xs)"
  by (auto simp: slice_def)

lemma length_slice: "slice xs a b = Some ys \<Longrightarrow> length ys = b - a"
  by (auto simp: slice_def split: if_splits)

lemma slice_full [simp]: "slice xs 0 (length xs) = Some xs"
  by (simp add: slice_def)

lemma copy_at_Some:
  "copy_at xs at src = Some ys \<longleftrightarrow>
     at + length src \<le> length xs \<and> ys = take at xs @ src @ drop (at + length src) xs"
  by (auto simp: copy_at_def)

lemma length_copy_at: "copy_at xs at src = Some ys \<Longrightarrow> length ys = length xs"
  by (auto simp: copy_at_def split: if_splits)

lemma nth_copy_at:
  assumes "copy_at xs at src = Some ys" and "i < length xs"
  shows "ys ! i = (if at \<le> i \<and> i < at + length src then src ! (i - at) else xs ! i)"
  using assms by (auto simp: copy_at_def nth_append min_def split: if_splits)

lemma copy_at_in_range: "at + length src \<le> length xs \<Longrightarrow> \<exists>ys. copy_at xs at src = Some ys"
  by (simp add: copy_at_def)

lemma length_vec_resize [simp]: "length (vec_resize xs n x) = n"
  by (simp add: vec_resize_def min_def)

lemma nth_vec_resize: "i < n \<Longrightarrow> vec_resize xs n x ! i = (if i < length xs then xs ! i else x)"
  by (auto simp: vec_resize_def nth_append)

lemma vec_resize_same [simp]: "vec_resize xs (length xs) x = xs"
  by (simp add: vec_resize_def)

section \<open>Lemmas on vectors\<close>

lemma position_Some_iff:
  "position p xs = Some i \<longleftrightarrow> i < length xs \<and> p (xs ! i) \<and> (\<forall>j < i. \<not> p (xs ! j))"
proof (induction xs arbitrary: i)
  case Nil
  then show ?case by simp
next
  case (Cons x xs)
  show ?case
  proof (cases i)
    case 0
    then show ?thesis by auto
  next
    case (Suc k)
    then show ?thesis using Cons.IH [of k]
      by (auto simp: less_Suc_eq_0_disj split: if_splits)
  qed
qed

lemma position_None_iff: "position p xs = None \<longleftrightarrow> (\<forall>x \<in> set xs. \<not> p x)"
  by (induction xs) auto

lemma min_index_by_lt: "min_index_by k xs = Some i \<Longrightarrow> i < length xs"
  by (induction xs arbitrary: i) (auto split: option.splits if_splits)

lemma min_index_by_least: "min_index_by k xs = Some i \<Longrightarrow> y \<in> set xs \<Longrightarrow> k (xs ! i) \<le> k y"
proof (induction xs arbitrary: i y)
  case Nil
  then show ?case by simp
next
  case (Cons x xs)
  then show ?case
    by (cases "min_index_by k xs")
      (fastforce split: if_splits option.splits intro: order_trans elim: list.set_cases)+
qed

lemma min_index_by_None: "min_index_by k xs = None \<longleftrightarrow> xs = []"
  by (cases xs) (auto split: option.splits)

lemma length_swap_remove [simp]: "length (swap_remove xs i) = length xs - 1"
  by (simp add: swap_remove_def)

lemma mset_swap_remove_set: "i < length xs \<Longrightarrow> set (swap_remove xs i) \<subseteq> set xs"
  unfolding swap_remove_def
  by (metis in_set_butlastD insert_absorb last_in_set length_0_conv less_nat_zero_code set_update_subset_insert subset_iff)

lemma mset_swap_remove: "i < length xs \<Longrightarrow> add_mset (xs ! i) (mset (swap_remove xs i)) = mset xs"
proof (cases xs rule: rev_cases)
  case (snoc ys z)
  assume i: "i < length xs"
  show ?thesis
  proof (cases "i < length ys")
    case True
    then have "swap_remove xs i = ys[i := z]" using snoc by (simp add: swap_remove_def list_update_append)
    then show ?thesis using True snoc by (simp add: mset_update nth_append)
  next
    case False
    then have "i = length ys" using i snoc by simp
    then show ?thesis using snoc by (simp add: swap_remove_def)
  qed
qed simp

lemma distinct_map_swap_remove:
  assumes "distinct (map f xs)" and i: "i < length xs"
  shows "distinct (map f (swap_remove xs i))" and "f (xs ! i) \<notin> f ` set (swap_remove xs i)"
proof -
  have "mset (xs ! i # swap_remove xs i) = mset xs" using mset_swap_remove [OF i] by simp
  then have "mset (map f (xs ! i # swap_remove xs i)) = mset (map f xs)" by (metis mset_map)
  then have "distinct (map f (xs ! i # swap_remove xs i))" using assms(1) mset_eq_imp_distinct_iff by blast
  then show "distinct (map f (swap_remove xs i))" "f (xs ! i) \<notin> f ` set (swap_remove xs i)" by auto
qed

lemma set_swap_remove_insert: "i < length xs \<Longrightarrow> insert (xs ! i) (set (swap_remove xs i)) = set xs"
  by (metis mset_swap_remove set_mset_add_mset_insert set_mset_mset)

lemma distinct_map_update:
  "distinct (map f xs) \<Longrightarrow> f y = f (xs ! i) \<Longrightarrow> distinct (map f (xs[i := y]))"
  by (metis list_update_beyond list_update_id map_update not_le_imp_less nth_map map_eq_conv)

end
