(* ===== verification/Table.thy ===== *)
theory Table
  imports Base
begin

text \<open>
  The bounded tables of the stack (pending fragments, ARP entries, cached DNS answers): a vector of
  entries with distinct keys, found by a linear search, that makes room for a new entry by removing
  the one that matters least. The locale \<open>keyed_table\<close> is the interface: what making room promises,
  and what follows for a table kept through it.
\<close>

section \<open>Tables\<close>

definition table :: "('e \<Rightarrow> 'k) \<Rightarrow> nat \<Rightarrow> 'e list \<Rightarrow> bool" where
  "table key cap xs \<longleftrightarrow> length xs \<le> cap \<and> distinct (map key xs)"

definition table_find :: "('e \<Rightarrow> 'k) \<Rightarrow> 'e list \<Rightarrow> 'k \<Rightarrow> 'e option" where
  "table_find key xs k = find (\<lambda>e. key e = k) xs"

text \<open>Removing the entry of the least rank, the first of several.\<close>

definition evict_least :: "('e \<Rightarrow> nat) \<Rightarrow> 'e list \<Rightarrow> 'e list option" where
  "evict_least rank xs = map_option (swap_remove xs) (min_index_by rank xs)"

lemma evict_least_Some:
  assumes "xs \<noteq> []"
  shows "\<exists>i. evict_least rank xs = Some (swap_remove xs i) \<and> i < length xs \<and> (\<forall>y \<in> set xs. rank (xs ! i) \<le> rank y)"
proof -
  obtain i where i: "min_index_by rank xs = Some i"
    using assms min_index_by_None [of rank xs] by (cases "min_index_by rank xs") auto
  show ?thesis
    using i min_index_by_lt [OF i] min_index_by_least [OF i] by (auto simp: evict_least_def)
qed

lemma mset_swap_remove_le: "i < length xs \<Longrightarrow> mset (swap_remove xs i) \<subseteq># mset xs"
  by (metis mset_swap_remove mset_subset_eq_add_mset_cancel add_mset_add_single mset_subset_eq_add_left)

lemma table_find_Some:
  assumes "distinct (map key xs)"
  shows "table_find key xs k = Some e \<longleftrightarrow> e \<in> set xs \<and> key e = k"
  using assms
proof (induction xs)
  case (Cons x xs)
  then show ?case by (auto simp: table_find_def)
qed (simp add: table_find_def)

lemma table_find_None: "table_find key xs k = None \<longleftrightarrow> k \<notin> key ` set xs"
  by (induction xs) (auto simp: table_find_def)

lemma table_find_position:
  "table_find key xs k = map_option ((!) xs) (position (\<lambda>e. key e = k) xs)"
proof (induction xs)
  case (Cons x xs)
  then show ?case by (cases "position (\<lambda>e. key e = k) xs") (auto simp: table_find_def)
qed (simp add: table_find_def)

lemma table_submset:
  assumes "table key cap xs" and "mset ys \<subseteq># mset xs"
  shows "table key cap ys"
proof -
  obtain zs where "mset xs = mset (ys @ zs)"
    using assms(2) by (metis ex_mset mset_append mset_subset_eq_exists_conv)
  then have m: "mset (map key xs) = mset (map key (ys @ zs))" "length xs = length (ys @ zs)"
    by (metis mset_map, metis mset_eq_length)
  then have "distinct (map key (ys @ zs))"
    using assms(1) mset_eq_imp_distinct_iff [OF m(1)] by (simp add: table_def)
  then show ?thesis using m(2) assms(1) by (simp add: table_def)
qed

lemma table_filter: "table key cap xs \<Longrightarrow> table key cap (filter P xs)"
  by (rule table_submset) (auto simp: multiset_filter_subset)

lemma table_update:
  assumes "table key cap xs" and "key e = key (xs ! i)"
  shows "table key cap (xs[i := e])"
  using assms distinct_map_update [of key xs e i] by (simp add: table_def)

lemma table_find_update:
  assumes t: "table key cap xs" and i: "i < length xs" and e: "key e = key (xs ! i)"
  shows "table_find key (xs[i := e]) k = (if k = key e then Some e else table_find key xs k)"
proof -
  note t' = table_update [OF t e]
  have d: "distinct (map key xs)" "distinct (map key (xs[i := e]))" using t t' by (simp_all add: table_def)
  have mem: "x \<in> set (xs[i := e]) \<longleftrightarrow> x = e \<or> x \<in> set xs \<and> key x \<noteq> key e" for x
  proof
    assume "x \<in> set (xs[i := e])"
    then obtain j where j: "j < length xs" "x = xs[i := e] ! j" by (auto simp: in_set_conv_nth)
    show "x = e \<or> x \<in> set xs \<and> key x \<noteq> key e"
    proof (cases "j = i")
      case False
      then have "key (xs ! j) \<noteq> key (xs ! i)" using d(1) i j(1) by (simp add: distinct_conv_nth)
      then show ?thesis using False j e by simp
    qed (use i j in simp)
  next
    assume "x = e \<or> x \<in> set xs \<and> key x \<noteq> key e"
    then show "x \<in> set (xs[i := e])"
    proof
      assume "x \<in> set xs \<and> key x \<noteq> key e"
      then obtain j where "j < length xs" "x = xs ! j" "j \<noteq> i" using e by (auto simp: in_set_conv_nth)
      then show ?thesis by (metis length_list_update nth_list_update_neq nth_mem)
    qed (use i in \<open>simp add: set_update_memI\<close>)
  qed
  show ?thesis
  proof (cases "table_find key (xs[i := e]) k")
    case None
    then have "k \<noteq> key e" "k \<notin> key ` set xs" unfolding table_find_None using mem by auto
    then show ?thesis using None table_find_None [of key xs k] by simp
  next
    case (Some x)
    then have "x \<in> set (xs[i := e])" "key x = k" using table_find_Some [OF d(2)] by auto
    then show ?thesis using Some mem table_find_Some [OF d(1), of k x] by auto
  qed
qed

section \<open>The interface\<close>

locale keyed_table =
  fixes key :: "'e \<Rightarrow> 'k"
    and cap :: nat
    and room :: "'e list \<Rightarrow> 'e list option"
  assumes room_enough: "length xs < cap \<Longrightarrow> room xs = Some xs"
    and room_made: "length xs = cap \<Longrightarrow> \<exists>ys. room xs = Some ys \<and> length ys < cap \<and> mset ys \<subseteq># mset xs"
begin

lemma room_spec:
  assumes "table key cap xs"
  shows "\<exists>ys. room xs = Some ys \<and> length ys < cap \<and> table key cap ys \<and> set ys \<subseteq> set xs"
proof (cases "length xs < cap")
  case True
  then show ?thesis using room_enough assms by blast
next
  case False
  then have "length xs = cap" using assms by (simp add: table_def)
  then obtain ys where "room xs = Some ys" "length ys < cap" "mset ys \<subseteq># mset xs" using room_made by blast
  then show ?thesis using table_submset [OF assms] set_mset_mono by fastforce
qed

lemma push_table:
  assumes "table key cap xs" and "room xs = Some ys" and "key e \<notin> key ` set xs"
  shows "table key cap (ys @ [e])"
  using room_spec [OF assms(1)] assms(2,3) by (auto simp: table_def)

lemma push_find:
  assumes "table key cap xs" and "room xs = Some ys" and "key e \<notin> key ` set xs"
  shows "table_find key (ys @ [e]) (key e) = Some e"
    and "table_find key (ys @ [e]) k = Some x \<Longrightarrow> k = key e \<and> x = e \<or> table_find key xs k = Some x"
proof -
  have d: "distinct (map key (ys @ [e]))" "distinct (map key xs)"
    using push_table [OF assms] assms(1) by (simp_all add: table_def)
  show "table_find key (ys @ [e]) (key e) = Some e" using table_find_Some [OF d(1)] by simp
  show "table_find key (ys @ [e]) k = Some x \<Longrightarrow> k = key e \<and> x = e \<or> table_find key xs k = Some x"
    using table_find_Some [OF d(1)] table_find_Some [OF d(2)] room_spec [OF assms(1)] assms(2) by auto
qed

end

text \<open>Removing the least entry when the table is full is such a way to make room.\<close>

lemma keyed_table_evict_least:
  assumes "0 < cap"
  shows "keyed_table cap (\<lambda>xs. if length xs < cap then Some xs else evict_least rank xs)"
proof
  fix xs :: "'a list"
  assume "length xs = cap"
  then have "xs \<noteq> []" using assms by auto
  from evict_least_Some [OF this, of rank] obtain i
    where "evict_least rank xs = Some (swap_remove xs i)" "i < length xs" by blast
  then show "\<exists>ys. (if length xs < cap then Some xs else evict_least rank xs) = Some ys \<and> length ys < cap \<and> mset ys \<subseteq># mset xs"
    using \<open>length xs = cap\<close> assms mset_swap_remove_le [of i xs] by auto
qed simp

end
