(* ===== verification/Bytes.thy ===== *)
theory Bytes
  imports Base
begin

text \<open>
  Big-endian integers in byte slices, as the Rust standard library's \<open>from_be_bytes\<close> and
  \<open>to_be_bytes\<close> give them and as \<open>libs/devkit_net/src/wire.rs\<close> reads and writes them
  (\<open>be16\<close>, \<open>put16\<close>, \<open>ipv4_at\<close>, \<open>mac_at\<close>): the reads and writes panic out of range.
\<close>

section \<open>Definitions\<close>

definition u16_be :: "u8 \<Rightarrow> u8 \<Rightarrow> u16" where
  "u16_be a b = push_bit 8 (ucast a) OR ucast b"

definition u32_be :: "u8 \<Rightarrow> u8 \<Rightarrow> u8 \<Rightarrow> u8 \<Rightarrow> u32" where
  "u32_be a b c d = push_bit 24 (ucast a) OR push_bit 16 (ucast b) OR push_bit 8 (ucast c) OR ucast d"

definition u16_bytes :: "u16 \<Rightarrow> u8 list" where
  "u16_bytes v = [ucast (drop_bit 8 v), ucast v]"

definition u32_bytes :: "u32 \<Rightarrow> u8 list" where
  "u32_bytes v = [ucast (drop_bit 24 v), ucast (drop_bit 16 v), ucast (drop_bit 8 v), ucast v]"

definition byte_at :: "u8 list \<Rightarrow> nat \<Rightarrow> u8 option" where
  "byte_at b i = (if i < length b then Some (b ! i) else None)"

definition be16 :: "u8 list \<Rightarrow> nat \<Rightarrow> u16 option" where
  "be16 b i = do { x \<leftarrow> byte_at b i; y \<leftarrow> byte_at b (i + 1); Some (u16_be x y) }"

definition be32 :: "u8 list \<Rightarrow> nat \<Rightarrow> u32 option" where
  "be32 b i = do {
     w \<leftarrow> byte_at b i; x \<leftarrow> byte_at b (i + 1); y \<leftarrow> byte_at b (i + 2); z \<leftarrow> byte_at b (i + 3);
     Some (u32_be w x y z) }"

definition put16 :: "u8 list \<Rightarrow> nat \<Rightarrow> u16 \<Rightarrow> u8 list option" where
  "put16 b i v = copy_at b i (u16_bytes v)"

definition put8 :: "u8 list \<Rightarrow> nat \<Rightarrow> u8 \<Rightarrow> u8 list option" where
  "put8 b i v = copy_at b i [v]"

section \<open>Lemmas\<close>

lemma bit_u8_beyond: "8 \<le> n \<Longrightarrow> \<not> bit (b :: u8) n"
  using bit_imp_le_length [of b n] by auto

lemma unat_u16_be: "unat (u16_be a b) = 256 * unat a + unat b"
proof -
  have "push_bit 8 (ucast a) AND ucast b = (0 :: u16)"
    by (rule bit_word_eqI) (auto simp: bit_simps bit_u8_beyond)
  then have "u16_be a b = push_bit 8 (ucast a) + ucast b"
    by (simp add: u16_be_def disjunctive_add_eq_or)
  also have "\<dots> = word_of_nat (256 * unat a + unat b)"
    by (simp add: push_bit_eq_mult)
  finally have "u16_be a b = word_of_nat (256 * unat a + unat b)" .
  moreover have "256 * unat a + unat b < 2 ^ 16"
    using unat_u8 [of a] unat_u8 [of b] by simp
  ultimately show ?thesis by (simp only: unat_of_nat) simp
qed

lemma length_u16_bytes [simp]: "length (u16_bytes v) = 2"
  by (simp add: u16_bytes_def)

lemma length_u32_bytes [simp]: "length (u32_bytes v) = 4"
  by (simp add: u32_bytes_def)

lemma u16_be_bytes [simp]: "u16_be (ucast (drop_bit 8 v)) (ucast v) = v"
  by (rule bit_word_eqI) (auto simp: u16_be_def bit_simps)

lemma u32_be_bytes [simp]:
  "u32_be (ucast (drop_bit 24 v)) (ucast (drop_bit 16 v)) (ucast (drop_bit 8 v)) (ucast v) = v"
proof (rule bit_word_eqI)
  fix n assume n: "n < LENGTH(32)"
  consider "n < 8" | "8 \<le> n" "n < 16" | "16 \<le> n" "n < 24" | "24 \<le> n" by linarith
  then show "bit (u32_be (ucast (drop_bit 24 v)) (ucast (drop_bit 16 v)) (ucast (drop_bit 8 v)) (ucast v)) n = bit v n"
    using n by cases (auto simp: u32_be_def bit_simps less_diff_conv2)
qed

lemma u16_bytes_be: "u16_bytes (u16_be a b) = [a, b]"
  by (auto simp: u16_bytes_def u16_be_def bit_simps bit_u8_beyond intro!: bit_word_eqI)

lemma byte_at_Some [simp]: "i < length b \<Longrightarrow> byte_at b i = Some (b ! i)"
  by (simp add: byte_at_def)

lemma be16_Some: "i + 1 < length b \<Longrightarrow> be16 b i = Some (u16_be (b ! i) (b ! (i + 1)))"
  by (simp add: be16_def)

lemma be32_Some:
  "i + 3 < length b \<Longrightarrow> be32 b i = Some (u32_be (b ! i) (b ! (i + 1)) (b ! (i + 2)) (b ! (i + 3)))"
  by (simp add: be32_def)

end
