(* ===== verification/Checksum.thy ===== *)
theory Checksum
  imports Bytes
begin

text \<open>
  The Internet checksum of \<open>libs/devkit_net/src/wire.rs\<close> (\<open>fold\<close>, \<open>fold16\<close>, \<open>sum\<close>,
  \<open>checksum\<close>). The code adds the bulk of the data as aligned native 32-bit words, in chunks
  small enough not to overflow, and the ends byte by byte. Where \<open>align_to\<close> cuts the slice and
  the byte order of the target are parameters of the model (\<open>platform\<close>).

  The reference is the sum of the big-endian 16-bit words of the data, \<open>byte_sum True\<close>; the main
  result is that \<open>checksum (sum data acc)\<close> is the complement of its ones' complement
  normal form, whatever the alignment and the byte order.
\<close>

section \<open>Definitions\<close>

record platform =
  little_endian :: bool
  align_to :: "u8 list \<Rightarrow> nat \<times> nat"  \<comment> \<open>bytes before the first aligned word, aligned words\<close>

text \<open>What the standard library promises of \<open>align_to\<close>: the parts are within the slice.\<close>

definition align_ok :: "platform \<Rightarrow> bool" where
  "align_ok pl \<longleftrightarrow> (\<forall>d. fst (align_to pl d) + 4 * snd (align_to pl d) \<le> length d)"

lemma ones_fold_less:
  assumes k: "0 < k" and a: "2 ^ k \<le> (a :: nat)"
  shows "a mod 2 ^ k + a div 2 ^ k < a"
proof -
  have "1 < (2 :: nat) ^ k" using k by (rule one_less_power [rotated]) simp
  moreover have "0 < a div 2 ^ k" using a by (simp add: div_greater_zero_iff)
  ultimately have "a div 2 ^ k < 2 ^ k * (a div 2 ^ k)" by simp
  then show ?thesis by (metis add_less_cancel_left mod_mult_div_eq)
qed

lemma unat_low_high:
  fixes acc :: "'a::len word"
  shows "unat (acc AND mask k) = unat acc mod 2 ^ k" and "unat (drop_bit k acc) = unat acc div 2 ^ k"
proof -
  show "unat (acc AND mask k) = unat acc mod 2 ^ k"
    by (simp only: take_bit_eq_mask [symmetric] unsigned_take_bit_eq) (simp add: take_bit_eq_mod)
  show "unat (drop_bit k acc) = unat acc div 2 ^ k"
    by (simp only: unat_drop_bit_eq) (simp add: drop_bit_eq_div)
qed

text \<open>One round of a fold does not wrap.\<close>

lemma unat_fold_step:
  fixes acc :: "'a::len word"
  assumes "0 < k"
  shows "unat ((acc AND mask k) + drop_bit k acc) = unat acc mod 2 ^ k + unat acc div 2 ^ k"
proof -
  have "unat acc mod 2 ^ k + unat acc div 2 ^ k \<le> unat acc"
    using ones_fold_less [OF assms, of "unat acc"] by (cases "2 ^ k \<le> unat acc") (simp_all add: less_imp_le)
  then have "unat (acc AND mask k) + unat (drop_bit k acc) < 2 ^ LENGTH('a)"
    unfolding unat_low_high using unsigned_less [of acc] by (meson le_less_trans)
  then show ?thesis by (simp add: unat_word_ariths unat_low_high)
qed

lemma mask_32: "(0xffffffff :: 'a::len word) = mask 32"
  by (simp add: mask_eq_exp_minus_1)

lemma mask_16: "(0xffff :: 'a::len word) = mask 16"
  by (simp add: mask_eq_exp_minus_1)

function fold32 :: "u64 \<Rightarrow> u32" where
  "fold32 acc =
     (if 0xffffffff < acc then fold32 ((acc AND 0xffffffff) + drop_bit 32 acc) else ucast acc)"
  by pat_completeness auto
termination
proof (relation "measure unat")
  fix acc :: u64 assume "0xffffffff < acc"
  then have "2 ^ 32 \<le> unat acc" by (simp add: word_less_nat_alt)
  then show "((acc AND 0xffffffff) + drop_bit 32 acc, acc) \<in> measure unat"
    unfolding mask_32 in_measure unat_fold_step [of 32 acc, simplified]
    using ones_fold_less [of 32 "unat acc"] by simp
qed simp

function fold16 :: "u32 \<Rightarrow> u16" where
  "fold16 acc = (if 0xffff < acc then fold16 ((acc AND 0xffff) + drop_bit 16 acc) else ucast acc)"
  by pat_completeness auto
termination
proof (relation "measure unat")
  fix acc :: u32 assume "0xffff < acc"
  then have "2 ^ 16 \<le> unat acc" by (simp add: word_less_nat_alt)
  then show "((acc AND 0xffff) + drop_bit 16 acc, acc) \<in> measure unat"
    unfolding mask_16 in_measure unat_fold_step [of 16 acc, simplified]
    using ones_fold_less [of 16 "unat acc"] by simp
qed simp

declare fold32.simps [simp del] fold16.simps [simp del]

definition native_word :: "bool \<Rightarrow> u8 \<Rightarrow> u8 \<Rightarrow> u8 \<Rightarrow> u8 \<Rightarrow> u32" where
  "native_word le a b c d = (if le then u32_be d c b a else u32_be a b c d)"

fun words_of :: "bool \<Rightarrow> u8 list \<Rightarrow> u32 list" where
  "words_of le (a # b # c # d # rest) = native_word le a b c d # words_of le rest"
| "words_of le _ = []"

fun sum_chunk :: "u32 \<Rightarrow> u32 list \<Rightarrow> u32" where
  "sum_chunk part [] = part"
| "sum_chunk part (w # ws) = sum_chunk (part + ((w AND 0xffff) + drop_bit 16 w)) ws"

function sum_chunks :: "u32 \<Rightarrow> u32 list \<Rightarrow> u32" where
  "sum_chunks native ws =
     (if ws = [] then native
      else sum_chunks (ucast (fold16 native) + ucast (fold16 (sum_chunk 0 (take 16384 ws)))) (drop 16384 ws))"
  by pat_completeness auto
termination by (relation "measure (\<lambda>(_, ws). length ws)") auto

declare sum_chunks.simps [simp del]

fun add_bytes :: "u64 \<Rightarrow> nat \<Rightarrow> u8 list \<Rightarrow> u64" where
  "add_bytes tot from [] = tot"
| "add_bytes tot from (b # bs) =
     add_bytes (tot + (if even from then push_bit 8 (ucast b) else ucast b)) (Suc from) bs"

definition swap_bytes :: "u16 \<Rightarrow> u16" where
  "swap_bytes v = u16_be (ucast v) (ucast (drop_bit 8 v))"

definition inet_sum :: "platform \<Rightarrow> u8 list \<Rightarrow> u32 \<Rightarrow> u32" where
  "inet_sum pl data acc =
     (let (h, n) = align_to pl data;
          head = take h data; words = words_of (little_endian pl) (take (4 * n) (drop h data));
          tail = drop (h + 4 * n) data;
          native = fold16 (sum_chunks 0 words);
          swapped = (if little_endian pl then swap_bytes native else native);
          bulk = (if even (length head) then swapped else swap_bytes swapped);
          tot = ucast acc + ucast bulk;
          tot = add_bytes tot 0 head;
          tot = add_bytes tot (length head + length words * 4) tail
      in fold32 tot)"

definition checksum :: "u32 \<Rightarrow> u16" where
  "checksum acc = NOT (fold16 acc)"

section \<open>The reference\<close>

fun byte_sum :: "bool \<Rightarrow> u8 list \<Rightarrow> nat" where
  "byte_sum hi [] = 0"
| "byte_sum hi (b # bs) = (if hi then 256 * unat b else unat b) + byte_sum (\<not> hi) bs"

text \<open>The ones' complement normal form: 0 only for 0.\<close>

definition ones16 :: "nat \<Rightarrow> nat" where
  "ones16 t = (if t = 0 then 0 else (t - 1) mod 65535 + 1)"

definition same16 :: "nat \<Rightarrow> nat \<Rightarrow> bool" where
  "same16 a b \<longleftrightarrow> a mod 65535 = b mod 65535 \<and> (a = 0 \<longleftrightarrow> b = 0)"

section \<open>The classes modulo 65535\<close>

named_theorems same16_intros

lemma same16_refl [same16_intros]: "same16 a a"
  by (simp add: same16_def)

lemma same16_sym: "same16 a b \<Longrightarrow> same16 b a"
  by (auto simp: same16_def)

lemma same16_trans: "same16 a b \<Longrightarrow> same16 b c \<Longrightarrow> same16 a c"
  by (auto simp: same16_def)

lemma same16_add [same16_intros]: "same16 a b \<Longrightarrow> same16 c d \<Longrightarrow> same16 (a + c) (b + d)"
  by (auto simp: same16_def intro: mod_add_cong)

lemma same16_256: "same16 a b \<Longrightarrow> same16 (256 * a) (256 * b)"
  by (auto simp: same16_def intro: mod_mult_cong)

lemma same16_65536: "same16 (65536 * a) a"
proof -
  have "65536 * a = 65535 * a + a" by simp
  then have "(65536 * a) mod 65535 = a mod 65535" by (metis mod_mult_self4)
  then show ?thesis by (simp add: same16_def)
qed

lemma same16_fold:
  assumes "k = 16 \<or> k = 32"
  shows "same16 (a mod 2 ^ k + a div 2 ^ k) a"
proof -
  have a: "a mod 2 ^ k + 2 ^ k * (a div 2 ^ k) = a" by (rule mod_mult_div_eq)
  have "same16 (2 ^ k * q) q" for q
    using assms
  proof
    assume "k = 16"
    then show ?thesis using same16_65536 [of q] by simp
  next
    assume "k = 32"
    have e: "2 ^ 32 * q = 65536 * (65536 * q)" by simp
    show ?thesis unfolding \<open>k = 32\<close> e by (rule same16_trans [OF same16_65536 same16_65536])
  qed
  then have "same16 (a mod 2 ^ k + a div 2 ^ k) (a mod 2 ^ k + 2 ^ k * (a div 2 ^ k))"
    by (rule same16_add [OF same16_refl same16_sym])
  then show ?thesis unfolding a .
qed

lemma same16_ones16: "same16 a b \<Longrightarrow> ones16 a = ones16 b"
proof -
  assume ab: "same16 a b"
  show ?thesis
  proof (cases "a = 0")
    case True
    with ab show ?thesis by (simp add: same16_def ones16_def)
  next
    case False
    then have pos: "0 < a" "0 < b" using ab by (auto simp: same16_def)
    have shift: "(t - 1) mod 65535 = (t + 65534) mod 65535" if "0 < t" for t :: nat
      using that mod_add_self2 [of "t - 1" 65535] by (simp add: add.commute)
    have "(a + 65534) mod 65535 = (b + 65534) mod 65535"
      using ab by (intro mod_add_cong) (auto simp: same16_def)
    then show ?thesis using pos shift [OF pos(1)] shift [OF pos(2)] by (simp add: ones16_def)
  qed
qed

lemma ones16_le: "ones16 t \<le> 65535"
proof -
  have "(t - 1) mod 65535 < 65535" by (rule mod_less_divisor) simp
  then have "(t - 1) mod 65535 + 1 \<le> 65535" by linarith
  then show ?thesis by (simp only: ones16_def split: if_split) simp
qed

lemma ones16_small: "t \<le> 65535 \<Longrightarrow> ones16 t = t"
  by (auto simp: ones16_def)

lemma ones16_same: "same16 (ones16 t) t"
proof (cases t)
  case 0
  then show ?thesis by (simp add: ones16_def same16_def)
next
  case (Suc n)
  then show ?thesis
    by (simp add: ones16_def same16_def mod_Suc_eq)
qed

section \<open>Each step keeps the class\<close>

lemma fold16_spec: "unat (fold16 acc) = ones16 (unat acc)"
proof -
  have "same16 (unat (fold16 acc)) (unat acc)"
  proof (induction acc rule: fold16.induct)
    case (1 acc)
    show ?case
    proof (cases "0xffff < acc")
      case True
      have "same16 (unat (fold16 acc)) (unat ((acc AND 0xffff) + drop_bit 16 acc))"
        using 1 [OF True] True by (simp add: fold16.simps [of acc])
      moreover have "same16 (unat ((acc AND 0xffff) + drop_bit 16 acc)) (unat acc)"
        unfolding mask_16 by (subst unat_fold_step) (use same16_fold [of 16 "unat acc"] in simp_all)
      ultimately show ?thesis by (rule same16_trans)
    next
      case False
      then have "unat acc < 2 ^ 16" by (simp add: word_less_nat_alt not_less)
      then have "unat (ucast acc :: u16) = unat acc"
        by (simp add: unsigned_ucast_eq take_bit_nat_eq_self)
      then show ?thesis using False by (simp add: fold16.simps [of acc] same16_refl)
    qed
  qed
  from same16_ones16 [OF this] show ?thesis
    using unat_u16 [of "fold16 acc"] by (simp add: ones16_small)
qed

lemma fold32_spec: "same16 (unat (fold32 acc)) (unat acc)"
proof (induction acc rule: fold32.induct)
  case (1 acc)
  show ?case
  proof (cases "0xffffffff < acc")
    case True
    have "same16 (unat (fold32 acc)) (unat ((acc AND 0xffffffff) + drop_bit 32 acc))"
      using 1 [OF True] True by (simp add: fold32.simps [of acc])
    moreover have "same16 (unat ((acc AND 0xffffffff) + drop_bit 32 acc)) (unat acc)"
      unfolding mask_32 by (subst unat_fold_step) (use same16_fold [of 32 "unat acc"] in simp_all)
    ultimately show ?thesis by (rule same16_trans)
  next
    case False
    then have "unat acc < 2 ^ 32" by (simp add: word_less_nat_alt not_less)
    then have "unat (ucast acc :: u32) = unat acc"
      by (simp add: unsigned_ucast_eq take_bit_nat_eq_self)
    then show ?thesis using False by (simp add: fold32.simps [of acc] same16_refl)
  qed
qed

lemma same16_swap: "same16 (unat (swap_bytes v)) (256 * unat v)"
proof -
  let ?h = "unat v div 256" and ?l = "unat v mod 256"
  have hl: "unat (ucast (drop_bit 8 v) :: u8) = ?h" "unat (ucast v :: u8) = ?l"
    using unat_u16 [of v]
    by (simp_all add: unsigned_ucast_eq unat_low_high(2) take_bit_eq_mod)
  have "unat (swap_bytes v) = 256 * ?l + ?h"
    by (simp only: swap_bytes_def unat_u16_be hl)
  moreover have "256 * unat v = 65536 * ?h + 256 * ?l"
    using div_mult_mod_eq [of "unat v" 256] by linarith
  moreover have "same16 (256 * ?l + ?h) (256 * ?l + 65536 * ?h)"
    by (rule same16_add [OF same16_refl same16_sym [OF same16_65536]])
  ultimately show ?thesis by (simp add: add.commute)
qed

lemma same16_swap_swap: "same16 (unat (swap_bytes v)) a \<Longrightarrow> same16 (unat v) (256 * a)"
proof -
  assume a: "same16 (unat (swap_bytes v)) a"
  have "same16 (256 * (256 * unat v)) (256 * a)"
    using same16_256 [OF same16_trans [OF same16_sym [OF same16_swap] a]] .
  moreover have "256 * (256 * unat v) = 65536 * unat v" by simp
  ultimately show ?thesis using same16_trans [OF same16_sym [OF same16_65536 [of "unat v"]]] by metis
qed

subsection \<open>The reference sum\<close>

lemma byte_sum_append:
  "byte_sum hi (xs @ ys) = byte_sum hi xs + byte_sum (if even (length xs) then hi else \<not> hi) ys"
  by (induction xs arbitrary: hi) auto

lemma byte_sum_swap: "same16 (byte_sum (\<not> hi) bs) (256 * byte_sum hi bs)"
proof (induction bs arbitrary: hi)
  case Nil
  then show ?case by (simp add: same16_refl)
next
  case (Cons b bs)
  have "same16 (unat b) (256 * (256 * unat b))"
    using same16_sym [OF same16_65536 [of "unat b"]] by (simp add: mult.assoc [symmetric])
  then have "same16 (if hi then unat b else 256 * unat b) (256 * (if hi then 256 * unat b else unat b))"
    by (auto intro: same16_refl)
  from same16_add [OF this Cons.IH [of "\<not> hi"]] show ?case
    by (cases hi) (simp_all add: distrib_left)
qed

lemma byte_sum_le: "byte_sum hi bs \<le> 65280 * length bs"
proof (induction bs arbitrary: hi)
  case (Cons b bs)
  have "unat b \<le> 255" using unat_u8 [of b] by simp
  moreover note Cons.IH [of "\<not> hi"]
  ultimately show ?case by (cases hi) auto
qed simp

subsection \<open>The bulk: aligned native words\<close>

text \<open>The sum of the two halves of each word, as a number.\<close>

definition halves :: "u32 list \<Rightarrow> nat" where
  "halves ws = sum_list (map (\<lambda>w. unat w mod 65536 + unat w div 65536) ws)"

lemma halves_simps [simp]: "halves [] = 0" "halves (w # ws) = unat w mod 65536 + unat w div 65536 + halves ws"
  "halves (xs @ ys) = halves xs + halves ys"
  by (simp_all add: halves_def)

lemma halves_le: "halves ws \<le> 131070 * length ws"
proof (induction ws)
  case (Cons w ws)
  have "unat w mod 65536 \<le> 65535" "unat w div 65536 \<le> 65535"
    using unat_u32 [of w] by (simp_all add: less_Suc_eq_le [symmetric] less_mult_imp_div_less)
  then show ?case using Cons by simp
qed simp

lemma unat_u32_be: "unat (u32_be a b c d) = 65536 * unat (u16_be a b) + unat (u16_be c d)"
proof -
  have "push_bit 16 (ucast (u16_be a b)) AND ucast (u16_be c d) = (0 :: u32)"
    by (rule bit_word_eqI) (auto simp: bit_simps dest: bit_imp_le_length)
  then have "push_bit 16 (ucast (u16_be a b)) OR ucast (u16_be c d) =
      (push_bit 16 (ucast (u16_be a b)) + ucast (u16_be c d) :: u32)"
    by (simp add: disjunctive_add_eq_or)
  moreover have "u32_be a b c d = push_bit 16 (ucast (u16_be a b)) OR ucast (u16_be c d)"
    by (rule bit_word_eqI) (auto simp: u32_be_def u16_be_def bit_simps bit_u8_beyond)
  ultimately have "u32_be a b c d = word_of_nat (65536 * unat (u16_be a b) + unat (u16_be c d))"
    by (simp add: push_bit_eq_mult)
  moreover have "65536 * unat (u16_be a b) + unat (u16_be c d) < 2 ^ 32"
    using unat_u16 [of "u16_be a b"] unat_u16 [of "u16_be c d"] by simp
  ultimately show ?thesis by (simp only: unat_of_nat) simp
qed

text \<open>On a little-endian target the halves are byte-swapped, so their sum is the big-endian sum
  with the roles of the bytes exchanged.\<close>

lemma halves_words_of:
  "length bs mod 4 = 0 \<Longrightarrow> halves (words_of le bs) = byte_sum (\<not> le) bs \<and> length (words_of le bs) = length bs div 4"
proof (induction le bs rule: words_of.induct)
  case (1 le a b c d rest)
  have "unat (u32_be w x y z) mod 65536 = unat (u16_be y z)"
    "unat (u32_be w x y z) div 65536 = unat (u16_be w x)" for w x y z
    using unat_u16 [of "u16_be y z"] by (simp_all add: unat_u32_be)
  then have halves2: "unat (u32_be w x y z) mod 65536 = 256 * unat y + unat z"
    "unat (u32_be w x y z) div 65536 = 256 * unat w + unat x" for w x y z
    by (simp_all only: unat_u16_be)
  from 1 show ?case by (auto simp: native_word_def halves2)
qed auto

lemma sum_chunk_spec:
  "unat part + halves ws < 4294967296 \<Longrightarrow> unat (sum_chunk part ws) = unat part + halves ws"
proof (induction part ws rule: sum_chunk.induct)
  case (2 part w ws)
  have step: "unat ((w AND 0xffff) + drop_bit 16 w) = unat w mod 65536 + unat w div 65536"
    unfolding mask_16 using unat_fold_step [of 16 w] by simp
  then have "unat (part + ((w AND 0xffff) + drop_bit 16 w)) = unat part + (unat w mod 65536 + unat w div 65536)"
    using "2.prems" by (simp add: unat_word_ariths)
  then show ?case using 2 by simp
qed simp

lemma unat_ucast16_32: "unat (ucast (v :: u16) :: u32) = unat v"
  using unat_u16 [of v] by (simp add: unsigned_ucast_eq take_bit_nat_eq_self)

lemma sum_chunks_Nil [simp]: "sum_chunks native [] = native"
  by (simp add: sum_chunks.simps [of native "[]"])

lemma sum_chunks_spec: "same16 (unat (sum_chunks native ws)) (unat native + halves ws)"
proof (induction native ws rule: sum_chunks.induct)
  case (1 native ws)
  show ?case
  proof (cases "ws = []")
    case True
    then show ?thesis by (simp add: same16_refl)
  next
    case False
    let ?part = "sum_chunk 0 (take 16384 ws)"
    let ?n = "ucast (fold16 native) + ucast (fold16 ?part) :: u32"
    have "halves (take 16384 ws) \<le> 131070 * 16384"
      using halves_le [of "take 16384 ws"] by (rule order_trans) simp
    then have part: "unat ?part = halves (take 16384 ws)"
      using sum_chunk_spec [of 0 "take 16384 ws"] by simp
    have "unat ?n = unat (fold16 native) + unat (fold16 ?part)"
      using unat_u16 [of "fold16 native"] unat_u16 [of "fold16 ?part"]
      by (simp add: unat_word_ariths unat_ucast16_32)
    then have "same16 (unat ?n) (unat native + halves (take 16384 ws))"
      unfolding fold16_spec part by (simp add: same16_add ones16_same)
    then have "same16 (unat ?n + halves (drop 16384 ws))
        (unat native + halves (take 16384 ws) + halves (drop 16384 ws))"
      by (rule same16_add [OF _ same16_refl])
    moreover have "halves (take 16384 ws) + halves (drop 16384 ws) = halves ws"
      by (metis append_take_drop_id halves_simps(3))
    ultimately show ?thesis
      using same16_trans [OF 1 [OF False]] False by (simp add: sum_chunks.simps [of native ws] add.assoc)
  qed
qed

subsection \<open>The whole sum\<close>

lemma add_bytes_spec:
  "unat tot + byte_sum (even from) bs < 18446744073709551616 \<Longrightarrow>
     unat (add_bytes tot from bs) = unat tot + byte_sum (even from) bs"
proof (induction tot "from" bs rule: add_bytes.induct)
  case (2 tot "from" b bs)
  let ?x = "(if even from then push_bit 8 (ucast b) else ucast b) :: u64"
  have ub: "unat (ucast b :: u64) = unat b"
    using unat_u8 [of b] by (simp add: unsigned_ucast_eq take_bit_nat_eq_self)
  have "unat (push_bit 8 (ucast b) :: u64) = 256 * unat b"
    using unat_u8 [of b] by (simp add: push_bit_eq_mult unat_word_ariths ub)
  then have x: "unat ?x = (if even from then 256 * unat b else unat b)" using ub by simp
  then have "unat (tot + ?x) = unat tot + (if even from then 256 * unat b else unat b)"
    using "2.prems" by (simp add: unat_word_ariths)
  moreover have "unat (tot + ?x) + byte_sum (even (Suc from)) bs < 18446744073709551616"
    using "2.prems" calculation by (cases "even from") auto
  ultimately show ?case using "2.IH" by (cases "even from") auto
qed simp

lemma inet_sum_spec:
  assumes al: "align_ok pl" and len: "length data < 4294967296"
  shows "same16 (unat (inet_sum pl data acc)) (unat acc + byte_sum True data)"
proof -
  obtain h n where hn: "align_to pl data = (h, n)" by fastforce
  have fit: "h + 4 * n \<le> length data" using al hn by (metis align_ok_def fst_conv snd_conv)
  define head mid tail where "head = take h data" and "mid = take (4 * n) (drop h data)"
    and "tail = drop (h + 4 * n) data"
  have data: "data = head @ mid @ tail"
    by (simp add: head_def mid_def tail_def flip: take_add drop_drop)
      (metis append_take_drop_id drop_drop add.commute)
  have lens: "length head = h" "length mid = 4 * n" using fit by (auto simp: head_def mid_def)
  let ?ws = "words_of (little_endian pl) mid"
  have ws: "halves ?ws = byte_sum (\<not> little_endian pl) mid" "length ?ws = n"
    using halves_words_of [of mid "little_endian pl"] lens by auto
  define native where "native = fold16 (sum_chunks 0 ?ws)"
  define swapped where "swapped = (if little_endian pl then swap_bytes native else native)"
  define bulk where "bulk = (if even (length head) then swapped else swap_bytes swapped)"
  have nat1: "same16 (unat native) (byte_sum (\<not> little_endian pl) mid)"
    unfolding native_def fold16_spec
    using same16_trans [OF ones16_same sum_chunks_spec [of 0 ?ws]] ws by simp
  have sw: "same16 (unat (swap_bytes v)) (byte_sum hi mid)" if "same16 (unat v) (byte_sum (\<not> hi) mid)" for v hi
    using same16_trans [OF same16_trans [OF same16_swap same16_256 [OF that]] same16_sym [OF byte_sum_swap [of "\<not> hi"]]]
    by simp
  have swapped: "same16 (unat swapped) (byte_sum True mid)"
    unfolding swapped_def using nat1 sw [of native True] by auto
  have bulk: "same16 (unat bulk) (byte_sum (even h) mid)"
    unfolding bulk_def lens using swapped sw [of swapped False] by auto
  have small: "unat acc < 4294967296" "unat bulk < 65536" "byte_sum True head \<le> 65280 * length head"
    "byte_sum (even h) tail \<le> 65280 * length tail"
    using unat_u32 unat_u16 byte_sum_le by auto
  have lt: "unat acc + unat bulk + byte_sum True head + byte_sum (even h) tail < 18446744073709551616"
    using small len data by simp
  let ?t0 = "ucast acc + ucast bulk :: u64"
  have t0: "unat ?t0 = unat acc + unat bulk"
    using small by (simp add: unat_word_ariths unsigned_ucast_eq take_bit_nat_eq_self)
  let ?t1 = "add_bytes ?t0 0 head"
  have t1: "unat ?t1 = unat acc + unat bulk + byte_sum True head"
    using add_bytes_spec [of ?t0 0 head] t0 lt by simp
  let ?t2 = "add_bytes ?t1 (length head + length ?ws * 4) tail"
  have t2: "unat ?t2 = unat acc + unat bulk + byte_sum True head + byte_sum (even h) tail"
    using add_bytes_spec [of ?t1 "length head + length ?ws * 4" tail] t1 lt lens ws by simp
  have "inet_sum pl data acc = fold32 ?t2"
    unfolding inet_sum_def hn Let_def prod.case head_def [symmetric] mid_def [symmetric] tail_def [symmetric]
      native_def [symmetric] swapped_def [symmetric] bulk_def [symmetric] ..
  then have "same16 (unat (inet_sum pl data acc)) (unat acc + unat bulk + byte_sum True head + byte_sum (even h) tail)"
    using fold32_spec [of ?t2] t2 by simp
  moreover have "byte_sum True data = byte_sum True head + byte_sum (even h) mid + byte_sum (even h) tail"
    unfolding data byte_sum_append using lens by simp
  moreover have "same16 (unat acc + unat bulk + byte_sum True head + byte_sum (even h) tail)
      (unat acc + byte_sum (even h) mid + byte_sum True head + byte_sum (even h) tail)"
    by (intro same16_add same16_refl bulk)
  ultimately show ?thesis by (simp add: ac_simps) (metis same16_trans)
qed

section \<open>The checksum\<close>

lemma checksum_eq: "unat (checksum acc) = 65535 - ones16 (unat acc)"
proof -
  have "unat (NOT v) = 65535 - unat v" for v :: u16
  proof -
    have "NOT v = - 1 - v" by (simp add: not_eq_complement)
    moreover have "unat (- 1 :: u16) = 65535" by (simp add: unsigned_minus_1_eq_mask mask_eq_exp_minus_1)
    ultimately show ?thesis using unat_u16 [of v] by (simp only: unat_sub_if') simp
  qed
  then show ?thesis by (simp add: checksum_def fold16_spec)
qed

lemma unat_checksum_sum:
  assumes "align_ok pl" and "length data < 4294967296"
  shows "unat (checksum (inet_sum pl data acc)) = 65535 - ones16 (unat acc + byte_sum True data)"
  using same16_ones16 [OF inet_sum_spec [OF assms]] by (simp add: checksum_eq)

lemma checksum_sum_zero:
  assumes "align_ok pl" and "length data < 4294967296"
  shows "checksum (inet_sum pl data acc) = 0 \<longleftrightarrow> ones16 (unat acc + byte_sum True data) = 65535"
proof -
  have "checksum (inet_sum pl data acc) = 0 \<longleftrightarrow> unat (checksum (inet_sum pl data acc)) = 0"
    by (simp add: unat_eq_0)
  then show ?thesis
    using unat_checksum_sum [OF assms, of acc] ones16_le [of "unat acc + byte_sum True data"] by simp
qed

lemma ones16_complement: "ones16 (t + (65535 - ones16 t)) = 65535"
proof -
  have "same16 (t + (65535 - ones16 t)) (ones16 t + (65535 - ones16 t))"
    by (rule same16_add [OF same16_sym [OF ones16_same] same16_refl])
  then have "ones16 (t + (65535 - ones16 t)) = ones16 (ones16 t + (65535 - ones16 t))"
    by (rule same16_ones16)
  also have "ones16 t + (65535 - ones16 t) = 65535" using ones16_le [of t] by simp
  finally show ?thesis by (simp add: ones16_small)
qed

text \<open>A buffer whose checksum field, at an even offset, is zero: writing the checksum into it makes
  the whole verify.\<close>

lemma byte_sum_u16_bytes: "byte_sum True (u16_bytes v) = unat v"
proof -
  have "unat (u16_be (ucast (drop_bit 8 v)) (ucast v)) =
      256 * unat (ucast (drop_bit 8 v) :: u8) + unat (ucast v :: u8)" by (rule unat_u16_be)
  then show ?thesis by (simp add: u16_bytes_def)
qed

lemma byte_sum_two_zeros [simp]: "byte_sum True [0, 0] = 0"
  by simp

lemma checksum_fills:
  assumes al: "align_ok pl" and len: "length (pre @ u16_bytes c @ post) < 4294967296" and ev: "even (length pre)"
    and c: "c = checksum (inet_sum pl (pre @ [0, 0] @ post) acc)"
  shows "checksum (inet_sum pl (pre @ u16_bytes c @ post) acc) = 0"
proof -
  have len0: "length (pre @ [0, 0] @ post :: u8 list) < 4294967296" using len by simp
  have "unat acc + byte_sum True (pre @ u16_bytes c @ post) =
      unat acc + byte_sum True (pre @ [0, 0] @ post) + unat c"
    using ev by (simp add: byte_sum_append byte_sum_u16_bytes)
  moreover have "unat c = 65535 - ones16 (unat acc + byte_sum True (pre @ [0, 0] @ post))"
    unfolding c by (rule unat_checksum_sum [OF al len0])
  ultimately have "ones16 (unat acc + byte_sum True (pre @ u16_bytes c @ post)) = 65535"
    by (simp only: ones16_complement)
  then show ?thesis using checksum_sum_zero [OF al len] by simp
qed

section \<open>Properties\<close>

text \<open>C18: The optimised checksum is the one of RFC 1071: for every alignment of the data and on either byte
  order, the sum taken over native 32-bit words in unrolled chunks gives the complement of the ones'
  complement sum of the big-endian 16-bit words.\<close>

theorem checksum_is_rfc1071:
  "align_ok pl \<Longrightarrow> length data < 2 ^ 32 \<Longrightarrow>
   unat (checksum (inet_sum pl data acc)) = 65535 - ones16 (unat acc + byte_sum True data)"
  by (rule unat_checksum_sum) simp_all

lemma checksum_is_rfc1071_witness:
  "unat (checksum (inet_sum \<lparr>little_endian = True, align_to = (\<lambda>b. (min 1 (length b), (length b - 1) div 4))\<rparr>
     [0, 1, 0xf2, 3, 0xf4, 0xf5, 0xf6, 0xf7] 0)) = 65535 - ones16 (0 + 0x2ddf0)"
  by (subst checksum_is_rfc1071) (auto simp: align_ok_def)

end
