(* ===== verification/Wire.thy ===== *)
theory Wire
  imports Checksum
begin

text \<open>
  The headers of \<open>libs/devkit_net/src/wire.rs\<close>: Ethernet, ARP and IPv4, parsed from and written
  into byte slices. A parser returns an \<open>option\<close> whose \<open>None\<close> is a panic, around the source's own
  \<open>Option\<close>; the lemmas show that no input makes a parser panic.
\<close>

section \<open>Constants and records\<close>

type_synonym mac = "u8 list"  \<comment> \<open>\<open>[u8; 6]\<close>\<close>

definition mac_ok :: "mac \<Rightarrow> bool" where
  "mac_ok m \<longleftrightarrow> length m = 6"

definition BROADCAST_MAC :: mac where
  "BROADCAST_MAC = replicate 6 0xff"

definition PROTO_ICMP :: u8 where "PROTO_ICMP = 1"
definition PROTO_TCP :: u8 where "PROTO_TCP = 6"
definition PROTO_UDP :: u8 where "PROTO_UDP = 17"

record ethernet =
  eth_dst :: mac
  eth_src :: mac
  eth_type :: u16
  eth_payload :: "u8 list"

record arp =
  arp_op :: u16
  arp_sha :: mac
  arp_spa :: ipv4addr
  arp_tha :: mac
  arp_tpa :: ipv4addr

record ipv4 =
  ip_src :: ipv4addr
  ip_dst :: ipv4addr
  ip_protocol :: u8
  ip_ttl :: u8
  ip_ident :: u16
  ip_frag :: u16  \<comment> \<open>flags and fragment offset as on the wire\<close>

section \<open>Reads of the wire\<close>

definition ipv4_at :: "u8 list \<Rightarrow> nat \<Rightarrow> ipv4addr option" where
  "ipv4_at b i = be32 b i"

definition mac_at :: "u8 list \<Rightarrow> nat \<Rightarrow> mac option" where
  "mac_at b i = slice b i (i + 6)"

section \<open>Ethernet\<close>

definition ethernet_parse :: "u8 list \<Rightarrow> ethernet option option" where
  "ethernet_parse frame =
     (if length frame < 14 then Some None
      else do {
        dst \<leftarrow> mac_at frame 0;
        src \<leftarrow> mac_at frame 6;
        ty \<leftarrow> be16 frame 12;
        payload \<leftarrow> slice frame 14 (length frame);
        Some (Some \<lparr>eth_dst = dst, eth_src = src, eth_type = ty, eth_payload = payload\<rparr>)
      })"

definition ethernet_write_header :: "u8 list \<Rightarrow> mac \<Rightarrow> mac \<Rightarrow> u16 \<Rightarrow> u8 list option" where
  "ethernet_write_header buf dst src ty = do {
     buf \<leftarrow> copy_at buf 0 dst;
     buf \<leftarrow> copy_at buf 6 src;
     put16 buf 12 ty
   }"

section \<open>ARP\<close>

definition arp_parse :: "u8 list \<Rightarrow> arp option option" where
  "arp_parse p =
     (if length p < 28 then Some None
      else do {
        hw \<leftarrow> be16 p 0;
        proto \<leftarrow> be16 p 2;
        hlen \<leftarrow> byte_at p 4;
        plen \<leftarrow> byte_at p 5;
        if hw \<noteq> 1 \<or> proto \<noteq> 0x0800 \<or> hlen \<noteq> 6 \<or> plen \<noteq> 4 then Some None
        else do {
          op \<leftarrow> be16 p 6;
          sha \<leftarrow> mac_at p 8;
          spa \<leftarrow> ipv4_at p 14;
          tha \<leftarrow> mac_at p 18;
          tpa \<leftarrow> ipv4_at p 24;
          Some (Some \<lparr>arp_op = op, arp_sha = sha, arp_spa = spa, arp_tha = tha, arp_tpa = tpa\<rparr>)
        }
      })"

definition arp_write :: "arp \<Rightarrow> u8 list \<Rightarrow> u8 list option" where
  "arp_write a p = do {
     p \<leftarrow> put16 p 0 1;
     p \<leftarrow> put16 p 2 0x0800;
     p \<leftarrow> put8 p 4 6;
     p \<leftarrow> put8 p 5 4;
     p \<leftarrow> put16 p 6 (arp_op a);
     p \<leftarrow> copy_at p 8 (arp_sha a);
     p \<leftarrow> copy_at p 14 (u32_bytes (arp_spa a));
     p \<leftarrow> copy_at p 18 (arp_tha a);
     copy_at p 24 (u32_bytes (arp_tpa a))
   }"

section \<open>IPv4\<close>

definition ipv4_parse :: "platform \<Rightarrow> u8 list \<Rightarrow> (ipv4 \<times> u8 list) option option" where
  "ipv4_parse pl p =
     (if length p < 20 then Some None
      else do {
        b0 \<leftarrow> byte_at p 0;
        if drop_bit 4 b0 \<noteq> 4 then Some None
        else do {
          let header = unat (b0 AND 0x0f) * 4;
          tot \<leftarrow> be16 p 2;
          let tot = unat tot;
          if header < 20 \<or> tot < header \<or> length p < tot then Some None
          else do {
            h \<leftarrow> slice p 0 header;
            if checksum (inet_sum pl h 0) \<noteq> 0 then Some None
            else do {
              src \<leftarrow> ipv4_at p 12;
              dst \<leftarrow> ipv4_at p 16;
              proto \<leftarrow> byte_at p 9;
              ttl \<leftarrow> byte_at p 8;
              ident \<leftarrow> be16 p 4;
              frag \<leftarrow> be16 p 6;
              payload \<leftarrow> slice p header tot;
              Some (Some (\<lparr>ip_src = src, ip_dst = dst, ip_protocol = proto, ip_ttl = ttl,
                          ip_ident = ident, ip_frag = frag AND 0x3fff\<rparr>, payload))
            }
          }
        }
      })"

text \<open>\<open>p.get(header..)\<close> is \<open>None\<close> past the end.\<close>

definition ipv4_parse_quoted :: "u8 list \<Rightarrow> (ipv4 \<times> u8 list) option option" where
  "ipv4_parse_quoted p =
     (if length p < 20 then Some None
      else do {
        b0 \<leftarrow> byte_at p 0;
        if drop_bit 4 b0 \<noteq> 4 then Some None
        else do {
          let header = unat (b0 AND 0x0f) * 4;
          src \<leftarrow> ipv4_at p 12;
          dst \<leftarrow> ipv4_at p 16;
          proto \<leftarrow> byte_at p 9;
          ttl \<leftarrow> byte_at p 8;
          ident \<leftarrow> be16 p 4;
          Some (map_option (\<lambda>rest. (\<lparr>ip_src = src, ip_dst = dst, ip_protocol = proto, ip_ttl = ttl,
                          ip_ident = ident, ip_frag = 0\<rparr>, rest)) (slice p header (length p)))
        }
      })"

definition is_fragment :: "ipv4 \<Rightarrow> bool" where
  "is_fragment ip \<longleftrightarrow> ip_frag ip AND 0x3fff \<noteq> 0"

definition more_fragments :: "ipv4 \<Rightarrow> bool" where
  "more_fragments ip \<longleftrightarrow> ip_frag ip AND 0x2000 \<noteq> 0"

definition fragment_offset :: "ipv4 \<Rightarrow> nat" where
  "fragment_offset ip = unat (ip_frag ip AND 0x1fff) * 8"

definition ipv4_write_header :: "platform \<Rightarrow> ipv4 \<Rightarrow> u8 list \<Rightarrow> nat \<Rightarrow> u8 list option" where
  "ipv4_write_header pl ip p payload_len = do {
     p \<leftarrow> put8 p 0 0x45;
     p \<leftarrow> put8 p 1 0;
     p \<leftarrow> put16 p 2 (word_of_nat (20 + payload_len));
     p \<leftarrow> put16 p 4 (ip_ident ip);
     p \<leftarrow> put16 p 6 (ip_frag ip);
     p \<leftarrow> put8 p 8 (ip_ttl ip);
     p \<leftarrow> put8 p 9 (ip_protocol ip);
     p \<leftarrow> put16 p 10 0;
     p \<leftarrow> copy_at p 12 (u32_bytes (ip_src ip));
     p \<leftarrow> copy_at p 16 (u32_bytes (ip_dst ip));
     h \<leftarrow> slice p 0 20;
     put16 p 10 (checksum (inet_sum pl h 0))
   }"

section \<open>No input panics a parser\<close>

named_theorems wire_reads

lemma mac_at_Some [wire_reads]: "i + 6 \<le> length b \<Longrightarrow> mac_at b i = Some (take 6 (drop i b))"
  by (simp add: mac_at_def slice_def)

lemma ipv4_at_Some [wire_reads]:
  "i + 3 < length b \<Longrightarrow> ipv4_at b i = Some (u32_be (b ! i) (b ! (i + 1)) (b ! (i + 2)) (b ! (i + 3)))"
  by (simp add: ipv4_at_def be32_Some)

lemma be16_reads [wire_reads]: "i + 1 < length b \<Longrightarrow> be16 b i = Some (u16_be (b ! i) (b ! (i + 1)))"
  by (rule be16_Some)

lemma byte_at_head [wire_reads]: "\<not> length p < 20 \<Longrightarrow> byte_at p 0 = Some (p ! 0)"
  by (rule byte_at_Some) linarith

lemma ethernet_parse_total: "\<exists>r. ethernet_parse frame = Some r"
  by (simp add: ethernet_parse_def wire_reads slice_def)

lemma arp_parse_total: "\<exists>r. arp_parse p = Some r"
  by (simp add: arp_parse_def wire_reads)

lemma ipv4_parse_total: "\<exists>r. ipv4_parse pl p = Some r"
  by (simp add: ipv4_parse_def wire_reads slice_def Let_def)

lemma ipv4_parse_quoted_total: "\<exists>r. ipv4_parse_quoted p = Some r"
  by (simp add: ipv4_parse_quoted_def wire_reads Let_def)

text \<open>What is accepted: the payload is what the total length covers past the header.\<close>

lemma ipv4_parse_payload:
  assumes "ipv4_parse pl p = Some (Some (ip, payload))"
  shows "\<exists>header tot. 20 \<le> header \<and> header \<le> tot \<and> tot \<le> length p \<and> tot < 65536 \<and> header = unat ((p ! 0) AND 0x0f) * 4 \<and>
           tot = unat (u16_be (p ! 2) (p ! 3)) \<and> payload = take (tot - header) (drop header p) \<and>
           checksum (inet_sum pl (take header p) 0) = 0 \<and> ip_frag ip AND 0x3fff = ip_frag ip"
  using assms unat_u16
  by (auto simp: ipv4_parse_def wire_reads Let_def slice_def and.assoc split: if_splits)

section \<open>What the writers write\<close>

lemma mac_cases:
  assumes "mac_ok m"
  obtains a b c d e f where "m = [a, b, c, d, e, f]"
proof -
  from assms have "length m = Suc (Suc (Suc (Suc (Suc (Suc 0)))))" by (simp add: mac_ok_def)
  then show thesis using that by (auto simp: length_Suc_conv)
qed

lemma copy_at_grows:
  "i + length src \<le> length xs \<Longrightarrow> copy_at xs i src = Some (take i xs @ src @ drop (i + length src) xs)"
  by (simp add: copy_at_def)

definition arp_bytes :: "arp \<Rightarrow> u8 list" where
  "arp_bytes a = [0, 1, 8, 0, 6, 4] @ u16_bytes (arp_op a) @ arp_sha a @ u32_bytes (arp_spa a) @
                 arp_tha a @ u32_bytes (arp_tpa a)"

definition ipv4_bytes :: "ipv4 \<Rightarrow> nat \<Rightarrow> u16 \<Rightarrow> u8 list" where
  "ipv4_bytes ip payload_len c =
     [0x45, 0] @ u16_bytes (word_of_nat (20 + payload_len)) @ u16_bytes (ip_ident ip) @ u16_bytes (ip_frag ip) @
     [ip_ttl ip, ip_protocol ip] @ u16_bytes c @ u32_bytes (ip_src ip) @ u32_bytes (ip_dst ip)"

lemma length_ipv4_bytes [simp]: "length (ipv4_bytes ip n c) = 20"
  by (simp add: ipv4_bytes_def)

lemma arp_write_spec:
  assumes "mac_ok (arp_sha a)" and "mac_ok (arp_tha a)" and len: "28 \<le> length p"
  shows "arp_write a p = Some (arp_bytes a @ drop 28 p)"
proof -
  obtain s0 s1 s2 s3 s4 s5 where sha: "arp_sha a = [s0, s1, s2, s3, s4, s5]" using assms(1) by (rule mac_cases)
  obtain t0 t1 t2 t3 t4 t5 where tha: "arp_tha a = [t0, t1, t2, t3, t4, t5]" using assms(2) by (rule mac_cases)
  show ?thesis using len
    by (simp add: arp_write_def put16_def put8_def copy_at_grows u16_bytes_def u32_bytes_def sha tha arp_bytes_def)
qed

lemma ipv4_write_header_spec:
  assumes len: "20 \<le> length p"
  shows "ipv4_write_header pl ip p n =
           Some (ipv4_bytes ip n (checksum (inet_sum pl (ipv4_bytes ip n 0) 0)) @ drop 20 p)"
  using len
  by (simp add: ipv4_write_header_def put16_def put8_def copy_at_grows u16_bytes_def u32_bytes_def
      ipv4_bytes_def slice_def)

lemma ethernet_write_header_spec:
  assumes "mac_ok dst" and "mac_ok src" and len: "14 \<le> length buf"
  shows "ethernet_write_header buf dst src ty = Some (dst @ src @ u16_bytes ty @ drop 14 buf)"
proof -
  obtain d0 d1 d2 d3 d4 d5 where d: "dst = [d0, d1, d2, d3, d4, d5]" using assms(1) by (rule mac_cases)
  obtain s0 s1 s2 s3 s4 s5 where s: "src = [s0, s1, s2, s3, s4, s5]" using assms(2) by (rule mac_cases)
  show ?thesis using len
    by (simp add: ethernet_write_header_def put16_def copy_at_grows u16_bytes_def d s)
qed

section \<open>Round trips\<close>

lemma arp_roundtrip_bytes:
  assumes "mac_ok (arp_sha a)" and "mac_ok (arp_tha a)"
  shows "arp_parse (arp_bytes a @ rest) = Some (Some a)"
proof -
  obtain s0 s1 s2 s3 s4 s5 where sha: "arp_sha a = [s0, s1, s2, s3, s4, s5]" using assms(1) by (rule mac_cases)
  obtain t0 t1 t2 t3 t4 t5 where tha: "arp_tha a = [t0, t1, t2, t3, t4, t5]" using assms(2) by (rule mac_cases)
  have "u16_be 0 1 = 1" "u16_be 8 0 = 0x0800" by (simp_all add: u16_be_def)
  then show ?thesis
    by (simp add: arp_parse_def wire_reads arp_bytes_def u16_bytes_def u32_bytes_def sha tha)
qed

lemma ethernet_roundtrip_bytes:
  assumes "mac_ok dst" and "mac_ok src"
  shows "ethernet_parse (dst @ src @ u16_bytes ty @ payload) =
           Some (Some \<lparr>eth_dst = dst, eth_src = src, eth_type = ty, eth_payload = payload\<rparr>)"
proof -
  obtain d0 d1 d2 d3 d4 d5 where d: "dst = [d0, d1, d2, d3, d4, d5]" using assms(1) by (rule mac_cases)
  obtain s0 s1 s2 s3 s4 s5 where s: "src = [s0, s1, s2, s3, s4, s5]" using assms(2) by (rule mac_cases)
  show ?thesis
    by (simp add: ethernet_parse_def wire_reads u16_bytes_def d s slice_def)
qed

text \<open>A written header verifies: the checksum field completes the sum.\<close>

lemma ipv4_bytes_checksum:
  assumes "align_ok pl"
  shows "checksum (inet_sum pl (ipv4_bytes ip n (checksum (inet_sum pl (ipv4_bytes ip n 0) 0))) 0) = 0"
proof -
  let ?pre = "[0x45, 0] @ u16_bytes (word_of_nat (20 + n)) @ u16_bytes (ip_ident ip) @ u16_bytes (ip_frag ip) @
     [ip_ttl ip, ip_protocol ip]"
  let ?post = "u32_bytes (ip_src ip) @ u32_bytes (ip_dst ip)"
  have split: "ipv4_bytes ip n c = ?pre @ u16_bytes c @ ?post" for c
    by (simp add: ipv4_bytes_def)
  have z: "u16_bytes 0 = [0, 0]" by (simp add: u16_bytes_def)
  show ?thesis
    unfolding split z by (rule checksum_fills [OF assms _ _ refl]) simp_all
qed

lemma ipv4_roundtrip_bytes:
  assumes pl: "align_ok pl" and frag: "ip_frag ip AND 0x3fff = ip_frag ip" and len: "20 + length payload < 65536"
    and c: "c = checksum (inet_sum pl (ipv4_bytes ip (length payload) 0) 0)"
  shows "ipv4_parse pl (ipv4_bytes ip (length payload) c @ payload @ pad) = Some (Some (ip, payload))"
proof -
  let ?n = "length payload"
  let ?b = "ipv4_bytes ip ?n c"
  have b0: "drop_bit 4 (0x45 :: u8) = 4" "unat ((0x45 :: u8) AND 0x0f) = 5" by simp_all
  have tot: "unat (word_of_nat (20 + ?n) :: u16) = 20 + ?n"
    using len by (simp only: unat_of_nat) simp
  have ck: "checksum (inet_sum pl ?b 0) = 0" unfolding c by (rule ipv4_bytes_checksum [OF pl])
  have bs: "(?b @ payload @ pad) ! 0 = 0x45" "take 20 (?b @ payload @ pad) = ?b" "drop 20 (?b @ payload @ pad) = payload @ pad"
    "be16 (?b @ payload @ pad) 2 = Some (word_of_nat (20 + ?n))"
    "be16 (?b @ payload @ pad) 4 = Some (ip_ident ip)" "be16 (?b @ payload @ pad) 6 = Some (ip_frag ip)"
    "byte_at (?b @ payload @ pad) 9 = Some (ip_protocol ip)" "byte_at (?b @ payload @ pad) 8 = Some (ip_ttl ip)"
    "ipv4_at (?b @ payload @ pad) 12 = Some (ip_src ip)" "ipv4_at (?b @ payload @ pad) 16 = Some (ip_dst ip)"
    by (simp_all add: ipv4_bytes_def wire_reads u16_bytes_def u32_bytes_def)
  show ?thesis
    using len by (simp add: ipv4_parse_def byte_at_head bs b0 tot slice_def ck frag Let_def del: of_nat_add)
qed

section \<open>Properties\<close>

text \<open>IPv4 packets round trip: the header that \<open>write_header\<close> puts in front of a payload is accepted by
  \<open>parse\<close>, checksum included, and gives back the same fields and payload, whatever padding the link adds.\<close>

theorem ipv4_roundtrip:
  assumes pl: "align_ok pl" and frag: "ip_frag ip AND 0x3fff = ip_frag ip" and len: "20 + length payload < 65536"
    and buf: "20 \<le> length buf" "drop 20 buf = payload"
  shows "\<exists>p. ipv4_write_header pl ip buf (length payload) = Some p \<and> ipv4_parse pl (p @ pad) = Some (Some (ip, payload))"
  using ipv4_write_header_spec [OF buf(1)] ipv4_roundtrip_bytes [OF pl frag len refl, of pad] buf(2) by simp

lemma ipv4_roundtrip_witness:
  "\<exists>p. ipv4_write_header \<lparr>little_endian = True, align_to = (\<lambda>b. (0, length b div 4))\<rparr>
       \<lparr>ip_src = 1, ip_dst = 2, ip_protocol = 17, ip_ttl = 64, ip_ident = 7, ip_frag = 0\<rparr> (replicate 20 0 @ [5]) 1 = Some p \<and>
     ipv4_parse \<lparr>little_endian = True, align_to = (\<lambda>b. (0, length b div 4))\<rparr> (p @ [0, 0]) =
       Some (Some (\<lparr>ip_src = 1, ip_dst = 2, ip_protocol = 17, ip_ttl = 64, ip_ident = 7, ip_frag = 0\<rparr>, [5]))"
  using ipv4_roundtrip [of "\<lparr>little_endian = True, align_to = (\<lambda>b. (0, length b div 4))\<rparr>"
      "\<lparr>ip_src = 1, ip_dst = 2, ip_protocol = 17, ip_ttl = 64, ip_ident = 7, ip_frag = 0\<rparr>" "[5]" "replicate 20 0 @ [5]" "[0, 0]"]
  by (simp add: align_ok_def)

text \<open>No received bytes panic the parsers of frames, ARP messages, packets and quoted packets.\<close>

theorem wire_parsers_total:
  "ethernet_parse bytes \<noteq> None \<and> arp_parse bytes \<noteq> None \<and> ipv4_parse pl bytes \<noteq> None \<and> ipv4_parse_quoted bytes \<noteq> None"
  using ethernet_parse_total [of bytes] arp_parse_total [of bytes] ipv4_parse_total [of pl bytes]
    ipv4_parse_quoted_total [of bytes] by auto

end
