(* ===== verification/Arp_Cache.thy ===== *)
theory Arp_Cache
  imports Table Wire
begin

text \<open>
  The ARP cache, \<open>libs/devkit_net/src/arp.rs\<close>: at most 16 entries by interface and address, either
  being resolved (with the latest packet that waits) or resolved until they expire. It decides; the
  stack sends.
\<close>

section \<open>State and operations\<close>

text \<open>An \<open>IfaceId\<close> is its number.\<close>

type_synonym iface_id = nat

definition ARP_CAPACITY :: nat where "ARP_CAPACITY = 16"
definition RETRY :: duration where "RETRY = from_secs 1"
definition MAX_REQUESTS :: nat where "MAX_REQUESTS = 3"
definition LIFETIME :: duration where "LIFETIME = from_secs 300"
definition REFRESH :: duration where "REFRESH = from_secs 30"

definition INSTANT_MAX :: instant where "INSTANT_MAX = 2 ^ 64 - 1"

datatype arp_state = Resolving (next_request: instant) (requests_sent: nat) | Resolved mac (expires: instant) (refreshing: bool)

record arp_entry =
  a_iface :: iface_id
  a_ip :: ipv4addr
  a_state :: arp_state
  a_pending :: "u8 list option"

datatype resolve_answer = Known mac | Refresh mac | Request | Waiting

definition arp_find :: "arp_entry list \<Rightarrow> iface_id \<Rightarrow> ipv4addr \<Rightarrow> nat option" where
  "arp_find es iface ip = position (\<lambda>e. a_iface e = iface \<and> a_ip e = ip) es"

definition arp_rank :: "arp_entry \<Rightarrow> instant" where
  "arp_rank e = (case a_state e of Resolved _ t _ \<Rightarrow> t | Resolving _ _ \<Rightarrow> INSTANT_MAX)"

text \<open>The \<open>unwrap\<close> of the minimum panics on an empty table.\<close>

definition arp_make_room :: "arp_entry list \<Rightarrow> arp_entry list option" where
  "arp_make_room es =
     (if length es < ARP_CAPACITY then Some es
      else evict_least arp_rank es)"

definition arp_resolve ::
  "arp_entry list \<Rightarrow> iface_id \<Rightarrow> ipv4addr \<Rightarrow> instant \<Rightarrow> u8 list \<Rightarrow> (resolve_answer \<times> arp_entry list) option" where
  "arp_resolve es iface ip now packet =
     (case arp_find es iface ip of
        Some i \<Rightarrow>
          let e = es ! i in
          (case a_state e of
             Resolved m t r \<Rightarrow>
               if now < t then
                 (if instant_sub t now < REFRESH \<and> \<not> r
                  then Some (Refresh m, es[i := e\<lparr>a_state := Resolved m t True\<rparr>])
                  else Some (Known m, es))
               else Some (Request, es[i := e\<lparr>a_state := Resolving (instant_add now RETRY) 1,
                                             a_pending := Some packet\<rparr>])
           | Resolving _ _ \<Rightarrow> Some (Waiting, es[i := e\<lparr>a_pending := Some packet\<rparr>]))
      | None \<Rightarrow> do {
          es \<leftarrow> arp_make_room es;
          Some (Request, es @ [\<lparr>a_iface = iface, a_ip = ip, a_state = Resolving (instant_add now RETRY) 1,
                                a_pending = Some packet\<rparr>])
        })"

definition arp_update ::
  "arp_entry list \<Rightarrow> iface_id \<Rightarrow> ipv4addr \<Rightarrow> mac \<Rightarrow> instant \<Rightarrow> bool \<Rightarrow> (u8 list option \<times> arp_entry list) option" where
  "arp_update es iface ip m now create =
     (let st = Resolved m (instant_add now LIFETIME) False in
      case arp_find es iface ip of
        Some i \<Rightarrow> Some (a_pending (es ! i), es[i := (es ! i)\<lparr>a_state := st, a_pending := None\<rparr>])
      | None \<Rightarrow>
          if create then do {
            es \<leftarrow> arp_make_room es;
            Some (None, es @ [\<lparr>a_iface = iface, a_ip = ip, a_state = st, a_pending = None\<rparr>])
          }
          else Some (None, es))"

text \<open>One entry of a poll: what is left of it, and whether its address is asked for again.\<close>

definition arp_poll_entry :: "instant \<Rightarrow> arp_entry \<Rightarrow> (arp_entry \<times> bool) option" where
  "arp_poll_entry now e =
     (case a_state e of
        Resolving nxt sent \<Rightarrow>
          if nxt \<le> now then
            (if MAX_REQUESTS \<le> sent then None
             else Some (e\<lparr>a_state := Resolving (instant_add now RETRY) (sent + 1)\<rparr>, True))
          else Some (e, False)
      | Resolved _ t _ \<Rightarrow> if t \<le> now then None else Some (e, False))"

definition arp_due :: "arp_entry \<Rightarrow> instant" where
  "arp_due e = (case a_state e of Resolving nxt _ \<Rightarrow> nxt | Resolved _ t _ \<Rightarrow> t)"

definition arp_next_deadline :: "arp_entry list \<Rightarrow> instant option" where
  "arp_next_deadline es = min_option (map arp_due es)"

definition arp_poll ::
  "arp_entry list \<Rightarrow> instant \<Rightarrow> (iface_id \<times> ipv4addr) list \<times> instant option \<times> arp_entry list" where
  "arp_poll es now =
     (let polled = somes (map (arp_poll_entry now) es);
          kept = map fst polled;
          requests = map (\<lambda>(e, _). (a_iface e, a_ip e)) (filter snd polled)
      in (requests, min_option (map arp_due kept), kept))"

definition arp_forget_iface :: "arp_entry list \<Rightarrow> iface_id \<Rightarrow> arp_entry list" where
  "arp_forget_iface es iface = filter (\<lambda>e. a_iface e \<noteq> iface) es"

section \<open>The table\<close>

definition arp_key :: "arp_entry \<Rightarrow> iface_id \<times> ipv4addr" where
  "arp_key e = (a_iface e, a_ip e)"

text \<open>At most 16 entries with distinct keys, and at most three requests each.\<close>

definition arp_wf :: "arp_entry list \<Rightarrow> bool" where
  "arp_wf es \<longleftrightarrow> table arp_key ARP_CAPACITY es \<and>
     (\<forall>e \<in> set es. case a_state e of Resolving _ n \<Rightarrow> 1 \<le> n \<and> n \<le> MAX_REQUESTS | Resolved _ _ _ \<Rightarrow> True)"

definition arp_lookup :: "arp_entry list \<Rightarrow> iface_id \<Rightarrow> ipv4addr \<Rightarrow> arp_entry option" where
  "arp_lookup es iface ip = table_find arp_key es (iface, ip)"

interpretation at: keyed_table arp_key ARP_CAPACITY arp_make_room
  unfolding arp_make_room_def [abs_def] by (rule keyed_table_evict_least) (simp add: ARP_CAPACITY_def)

section \<open>Lemmas\<close>

lemma arp_find_key: "arp_find es iface ip = position (\<lambda>e. arp_key e = (iface, ip)) es"
  by (simp add: arp_find_def arp_key_def)

lemma arp_find_Some: "arp_find es iface ip = Some i \<Longrightarrow> i < length es \<and> arp_key (es ! i) = (iface, ip)"
  by (simp add: arp_find_key position_Some_iff)

lemma arp_find_None: "arp_find es iface ip = None \<longleftrightarrow> (iface, ip) \<notin> arp_key ` set es"
  unfolding arp_find_key position_None_iff by (auto simp: image_iff)

lemma arp_lookup_find: "arp_lookup es iface ip = map_option ((!) es) (arp_find es iface ip)"
  by (simp add: arp_lookup_def table_find_position arp_find_key)

lemma arp_key_simps [simp]:
  "arp_key (e\<lparr>a_state := st\<rparr>) = arp_key e" "arp_key (e\<lparr>a_pending := p\<rparr>) = arp_key e"
  "arp_key \<lparr>a_iface = iface, a_ip = ip, a_state = st, a_pending = p\<rparr> = (iface, ip)"
  by (simp_all add: arp_key_def)

lemma arp_wf_update:
  assumes "arp_wf es" and "arp_key e = arp_key (es ! i)"
    and "case a_state e of Resolving _ n \<Rightarrow> 1 \<le> n \<and> n \<le> MAX_REQUESTS | Resolved _ _ _ \<Rightarrow> True"
  shows "arp_wf (es[i := e])"
  using assms table_update [of arp_key ARP_CAPACITY es e i] set_update_subset_insert [of es i e]
  unfolding arp_wf_def by (metis insert_iff subset_iff)

lemma arp_wf_push:
  assumes "arp_wf es" and "arp_make_room es = Some es'" and "arp_key e \<notin> arp_key ` set es"
    and "case a_state e of Resolving _ n \<Rightarrow> 1 \<le> n \<and> n \<le> MAX_REQUESTS | Resolved _ _ _ \<Rightarrow> True"
  shows "arp_wf (es' @ [e])"
  using assms at.push_table [of es es' e] at.room_spec [of es]
  unfolding arp_wf_def by (auto simp: subset_iff)

lemma arp_room:
  assumes "arp_wf es" obtains es' where "arp_make_room es = Some es'"
  using at.room_spec [of es] assms by (auto simp: arp_wf_def)

lemma arp_resolve_spec:
  assumes wf: "arp_wf es"
  shows "\<exists>a es'. arp_resolve es iface ip now packet = Some (a, es') \<and> arp_wf es' \<and>
    (case a of
       Known m \<Rightarrow> \<exists>e. arp_lookup es iface ip = Some e \<and> (\<exists>t r. a_state e = Resolved m t r \<and> now < t)
     | Refresh m \<Rightarrow> \<exists>e. arp_lookup es iface ip = Some e \<and> (\<exists>t. a_state e = Resolved m t False \<and> now < t)
     | _ \<Rightarrow> \<exists>e. arp_lookup es' iface ip = Some e \<and> a_pending e = Some packet \<and> (\<exists>t n. a_state e = Resolving t n))"
proof (cases "arp_find es iface ip")
  case None
  then have new: "(iface, ip) \<notin> arp_key ` set es" by (simp add: arp_find_None)
  obtain es' where room: "arp_make_room es = Some es'" using arp_room [OF wf] .
  let ?e = "\<lparr>a_iface = iface, a_ip = ip, a_state = Resolving (instant_add now RETRY) 1, a_pending = Some packet\<rparr>"
  have "arp_wf (es' @ [?e])" by (rule arp_wf_push [OF wf room]) (use new in \<open>simp_all add: MAX_REQUESTS_def\<close>)
  moreover have "arp_lookup (es' @ [?e]) iface ip = Some ?e"
    using at.push_find(1) [of es es' ?e] wf room new by (simp add: arp_lookup_def arp_wf_def)
  ultimately show ?thesis using None room by (simp add: arp_resolve_def)
next
  case (Some i)
  let ?e = "es ! i"
  note i = arp_find_Some [OF Some]
  have t: "table arp_key ARP_CAPACITY es" using wf by (simp add: arp_wf_def)
  have look: "arp_lookup es iface ip = Some ?e" using Some by (simp add: arp_lookup_find)
  have upd: "arp_lookup (es[i := e]) iface ip = Some e" if "arp_key e = arp_key ?e" for e
    using table_find_update [OF t, of i e] i that by (simp add: arp_lookup_def)
  have wfi: "case a_state ?e of Resolving _ n \<Rightarrow> 1 \<le> n \<and> n \<le> MAX_REQUESTS | Resolved _ _ _ \<Rightarrow> True"
    using wf i unfolding arp_wf_def by (meson nth_mem)
  show ?thesis
  proof (cases "a_state ?e")
    case (Resolving nxt sent)
    have "arp_wf (es[i := ?e\<lparr>a_pending := Some packet\<rparr>])" by (rule arp_wf_update [OF wf]) (use wfi in simp_all)
    then show ?thesis using Some Resolving upd [of "?e\<lparr>a_pending := Some packet\<rparr>"]
      by (simp add: arp_resolve_def Let_def)
  next
    case (Resolved m t r)
    let ?f = "?e\<lparr>a_state := Resolved m t True\<rparr>"
    let ?g = "?e\<lparr>a_state := Resolving (instant_add now RETRY) 1, a_pending := Some packet\<rparr>"
    have "arp_wf (es[i := ?f])" by (rule arp_wf_update [OF wf]) simp_all
    moreover have "arp_wf (es[i := ?g])" by (rule arp_wf_update [OF wf]) (simp_all add: MAX_REQUESTS_def)
    ultimately show ?thesis using Some Resolved look wf upd [of ?g] by (simp add: arp_resolve_def Let_def)
  qed
qed

lemma arp_update_spec:
  assumes wf: "arp_wf es"
  shows "\<exists>p es'. arp_update es iface ip m now create = Some (p, es') \<and> arp_wf es' \<and>
    p = (case arp_lookup es iface ip of None \<Rightarrow> None | Some e \<Rightarrow> a_pending e) \<and>
    (if arp_lookup es iface ip \<noteq> None \<or> create
     then arp_lookup es' iface ip = Some \<lparr>a_iface = iface, a_ip = ip,
            a_state = Resolved m (instant_add now LIFETIME) False, a_pending = None\<rparr>
     else es' = es) \<and>
    (\<forall>iface' ip' e. (iface', ip') \<noteq> (iface, ip) \<longrightarrow> arp_lookup es' iface' ip' = Some e \<longrightarrow> arp_lookup es iface' ip' = Some e)"
proof -
  let ?new = "\<lparr>a_iface = iface, a_ip = ip, a_state = Resolved m (instant_add now LIFETIME) False, a_pending = None\<rparr>"
  show ?thesis
  proof (cases "arp_find es iface ip")
    case None
    then have new: "(iface, ip) \<notin> arp_key ` set es" by (simp add: arp_find_None)
    obtain es' where room: "arp_make_room es = Some es'" using arp_room [OF wf] .
    have t: "table arp_key ARP_CAPACITY es" using wf by (simp add: arp_wf_def)
    have "arp_wf (es' @ [?new])" by (rule arp_wf_push [OF wf room]) (use new in simp_all)
    then show ?thesis
      using None room new wf at.push_find(1) [of es es' ?new] at.push_find(2) [OF t room, of ?new]
        table_find_None [of arp_key es "(iface, ip)"]
      by (auto simp: arp_update_def Let_def arp_wf_def arp_lookup_def simp del: table_find_None)
  next
    case (Some i)
    note i = arp_find_Some [OF Some]
    let ?e = "(es ! i)\<lparr>a_state := Resolved m (instant_add now LIFETIME) False, a_pending := None\<rparr>"
    have t: "table arp_key ARP_CAPACITY es" using wf by (simp add: arp_wf_def)
    have e: "?e = ?new" using i by (cases "es ! i") (simp add: arp_key_def)
    have "arp_wf (es[i := ?new])" by (rule arp_wf_update [OF wf]) (use i in simp_all)
    then show ?thesis
      using Some i e table_find_update [OF t, of i ?new] arp_lookup_find [of es iface ip]
      by (simp add: arp_update_def Let_def arp_lookup_def)
  qed
qed

lemma arp_poll_wf:
  assumes "arp_wf es" shows "arp_wf (snd (snd (arp_poll es now)))"
proof -
  let ?kept = "map fst (somes (map (arp_poll_entry now) es))"
  have keys: "map arp_key (map fst (somes (map (arp_poll_entry now) es))) =
      map arp_key (filter (\<lambda>e. arp_poll_entry now e \<noteq> None) es)"
    by (induction es) (auto simp: somes_def arp_poll_entry_def split: option.splits arp_state.splits if_splits)
  have "distinct (map arp_key ?kept)" "length ?kept \<le> length es"
    unfolding keys using assms length_filter_le [of _ es] keys [THEN arg_cong, of length]
    by (auto simp: arp_wf_def table_def distinct_map_filter simp del: map_map)
  moreover have "\<forall>e \<in> set ?kept. case a_state e of Resolving _ n \<Rightarrow> 1 \<le> n \<and> n \<le> MAX_REQUESTS | Resolved _ _ _ \<Rightarrow> True"
    using assms unfolding arp_wf_def
    by (induction es) (auto simp: somes_def arp_poll_entry_def table_def split: option.splits arp_state.splits if_splits)
  ultimately show ?thesis using assms by (simp add: arp_wf_def table_def arp_poll_def Let_def)
qed

lemma arp_forget_wf: "arp_wf es \<Longrightarrow> arp_wf (arp_forget_iface es iface)"
  using table_filter [of arp_key ARP_CAPACITY es] by (auto simp: arp_wf_def arp_forget_iface_def)

section \<open>Runs\<close>

text \<open>The requests of a sequence of polls.\<close>

fun arp_polls :: "arp_entry list \<Rightarrow> instant list \<Rightarrow> (iface_id \<times> ipv4addr) list \<times> arp_entry list" where
  "arp_polls es [] = ([], es)"
| "arp_polls es (t # ts) =
     (case arp_poll es t of (requests, _, es') \<Rightarrow>
       case arp_polls es' ts of (later, es'') \<Rightarrow> (requests @ later, es''))"

text \<open>How often an address may still be asked for.\<close>

definition arp_budget :: "arp_entry list \<Rightarrow> iface_id \<times> ipv4addr \<Rightarrow> nat" where
  "arp_budget es k = (case table_find arp_key es k of
      Some e \<Rightarrow> (case a_state e of Resolving _ n \<Rightarrow> MAX_REQUESTS - n | Resolved _ _ _ \<Rightarrow> 0)
    | None \<Rightarrow> 0)"

lemma arp_poll_Cons:
  "arp_poll (e # es) now =
     (case arp_poll_entry now e of
        None \<Rightarrow> (fst (arp_poll es now), min_option (map arp_due (snd (snd (arp_poll es now)))), snd (snd (arp_poll es now)))
      | Some (e', ask) \<Rightarrow> ((if ask then [(a_iface e', a_ip e')] else []) @ fst (arp_poll es now),
          min_option (map arp_due (e' # snd (snd (arp_poll es now)))), e' # snd (snd (arp_poll es now))))"
  by (auto simp: arp_poll_def Let_def somes_def split: option.splits)

lemma arp_poll_entry_Some:
  "arp_poll_entry now e = Some (e', ask) \<Longrightarrow> arp_key e' = arp_key e \<and>
     (case a_state e of
        Resolving t n \<Rightarrow> (if ask then n < MAX_REQUESTS \<and> (\<exists>t'. a_state e' = Resolving t' (Suc n)) else e' = e)
      | Resolved _ _ _ \<Rightarrow> \<not> ask \<and> e' = e)"
  by (auto simp: arp_poll_entry_def split: arp_state.splits if_splits)

lemma arp_poll_no_key:
  "k \<notin> arp_key ` set es \<Longrightarrow> count_list (fst (arp_poll es now)) k = 0 \<and> k \<notin> arp_key ` set (snd (snd (arp_poll es now)))"
proof (induction es)
  case Nil
  then show ?case by (simp add: arp_poll_def somes_def)
next
  case (Cons e es)
  have IH: "count_list (fst (arp_poll es now)) k = 0" "k \<notin> arp_key ` set (snd (snd (arp_poll es now)))"
    using Cons by simp_all
  show ?case
  proof (cases "arp_poll_entry now e")
    case None
    then show ?thesis using IH by (simp add: arp_poll_Cons)
  next
    case (Some r)
    obtain e' ask where r: "arp_poll_entry now e = Some (e', ask)" using Some by (cases r) simp
    have "arp_key e' = arp_key e" using arp_poll_entry_Some [OF r] by blast
    then have "arp_key e' \<noteq> k" "(a_iface e', a_ip e') \<noteq> k" using Cons.prems by (auto simp: arp_key_def)
    then show ?thesis using IH r by (auto simp: arp_poll_Cons)
  qed
qed

lemma arp_poll_budget:
  "distinct (map arp_key es) \<Longrightarrow>
   count_list (fst (arp_poll es now)) k + arp_budget (snd (snd (arp_poll es now))) k \<le> arp_budget es k"
proof (induction es)
  case Nil
  then show ?case by (simp add: arp_poll_def somes_def arp_budget_def table_find_def)
next
  case (Cons e es)
  have IH: "count_list (fst (arp_poll es now)) k + arp_budget (snd (snd (arp_poll es now))) k \<le> arp_budget es k"
    using Cons by simp
  have new: "arp_key e \<notin> arp_key ` set es" using Cons.prems by auto
  note none = arp_poll_no_key [OF new, of now]
  have gone: "arp_budget xs k' = 0" if "k' \<notin> arp_key ` set xs" for xs k'
    using that table_find_None [of arp_key xs k'] by (simp add: arp_budget_def)
  have split: "arp_budget (x # xs) k' = (if arp_key x = k' then
      (case a_state x of Resolving _ n \<Rightarrow> MAX_REQUESTS - n | Resolved _ _ _ \<Rightarrow> 0) else arp_budget xs k')" for x xs k'
    by (simp add: arp_budget_def table_find_def)
  show ?case
  proof (cases "arp_poll_entry now e")
    case None
    then show ?thesis using IH none gone [of "arp_key e" "snd (snd (arp_poll es now))"]
      by (auto simp add: arp_poll_Cons split simp del: imageE)
  next
    case (Some r)
    obtain e' ask where r: "arp_poll_entry now e = Some (e', ask)" using Some by (cases r) simp
    note E = arp_poll_entry_Some [OF r]
    have key: "arp_key e' = arp_key e" "(a_iface e', a_ip e') = arp_key e" using E by (auto simp: arp_key_def)
    show ?thesis
    proof (cases "arp_key e = k")
      case True
      then show ?thesis using E none r key
        by (cases "a_state e") (auto simp: arp_poll_Cons split split: if_splits)
    next
      case False
      then show ?thesis using IH r key by (simp add: arp_poll_Cons split)
    qed
  qed
qed

lemma arp_polls_budget:
  "arp_wf es \<Longrightarrow> count_list (fst (arp_polls es ts)) k \<le> arp_budget es k"
proof (induction ts arbitrary: es)
  case (Cons t ts)
  have d: "distinct (map arp_key es)" using Cons.prems by (simp add: arp_wf_def table_def)
  show ?case
    using Cons.IH [OF arp_poll_wf [OF Cons.prems, of t]] arp_poll_budget [OF d, of t k]
    by (auto simp: case_prod_beta)
qed simp

section \<open>Runs\<close>

datatype arp_event =
    Resolve iface_id ipv4addr instant "u8 list"
  | Learn iface_id ipv4addr mac instant bool
  | Poll instant
  | Forget iface_id

fun arp_step :: "arp_entry list \<Rightarrow> arp_event \<Rightarrow> arp_entry list option" where
  "arp_step es (Resolve iface ip now packet) = map_option snd (arp_resolve es iface ip now packet)"
| "arp_step es (Learn iface ip m now create) = map_option snd (arp_update es iface ip m now create)"
| "arp_step es (Poll now) = Some (snd (snd (arp_poll es now)))"
| "arp_step es (Forget iface) = Some (arp_forget_iface es iface)"

fun arp_run :: "arp_entry list \<Rightarrow> arp_event list \<Rightarrow> arp_entry list option" where
  "arp_run es [] = Some es"
| "arp_run es (ev # evs) = do { es \<leftarrow> arp_step es ev; arp_run es evs }"

lemma arp_step_wf: "arp_wf es \<Longrightarrow> \<exists>es'. arp_step es ev = Some es' \<and> arp_wf es'"
proof (cases ev)
  case (Resolve iface ip now packet)
  assume "arp_wf es"
  from arp_resolve_spec [OF this, of iface ip now packet] show ?thesis using Resolve by auto
next
  case (Learn iface ip m now create)
  assume "arp_wf es"
  from arp_update_spec [OF this, of iface ip m now create] show ?thesis using Learn by auto
qed (auto simp: arp_poll_wf arp_forget_wf)

lemma arp_run_wf: "arp_wf es \<Longrightarrow> \<exists>es'. arp_run es evs = Some es' \<and> arp_wf es'"
proof (induction evs arbitrary: es)
  case (Cons ev evs)
  then show ?case using arp_step_wf [of es ev] by fastforce
qed simp

lemma arp_empty_wf [simp]: "arp_wf []"
  by (simp add: arp_wf_def table_def)

text \<open>Every resolved entry was taught, by a message in the history \<open>H\<close>.\<close>

definition taught :: "arp_event set \<Rightarrow> arp_entry \<Rightarrow> bool" where
  "taught H e \<longleftrightarrow> (\<forall>m t r. a_state e = Resolved m t r \<longrightarrow>
     (\<exists>now create. Learn (a_iface e) (a_ip e) m now create \<in> H \<and> t = instant_add now LIFETIME))"

lemma taught_mono: "taught H e \<Longrightarrow> H \<subseteq> H' \<Longrightarrow> taught H' e"
  unfolding taught_def by blast

lemma taught_resolving [simp]: "a_state e = Resolving t n \<Longrightarrow> taught H e"
  by (simp add: taught_def)

lemma taught_flag: "taught H e \<Longrightarrow> a_state e = Resolved m t r \<Longrightarrow> taught H (e\<lparr>a_state := Resolved m t r'\<rparr>)"
  by (simp add: taught_def)

lemma arp_make_room_subset: "arp_make_room es = Some es' \<Longrightarrow> set es' \<subseteq> set es"
  by (auto simp: arp_make_room_def evict_least_def split: if_splits
      dest!: min_index_by_lt [THEN mset_swap_remove_set, THEN subsetD, rotated])

lemma arp_step_taught:
  assumes "\<forall>e \<in> set es. taught H e" and "arp_step es ev = Some es'"
  shows "\<forall>e \<in> set es'. taught (insert ev H) e"
proof -
  have old: "taught (insert ev H) e" if "e \<in> set es" for e
    using assms(1) that taught_mono [of H e "insert ev H"] by blast
  note sub = set_update_subset_insert [THEN subsetD]
  show ?thesis
  proof (cases ev)
    case (Resolve iface ip now packet)
    have "\<forall>e \<in> set (snd r). taught (insert ev H) e" if r: "arp_resolve es iface ip now packet = Some r" for r
    proof (cases "arp_find es iface ip")
      case None
      then show ?thesis using r old
        by (auto simp: arp_resolve_def bind_eq_Some_conv dest!: arp_make_room_subset subsetD)
    next
      case (Some i)
      have ti: "taught (insert ev H) (es ! i)" using arp_find_Some [OF Some] old by simp
      have tr: "taught (insert ev H) ((es ! i)\<lparr>a_state := Resolving t n, a_pending := q\<rparr>)" for t n q by simp
      show ?thesis
      proof (cases "a_state (es ! i)")
        case (Resolving t n)
        then show ?thesis using r Some old by (auto simp: arp_resolve_def Let_def dest!: sub)
      next
        case (Resolved m t rf)
        show ?thesis using r Some Resolved old taught_flag [OF ti Resolved, of True] tr
          by (auto simp: arp_resolve_def Let_def dest!: sub split: if_splits)
      qed
    qed
    then show ?thesis using assms(2) Resolve by auto
  next
    case (Learn iface ip m now create)
    have "\<forall>e \<in> set (snd r). taught (insert ev H) e" if r: "arp_update es iface ip m now create = Some r" for r
    proof (cases "arp_find es iface ip")
      case None
      have new: "taught (insert ev H) \<lparr>a_iface = iface, a_ip = ip, a_state = Resolved m (instant_add now LIFETIME) False,
          a_pending = None\<rparr>" using Learn by (auto simp: taught_def)
      show ?thesis using None r old new
        by (auto simp: arp_update_def Let_def bind_eq_Some_conv split: if_splits dest!: arp_make_room_subset subsetD)
    next
      case (Some i)
      have "taught (insert ev H) ((es ! i)\<lparr>a_state := Resolved m (instant_add now LIFETIME) False, a_pending := None\<rparr>)"
        using Learn arp_find_Some [OF Some] by (auto simp: taught_def arp_key_def)
      then show ?thesis using Some r old by (auto simp: arp_update_def Let_def dest!: sub)
    qed
    then show ?thesis using assms(2) Learn by auto
  next
    case (Poll now)
    have "taught (insert ev H) e'" if "e \<in> set es" "arp_poll_entry now e = Some (e', ask)" for e e' ask
      using old [OF that(1)] arp_poll_entry_Some [OF that(2)]
      by (cases "a_state e") (auto simp: taught_def split: if_splits)
    then show ?thesis using assms(2) Poll by (fastforce simp: arp_poll_def Let_def somes_def split: option.splits dest: sym)
  next
    case (Forget iface)
    then show ?thesis using assms(2) old by (auto simp: arp_forget_iface_def)
  qed
qed

lemma arp_run_taught:
  "\<forall>e \<in> set es. taught H e \<Longrightarrow> arp_run es evs = Some es' \<Longrightarrow> \<forall>e \<in> set es'. taught (H \<union> set evs) e"
proof (induction evs arbitrary: es H)
  case (Cons ev evs)
  obtain fs where s: "arp_step es ev = Some fs" "arp_run fs evs = Some es'"
    using Cons.prems(2) by (auto simp: bind_eq_Some_conv)
  show ?case using Cons.IH [OF arp_step_taught [OF Cons.prems(1) s(1)] s(2)] by simp
qed simp

section \<open>Properties\<close>

text \<open>C11: An answer of the ARP cache was taught and has not expired: after any run of the cache from the
  empty one, the MAC address it gives for a neighbour is one that an ARP message announced for this
  address on this interface less than the lifetime of 300 seconds before.\<close>

theorem arp_answers_taught:
  assumes "arp_run [] evs = Some es" and "arp_resolve es iface ip now packet = Some (a, es')"
    and "a = Known m \<or> a = Refresh m"
  shows "\<exists>t create. Learn iface ip m t create \<in> set evs \<and> now < instant_add t LIFETIME"
proof -
  have wf: "arp_wf es" using arp_run_wf [of "[]" evs] assms(1) by auto
  have "\<exists>e t r. arp_lookup es iface ip = Some e \<and> a_state e = Resolved m t r \<and> now < t"
    using arp_resolve_spec [OF wf, of iface ip now packet] assms(2,3) by fastforce
  then obtain e t r where e: "arp_lookup es iface ip = Some e" "a_state e = Resolved m t r" "now < t" by blast
  have "e \<in> set es" "arp_key e = (iface, ip)"
    using table_find_Some [of arp_key es "(iface, ip)" e] wf e(1) by (auto simp: arp_lookup_def arp_wf_def table_def)
  moreover have "\<forall>e \<in> set es. taught (set evs) e" using arp_run_taught [of "[]" "{}" evs es] assms(1) by simp
  ultimately obtain t0 c where "Learn iface ip m t0 c \<in> set evs" "t = instant_add t0 LIFETIME"
    using e(2) by (fastforce simp: taught_def arp_key_def)
  then show ?thesis using e(3) by blast
qed

lemma arp_answers_taught_witness:
  "\<exists>t create. Learn 0 5 [1, 2, 3, 4, 5, 6] t create \<in> set [Learn 0 5 [1, 2, 3, 4, 5, 6] 10 True, Poll 20] \<and>
     30 < instant_add t LIFETIME"
  by (rule arp_answers_taught
      [of _ "[\<lparr>a_iface = 0, a_ip = 5, a_state = Resolved [1, 2, 3, 4, 5, 6] 300000010 False, a_pending = None\<rparr>]"
          _ _ _ "[]" "Known [1, 2, 3, 4, 5, 6]"])
    (simp_all add: arp_update_def arp_find_def arp_make_room_def ARP_CAPACITY_def LIFETIME_def from_secs_def
      instant_add_def arp_poll_def somes_def arp_poll_entry_def arp_resolve_def instant_sub_def REFRESH_def)

text \<open>The cache never panics and never holds more than 16 neighbours, with one entry for each.\<close>

theorem arp_cache_bounded:
  "\<exists>es. arp_run [] evs = Some es \<and> length es \<le> 16 \<and> distinct (map (\<lambda>e. (a_iface e, a_ip e)) es)"
proof -
  obtain es where "arp_run [] evs = Some es" "arp_wf es" using arp_run_wf [of "[]" evs] by auto
  moreover have "arp_key = (\<lambda>e. (a_iface e, a_ip e))" by (simp add: arp_key_def fun_eq_iff)
  ultimately show ?thesis by (auto simp: arp_wf_def table_def ARP_CAPACITY_def)
qed

text \<open>C12: A neighbour that does not answer is asked for at most three times: after the request that
  \<open>resolve\<close> makes, no sequence of polls repeats it more than twice.\<close>

theorem arp_at_most_three_requests:
  assumes wf: "arp_wf es" and req: "arp_resolve es iface ip now packet = Some (Request, es')"
  shows "1 + count_list (fst (arp_polls es' ts)) (iface, ip) \<le> 3"
proof -
  have wf': "arp_wf es'" using arp_resolve_spec [OF wf, of iface ip now packet] req by auto
  obtain e where e: "arp_lookup es' iface ip = Some e" "a_pending e = Some packet" "\<exists>t n. a_state e = Resolving t n"
    using arp_resolve_spec [OF wf, of iface ip now packet] req by auto
  have "e \<in> set es'" using table_find_Some [of arp_key es' "(iface, ip)" e] wf' e(1)
    by (simp add: arp_lookup_def arp_wf_def table_def)
  then have "arp_budget es' (iface, ip) \<le> MAX_REQUESTS - 1"
    using e wf' by (fastforce simp: arp_budget_def arp_lookup_def arp_wf_def)
  then show ?thesis using arp_polls_budget [OF wf', of ts "(iface, ip)"] by (simp add: MAX_REQUESTS_def)
qed

lemma arp_at_most_three_requests_witness:
  "1 + count_list (fst (arp_polls
     [\<lparr>a_iface = 0, a_ip = 5, a_state = Resolving (instant_add 10 RETRY) 1, a_pending = Some []\<rparr>] [2000000])) (0, 5) \<le> 3"
  by (rule arp_at_most_three_requests [of "[]" _ _ 10 "[]"])
    (simp_all add: arp_resolve_def arp_find_def arp_make_room_def ARP_CAPACITY_def)

text \<open>Learning an address releases the packet parked for it and touches no other neighbour: the
  packet that waits for the address, if any, is handed out, the address resolves from now on for 300
  seconds if it was known or may be created, and every other neighbour that is still cached keeps its entry.\<close>

theorem arp_learn_releases:
  assumes "arp_wf es"
  shows "\<exists>p es'. arp_update es iface ip m now create = Some (p, es') \<and>
    p = (case arp_lookup es iface ip of None \<Rightarrow> None | Some e \<Rightarrow> a_pending e) \<and>
    (if arp_lookup es iface ip \<noteq> None \<or> create
     then arp_lookup es' iface ip = Some \<lparr>a_iface = iface, a_ip = ip,
            a_state = Resolved m (instant_add now LIFETIME) False, a_pending = None\<rparr>
     else es' = es) \<and>
    (\<forall>iface' ip' e. (iface', ip') \<noteq> (iface, ip) \<longrightarrow> arp_lookup es' iface' ip' = Some e \<longrightarrow> arp_lookup es iface' ip' = Some e)"
  using arp_update_spec [OF assms, of iface ip m now create] by blast

lemma arp_learn_releases_witness:
  "\<exists>p es'. arp_update [\<lparr>a_iface = 0, a_ip = 5, a_state = Resolving 9 1, a_pending = Some [42]\<rparr>]
      0 5 [1, 2, 3, 4, 5, 6] 10 False = Some (p, es') \<and> p = Some [42]"
  using arp_learn_releases [of "[\<lparr>a_iface = 0, a_ip = 5, a_state = Resolving 9 1, a_pending = Some [42]\<rparr>]"
      0 5 "[1, 2, 3, 4, 5, 6]" 10 False]
  by (fastforce simp: arp_wf_def table_def ARP_CAPACITY_def MAX_REQUESTS_def arp_lookup_def table_find_def arp_key_def)

end
