(* ===== verification/Image_Base.thy ===== *)
theory Image_Base
  imports Base
begin

text \<open>
  What the image libraries share: the errors of \<open>libs/devkit_image/src/lib.rs\<close> and the pixel formats of
  \<open>libs/devkit_gfx/src/format.rs\<close>.
\<close>

datatype image_error =
  ImgTruncated | ImgDecode | ImgUnsupported | ImgOutOfMemory | ImgInvalidState | ImgInvalidArgument | ImgTooLarge | ImgIo

datatype image_format = L1 | L2 | L4 | L8 | A8 | Rgb565 | Rgb888 | Bgr888 | Argb8888 | Yuv444 | Yuyv | Uyvy | Yuv420

fun format_raw :: "image_format \<Rightarrow> u8" where
  "format_raw L1 = 0x01"
| "format_raw L2 = 0x02"
| "format_raw L4 = 0x03"
| "format_raw L8 = 0x04"
| "format_raw A8 = 0x08"
| "format_raw Rgb565 = 0x10"
| "format_raw Rgb888 = 0x11"
| "format_raw Bgr888 = 0x12"
| "format_raw Argb8888 = 0x13"
| "format_raw Yuv444 = 0x20"
| "format_raw Yuyv = 0x21"
| "format_raw Uyvy = 0x22"
| "format_raw Yuv420 = 0x23"

definition format_from_raw :: "u8 \<Rightarrow> image_format option" where
  "format_from_raw raw =
     (if raw = 0x01 then Some L1 else if raw = 0x02 then Some L2 else if raw = 0x03 then Some L4
      else if raw = 0x04 then Some L8 else if raw = 0x08 then Some A8 else if raw = 0x10 then Some Rgb565
      else if raw = 0x11 then Some Rgb888 else if raw = 0x12 then Some Bgr888 else if raw = 0x13 then Some Argb8888
      else if raw = 0x20 then Some Yuv444 else if raw = 0x21 then Some Yuyv else if raw = 0x22 then Some Uyvy
      else if raw = 0x23 then Some Yuv420 else None)"

fun format_bits :: "image_format \<Rightarrow> nat" where
  "format_bits L1 = 1"
| "format_bits L2 = 2"
| "format_bits L4 = 4"
| "format_bits L8 = 8"
| "format_bits A8 = 8"
| "format_bits Yuv420 = 12"
| "format_bits Rgb565 = 16"
| "format_bits Yuyv = 16"
| "format_bits Uyvy = 16"
| "format_bits Rgb888 = 24"
| "format_bits Bgr888 = 24"
| "format_bits Yuv444 = 24"
| "format_bits Argb8888 = 32"

text \<open>\<open>usize::div_ceil\<close>.\<close>

definition div_ceil :: "nat \<Rightarrow> nat \<Rightarrow> nat" where
  "div_ceil a b = (a + b - 1) div b"

definition format_row_bytes :: "image_format \<Rightarrow> nat \<Rightarrow> nat" where
  "format_row_bytes f width = div_ceil (width * format_bits f) 8"

definition is_row_format :: "image_format \<Rightarrow> bool" where
  "is_row_format f \<longleftrightarrow> f \<in> {L8, Rgb888, Bgr888, Rgb565}"

lemma format_from_to_raw [simp]: "format_from_raw (format_raw f) = Some f"
  by (cases f) (simp_all add: format_from_raw_def)

lemma div_ceil_mult [simp]: "0 < b \<Longrightarrow> div_ceil (a * b) b = a"
proof -
  assume "0 < b"
  then have "a * b + b - 1 = (b - 1) + a * b" by simp
  then show ?thesis using \<open>0 < b\<close> by (simp only: div_ceil_def div_mult_self1) simp
qed

lemma div_ceil_ge: "0 < b \<Longrightarrow> a \<le> div_ceil a b * b"
proof -
  assume "0 < b"
  then have "a + b - 1 < (a + b - 1) div b * b + b" using div_mod_decomp [of "a + b - 1" b] mod_less_divisor [of b "a + b - 1"] by linarith
  then show ?thesis unfolding div_ceil_def by linarith
qed

section \<open>Little-endian numbers\<close>

definition u16_le :: "u16 \<Rightarrow> u8 list" where
  "u16_le v = [ucast v, ucast (drop_bit 8 v)]"

definition u32_le :: "u32 \<Rightarrow> u8 list" where
  "u32_le v = [ucast v, ucast (drop_bit 8 v), ucast (drop_bit 16 v), ucast (drop_bit 24 v)]"

definition le16_at :: "u8 list \<Rightarrow> nat \<Rightarrow> u16" where
  "le16_at data i = ucast (data ! i) OR push_bit 8 (ucast (data ! (i + 1)))"

definition le32_at :: "u8 list \<Rightarrow> nat \<Rightarrow> u32" where
  "le32_at data i = ucast (data ! i) OR push_bit 8 (ucast (data ! (i + 1))) OR push_bit 16 (ucast (data ! (i + 2))) OR
     push_bit 24 (ucast (data ! (i + 3)))"

lemma length_le [simp]: "length (u16_le v) = 2" "length (u32_le w) = 4"
  by (simp_all add: u16_le_def u32_le_def)

lemma le16_roundtrip: "ucast (ucast v :: u8) OR push_bit 8 (ucast (ucast (drop_bit 8 v) :: u8)) = (v :: u16)"
  by (rule bit_word_eqI) (auto simp: bit_simps)

lemma le32_roundtrip:
  "ucast (ucast v :: u8) OR push_bit 8 (ucast (ucast (drop_bit 8 v) :: u8)) OR push_bit 16 (ucast (ucast (drop_bit 16 v) :: u8)) OR
   push_bit 24 (ucast (ucast (drop_bit 24 v) :: u8)) = (v :: u32)"
proof (rule bit_word_eqI)
  fix n assume "n < LENGTH(32)"
  then consider "n < 8" | "8 \<le> n" "n < 16" | "16 \<le> n" "n < 24" | "24 \<le> n" "n < 32" by fastforce
  then show "bit (ucast (ucast v :: u8) OR push_bit 8 (ucast (ucast (drop_bit 8 v) :: u8)) OR push_bit 16 (ucast (ucast (drop_bit 16 v) :: u8)) OR
      push_bit 24 (ucast (ucast (drop_bit 24 v) :: u8)) :: u32) n = bit v n"
    by cases (auto simp: bit_simps)
qed

end
