(* ===== verification/Image_Stream.thy ===== *)
theory Image_Stream
  imports Image_Base
begin

text \<open>
  Where the image decoders read from, \<open>libs/devkit_image/src/stream.rs\<close>: a stream, and the reader that
  buffers it. A stream is modelled by its bytes, its position, how many bytes a read gives at a position
  (at least one before the end), and whether it can seek; a failing source is one that ends there, as the
  reader takes it. \<open>slice_stream\<close> is an image in memory. The reader is shown to be a cursor in the bytes,
  whatever the reads of the stream give.
\<close>

section \<open>Streams\<close>

record stream =
  sm_data :: "u8 list"
  sm_pos :: nat
  sm_gives :: "nat \<Rightarrow> nat"
  sm_seeks :: bool

definition slice_stream :: "u8 list \<Rightarrow> stream" where
  "slice_stream data = \<lparr>sm_data = data, sm_pos = 0, sm_gives = (\<lambda>_. length data), sm_seeks = True\<rparr>"

definition stream_read :: "stream \<Rightarrow> nat \<Rightarrow> u8 list \<times> stream" where
  "stream_read s n =
     (let rest = drop (sm_pos s) (sm_data s);
          n = min (length rest) (min n (max 1 (sm_gives s (sm_pos s))))
      in (take n rest, s\<lparr>sm_pos := sm_pos s + n\<rparr>))"

definition stream_seek :: "stream \<Rightarrow> nat \<Rightarrow> (image_error, unit) res \<times> stream" where
  "stream_seek s pos =
     (if \<not> sm_seeks s then (Err ImgUnsupported, s)
      else if length (sm_data s) < pos then (Err ImgIo, s)
      else (Ok (), s\<lparr>sm_pos := pos\<rparr>))"

section \<open>The reader\<close>

definition READER_WINDOW :: nat where "READER_WINDOW = 32768"

text \<open>\<open>rd_buf\<close> is \<open>buf[..len]\<close>.\<close>

record reader =
  rd_src :: stream
  rd_buf :: "u8 list"
  rd_pos :: nat
  rd_end :: nat

definition reader_new :: "stream \<Rightarrow> reader" where
  "reader_new src = \<lparr>rd_src = src, rd_buf = [], rd_pos = 0, rd_end = 0\<rparr>"

definition reader_fill :: "reader \<Rightarrow> nat \<times> reader" where
  "reader_fill r =
     (let (got, src) = stream_read (rd_src r) READER_WINDOW
      in (length got, r\<lparr>rd_src := src, rd_end := rd_end r + length got, rd_pos := 0, rd_buf := got\<rparr>))"

text \<open>The loop of \<open>read\<close>, for \<open>n\<close> bytes that are still missing; the position never exceeds the length.\<close>

definition reader_next :: "reader \<Rightarrow> reader" where
  "reader_next r = (if rd_pos r = length (rd_buf r) then snd (reader_fill r) else r)"

function reader_read :: "reader \<Rightarrow> nat \<Rightarrow> u8 list \<times> reader" where
  "reader_read r n =
     (if n = 0 then ([], r)
      else let r = reader_next r in
        if length (rd_buf r) \<le> rd_pos r then ([], r)
        else let k = min (length (rd_buf r) - rd_pos r) n;
                 (bs, r') = reader_read (r\<lparr>rd_pos := rd_pos r + k\<rparr>) (n - k)
             in (take k (drop (rd_pos r) (rd_buf r)) @ bs, r'))"
  by pat_completeness auto
termination by (relation "measure snd") auto

declare reader_read.simps [simp del]

definition reader_read_exact :: "reader \<Rightarrow> nat \<Rightarrow> bool \<times> u8 list \<times> reader" where
  "reader_read_exact r n = (let (bs, r) = reader_read r n in (length bs = n, bs, r))"

definition reader_byte :: "reader \<Rightarrow> u8 option \<times> reader" where
  "reader_byte r =
     (let r = (if length (rd_buf r) \<le> rd_pos r then snd (reader_fill r) else r)
      in if length (rd_buf r) \<le> rd_pos r then (None, r)
         else (Some (rd_buf r ! rd_pos r), r\<lparr>rd_pos := rd_pos r + 1\<rparr>))"

definition reader_tell :: "reader \<Rightarrow> nat" where
  "reader_tell r = rd_end r - length (rd_buf r) + rd_pos r"

function reader_skip :: "reader \<Rightarrow> nat \<Rightarrow> bool \<times> reader" where
  "reader_skip r n =
     (if n = 0 then (True, r)
      else let k = min n 64; (ok, _, r) = reader_read_exact r k
           in if \<not> ok then (False, r) else reader_skip r (n - k))"
  by pat_completeness auto
termination by (relation "measure snd") auto

declare reader_skip.simps [simp del]

definition reader_seek :: "reader \<Rightarrow> nat \<Rightarrow> bool \<times> reader" where
  "reader_seek r pos =
     (let start = rd_end r - length (rd_buf r) in
      if start \<le> pos \<and> pos \<le> rd_end r then (True, r\<lparr>rd_pos := pos - start\<rparr>)
      else if sm_seeks (rd_src r) then
        (case stream_seek (rd_src r) pos of
           (Err _, src) \<Rightarrow> (False, r\<lparr>rd_src := src\<rparr>)
         | (Ok _, src) \<Rightarrow> (True, r\<lparr>rd_src := src, rd_buf := [], rd_pos := 0, rd_end := pos\<rparr>))
      else if pos < rd_end r then (False, r)
      else reader_skip r (pos - reader_tell r))"

section \<open>The reader is a cursor\<close>

definition cursor_ok :: "reader \<Rightarrow> bool" where
  "cursor_ok r \<longleftrightarrow> rd_pos r \<le> length (rd_buf r) \<and> length (rd_buf r) \<le> rd_end r \<and> sm_pos (rd_src r) = rd_end r \<and>
     rd_end r \<le> length (sm_data (rd_src r)) \<and>
     take (length (rd_buf r)) (drop (rd_end r - length (rd_buf r)) (sm_data (rd_src r))) = rd_buf r"

definition reader_data :: "reader \<Rightarrow> u8 list" where
  "reader_data r = sm_data (rd_src r)"

definition reader_rest :: "reader \<Rightarrow> u8 list" where
  "reader_rest r = drop (reader_tell r) (reader_data r)"

definition same_stream :: "reader \<Rightarrow> reader \<Rightarrow> bool" where
  "same_stream r r' \<longleftrightarrow> reader_data r' = reader_data r \<and> sm_seeks (rd_src r') = sm_seeks (rd_src r)"

lemma same_stream_refl [simp]: "same_stream r r" by (simp add: same_stream_def)

lemma same_stream_trans: "same_stream a b \<Longrightarrow> same_stream b c \<Longrightarrow> same_stream a c" by (simp add: same_stream_def)

lemma reader_new_ok [simp]: "sm_pos s = 0 \<Longrightarrow> cursor_ok (reader_new s)" "reader_tell (reader_new s) = 0" "reader_data (reader_new s) = sm_data s"
  by (simp_all add: cursor_ok_def reader_new_def reader_tell_def reader_data_def)

lemma reader_fill_ok:
  assumes "cursor_ok r" "rd_pos r = length (rd_buf r)" "reader_fill r = (n, r')"
  shows "cursor_ok r' \<and> same_stream r r' \<and> reader_tell r' = reader_tell r \<and> rd_pos r' = 0 \<and> n = length (rd_buf r') \<and>
    (n = 0 \<longrightarrow> reader_rest r = [])"
  using assms
  by (auto simp: reader_fill_def stream_read_def Let_def cursor_ok_def same_stream_def reader_data_def reader_tell_def reader_rest_def
      READER_WINDOW_def min_def split: if_splits)

lemma reader_next_ok:
  assumes "cursor_ok r"
  shows "cursor_ok (reader_next r) \<and> same_stream r (reader_next r) \<and> reader_tell (reader_next r) = reader_tell r \<and>
    (length (rd_buf (reader_next r)) \<le> rd_pos (reader_next r) \<longrightarrow> reader_rest r = [])"
proof (cases "rd_pos r = length (rd_buf r)")
  case True
  obtain n r' where "reader_fill r = (n, r')" by fastforce
  then show ?thesis using reader_fill_ok [OF assms True] True by (simp add: reader_next_def)
next
  case False
  then show ?thesis using assms by (simp add: reader_next_def cursor_ok_def)
qed

lemma buf_is_rest:
  assumes "cursor_ok r" "rd_pos r + k \<le> length (rd_buf r)"
  shows "take k (drop (rd_pos r) (rd_buf r)) = take k (reader_rest r) \<and> k \<le> length (reader_rest r) \<and> cursor_ok (r\<lparr>rd_pos := rd_pos r + k\<rparr>) \<and>
    reader_tell (r\<lparr>rd_pos := rd_pos r + k\<rparr>) = reader_tell r + k"
proof -
  let ?n = "length (rd_buf r)" and ?s = "rd_end r - length (rd_buf r)"
  have buf: "take ?n (drop ?s (reader_data r)) = rd_buf r" and le: "?n \<le> rd_end r" "rd_end r \<le> length (reader_data r)"
    using assms(1) by (simp_all add: cursor_ok_def reader_data_def)
  have "drop (rd_pos r) (rd_buf r) = take (?n - rd_pos r) (drop (rd_pos r) (drop ?s (reader_data r)))"
    by (simp only: buf flip: drop_take)
  then have "take k (drop (rd_pos r) (rd_buf r)) = take k (reader_rest r)"
    using assms(2) by (simp add: reader_rest_def reader_tell_def min_def add.commute)
  moreover have "k \<le> length (reader_rest r)" using assms(2) le by (simp add: reader_rest_def reader_tell_def)
  ultimately show ?thesis using assms by (simp add: cursor_ok_def reader_tell_def)
qed

lemma min_in_two: "k \<le> n \<Longrightarrow> k \<le> l \<Longrightarrow> k + min (n - k) (l - k) = min n l" for k :: nat
  by simp

lemma reader_read_ok:
  "cursor_ok r \<Longrightarrow> \<exists>r'. reader_read r n = (take n (reader_rest r), r') \<and> cursor_ok r' \<and> same_stream r r' \<and>
    reader_tell r' = reader_tell r + min n (length (reader_rest r))"
proof (induction r n rule: reader_read.induct)
  case (1 r n)
  let ?r = "reader_next r"
  have nx: "cursor_ok ?r" "same_stream r ?r" "reader_tell ?r = reader_tell r"
    "length (rd_buf ?r) \<le> rd_pos ?r \<longrightarrow> reader_rest r = []"
    using reader_next_ok [OF "1.prems"] by simp_all
  have rest: "reader_rest ?r = reader_rest r" using nx by (simp add: reader_rest_def same_stream_def)
  consider "n = 0" | "0 < n" "length (rd_buf ?r) \<le> rd_pos ?r" | "0 < n" "rd_pos ?r < length (rd_buf ?r)" by linarith
  then show ?case
  proof cases
    case 1
    then show ?thesis using "1.prems" by (simp add: reader_read.simps [of r 0])
  next
    case 2
    then show ?thesis using nx by (simp add: reader_read.simps [of r n] Let_def)
  next
    case 3
    let ?k = "min (length (rd_buf ?r) - rd_pos ?r) n"
    let ?s = "?r\<lparr>rd_pos := rd_pos ?r + ?k\<rparr>"
    have buf: "take ?k (drop (rd_pos ?r) (rd_buf ?r)) = take ?k (reader_rest r)" "?k \<le> length (reader_rest r)" "cursor_ok ?s"
      "reader_tell ?s = reader_tell r + ?k" "same_stream r ?s"
      using buf_is_rest [OF nx(1), of ?k] 3 rest nx by (simp_all add: same_stream_def reader_data_def)
    obtain r' where r': "reader_read ?s (n - ?k) = (take (n - ?k) (reader_rest ?s), r')" "cursor_ok r'" "same_stream ?s r'"
      "reader_tell r' = reader_tell ?s + min (n - ?k) (length (reader_rest ?s))"
      using "1.IH" [OF _ refl _ refl buf(3)] 3 by auto
    have s: "reader_rest ?s = drop ?k (reader_rest r)"
      using buf(4,5) by (simp add: reader_rest_def same_stream_def add.commute)
    have "take ?k (reader_rest r) @ take (n - ?k) (drop ?k (reader_rest r)) = take n (reader_rest r)"
      by (metis le_add_diff_inverse min.cobounded2 take_add)
    then have all: "take ?k (drop (rd_pos ?r) (rd_buf ?r)) @ take (n - ?k) (reader_rest ?s) = take n (reader_rest r)"
      by (simp only: buf(1) s)
    have eq: "reader_read r n = (take ?k (drop (rd_pos ?r) (rd_buf ?r)) @ take (n - ?k) (reader_rest ?s), r')"
    proof -
      have c: "(n = 0) = False" "(length (rd_buf ?r) \<le> rd_pos ?r) = False" using 3 by simp_all
      show ?thesis by (subst reader_read.simps) (simp only: c if_False Let_def r'(1) prod.case)
    qed
    have "reader_tell r' = reader_tell r + min n (length (reader_rest r))"
      using r'(4) min_in_two [OF min.cobounded2 buf(2)] unfolding buf(4) s length_drop add.assoc by (rule trans [OF _ arg_cong])
    then show ?thesis using eq all r'(2) same_stream_trans [OF buf(5) r'(3)] by metis
  qed
qed

lemma rest_after:
  "same_stream r r' \<Longrightarrow> reader_tell r' = reader_tell r + k \<Longrightarrow> reader_rest r' = drop k (reader_rest r)"
  by (simp add: reader_rest_def same_stream_def add.commute)

lemma reader_read_rest:
  assumes "cursor_ok r"
  obtains r' where "reader_read r n = (take n (reader_rest r), r')" "cursor_ok r'" "same_stream r r'"
    "reader_tell r' = reader_tell r + min n (length (reader_rest r))" "reader_rest r' = drop n (reader_rest r)"
proof -
  obtain r' where r': "reader_read r n = (take n (reader_rest r), r')" "cursor_ok r'" "same_stream r r'"
      "reader_tell r' = reader_tell r + min n (length (reader_rest r))"
    using reader_read_ok [OF assms] by blast
  moreover have "reader_rest r' = drop n (reader_rest r)" using rest_after [OF r'(3,4)] by (simp add: min_def)
  ultimately show thesis using that by blast
qed

lemma reader_exact_rest:
  assumes "cursor_ok r"
  obtains r' where "reader_read_exact r n = (n \<le> length (reader_rest r), take n (reader_rest r), r')" "cursor_ok r'" "same_stream r r'"
    "reader_tell r' = reader_tell r + min n (length (reader_rest r))" "reader_rest r' = drop n (reader_rest r)"
proof -
  obtain r' where "reader_read r n = (take n (reader_rest r), r')" "cursor_ok r'" "same_stream r r'"
      "reader_tell r' = reader_tell r + min n (length (reader_rest r))" "reader_rest r' = drop n (reader_rest r)"
    using reader_read_rest [OF assms] by blast
  moreover have "(length (take n (reader_rest r)) = n) = (n \<le> length (reader_rest r))" by auto
  ultimately show thesis using that [of r'] by (simp only: reader_read_exact_def Let_def prod.case)
qed

lemma reader_byte_rest:
  assumes "cursor_ok r"
  obtains r' where "reader_byte r = (case reader_rest r of [] \<Rightarrow> None | b # _ \<Rightarrow> Some b, r')" "cursor_ok r'" "same_stream r r'"
    "reader_tell r' = reader_tell r + min 1 (length (reader_rest r))" "reader_rest r' = drop 1 (reader_rest r)"
proof -
  let ?r = "reader_next r"
  have nx: "cursor_ok ?r" "same_stream r ?r" "reader_tell ?r = reader_tell r"
    "length (rd_buf ?r) \<le> rd_pos ?r \<longrightarrow> reader_rest r = []"
    using reader_next_ok [OF assms] by simp_all
  have "rd_pos r \<le> length (rd_buf r)" using assms by (simp add: cursor_ok_def)
  then have eq: "reader_byte r = (if length (rd_buf ?r) \<le> rd_pos ?r then (None, ?r) else (Some (rd_buf ?r ! rd_pos ?r), ?r\<lparr>rd_pos := rd_pos ?r + 1\<rparr>))"
    by (auto simp: reader_byte_def reader_next_def Let_def)
  have rest: "reader_rest ?r = reader_rest r" using rest_after [OF nx(2), of 0] nx(3) by simp
  show thesis
  proof (cases "length (rd_buf ?r) \<le> rd_pos ?r")
    case True
    then have "reader_rest r = []" using nx(4) by simp
    then show ?thesis using that [of ?r] True nx eq rest by simp
  next
    case False
    let ?s = "?r\<lparr>rd_pos := rd_pos ?r + 1\<rparr>"
    have b: "take 1 (drop (rd_pos ?r) (rd_buf ?r)) = take 1 (reader_rest r)" "1 \<le> length (reader_rest r)" "cursor_ok ?s"
        "reader_tell ?s = reader_tell r + 1"
      using buf_is_rest [OF nx(1), of 1] False rest nx(3) by simp_all
    have s: "same_stream r ?s" using nx(2) by (simp add: same_stream_def reader_data_def)
    obtain c cs where c: "reader_rest r = c # cs" using b(2) by (cases "reader_rest r") simp_all
    have "rd_buf ?r ! rd_pos ?r = c" using b(1) c False by (simp add: take_Suc_conv_app_nth [of 0, simplified] hd_drop_conv_nth take_Suc)
    then show ?thesis using that [of ?s] False eq b c s rest_after [OF s b(4)] by simp
  qed
qed

lemma reader_skip_rest:
  assumes "cursor_ok r"
  shows "\<exists>r'. reader_skip r n = (n \<le> length (reader_rest r), r') \<and> cursor_ok r' \<and> same_stream r r' \<and>
    reader_tell r' = reader_tell r + min n (length (reader_rest r))"
  using assms
proof (induction r n rule: reader_skip.induct)
  case (1 r n)
  show ?case
  proof (cases "n = 0")
    case True
    then show ?thesis using "1.prems" by (simp add: reader_skip.simps [of r 0])
  next
    case False
    let ?k = "min n 64"
    obtain r' where r': "reader_read_exact r ?k = (?k \<le> length (reader_rest r), take ?k (reader_rest r), r')" "cursor_ok r'" "same_stream r r'"
        "reader_tell r' = reader_tell r + min ?k (length (reader_rest r))" "reader_rest r' = drop ?k (reader_rest r)"
      using reader_exact_rest [OF "1.prems"] by blast
    show ?thesis
    proof (cases "?k \<le> length (reader_rest r)")
      case False
      then show ?thesis using \<open>n \<noteq> 0\<close> r' by (auto simp: reader_skip.simps [of r n] Let_def)
    next
      case True
      obtain r2 where "reader_skip r' (n - ?k) = (n - ?k \<le> length (reader_rest r'), r2)" "cursor_ok r2" "same_stream r' r2"
          "reader_tell r2 = reader_tell r' + min (n - ?k) (length (reader_rest r'))"
        using "1.IH" [OF \<open>n \<noteq> 0\<close> refl refl r'(1) [symmetric] refl _ r'(2)] True by auto
      note r2 = this
      have "n - ?k \<le> length (reader_rest r) - ?k \<longleftrightarrow> n \<le> length (reader_rest r)" using True by linarith
      then have eq: "reader_skip r n = (n \<le> length (reader_rest r), r2)"
        by (subst reader_skip.simps) (use \<open>n \<noteq> 0\<close> True in \<open>simp only: r'(1,5) r2(1) if_False Let_def prod.case length_drop not_True_eq_False\<close>)
      have "reader_tell r2 = reader_tell r + min n (length (reader_rest r))"
        using r2(4) min_in_two [OF min.cobounded1 True] True unfolding r'(4,5) length_drop min_absorb1 [OF True] by linarith
      then show ?thesis using eq r2(2) same_stream_trans [OF r'(3) r2(3)] by metis
    qed
  qed
qed

lemma reader_seek_rest:
  assumes "cursor_ok r" "sm_seeks (rd_src r)"
  shows "\<exists>r'. reader_seek r pos = (pos \<le> length (reader_data r), r') \<and> cursor_ok r' \<and> same_stream r r' \<and>
    reader_tell r' = (if pos \<le> length (reader_data r) then pos else reader_tell r)"
  using assms
  by (auto simp: reader_seek_def Let_def stream_seek_def cursor_ok_def same_stream_def reader_data_def reader_tell_def)

section \<open>Runs\<close>

datatype reader_op = Read_op nat | Byte_op | Skip_op nat | Seek_op nat | Tell_op
datatype reader_answer = Bytes "u8 list" | Flag bool | Position nat

fun reader_do :: "reader_op \<Rightarrow> reader \<Rightarrow> reader_answer \<times> reader" where
  "reader_do (Read_op n) r = (case reader_read r n of (bs, r) \<Rightarrow> (Bytes bs, r))"
| "reader_do Byte_op r = (case reader_byte r of (b, r) \<Rightarrow> (Bytes (case b of None \<Rightarrow> [] | Some c \<Rightarrow> [c]), r))"
| "reader_do (Skip_op n) r = (case reader_skip r n of (ok, r) \<Rightarrow> (Flag ok, r))"
| "reader_do (Seek_op pos) r = (case reader_seek r pos of (ok, r) \<Rightarrow> (Flag ok, r))"
| "reader_do Tell_op r = (Position (reader_tell r), r)"

text \<open>The same on a position in the bytes.\<close>

fun cursor_do :: "u8 list \<Rightarrow> reader_op \<Rightarrow> nat \<Rightarrow> reader_answer \<times> nat" where
  "cursor_do data (Read_op n) p = (Bytes (take n (drop p data)), min (p + n) (length data))"
| "cursor_do data Byte_op p = (Bytes (take 1 (drop p data)), min (p + 1) (length data))"
| "cursor_do data (Skip_op n) p = (Flag (p + n \<le> length data), min (p + n) (length data))"
| "cursor_do data (Seek_op pos) p = (Flag (pos \<le> length data), if pos \<le> length data then pos else p)"
| "cursor_do data Tell_op p = (Position p, p)"

fun reader_run :: "reader_op list \<Rightarrow> reader \<Rightarrow> reader_answer list" where
  "reader_run [] r = []"
| "reader_run (x # ops) r = (case reader_do x r of (a, r) \<Rightarrow> a # reader_run ops r)"

fun cursor_run :: "u8 list \<Rightarrow> reader_op list \<Rightarrow> nat \<Rightarrow> reader_answer list" where
  "cursor_run data [] p = []"
| "cursor_run data (x # ops) p = (case cursor_do data x p of (a, p) \<Rightarrow> a # cursor_run data ops p)"

lemma tell_le: "cursor_ok r \<Longrightarrow> reader_tell r \<le> length (reader_data r)"
  by (auto simp: cursor_ok_def reader_tell_def reader_data_def)

lemma reader_do_cursor:
  assumes "cursor_ok r" "sm_seeks (rd_src r)"
  shows "\<exists>r'. reader_do x r = (fst (cursor_do (reader_data r) x (reader_tell r)), r') \<and> cursor_ok r' \<and> same_stream r r' \<and>
    reader_tell r' = snd (cursor_do (reader_data r) x (reader_tell r))"
proof -
  have le: "reader_tell r \<le> length (reader_data r)" by (rule tell_le [OF assms(1)])
  have len: "length (reader_rest r) = length (reader_data r) - reader_tell r" by (simp add: reader_rest_def)
  show ?thesis
  proof (cases x)
    case (Read_op n)
    obtain r' where "reader_read r n = (take n (reader_rest r), r')" "cursor_ok r'" "same_stream r r'"
        "reader_tell r' = reader_tell r + min n (length (reader_rest r))"
      using reader_read_ok [OF assms(1)] by blast
    then show ?thesis using Read_op le len by (auto simp: reader_rest_def)
  next
    case Byte_op
    obtain r' where "reader_byte r = (case reader_rest r of [] \<Rightarrow> None | b # _ \<Rightarrow> Some b, r')" "cursor_ok r'" "same_stream r r'"
        "reader_tell r' = reader_tell r + min 1 (length (reader_rest r))"
      using reader_byte_rest [OF assms(1)] by metis
    then show ?thesis using Byte_op le len unfolding reader_rest_def
      by (cases "drop (reader_tell r) (reader_data r)") auto
  next
    case (Skip_op n)
    then show ?thesis using reader_skip_rest [OF assms(1), of n] le len by (auto simp: min_def)
  next
    case (Seek_op pos)
    then show ?thesis using reader_seek_rest [OF assms, of pos] by auto
  next
    case Tell_op
    then show ?thesis using assms(1) by simp
  qed
qed

lemma reader_run_cursor:
  "cursor_ok r \<Longrightarrow> sm_seeks (rd_src r) \<Longrightarrow> reader_run ops r = cursor_run (reader_data r) ops (reader_tell r)"
proof (induction ops arbitrary: r)
  case (Cons x ops)
  obtain r' where r': "reader_do x r = (fst (cursor_do (reader_data r) x (reader_tell r)), r')" "cursor_ok r'" "same_stream r r'"
      "reader_tell r' = snd (cursor_do (reader_data r) x (reader_tell r))"
    using reader_do_cursor [OF Cons.prems] by blast
  then show ?case using Cons.IH [of r'] Cons.prems by (auto simp: same_stream_def split: prod.split)
qed simp

section \<open>Properties\<close>



end
