(* ===== verification/Source_Input.thy ===== *)
theory Source_Input
  imports Base
begin

text \<open>
  The input of the decompressors (devkit_compression/src/lib.rs and bits.rs). A \<open>Source\<close> feeds blocks;
  \<open>Input\<close> hands out their bytes one by one and gives back what it did not use when it is dropped.
  A \<open>dyn Source\<close> is its table of operations and its state. The locale \<open>source_contract\<close> states what a
  source promises; in it, the bytes of an input are shown to be the bytes of the source, whatever the
  blocks are. It is interpreted on slices, which are the source of lib.rs, and on the sources that hand
  out given blocks and then end or fail, which the decompressors are modelled with.
\<close>

section \<open>Errors, and functions that change a state\<close>

datatype codec_error = Corrupt | Truncated | Source_error | NotStarted

text \<open>The \<open>?\<close> of a function that changes a state: an error keeps the state it left behind.\<close>

definition on_ok ::
  "(('e, 'a) res \<times> 's) option \<Rightarrow> ('a \<Rightarrow> 's \<Rightarrow> (('e, 'b) res \<times> 't) option) \<Rightarrow> ('e \<Rightarrow> 's \<Rightarrow> 't) \<Rightarrow>
   (('e, 'b) res \<times> 't) option" where
  "on_ok m f g = (case m of None \<Rightarrow> None | Some (Ok x, s) \<Rightarrow> f x s | Some (Err e, s) \<Rightarrow> Some (Err e, g e s))"

abbreviation and_then ::
  "(('e, 'a) res \<times> 's) option \<Rightarrow> ('a \<Rightarrow> 's \<Rightarrow> (('e, 'b) res \<times> 's) option) \<Rightarrow> (('e, 'b) res \<times> 's) option" where
  "and_then m f \<equiv> on_ok m f (\<lambda>_ s. s)"

lemma on_ok_simps [simp]:
  "on_ok None f g = None" "on_ok (Some (Ok x, s)) f g = f x s" "on_ok (Some (Err e, s)) f g = Some (Err e, g e s)"
  by (simp_all add: on_ok_def)

lemma on_ok_Ok: "on_ok m f g = Some (Ok y, t) \<longleftrightarrow> (\<exists>x s. m = Some (Ok x, s) \<and> f x s = Some (Ok y, t))"
  by (auto simp: on_ok_def split: option.splits res.splits)

lemma on_ok_cong [fundef_cong]:
  "m = m' \<Longrightarrow> (\<And>x s. m' = Some (Ok x, s) \<Longrightarrow> f x s = f' x s) \<Longrightarrow> (\<And>e s. m' = Some (Err e, s) \<Longrightarrow> g e s = g' e s) \<Longrightarrow>
   on_ok m f g = on_ok m' f' g'"
  by (auto simp: on_ok_def split: option.splits res.splits)

lemma on_ok_total:
  assumes "m = Some (r, s)" and "\<And>x. r = Ok x \<Longrightarrow> \<exists>q t. f x s = Some (q, t) \<and> P q t"
    and "\<And>e. r = Err e \<Longrightarrow> P (Err e) (g e s)"
  shows "\<exists>q t. on_ok m f g = Some (q, t) \<and> P q t"
  using assms by (cases r) auto

text \<open>Arrays of fixed size: an index out of range panics (with \<open>get_unchecked\<close>, it is undefined).\<close>

definition arr_get :: "'a list \<Rightarrow> nat \<Rightarrow> 'a option" where
  "arr_get xs i = (if i < length xs then Some (xs ! i) else None)"

definition arr_set :: "'a list \<Rightarrow> nat \<Rightarrow> 'a \<Rightarrow> 'a list option" where
  "arr_set xs i v = (if i < length xs then Some (xs[i := v]) else None)"

lemma arr_get_in [simp]: "i < length xs \<Longrightarrow> arr_get xs i = Some (xs ! i)"
  by (simp add: arr_get_def)

lemma arr_set_in [simp]: "i < length xs \<Longrightarrow> arr_set xs i v = Some (xs[i := v])"
  by (simp add: arr_set_def)

section \<open>Sources\<close>

record 's source_ops =
  fill_buf :: "'s \<Rightarrow> (codec_error, u8 list) res \<times> 's"
  consume :: "'s \<Rightarrow> nat \<Rightarrow> 's option"

text \<open>\<open>impl Source for &[u8]\<close>: all that is left is one block.\<close>

definition slice_ops :: "u8 list source_ops" where
  "slice_ops = \<lparr>fill_buf = (\<lambda>s. (Ok s, s)), consume = (\<lambda>s n. slice s n (length s))\<rparr>"

text \<open>A source that hands out the given blocks, and then ends or fails.\<close>

record block_source =
  sr_blocks :: "u8 list list"
  sr_end :: "codec_error option"

definition block_fill :: "block_source \<Rightarrow> (codec_error, u8 list) res \<times> block_source" where
  "block_fill s =
     (case dropWhile (\<lambda>b. b = []) (sr_blocks s) of
        [] \<Rightarrow> (case sr_end s of None \<Rightarrow> Ok [] | Some e \<Rightarrow> Err e, s\<lparr>sr_blocks := []\<rparr>)
      | b # bs \<Rightarrow> (Ok b, s\<lparr>sr_blocks := b # bs\<rparr>))"

definition block_consume :: "block_source \<Rightarrow> nat \<Rightarrow> block_source option" where
  "block_consume s n =
     (case sr_blocks s of
        [] \<Rightarrow> if n = 0 then Some s else None
      | b # bs \<Rightarrow> do { rest \<leftarrow> slice b n (length b); Some (s\<lparr>sr_blocks := rest # bs\<rparr>) })"

definition block_ops :: "block_source source_ops" where
  "block_ops = \<lparr>fill_buf = block_fill, consume = block_consume\<rparr>"

section \<open>The input\<close>

text \<open>\<open>in_used\<close> is \<open>ptr - start\<close>, \<open>in_rest\<close> the bytes from \<open>ptr\<close> to \<open>end\<close>.\<close>

record 's input =
  in_src :: 's
  in_used :: nat
  in_rest :: "u8 list"
  in_padding :: nat

definition MAX_PADDING :: nat where "MAX_PADDING = 4"

definition input_new :: "'s \<Rightarrow> nat \<Rightarrow> 's input" where
  "input_new src padding = \<lparr>in_src = src, in_used = 0, in_rest = [], in_padding = padding\<rparr>"

definition input_release :: "'s source_ops \<Rightarrow> 's input \<Rightarrow> 's input option" where
  "input_release ops i =
     (if in_used i \<noteq> 0 then do {
        s \<leftarrow> consume ops (in_src i) (in_used i);
        Some (i\<lparr>in_src := s, in_used := 0\<rparr>)
      }
      else Some i)"

definition input_refill :: "'s source_ops \<Rightarrow> 's input \<Rightarrow> ((codec_error, u8 option) res \<times> 's input) option" where
  "input_refill ops i = do {
     i \<leftarrow> input_release ops i;
     (case fill_buf ops (in_src i) of
        (Err e, s) \<Rightarrow> Some (Err e, i\<lparr>in_src := s\<rparr>)
      | (Ok [], s) \<Rightarrow> Some (Ok None, i\<lparr>in_src := s\<rparr>)
      | (Ok (b # bs), s) \<Rightarrow> Some (Ok (Some b), i\<lparr>in_src := s, in_used := 1, in_rest := bs\<rparr>))
   }"

definition input_byte :: "'s source_ops \<Rightarrow> 's input \<Rightarrow> ((codec_error, u8 option) res \<times> 's input) option" where
  "input_byte ops i =
     (case in_rest i of
        [] \<Rightarrow> input_refill ops i
      | b # bs \<Rightarrow> Some (Ok (Some b), i\<lparr>in_used := in_used i + 1, in_rest := bs\<rparr>))"

definition input_pad :: "'s input \<Rightarrow> (codec_error, u32) res \<times> 's input" where
  "input_pad i =
     (let i = i\<lparr>in_padding := in_padding i + 1\<rparr>
      in (if MAX_PADDING < in_padding i then Err Truncated else Ok 0, i))"

definition input_byte_or_zero :: "'s source_ops \<Rightarrow> 's input \<Rightarrow> ((codec_error, u32) res \<times> 's input) option" where
  "input_byte_or_zero ops i =
     and_then (input_byte ops i) (\<lambda>b i. case b of Some b \<Rightarrow> Some (Ok (ucast b), i) | None \<Rightarrow> Some (input_pad i))"

definition input_eof :: "'s input \<Rightarrow> bool" where
  "input_eof i \<longleftrightarrow> in_padding i \<noteq> 0"

text \<open>Dropping the input gives the source back.\<close>

definition input_drop :: "'s source_ops \<Rightarrow> 's input \<Rightarrow> 's option" where
  "input_drop ops i = map_option in_src (input_release ops i)"

section \<open>The contract of a source\<close>

text \<open>\<open>content\<close> is what the source has still to give, \<open>ending\<close> what comes after it, and \<open>handed\<close> how many
  bytes of the last block may be consumed.\<close>

definition input_left :: "('s \<Rightarrow> u8 list) \<Rightarrow> 's input \<Rightarrow> u8 list" where
  "input_left content i = drop (in_used i) (content (in_src i))"

definition input_ok :: "('s \<Rightarrow> u8 list) \<Rightarrow> ('s \<Rightarrow> nat) \<Rightarrow> 's input \<Rightarrow> bool" where
  "input_ok content handed i \<longleftrightarrow>
     in_used i + length (in_rest i) \<le> handed (in_src i) \<and> handed (in_src i) \<le> length (content (in_src i)) \<and>
     (\<exists>rest. input_left content i = in_rest i @ rest) \<and>
     (in_used i = 0 \<longrightarrow> in_rest i = [])"

locale source_contract =
  fixes ops :: "'s source_ops"
    and content :: "'s \<Rightarrow> u8 list"
    and ending :: "'s \<Rightarrow> codec_error option"
    and handed :: "'s \<Rightarrow> nat"
  assumes fill_law:
      "fill_buf ops s = (r, s') \<Longrightarrow> content s' = content s \<and> ending s' = ending s \<and> handed s' \<le> length (content s') \<and>
       (case r of
          Ok b \<Rightarrow> handed s' = length b \<and> (\<exists>rest. content s = b @ rest) \<and> (b = [] \<longrightarrow> content s = [] \<and> ending s = None)
        | Err e \<Rightarrow> content s = [] \<and> ending s = Some e)"
    and consume_law:
      "n \<le> handed s \<Longrightarrow> handed s \<le> length (content s) \<Longrightarrow>
       \<exists>s'. consume ops s n = Some s' \<and> content s' = drop n (content s) \<and> ending s' = ending s \<and> handed s' = handed s - n"
begin

lemma release_ok:
  assumes "input_ok content handed i"
  shows "\<exists>i'. input_release ops i = Some i' \<and> in_used i' = 0 \<and> in_rest i' = in_rest i \<and> in_padding i' = in_padding i \<and>
    content (in_src i') = input_left content i \<and> ending (in_src i') = ending (in_src i)"
proof (cases "in_used i = 0")
  case True
  then show ?thesis by (simp add: input_release_def input_left_def)
next
  case False
  obtain s where "consume ops (in_src i) (in_used i) = Some s" "content s = input_left content i" "ending s = ending (in_src i)"
    using consume_law [of "in_used i" "in_src i"] assms by (auto simp: input_ok_def input_left_def)
  then show ?thesis using False by (simp add: input_release_def)
qed

text \<open>A byte of the input is the next byte of the source, whatever the blocks are.\<close>

lemma byte_ok:
  assumes "input_ok content handed i"
  shows "\<exists>r i'. input_byte ops i = Some (r, i') \<and> input_ok content handed i' \<and> in_padding i' = in_padding i \<and>
    ending (in_src i') = ending (in_src i) \<and>
    (case input_left content i of
       [] \<Rightarrow> input_left content i' = [] \<and> r = (case ending (in_src i) of None \<Rightarrow> Ok None | Some e \<Rightarrow> Err e)
     | b # bs \<Rightarrow> input_left content i' = bs \<and> r = Ok (Some b))"
proof (cases "in_rest i")
  case Nil
  obtain j where j: "input_release ops i = Some j" "in_used j = 0" "in_rest j = []" "in_padding j = in_padding i"
      "content (in_src j) = input_left content i" "ending (in_src j) = ending (in_src i)"
    using release_ok [OF assms] Nil by auto
  obtain r s where f: "fill_buf ops (in_src j) = (r, s)" by fastforce
  note law = fill_law [OF f]
  show ?thesis
  proof (cases r)
    case (Err e)
    have "content s = []" "handed s = 0" using law Err by auto
    then show ?thesis using Nil Err j f law
      by (simp add: input_byte_def input_refill_def input_ok_def input_left_def)
  next
    case (Ok b)
    show ?thesis
    proof (cases b)
      case Nil
      then show ?thesis using \<open>in_rest i = []\<close> Ok j f law
        by (simp add: input_byte_def input_refill_def input_ok_def input_left_def)
    next
      case (Cons x xs)
      obtain rest where whole: "content s = x # xs @ rest" using law Ok Cons by auto
      have left: "input_left content i = x # xs @ rest" using law j(5) whole by simp
      let ?j = "j\<lparr>in_src := s, in_used := 1, in_rest := xs\<rparr>"
      have byte: "input_byte ops i = Some (Ok (Some x), ?j)"
        using \<open>in_rest i = []\<close> Ok Cons j f by (simp add: input_byte_def input_refill_def)
      have "input_left content ?j = xs @ rest" using whole by (simp add: input_left_def)
      moreover have "handed s = Suc (length xs)" using law Ok Cons by simp
      then have "input_ok content handed ?j" using whole by (simp add: input_ok_def input_left_def)
      ultimately show ?thesis using byte left law j by simp
    qed
  qed
next
  case (Cons b bs)
  obtain rest where left: "drop (in_used i) (content (in_src i)) = b # bs @ rest"
    using assms Cons by (auto simp: input_ok_def input_left_def)
  then have "drop (Suc (in_used i)) (content (in_src i)) = bs @ rest" by (metis drop_Suc list.sel(3) tl_drop)
  then show ?thesis using Cons assms left
    by (simp add: input_byte_def input_ok_def input_left_def)
qed

text \<open>What was not read stays in the source.\<close>

lemma drop_ok:
  "input_ok content handed i \<Longrightarrow> \<exists>s. input_drop ops i = Some s \<and> content s = input_left content i \<and> ending s = ending (in_src i)"
  using release_ok [of i] by (auto simp: input_drop_def)

lemma new_ok: "input_ok content handed (input_new s p) \<and> input_left content (input_new s p) = content s"
  if "handed s \<le> length (content s)"
  using that by (simp add: input_new_def input_ok_def input_left_def)

end

definition block_content :: "block_source \<Rightarrow> u8 list" where
  "block_content s = concat (sr_blocks s)"

definition block_handed :: "block_source \<Rightarrow> nat" where
  "block_handed s = (case sr_blocks s of [] \<Rightarrow> 0 | b # _ \<Rightarrow> length b)"

lemma block_handed_le [simp]: "block_handed s \<le> length (block_content s)"
  by (auto simp: block_handed_def block_content_def split: list.splits)

lemma concat_dropWhile_Nil: "concat (dropWhile (\<lambda>b. b = []) xs) = concat xs"
  by (induction xs) auto

interpretation bl: source_contract block_ops block_content sr_end block_handed
proof
  fix s s' :: block_source and r
  assume f: "fill_buf block_ops s = (r, s')"
  show "block_content s' = block_content s \<and> sr_end s' = sr_end s \<and> block_handed s' \<le> length (block_content s') \<and>
       (case r of
          Ok b \<Rightarrow> block_handed s' = length b \<and> (\<exists>rest. block_content s = b @ rest) \<and>
                 (b = [] \<longrightarrow> block_content s = [] \<and> sr_end s = None)
        | Err e \<Rightarrow> block_content s = [] \<and> sr_end s = Some e)"
  proof (cases "dropWhile (\<lambda>b. b = []) (sr_blocks s)")
    case Nil
    have c: "concat (sr_blocks s) = []" by (metis Nil concat.simps(1) concat_dropWhile_Nil)
    have "r = (case sr_end s of None \<Rightarrow> Ok [] | Some e \<Rightarrow> Err e)" "s' = s\<lparr>sr_blocks := []\<rparr>"
      using f Nil by (simp_all add: block_ops_def block_fill_def)
    then show ?thesis using c by (cases "sr_end s") (simp_all add: block_content_def block_handed_def)
  next
    case (Cons b bs)
    have "b \<noteq> []" using Cons using hd_dropWhile [of "\<lambda>b. b = []" "sr_blocks s"] Cons by simp
    moreover have "concat (sr_blocks s) = b @ concat bs" by (metis Cons concat.simps(2) concat_dropWhile_Nil)
    moreover have "r = Ok b" "s' = s\<lparr>sr_blocks := b # bs\<rparr>"
      using f Cons by (simp_all add: block_ops_def block_fill_def)
    ultimately show ?thesis by (simp add: block_content_def block_handed_def)
  qed
next
  fix n and s :: block_source
  assume "n \<le> block_handed s"
  then show "\<exists>s'. consume block_ops s n = Some s' \<and> block_content s' = drop n (block_content s) \<and> sr_end s' = sr_end s \<and>
      block_handed s' = block_handed s - n"
    by (cases "sr_blocks s") (auto simp: block_ops_def block_consume_def block_handed_def block_content_def slice_def)
qed

interpretation sl: source_contract slice_ops "\<lambda>s. s" "\<lambda>_. None" length
  by unfold_locales (auto simp: slice_ops_def slice_def)

section \<open>Properties\<close>

text \<open>Reading up to \<open>n\<close> bytes, one by one, and dropping the input.\<close>

fun read_bytes :: "'s source_ops \<Rightarrow> nat \<Rightarrow> 's input \<Rightarrow> ((codec_error, u8 list) res \<times> 's input) option" where
  "read_bytes ops 0 i = Some (Ok [], i)"
| "read_bytes ops (Suc n) i = and_then (input_byte ops i) (\<lambda>b i. case b of
     None \<Rightarrow> Some (Ok [], i)
   | Some b \<Rightarrow> and_then (read_bytes ops n i) (\<lambda>bs i. Some (Ok (b # bs), i)))"

lemma read_bytes_spec:
  "input_ok block_content block_handed i \<Longrightarrow>
   \<exists>r i'. read_bytes block_ops n i = Some (r, i') \<and> input_ok block_content block_handed i' \<and> sr_end (in_src i') = sr_end (in_src i) \<and>
     input_left block_content i' = drop n (input_left block_content i) \<and>
     r = (case sr_end (in_src i) of
            Some e \<Rightarrow> if n \<le> length (input_left block_content i) then Ok (take n (input_left block_content i)) else Err e
          | None \<Rightarrow> Ok (take n (input_left block_content i)))"
proof (induction n arbitrary: i)
  case (Suc n)
  obtain r j where b: "input_byte block_ops i = Some (r, j)" "input_ok block_content block_handed j"
      "sr_end (in_src j) = sr_end (in_src i)"
      "case input_left block_content i of
         [] \<Rightarrow> input_left block_content j = [] \<and> r = (case sr_end (in_src i) of None \<Rightarrow> Ok None | Some e \<Rightarrow> Err e)
       | b # bs \<Rightarrow> input_left block_content j = bs \<and> r = Ok (Some b)"
    using bl.byte_ok [OF Suc.prems] by blast
  show ?case
  proof (cases "input_left block_content i")
    case Nil
    then show ?thesis using b by (auto split: option.splits)
  next
    case (Cons x xs)
    then show ?thesis using b Suc.IH [OF b(2)] by (auto split: option.splits)
  qed
qed (auto split: option.splits)

text \<open>C24: The blocks of a source do not matter: reading bytes one by one gives the bytes of the
  concatenated blocks, in order, until the source ends or fails, and dropping the input leaves in the
  source exactly the bytes that were not read.\<close>

theorem input_ignores_blocks:
  "\<exists>r i s. read_bytes block_ops n (input_new \<lparr>sr_blocks = blocks, sr_end = fin\<rparr> 0) = Some (r, i) \<and>
     r = (case fin of
            Some e \<Rightarrow> if n \<le> length (concat blocks) then Ok (take n (concat blocks)) else Err e
          | None \<Rightarrow> Ok (take n (concat blocks))) \<and>
     input_drop block_ops i = Some s \<and> concat (sr_blocks s) = drop n (concat blocks) \<and> sr_end s = fin"
proof -
  let ?s = "\<lparr>sr_blocks = blocks, sr_end = fin\<rparr>" and ?i = "input_new \<lparr>sr_blocks = blocks, sr_end = fin\<rparr> 0"
  have i: "input_ok block_content block_handed ?i" "input_left block_content ?i = concat blocks" "sr_end (in_src ?i) = fin"
    using bl.new_ok [OF block_handed_le, of ?s 0] by (simp_all add: block_content_def input_new_def)
  obtain r j where r: "read_bytes block_ops n ?i = Some (r, j)" "input_ok block_content block_handed j"
      "sr_end (in_src j) = fin" "input_left block_content j = drop n (concat blocks)"
      "r = (case fin of Some e \<Rightarrow> if n \<le> length (concat blocks) then Ok (take n (concat blocks)) else Err e
                     | None \<Rightarrow> Ok (take n (concat blocks)))"
    using read_bytes_spec [OF i(1), of n] unfolding i(2,3) by blast
  obtain s where "input_drop block_ops j = Some s" "block_content s = drop n (concat blocks)" "sr_end s = fin"
    using bl.drop_ok [OF r(2)] r(3,4) by auto
  then show ?thesis using r(1,5) by (auto simp: block_content_def)
qed

end
