(* ===== verification/Image_Sources.thy ===== *)
theory Image_Sources
  imports Image_Stream Source_Input Bytes
begin

text \<open>
  The sources that the image decoders feed their decompressors from: the data of the \<open>IDAT\<close> chunks of a PNG
  (png.rs), the sub-blocks of a GIF (gif.rs) and a strip or tile of a TIFF (tiff.rs). The three are a small
  buffer in front of a different way to get the next block: \<open>buffered_ops\<close> is what they share, and
  \<open>idat_pull\<close>, \<open>gif_pull\<close> and \<open>chunk_pull\<close> are what they differ in. The locale \<open>pulled_source\<close> says what such
  a way to get blocks has to do, and the contract of \<open>Source_Input\<close> follows for each of the three.
\<close>

section \<open>A buffer in front of blocks\<close>

text \<open>\<open>bf_buf\<close> is \<open>buf[..len]\<close>.\<close>

record 'p buffered =
  bf_from :: 'p
  bf_buf :: "u8 list"
  bf_pos :: nat

definition buffered_fill :: "('p \<Rightarrow> u8 list \<times> 'p) \<Rightarrow> 'p buffered \<Rightarrow> (codec_error, u8 list) res \<times> 'p buffered" where
  "buffered_fill pull s =
     (if bf_pos s < length (bf_buf s) then (Ok (drop (bf_pos s) (bf_buf s)), s)
      else let (b, p) = pull (bf_from s) in (Ok b, \<lparr>bf_from = p, bf_buf = b, bf_pos = 0\<rparr>))"

definition buffered_consume :: "'p buffered \<Rightarrow> nat \<Rightarrow> 'p buffered option" where
  "buffered_consume s n = Some (s\<lparr>bf_pos := bf_pos s + n\<rparr>)"

definition buffered_ops :: "('p \<Rightarrow> u8 list \<times> 'p) \<Rightarrow> 'p buffered source_ops" where
  "buffered_ops pull = \<lparr>fill_buf = buffered_fill pull, consume = buffered_consume\<rparr>"

definition buffered_new :: "'p \<Rightarrow> 'p buffered" where
  "buffered_new p = \<lparr>bf_from = p, bf_buf = [], bf_pos = 0\<rparr>"

text \<open>The blocks that are still to come, at most \<open>n\<close> of them.\<close>

fun pull_blocks :: "('p \<Rightarrow> u8 list \<times> 'p) \<Rightarrow> nat \<Rightarrow> 'p \<Rightarrow> u8 list list" where
  "pull_blocks pull 0 p = []"
| "pull_blocks pull (Suc n) p = (case pull p of ([], _) \<Rightarrow> [] | (b, p) \<Rightarrow> b # pull_blocks pull n p)"

definition buffered_content :: "('p \<Rightarrow> u8 list \<times> 'p) \<Rightarrow> ('p \<Rightarrow> nat) \<Rightarrow> 'p buffered \<Rightarrow> u8 list" where
  "buffered_content pull left s = drop (bf_pos s) (bf_buf s) @ concat (pull_blocks pull (Suc (left (bf_from s))) (bf_from s))"

definition buffered_handed :: "'p buffered \<Rightarrow> nat" where
  "buffered_handed s = length (bf_buf s) - bf_pos s"

text \<open>The same source as the decompressors see it: the blocks it hands out.\<close>

definition as_blocks :: "('p \<Rightarrow> u8 list \<times> 'p) \<Rightarrow> ('p \<Rightarrow> nat) \<Rightarrow> 'p buffered \<Rightarrow> block_source" where
  "as_blocks pull left s =
     \<lparr>sr_blocks = drop (bf_pos s) (bf_buf s) # pull_blocks pull (Suc (left (bf_from s))) (bf_from s), sr_end = None\<rparr>"

lemma as_blocks_content: "block_content (as_blocks pull left s) = buffered_content pull left s" "sr_end (as_blocks pull left s) = None"
  by (simp_all add: as_blocks_def block_content_def buffered_content_def)

locale pulled_source =
  fixes pull :: "'p \<Rightarrow> u8 list \<times> 'p"
    and left :: "'p \<Rightarrow> nat"
  assumes pull_less: "pull p = (b, p') \<Longrightarrow> b \<noteq> [] \<Longrightarrow> left p' < left p"
    and pull_end: "pull p = ([], p') \<Longrightarrow> fst (pull p') = []"
begin

lemma blocks_enough: "left p < n \<Longrightarrow> left p < m \<Longrightarrow> pull_blocks pull n p = pull_blocks pull m p"
proof (induction n arbitrary: p m)
  case (Suc n)
  obtain k where m: "m = Suc k" using Suc.prems(2) by (cases m) simp_all
  obtain b q where p: "pull p = (b, q)" by fastforce
  show ?case
  proof (cases b)
    case (Cons c cs)
    then have "left q < left p" using pull_less [OF p] by simp
    then have "pull_blocks pull n q = pull_blocks pull k q" using Suc.IH [of q k] Suc.prems m by linarith
    then show ?thesis using p Cons m by simp
  qed (simp add: p m)
qed simp

lemma blocks_end: "fst (pull p) = [] \<Longrightarrow> pull_blocks pull n p = []"
  by (cases n) (auto split: prod.split)

lemma blocks_next:
  assumes "pull p = (b, q)"
  shows "concat (pull_blocks pull (Suc (left p)) p) = b @ concat (pull_blocks pull (Suc (left q)) q)"
proof (cases b)
  case Nil
  then have "fst (pull q) = []" using pull_end assms by simp
  then show ?thesis using Nil assms blocks_end [of q] by (simp del: pull_blocks.simps(2)) simp
next
  case (Cons c cs)
  then have "left q < left p" using pull_less [OF assms] by simp
  then have "pull_blocks pull (left p) q = pull_blocks pull (Suc (left q)) q" by (intro blocks_enough) simp_all
  then show ?thesis using assms Cons by simp
qed

sublocale source_contract "buffered_ops pull" "buffered_content pull left" "\<lambda>_. None" buffered_handed
proof
  fix s s' :: "'p buffered" and r
  assume f: "fill_buf (buffered_ops pull) s = (r, s')"
  show "buffered_content pull left s' = buffered_content pull left s \<and> None = None \<and>
       buffered_handed s' \<le> length (buffered_content pull left s') \<and>
       (case r of
          Ok b \<Rightarrow> buffered_handed s' = length b \<and> (\<exists>rest. buffered_content pull left s = b @ rest) \<and>
                 (b = [] \<longrightarrow> buffered_content pull left s = [] \<and> None = None)
        | Err e \<Rightarrow> buffered_content pull left s = [] \<and> None = Some e)"
  proof (cases "bf_pos s < length (bf_buf s)")
    case True
    then have "r = Ok (drop (bf_pos s) (bf_buf s))" "s' = s" using f True by (auto simp: buffered_ops_def buffered_fill_def)
    then show ?thesis using True by (simp add: buffered_handed_def buffered_content_def)
  next
    case False
    obtain b p where p: "pull (bf_from s) = (b, p)" by fastforce
    have r: "r = Ok b" "s' = \<lparr>bf_from = p, bf_buf = b, bf_pos = 0\<rparr>"
      using False f p by (simp_all add: buffered_ops_def buffered_fill_def)
    have nxt: "buffered_content pull left s = b @ concat (pull_blocks pull (Suc (left p)) p)"
      unfolding buffered_content_def blocks_next [OF p] using False by simp
    moreover have "concat (pull_blocks pull (Suc (left p)) p) = []" if "b = []"
      using that pull_end [of "bf_from s" p] p by (simp only: blocks_end concat.simps)
    ultimately show ?thesis using r by (auto simp: buffered_handed_def buffered_content_def simp del: pull_blocks.simps)
  qed
next
  fix n and s :: "'p buffered"
  assume "n \<le> buffered_handed s"
  then show "\<exists>s'. consume (buffered_ops pull) s n = Some s' \<and> buffered_content pull left s' = drop n (buffered_content pull left s) \<and>
      None = None \<and> buffered_handed s' = buffered_handed s - n"
    by (auto simp: buffered_ops_def buffered_consume_def buffered_content_def buffered_handed_def add.commute simp del: pull_blocks.simps)
qed

end

section \<open>What a reader has left\<close>

definition reader_left :: "reader \<Rightarrow> nat" where
  "reader_left r = (length (rd_buf r) - rd_pos r) + (length (sm_data (rd_src r)) - sm_pos (rd_src r))"

text \<open>The reader at its end.\<close>

definition reader_dry :: "reader \<Rightarrow> bool" where
  "reader_dry r \<longleftrightarrow> length (rd_buf (reader_next r)) \<le> rd_pos (reader_next r)"

lemma stream_read_left:
  "stream_read s n = (got, s') \<Longrightarrow> length got + (length (sm_data s') - sm_pos s') = length (sm_data s) - sm_pos s"
proof -
  assume "stream_read s n = (got, s')"
  then obtain k where "k \<le> length (sm_data s) - sm_pos s" "got = take k (drop (sm_pos s) (sm_data s))" "s' = s\<lparr>sm_pos := sm_pos s + k\<rparr>"
    unfolding stream_read_def Let_def length_drop by (metis min.cobounded1 prod.inject)
  then show ?thesis by simp
qed

lemma reader_fill_left: "reader_fill r = (n, r') \<Longrightarrow> reader_left r' + (length (rd_buf r) - rd_pos r) = reader_left r"
  using stream_read_left [of "rd_src r" READER_WINDOW]
  by (auto simp: reader_fill_def Let_def reader_left_def split: prod.splits)

lemma reader_next_left: "reader_left (reader_next r) = reader_left r"
  using reader_fill_left [of r "fst (reader_fill r)" "snd (reader_fill r)"] by (auto simp: reader_next_def)

lemma reader_dry_next: "reader_dry r \<Longrightarrow> reader_dry (reader_next r)"
proof (cases "rd_pos r = length (rd_buf r)")
  case True
  assume "reader_dry r"
  then have "drop (sm_pos (rd_src r)) (sm_data (rd_src r)) = []"
    using True by (auto simp: reader_dry_def reader_next_def reader_fill_def stream_read_def Let_def READER_WINDOW_def)
  then show ?thesis using True by (simp add: reader_dry_def reader_next_def reader_fill_def stream_read_def Let_def)
qed (simp add: reader_next_def)

lemma reader_read_dry: "reader_dry r \<Longrightarrow> reader_read r n = ([], if n = 0 then r else reader_next r)"
  by (subst reader_read.simps) (simp add: reader_dry_def Let_def)

lemma reader_read_left:
  "reader_read r n = (bs, r') \<Longrightarrow> reader_left r' + length bs = reader_left r \<and> length bs \<le> n \<and> (length bs < n \<longrightarrow> reader_dry r')"
proof (induction r n arbitrary: bs r' rule: reader_read.induct)
  case (1 r n)
  let ?r = "reader_next r"
  consider "n = 0" | "0 < n" "length (rd_buf ?r) \<le> rd_pos ?r" | "0 < n" "rd_pos ?r < length (rd_buf ?r)" by linarith
  then show ?case
  proof cases
    case 1
    then show ?thesis using "1.prems" by (simp add: reader_read.simps [of r 0])
  next
    case 2
    then have "reader_dry r" by (simp add: reader_dry_def)
    then show ?thesis using "1.prems" 2 by (auto simp: reader_read_dry reader_next_left intro: reader_dry_next)
  next
    case 3
    let ?k = "min (length (rd_buf ?r) - rd_pos ?r) n"
    let ?s = "?r\<lparr>rd_pos := rd_pos ?r + ?k\<rparr>"
    obtain cs where cs: "reader_read ?s (n - ?k) = (cs, r')" "bs = take ?k (drop (rd_pos ?r) (rd_buf ?r)) @ cs"
    proof -
      have c: "(n = 0) = False" "(length (rd_buf ?r) \<le> rd_pos ?r) = False" using 3 by simp_all
      have "reader_read r n = (case reader_read ?s (n - ?k) of (cs, r') \<Rightarrow> (take ?k (drop (rd_pos ?r) (rd_buf ?r)) @ cs, r'))"
        by (subst reader_read.simps) (simp only: c if_False Let_def)
      then show thesis using "1.prems" that by (cases "reader_read ?s (n - ?k)") simp
    qed
    have "reader_left r' + length cs = reader_left ?s \<and> length cs \<le> n - ?k \<and> (length cs < n - ?k \<longrightarrow> reader_dry r')"
      using "1.IH" [OF _ refl _ refl cs(1)] 3 by simp
    moreover have "reader_left ?s + ?k = reader_left r"
      unfolding reader_next_left [of r, symmetric] by (simp add: reader_left_def)
    moreover have "length bs = ?k + length cs" by (simp add: cs(2) min_def)
    moreover have "?k \<le> n" by simp
    ultimately show ?thesis by linarith
  qed
qed

lemma reader_exact_left: "reader_read_exact r n = (ok, bs, r') \<Longrightarrow> reader_left r' + length bs = reader_left r \<and> (ok \<longleftrightarrow> length bs = n)"
  using reader_read_left [of r n] by (auto simp: reader_read_exact_def split: prod.splits)

lemma reader_byte_left:
  "reader_byte r = (Some b, r') \<Longrightarrow> reader_left r' < reader_left r"
proof -
  assume b: "reader_byte r = (Some b, r')"
  let ?r = "if length (rd_buf r) \<le> rd_pos r then snd (reader_fill r) else r"
  have "r' = ?r\<lparr>rd_pos := rd_pos ?r + 1\<rparr>" "rd_pos ?r < length (rd_buf ?r)"
    using b by (auto simp: reader_byte_def Let_def split: if_splits)
  then have "reader_left r' < reader_left ?r" by (simp add: reader_left_def)
  also have "reader_left ?r \<le> reader_left r"
    using reader_fill_left [of r "fst (reader_fill r)" "snd (reader_fill r)"] by simp
  finally show ?thesis .
qed

section \<open>The image data of a PNG\<close>

record idat =
  id_r :: reader
  id_remaining :: nat
  id_done :: bool

definition IDAT_TAG :: "u8 list" where "IDAT_TAG = [0x49, 0x44, 0x41, 0x54]"

definition IDAT_BUF :: nat where "IDAT_BUF = 2048"

definition be32_at :: "u8 list \<Rightarrow> nat \<Rightarrow> u32" where
  "be32_at p i = u32_be (p ! i) (p ! (i + 1)) (p ! (i + 2)) (p ! (i + 3))"

text \<open>The loop of \<open>fill_buf\<close> over the checksum of a chunk and the header of the next; false when it returns
  the end.\<close>

function idat_header :: "idat \<Rightarrow> bool \<times> idat" where
  "idat_header s =
     (if id_remaining s \<noteq> 0 then (True, s)
      else if id_done s then (False, s)
      else case reader_read_exact (id_r s) 8 of (ok, hdr, r) \<Rightarrow>
        if \<not> ok then (False, s\<lparr>id_r := r, id_done := True\<rparr>)
        else case reader_read_exact r 4 of (ok, tag, r) \<Rightarrow>
          if \<not> ok \<or> tag \<noteq> IDAT_TAG then (False, s\<lparr>id_r := r, id_done := True\<rparr>)
          else idat_header (s\<lparr>id_r := r, id_remaining := unat (be32_at hdr 4)\<rparr>))"
  by pat_completeness auto
termination by (relation "measure (\<lambda>s. reader_left (id_r s))") (auto dest!: reader_exact_left [OF sym])

declare idat_header.simps [simp del]

definition idat_pull :: "idat \<Rightarrow> u8 list \<times> idat" where
  "idat_pull s =
     (let (more, s) = idat_header s in
      if \<not> more then ([], s)
      else let want = min (id_remaining s) IDAT_BUF;
               (got, r) = reader_read (id_r s) want
           in (got, s\<lparr>id_r := r, id_remaining := id_remaining s - length got, id_done := id_done s \<or> got = []\<rparr>))"

abbreviation idat_left :: "idat \<Rightarrow> nat" where "idat_left s \<equiv> reader_left (id_r s)"

lemma idat_header_left:
  "idat_header s = (m, s') \<Longrightarrow> idat_left s' \<le> idat_left s \<and> (if m then id_remaining s' \<noteq> 0 else id_remaining s' = 0 \<and> id_done s')"
proof (induction s rule: idat_header.induct)
  case (1 s)
  consider "id_remaining s \<noteq> 0" | "id_remaining s = 0" "id_done s" | "id_remaining s = 0" "\<not> id_done s" by blast
  then show ?case
  proof cases
    case 3
    obtain ok hdr r where h: "reader_read_exact (id_r s) 8 = (ok, hdr, r)" by (metis prod_cases3)
    obtain ok' tag r' where t: "reader_read_exact r 4 = (ok', tag, r')" by (metis prod_cases3)
    have less: "reader_left r \<le> idat_left s" "reader_left r' \<le> reader_left r"
      using reader_exact_left [OF h] reader_exact_left [OF t] by simp_all
    let ?s = "s\<lparr>id_r := r', id_remaining := unat (be32_at hdr 4)\<rparr>"
    consider "\<not> ok" | "ok" "\<not> ok' \<or> tag \<noteq> IDAT_TAG" | "ok" "ok'" "tag = IDAT_TAG" by blast
    then show ?thesis
    proof cases
      case a: 3
      have "idat_header s = idat_header ?s" using 3 a h t by (subst idat_header.simps) simp
      moreover have "idat_left s' \<le> idat_left ?s \<and> (if m then id_remaining s' \<noteq> 0 else id_remaining s' = 0 \<and> id_done s')"
        using "1.IH" [OF _ _ h [symmetric] refl _ t [symmetric] refl] 3 a "1.prems" calculation by simp
      ultimately show ?thesis using less by simp
    qed (use "1.prems" 3 h t less in \<open>auto simp: idat_header.simps [of s]\<close>)
  qed (use "1.prems" in \<open>auto simp: idat_header.simps [of s]\<close>)
qed

interpretation png: pulled_source idat_pull idat_left
proof
  fix s s' b
  assume p: "idat_pull s = (b, s')" and b: "b \<noteq> []"
  obtain m t where h: "idat_header s = (m, t)" by fastforce
  obtain got r where g: "reader_read (id_r t) (min (id_remaining t) IDAT_BUF) = (got, r)" by fastforce
  have "m" "b = got" "id_r s' = r" using p b h g by (auto simp: idat_pull_def Let_def split: if_splits)
  then show "idat_left s' < idat_left s" using b reader_read_left [OF g] idat_header_left [OF h] by (cases got) auto
next
  fix s s'
  assume p: "idat_pull s = ([], s')"
  obtain m t where h: "idat_header s = (m, t)" by fastforce
  note header = idat_header_left [OF h]
  show "fst (idat_pull s') = []"
  proof (cases m)
    case True
    obtain got r where g: "reader_read (id_r t) (min (id_remaining t) IDAT_BUF) = (got, r)" by fastforce
    have s': "got = []" "s' = t\<lparr>id_r := r, id_done := True\<rparr>"
      using p h g True by (auto simp: idat_pull_def Let_def split: if_splits)
    have "reader_dry r" using reader_read_left [OF g] s'(1) header True by (simp add: IDAT_BUF_def)
    moreover have "idat_header s' = (True, s')" using s'(2) header True by (subst idat_header.simps) simp
    ultimately show ?thesis using s'(2) by (simp add: idat_pull_def Let_def reader_read_dry)
  next
    case False
    then have "s' = t" using p h by (simp add: idat_pull_def)
    then have "idat_header s' = (False, s')" using header False by (subst idat_header.simps) simp
    then show ?thesis by (simp add: idat_pull_def)
  qed
qed

section \<open>The sub-blocks of a GIF\<close>

record gif_blocks =
  gb_r :: reader
  gb_done :: bool

definition gif_pull :: "gif_blocks \<Rightarrow> u8 list \<times> gif_blocks" where
  "gif_pull s =
     (if gb_done s then ([], s)
      else case reader_byte (gb_r s) of (b, r) \<Rightarrow>
        if b = None \<or> b = Some 0 then ([], s\<lparr>gb_r := r, gb_done := True\<rparr>)
        else let len = unat (the b); (got, r) = reader_read r len
             in (got, s\<lparr>gb_r := r, gb_done := length got < len\<rparr>))"

interpretation gif: pulled_source gif_pull "\<lambda>s. reader_left (gb_r s)"
proof
  fix s s' b
  assume p: "gif_pull s = (b, s')" and b: "b \<noteq> []"
  obtain c r where c: "reader_byte (gb_r s) = (Some c, r)" "reader_read r (unat c) = (b, gb_r s')"
    using p b by (cases "reader_byte (gb_r s)") (auto simp: gif_pull_def Let_def split: if_splits prod.splits)
  show "reader_left (gb_r s') < reader_left (gb_r s)" using reader_byte_left [OF c(1)] reader_read_left [OF c(2)] by simp
next
  fix s s'
  assume p: "gif_pull s = ([], s')"
  have "gb_done s'"
    using p by (auto simp: gif_pull_def Let_def unat_gt_0 split: if_splits prod.splits)
  then show "fst (gif_pull s') = []" by (simp add: gif_pull_def)
qed

section \<open>A strip or tile of a TIFF\<close>

record tiff_chunk =
  tc_r :: reader
  tc_remaining :: nat

definition CHUNK_BUF :: nat where "CHUNK_BUF = 2048"

definition chunk_pull :: "tiff_chunk \<Rightarrow> u8 list \<times> tiff_chunk" where
  "chunk_pull s =
     (let want = min (tc_remaining s) CHUNK_BUF;
          (got, r) = (if want \<noteq> 0 then reader_read (tc_r s) want else ([], tc_r s));
          remaining = tc_remaining s - length got;
          remaining = (if length got < want then 0 else remaining)
      in (got, s\<lparr>tc_r := r, tc_remaining := remaining\<rparr>))"

interpretation tiff: pulled_source chunk_pull "\<lambda>s. reader_left (tc_r s)"
proof
  fix s s' b
  assume p: "chunk_pull s = (b, s')" and b: "b \<noteq> []"
  let ?want = "min (tc_remaining s) CHUNK_BUF"
  have "reader_read (tc_r s) ?want = (b, tc_r s')"
    using p b by (auto simp: chunk_pull_def Let_def split: if_splits prod.splits)
  then show "reader_left (tc_r s') < reader_left (tc_r s)" using reader_read_left [of "tc_r s" ?want b "tc_r s'"] b by (cases b) auto
next
  fix s s'
  assume p: "chunk_pull s = ([], s')"
  have "tc_remaining s' = 0"
    using p by (auto simp: chunk_pull_def Let_def CHUNK_BUF_def split: if_splits prod.splits)
  then show "fst (chunk_pull s') = []" by (simp add: chunk_pull_def)
qed

end
