(* ===== verification/Image_Pixel.thy ===== *)
theory Image_Pixel
  imports Image_Base Bytes
begin

text \<open>
  Pixels in the formats that rows are decoded to, \<open>libs/devkit_image/src/pixel.rs\<close>: storing a colour, converting
  rows between the formats, YCbCr samples, and rows as separate channels. \<open>with_store!\<close> is a match on the
  format, so the \<open>Store\<close> of a format is its functions \<open>store_bytes\<close>, \<open>store_rgb\<close> and \<open>store_gray\<close>; for the
  other formats it panics. \<open>to_ne_bytes\<close> is little-endian, as all the targets are. The vector kernels that
  the packing of rows calls on chips that have them are the parameter \<open>pie\<close>. Overflow of \<open>i32\<close> is not
  possible for samples of a byte, so the arithmetic is that of the integers.
\<close>

section \<open>Chunks of a row\<close>

text \<open>\<open>chunks_exact(n)\<close>, and the zip of \<open>chunks_exact_mut(n)\<close> with what is written to the chunks.\<close>

definition chunks_exact :: "nat \<Rightarrow> 'a list \<Rightarrow> 'a list list" where
  "chunks_exact n xs = map (\<lambda>i. take n (drop (i * n) xs)) [0..<length xs div n]"

definition put_chunks :: "nat \<Rightarrow> 'a list \<Rightarrow> 'a list list \<Rightarrow> 'a list" where
  "put_chunks n dst cs = (let cs = take (length dst div n) cs in concat cs @ drop (length (concat cs)) dst)"

section \<open>Colours\<close>

definition clamp8 :: "int \<Rightarrow> u8" where
  "clamp8 v = word_of_int (max 0 (min 255 v))"

definition luma :: "u8 \<Rightarrow> u8 \<Rightarrow> u8 \<Rightarrow> u8" where
  "luma r g b = clamp8 (drop_bit 8 (uint r * 54 + uint g * 183 + uint b * 19 + 128))"

definition out_format :: "image_format \<Rightarrow> image_format option \<Rightarrow> (image_error, image_format) res" where
  "out_format native wanted =
     (let f = (case wanted of None \<Rightarrow> native | Some f \<Rightarrow> f) in if is_row_format f then Ok f else Err ImgUnsupported)"

fun store_bytes :: "image_format \<Rightarrow> nat option" where
  "store_bytes L8 = Some 1"
| "store_bytes Rgb888 = Some 3"
| "store_bytes Bgr888 = Some 3"
| "store_bytes Rgb565 = Some 2"
| "store_bytes _ = None"

definition rgb565 :: "u8 \<Rightarrow> u8 \<Rightarrow> u8 \<Rightarrow> u16" where
  "rgb565 r g b = push_bit 11 (drop_bit 3 (ucast r)) OR push_bit 5 (drop_bit 2 (ucast g)) OR drop_bit 3 (ucast b)"

fun store_rgb :: "image_format \<Rightarrow> u8 \<Rightarrow> u8 \<Rightarrow> u8 \<Rightarrow> u8 list" where
  "store_rgb L8 r g b = [luma r g b]"
| "store_rgb Rgb888 r g b = [r, g, b]"
| "store_rgb Bgr888 r g b = [b, g, r]"
| "store_rgb Rgb565 r g b = u16_le (rgb565 r g b)"
| "store_rgb _ r g b = []"

fun store_gray :: "image_format \<Rightarrow> u8 \<Rightarrow> u8 list" where
  "store_gray L8 l = [l]"
| "store_gray Rgb888 l = [l, l, l]"
| "store_gray Bgr888 l = [l, l, l]"
| "store_gray Rgb565 l = store_rgb Rgb565 l l l"
| "store_gray _ l = []"

text \<open>What the rows of the decoders have in common: \<open>dst[..w * S::BYTES].chunks_exact_mut(S::BYTES)\<close>
  zipped with the pixels.\<close>

definition store_pixels :: "image_format \<Rightarrow> nat \<Rightarrow> u8 list \<Rightarrow> u8 list list \<Rightarrow> u8 list option" where
  "store_pixels f w dst pixels = do {
     n \<leftarrow> store_bytes f;
     row \<leftarrow> slice dst 0 (w * n);
     copy_at dst 0 (put_chunks n row pixels)
   }"

text \<open>\<open>w\<close> pixels of \<open>L8\<close> or \<open>Rgb888\<close> into a row format.\<close>

definition store_row :: "u8 list \<Rightarrow> image_format \<Rightarrow> u8 list \<Rightarrow> image_format \<Rightarrow> nat \<Rightarrow> u8 list option" where
  "store_row src src_format dst f w =
     (if src_format = f then do {
        part \<leftarrow> slice src 0 (format_row_bytes f w);
        copy_at dst 0 part
      }
      else if src_format = L8 then do {
        n \<leftarrow> store_bytes f;
        _ \<leftarrow> slice dst 0 (w * n);
        part \<leftarrow> slice src 0 w;
        store_pixels f w dst (map (store_gray f) part)
      }
      else do {
        n \<leftarrow> store_bytes f;
        _ \<leftarrow> slice dst 0 (w * n);
        part \<leftarrow> slice src 0 (w * 3);
        store_pixels f w dst (map (\<lambda>p. store_rgb f (p ! 0) (p ! 1) (p ! 2)) (chunks_exact 3 part))
      })"

section \<open>YCbCr\<close>

datatype ycc = Jfif | Vp8

definition vp8_clip :: "int \<Rightarrow> u8" where
  "vp8_clip v = (if v AND NOT 16383 = 0 then word_of_int (drop_bit 6 v) else if v < 0 then 0 else 255)"

definition vp8_rgb :: "int \<Rightarrow> int \<Rightarrow> int \<Rightarrow> u8 \<times> u8 \<times> u8" where
  "vp8_rgb y u v =
     (let l = drop_bit 8 (y * 19077) in
      (vp8_clip (l + drop_bit 8 (v * 26149) - 14234),
       vp8_clip (l - drop_bit 8 (u * 6419) - drop_bit 8 (v * 13320) + 8708),
       vp8_clip (l + drop_bit 8 (u * 33050) - 17685)))"

definition jfif_rgb :: "u8 \<Rightarrow> u8 \<Rightarrow> u8 \<Rightarrow> u8 \<times> u8 \<times> u8" where
  "jfif_rgb y cb cr =
     (let y0 = uint y * 256; cb = uint cb - 128; cr = uint cr - 128 in
      (clamp8 (drop_bit 8 (y0 + 359 * cr)), clamp8 (drop_bit 8 (y0 - 88 * cb - 183 * cr)), clamp8 (drop_bit 8 (y0 + 454 * cb))))"

text \<open>\<open>HAVE_PIE\<close> and the kernels: colour conversion of groups of sixteen pixels, and packing.\<close>

record pie =
  pie_have :: bool
  pie_ycc :: "image_format \<Rightarrow> bool \<Rightarrow> nat \<Rightarrow> u8 list \<Rightarrow> u8 list \<Rightarrow> u8 list \<Rightarrow> u8 list"
  pie_bytes :: "nat \<Rightarrow> u16 list \<Rightarrow> u8 list"
  pie_565 :: "nat \<Rightarrow> u16 list \<Rightarrow> u8 list"

definition ycc_pixel :: "ycc \<Rightarrow> image_format \<Rightarrow> u8 \<Rightarrow> u8 \<Rightarrow> u8 \<Rightarrow> u8 list" where
  "ycc_pixel kind f l u v =
     (case (case kind of Jfif \<Rightarrow> jfif_rgb l u v | Vp8 \<Rightarrow> vp8_rgb (uint l) (uint u) (uint v)) of
        (r, g, b) \<Rightarrow> store_rgb f r g b)"

definition store_ycc_row ::
  "pie \<Rightarrow> u8 list \<Rightarrow> u8 list \<Rightarrow> u8 list \<Rightarrow> nat \<times> nat \<Rightarrow> ycc \<Rightarrow> u8 list \<Rightarrow> image_format \<Rightarrow> nat \<Rightarrow> u8 list option" where
  "store_ycc_row K y cb cr shift kind dst f w =
     (if f = L8 then do {
        row \<leftarrow> slice dst 0 w;
        part \<leftarrow> slice y 0 w;
        copy_at dst 0 (case kind of Jfif \<Rightarrow> part | Vp8 \<Rightarrow> map (\<lambda>l. vp8_clip (drop_bit 8 (uint l * 19077) - 1160)) part)
      }
      else let (hs1, hs2) = shift in
        if \<not> (w \<le> length y \<and> div_ceil w (2 ^ hs1) \<le> length cb \<and> div_ceil w (2 ^ hs2) \<le> length cr) then None
        else do {
          n \<leftarrow> store_bytes f;
          let vector = (pie_have K \<and> kind = Jfif \<and> hs1 = hs2 \<and> hs1 \<le> 1 \<and> 0 < w div 16);
          let x = (if vector then w div 16 * 16 else 0);
          dst \<leftarrow> (if vector then copy_at dst 0 (pie_ycc K f (hs1 \<noteq> 0) (w div 16) y cb cr) else Some dst);
          row \<leftarrow> slice dst (x * n) (w * n);
          let pixels = map (\<lambda>px. ycc_pixel kind f (y ! px) (cb ! (px div 2 ^ hs1)) (cr ! (px div 2 ^ hs2))) [x..<w];
          copy_at dst (x * n) (put_chunks n row pixels)
        })"

section \<open>Rows as channels\<close>

definition unpack_pixel :: "image_format \<Rightarrow> u8 list \<Rightarrow> u16 list" where
  "unpack_pixel f s =
     (if f = L8 then [ucast (s ! 0), ucast (s ! 0), ucast (s ! 0)]
      else if f = Rgb888 \<or> f = Bgr888 then
        let r = (if f = Bgr888 then 2 else 0) in [ucast (s ! r), ucast (s ! 1), ucast (s ! (2 - r))]
      else
        let p = le16_at s 0; r5 = drop_bit 11 p AND 0x1F; g6 = drop_bit 5 p AND 0x3F; b5 = p AND 0x1F
        in [push_bit 3 r5 OR drop_bit 2 r5, push_bit 2 g6 OR drop_bit 4 g6, push_bit 3 b5 OR drop_bit 2 b5])"

text \<open>A row in any row format into \<open>ch\<close> channels: 1 for \<open>L8\<close> to \<open>L8\<close>, else red, green and blue.\<close>

definition unpack_row :: "u8 list \<Rightarrow> u16 list \<Rightarrow> nat \<Rightarrow> image_format \<Rightarrow> nat \<Rightarrow> u16 list option" where
  "unpack_row src dst w f ch =
     (if ch = 1 then do {
        part \<leftarrow> slice src 0 w;
        Some (put_chunks 1 dst (map (\<lambda>s. [ucast s]) part))
      }
      else do {
        n \<leftarrow> store_bytes f;
        part \<leftarrow> slice src 0 (w * n);
        Some (put_chunks 3 dst (map (unpack_pixel f) (chunks_exact n part)))
      })"

definition sat8 :: "u16 \<Rightarrow> u8" where "sat8 s = clamp8 (uint s)"

text \<open>The assertions of kernels.rs.\<close>

definition pack_bytes :: "pie \<Rightarrow> u8 list \<Rightarrow> u16 list \<Rightarrow> nat \<Rightarrow> u8 list option" where
  "pack_bytes K dst src n16 =
     (if n16 * 16 \<le> length dst \<and> n16 * 16 \<le> length src then copy_at dst 0 (pie_bytes K n16 src) else None)"

definition pack_rgb565 :: "pie \<Rightarrow> u8 list \<Rightarrow> u16 list \<Rightarrow> nat \<Rightarrow> u8 list option" where
  "pack_rgb565 K dst src n8 =
     (if n8 * 16 \<le> length dst \<and> n8 * 24 \<le> length src then copy_at dst 0 (pie_565 K n8 src) else None)"

text \<open>\<open>unpack_row\<close> backwards, saturating each channel.\<close>

definition pack_row :: "pie \<Rightarrow> u16 list \<Rightarrow> u8 list \<Rightarrow> nat \<Rightarrow> image_format \<Rightarrow> nat \<Rightarrow> u8 list option" where
  "pack_row K src dst w f ch =
     (if ch = 1 then do {
        let n = (if pie_have K \<and> f = L8 \<and> 16 \<le> w then w div 16 else 0);
        dst \<leftarrow> (if n = 0 then Some dst else pack_bytes K dst src n);
        row \<leftarrow> slice dst (n * 16) w;
        part \<leftarrow> slice src (n * 16) (length src);
        copy_at dst (n * 16) (put_chunks 1 row (map (\<lambda>s. [sat8 s]) part))
      }
      else do {
        bytes \<leftarrow> store_bytes f;
        (dst, i) \<leftarrow>
          (if pie_have K \<and> f = Rgb888 \<and> 16 \<le> w * 3 then
             map_option (\<lambda>dst. (dst, w * 3 div 16 * 16 div 3)) (pack_bytes K dst src (w * 3 div 16))
           else if pie_have K \<and> f = Rgb565 \<and> 8 \<le> w then
             map_option (\<lambda>dst. (dst, w div 8 * 8)) (pack_rgb565 K dst src (w div 8))
           else Some (dst, 0));
        row \<leftarrow> slice dst (i * bytes) (w * bytes);
        part \<leftarrow> slice src (i * 3) (length src);
        copy_at dst (i * bytes) (put_chunks bytes row
          (map (\<lambda>s. store_rgb f (sat8 (s ! 0)) (sat8 (s ! 1)) (sat8 (s ! 2))) (chunks_exact 3 part)))
      })"

section \<open>Lists of chunks\<close>

definition all_length :: "nat \<Rightarrow> 'a list list \<Rightarrow> bool" where
  "all_length n cs \<longleftrightarrow> (\<forall>c \<in> set cs. length c = n)"

lemma all_length_simps [simp]: "all_length n []" "all_length n (c # cs) \<longleftrightarrow> length c = n \<and> all_length n cs"
  by (simp_all add: all_length_def)

lemma all_length_map [simp]: "(\<And>x. length (f x) = n) \<Longrightarrow> all_length n (map f xs)"
  by (simp add: all_length_def)

lemma all_length_take: "all_length n cs \<Longrightarrow> all_length n (take k cs)"
  unfolding all_length_def using in_set_takeD by fastforce

lemma all_length_drop: "all_length n cs \<Longrightarrow> all_length n (drop k cs)"
  unfolding all_length_def using in_set_dropD by fastforce

lemma length_concat_all: "all_length n cs \<Longrightarrow> length (concat cs) = n * length cs"
  by (induction cs) simp_all

lemma take_concat_all: "all_length n cs \<Longrightarrow> take (k * n) (concat cs) = concat (take k cs)"
proof (induction cs arbitrary: k)
  case (Cons c cs)
  then show ?case by (cases k) simp_all
qed simp

lemma drop_concat_all: "all_length n cs \<Longrightarrow> drop (k * n) (concat cs) = concat (drop k cs)"
proof (induction cs arbitrary: k)
  case (Cons c cs)
  then show ?case by (cases k) simp_all
qed simp

lemma length_chunks [simp]: "length (chunks_exact n xs) = length xs div n"
  by (simp add: chunks_exact_def)

lemma nth_chunks: "i < length xs div n \<Longrightarrow> chunks_exact n xs ! i = take n (drop (i * n) xs)"
  by (simp add: chunks_exact_def)

lemma chunk_fits: "i < m div n \<Longrightarrow> i * n + n \<le> m" for n :: nat
proof -
  assume "i < m div n"
  then have "Suc i * n \<le> m div n * n" by (intro mult_le_mono1) simp
  also have "\<dots> \<le> m" by (rule div_times_less_eq_dividend)
  finally show ?thesis by simp
qed

lemma all_length_chunks [simp]: "all_length n (chunks_exact n xs)"
  using chunk_fits [of _ "length xs" n] by (fastforce simp: all_length_def in_set_conv_nth nth_chunks)

lemma chunks_append:
  assumes "length c = n" "0 < n"
  shows "chunks_exact n (c @ xs) = c # chunks_exact n xs"
proof (rule nth_equalityI)
  have more: "length (c @ xs) div n = Suc (length xs div n)"
    using div_add_self1 [of n "length xs"] assms by (simp only: length_append)
  then show "length (chunks_exact n (c @ xs)) = length (c # chunks_exact n xs)" by (simp only: length_chunks list.size)
  fix i assume i: "i < length (chunks_exact n (c @ xs))"
  then have "chunks_exact n (c @ xs) ! i = take n (drop (i * n) (c @ xs))" by (simp add: chunks_exact_def)
  moreover have "chunks_exact n xs ! k = take n (drop (k * n) xs)" if "i = Suc k" for k
    using that i more by (simp only: length_chunks nth_chunks)
  ultimately show "chunks_exact n (c @ xs) ! i = (c # chunks_exact n xs) ! i"
    using assms by (cases i) simp_all
qed

lemma chunks_concat: "all_length n cs \<Longrightarrow> 0 < n \<Longrightarrow> chunks_exact n (concat cs) = cs"
  by (induction cs) (simp_all add: chunks_append, simp add: chunks_exact_def)

lemma chunks_drop: "chunks_exact n (drop (k * n) xs) = drop k (chunks_exact n xs)" if "0 < n"
proof (rule nth_equalityI)
  have len: "(length xs - k * n) div n = length xs div n - k"
  proof (cases "k * n \<le> length xs")
    case True
    then obtain m where "length xs = k * n + m" using le_Suc_ex by blast
    then show ?thesis using that by simp
  next
    case False
    then have "length xs div n < k" using that by (simp add: div_less_iff_less_mult)
    then show ?thesis using False by simp
  qed
  then show "length (chunks_exact n (drop (k * n) xs)) = length (drop k (chunks_exact n xs))" by simp
  fix i assume "i < length (chunks_exact n (drop (k * n) xs))"
  then show "chunks_exact n (drop (k * n) xs) ! i = drop k (chunks_exact n xs) ! i"
    using len by (simp add: nth_chunks add_mult_distrib add.commute)
qed

lemma concat_chunks: "0 < n \<Longrightarrow> k * n \<le> length xs \<Longrightarrow> concat (take k (chunks_exact n xs)) = take (k * n) xs"
proof (induction k)
  case (Suc k)
  have "Suc k * n div n \<le> length xs div n" by (intro div_le_mono Suc.prems)
  then have k: "k < length xs div n" using Suc.prems by simp
  then have "take (Suc k) (chunks_exact n xs) = take k (chunks_exact n xs) @ [take n (drop (k * n) xs)]"
    by (simp add: take_Suc_conv_app_nth nth_chunks)
  moreover have "take (Suc k * n) xs = take (k * n) xs @ take n (drop (k * n) xs)"
    using take_add [of "k * n" n xs] by (simp only: mult_Suc add.commute)
  ultimately show ?case using Suc by simp
qed simp

lemma put_chunks_full:
  "all_length n cs \<Longrightarrow> 0 < n \<Longrightarrow> length dst = k * n \<Longrightarrow> k \<le> length cs \<Longrightarrow> put_chunks n dst cs = concat (take k cs)"
  using length_concat_all [OF all_length_take, of n cs k] by (simp add: put_chunks_def Let_def mult.commute)

lemma store_bytes_pos: "store_bytes f = Some n \<Longrightarrow> 0 < n"
  by (cases f) auto

lemma length_store_rgb: "store_bytes f = Some n \<Longrightarrow> length (store_rgb f r g b) = n"
  by (cases f) auto

lemma length_store_gray: "store_bytes f = Some n \<Longrightarrow> length (store_gray f l) = n"
  by (cases f) auto

lemma row_bytes_store: "store_bytes f = Some n \<Longrightarrow> format_row_bytes f w = w * n"
  by (cases f) (auto simp: format_row_bytes_def div_ceil_def)

lemma store_pixels_total:
  assumes "store_bytes f = Some n" "w * n \<le> length dst" "all_length n pixels"
  shows "\<exists>dst'. store_pixels f w dst pixels = Some dst' \<and> length dst' = length dst"
proof -
  let ?row = "take (w * n) dst"
  have n: "0 < n" by (rule store_bytes_pos [OF assms(1)])
  let ?q = "length ?row div n"
  have "length (concat (take ?q pixels)) = n * length (take ?q pixels)" by (rule length_concat_all [OF all_length_take [OF assms(3)]])
  also have "\<dots> \<le> n * ?q" by (intro mult_le_mono2) simp
  also have "\<dots> \<le> length ?row" by (rule times_div_less_eq_dividend)
  finally have "length (concat (take ?q pixels)) \<le> length ?row" .
  then have "length (put_chunks n ?row pixels) = length ?row" unfolding put_chunks_def Let_def by simp
  then show ?thesis using assms(1,2) by (auto simp: store_pixels_def slice_def copy_at_def)
qed

lemma store_row_total:
  assumes "store_bytes f = Some n" "w * n \<le> length dst" "w * 3 \<le> length src"
  shows "\<exists>dst'. store_row src Rgb888 dst f w = Some dst' \<and> length dst' = length dst"
proof (cases "f = Rgb888")
  case True
  then show ?thesis using assms row_bytes_store [OF assms(1), of w] by (auto simp: store_row_def slice_def copy_at_def)
next
  case False
  obtain dst' where "store_pixels f w dst (map (\<lambda>p. store_rgb f (p ! 0) (p ! 1) (p ! 2)) (chunks_exact 3 (take (w * 3) src))) = Some dst'"
      "length dst' = length dst"
    using store_pixels_total [OF assms(1,2), of "map (\<lambda>p. store_rgb f (p ! 0) (p ! 1) (p ! 2)) (chunks_exact 3 (take (w * 3) src))"]
      length_store_rgb [OF assms(1)] by auto
  then show ?thesis using False assms by (simp add: store_row_def slice_def)
qed

lemma row_format_bytes: "is_row_format f \<Longrightarrow> \<exists>n. store_bytes f = Some n"
  by (auto simp: is_row_format_def)

lemma out_format_ok: "out_format native wanted = Ok f \<Longrightarrow> is_row_format f"
  by (auto simp: out_format_def Let_def split: if_splits)

lemma those_total:
  "(\<And>x. x \<in> set xs \<Longrightarrow> \<exists>y. f x = Some y \<and> P y) \<Longrightarrow> \<exists>ys. those (map f xs) = Some ys \<and> (\<forall>y \<in> set ys. P y)"
proof (induction xs)
  case (Cons x xs)
  then obtain ys where "those (map f xs) = Some ys" "\<forall>y \<in> set ys. P y" by auto
  moreover obtain y where "f x = Some y" "P y" using Cons.prems [of x] by auto
  ultimately show ?case by simp
qed simp

section \<open>Unpacking and packing\<close>

text \<open>A colour survives in the bits a format has for it.\<close>

lemma luma_gray: "luma l l l = l"
proof -
  have "uint l * 54 + uint l * 183 + uint l * 19 + 128 = uint l * 256 + 128" by simp
  moreover have "drop_bit 8 (uint l * 256 + 128) = uint l" by (simp add: drop_bit_eq_div)
  moreover have "uint l \<le> 255" using uint_lt2p [of l] by simp
  ultimately show ?thesis unfolding luma_def clamp8_def by (simp only:) simp
qed

lemma sat8_small:
  assumes "take_bit 8 v = v"
  shows "sat8 v = ucast v"
proof -
  have "uint v = take_bit 8 (uint v)" using arg_cong [OF assms, of uint] by (simp add: unsigned_take_bit_eq)
  then have "uint v < 256" using take_bit_int_less_exp [of 8 "uint v"] by simp
  then have "uint v \<le> 255" by simp
  then have "max 0 (min 255 (uint v)) = uint v" by simp
  then show ?thesis by (simp only: sat8_def clamp8_def ucast_eq)
qed

lemma sat8_ucast: "sat8 (ucast b) = b"
proof -
  have "take_bit 8 (ucast b :: u16) = ucast b" 
  proof (rule bit_word_eqI)
    fix n
    show "bit (take_bit 8 (ucast b :: u16)) n = bit (ucast b :: u16) n"
      using bit_u8_beyond [of n b] by (cases "n < 8") (simp_all add: bit_simps)
  qed
  moreover have "ucast (ucast b :: u16) = b" by (rule bit_word_eqI) (auto simp: bit_simps)
  ultimately show ?thesis by (simp only: sat8_small)
qed

text \<open>Five bits to eight and back, and six.\<close>

lemma expand_small: "take_bit 8 (push_bit 3 (x AND 0x1F) OR drop_bit 2 (x AND 0x1F)) = (push_bit 3 (x AND 0x1F) OR drop_bit 2 (x AND 0x1F) :: u16)"
  "take_bit 8 (push_bit 2 (y AND 0x3F) OR drop_bit 4 (y AND 0x3F)) = (push_bit 2 (y AND 0x3F) OR drop_bit 4 (y AND 0x3F) :: u16)"
proof -
  have m: "(0x1F :: u16) = mask 5" "(0x3F :: u16) = mask 6" by (simp_all add: mask_eq_exp_minus_1)
  show "take_bit 8 (push_bit 3 (x AND 0x1F) OR drop_bit 2 (x AND 0x1F)) = (push_bit 3 (x AND 0x1F) OR drop_bit 2 (x AND 0x1F) :: u16)"
    unfolding m by (rule bit_word_eqI) (auto simp: bit_simps)
  show "take_bit 8 (push_bit 2 (y AND 0x3F) OR drop_bit 4 (y AND 0x3F)) = (push_bit 2 (y AND 0x3F) OR drop_bit 4 (y AND 0x3F) :: u16)"
    unfolding m by (rule bit_word_eqI) (auto simp: bit_simps)
qed

lemma rgb565_unpack:
  "rgb565 (ucast (push_bit 3 (drop_bit 11 p AND 0x1F) OR drop_bit 2 (drop_bit 11 p AND 0x1F) :: u16))
     (ucast (push_bit 2 (drop_bit 5 p AND 0x3F) OR drop_bit 4 (drop_bit 5 p AND 0x3F) :: u16))
     (ucast (push_bit 3 (p AND 0x1F) OR drop_bit 2 (p AND 0x1F) :: u16)) = p"
proof (rule bit_word_eqI)
  have m: "(0x1F :: u16) = mask 5" "(0x3F :: u16) = mask 6" by (simp_all add: mask_eq_exp_minus_1)
  fix n assume "n < LENGTH(16)"
  then consider "n < 5" | "5 \<le> n" "n < 11" | "11 \<le> n" "n < 16" by fastforce
  then show "bit (rgb565 (ucast (push_bit 3 (drop_bit 11 p AND 0x1F) OR drop_bit 2 (drop_bit 11 p AND 0x1F) :: u16))
     (ucast (push_bit 2 (drop_bit 5 p AND 0x3F) OR drop_bit 4 (drop_bit 5 p AND 0x3F) :: u16))
     (ucast (push_bit 3 (p AND 0x1F) OR drop_bit 2 (p AND 0x1F) :: u16))) n = bit p n"
    unfolding m rgb565_def by cases (auto simp: bit_simps)
qed

lemma u16_le_at: "length s = 2 \<Longrightarrow> u16_le (le16_at s 0) = s"
proof -
  assume "length s = 2"
  then obtain a b where s: "s = [a, b]" by (auto simp: numeral_2_eq_2 length_Suc_conv)
  have "ucast (ucast a OR push_bit 8 (ucast b) :: u16) = a" "ucast (drop_bit 8 (ucast a OR push_bit 8 (ucast b) :: u16)) = b"
    by (rule bit_word_eqI, use bit_u8_beyond [of _ a] in \<open>force simp: bit_simps\<close>)+
  then show ?thesis by (simp add: s u16_le_def le16_at_def)
qed

definition pack_pixel :: "image_format \<Rightarrow> u16 list \<Rightarrow> u8 list" where
  "pack_pixel f s = store_rgb f (sat8 (s ! 0)) (sat8 (s ! 1)) (sat8 (s ! 2))"

lemma one_pixel: "[a, b, c] ! 1 = b" "[a, b, c] ! 2 = c" by simp_all

lemma pack_unpack_pixel:
  assumes "store_bytes f = Some n" "length s = n"
  shows "pack_pixel f (unpack_pixel f s) = s"
proof -
  have two: "s = [s ! 0, s ! 1]" if "length s = 2" using that by (auto simp: numeral_2_eq_2 length_Suc_conv)
  have three: "s = [s ! 0, s ! 1, s ! 2]" if "length s = 3" using that by (auto simp: numeral_3_eq_3 length_Suc_conv)
  consider "f = L8" | "f = Rgb888" | "f = Bgr888" | "f = Rgb565" using assms(1) by (cases f) simp_all
  then show ?thesis
  proof cases
    case 1
    then show ?thesis using assms by (auto simp: pack_pixel_def unpack_pixel_def sat8_ucast luma_gray length_Suc_conv)
  next
    case 2
    then show ?thesis using assms three by (simp add: pack_pixel_def unpack_pixel_def sat8_ucast)
  next
    case 3
    then show ?thesis using assms three by (simp add: pack_pixel_def unpack_pixel_def sat8_ucast)
  next
    case 4
    then have "length s = 2" using assms by simp
    then show ?thesis unfolding 4
      by (simp only: pack_pixel_def unpack_pixel_def Let_def image_format.distinct if_False simp_thms nth_Cons_0 one_pixel
          sat8_small [OF expand_small(1)] sat8_small [OF expand_small(2)] store_rgb.simps rgb565_unpack u16_le_at)
  qed
qed

text \<open>What the vector kernels promise: the result of the code they stand for.\<close>

definition pie_ok :: "pie \<Rightarrow> bool" where
  "pie_ok K \<longleftrightarrow>
     (\<forall>n src. n * 16 \<le> length src \<longrightarrow> pie_bytes K n src = map sat8 (take (n * 16) src)) \<and>
     (\<forall>n src. n * 24 \<le> length src \<longrightarrow> pie_565 K n src = concat (map (pack_pixel Rgb565) (take (n * 8) (chunks_exact 3 src))))"

lemma length_pack_pixel: "store_bytes f = Some n \<Longrightarrow> length (pack_pixel f s) = n"
  by (simp add: pack_pixel_def length_store_rgb)

text \<open>The end of \<open>pack_row\<close>: with a part of the result in place, the rest follows.\<close>

lemma pack_rest:
  assumes "all_length n P" "0 < n" "length P = w" "i \<le> w" "i * n \<le> a" "a \<le> w * n" "length dst = w * n" "w \<le> length Q" "take w Q = P"
  shows "copy_at (take a (concat P) @ drop a dst) (i * n)
      (put_chunks n (take (w * n - i * n) (drop (i * n) (take a (concat P) @ drop a dst))) (drop i Q)) = Some (concat P)"
proof -
  have P: "length (concat P) = w * n" using length_concat_all [OF assms(1)] assms(3) by simp
  have iw: "i * n \<le> w * n" using assms(4) by simp
  have Q: "take (w - i) (drop i Q) = drop i P" by (simp only: assms(9) [symmetric] drop_take)
  let ?row = "take (w * n - i * n) (drop (i * n) (take a (concat P) @ drop a dst))"
  have "length ?row = (w - i) * n" using P assms(6,7) iw by (simp add: diff_mult_distrib)
  moreover have "all_length n (take (w - i) (drop i Q))" unfolding Q by (rule all_length_drop [OF assms(1)])
  moreover have "put_chunks n row R = concat (take k R)" if "length row = k * n" "all_length n (take k R)" "k \<le> length R" for row k R
    using that length_concat_all [OF that(2)] assms(2) by (simp add: put_chunks_def Let_def mult.commute)
  ultimately have "put_chunks n ?row (drop i Q) = concat (take (w - i) (drop i Q))" using assms(8) by (metis diff_le_mono length_drop)
  then have "put_chunks n ?row (drop i Q) = concat (drop i P)" by (simp only: Q)
  moreover have "concat (drop i P) = drop (i * n) (concat P)" by (rule drop_concat_all [OF assms(1), symmetric])
  moreover have "take (i * n) (take a (concat P) @ drop a dst) = take (i * n) (concat P)" using assms(5,6) P by (simp add: min_def)
  ultimately show ?thesis using P assms(6,7) iw by (simp add: copy_at_def)
qed

lemma map_sat8_pixels: "3 * w \<le> length src \<Longrightarrow> concat (map (pack_pixel Rgb888) (take w (chunks_exact 3 src))) = map sat8 (take (w * 3) src)"
proof (induction w arbitrary: src)
  case (Suc w)
  obtain a b c rest where src: "src = a # b # c # rest" using Suc.prems by (auto simp: Suc_le_length_iff numeral_eq_Suc)
  have "chunks_exact 3 src = [a, b, c] # chunks_exact 3 rest" using chunks_append [of "[a, b, c]" 3 rest] src by simp
  moreover have "take (Suc w * 3) src = a # b # c # take (w * 3) rest" using src by (simp add: numeral_3_eq_3)
  ultimately show ?case using Suc.IH [of rest] Suc.prems src by (simp add: pack_pixel_def)
qed simp

lemma pack_row_spec:
  assumes "pie_ok K" "store_bytes f = Some n" "length dst = w * n" "3 * w \<le> length src" "ch \<noteq> 1"
  shows "pack_row K src dst w f ch = Some (concat (map (pack_pixel f) (take w (chunks_exact 3 src))))"
proof -
  let ?Q = "map (pack_pixel f) (chunks_exact 3 src)" and ?P = "map (pack_pixel f) (take w (chunks_exact 3 src))"
  have n: "0 < n" by (rule store_bytes_pos [OF assms(2)])
  have P: "all_length n ?P" "length ?P = w" "take w ?Q = ?P" "w \<le> length ?Q"
    using assms(4) by (simp_all add: length_pack_pixel [OF assms(2)] take_map less_eq_div_iff_mult_less_eq)
  have lenP: "length (concat ?P) = w * n" using length_concat_all [OF P(1)] P(2) by simp
  let ?start = "if pie_have K \<and> f = Rgb888 \<and> 16 \<le> w * 3 then
             map_option (\<lambda>dst. (dst, w * 3 div 16 * 16 div 3)) (pack_bytes K dst src (w * 3 div 16))
           else if pie_have K \<and> f = Rgb565 \<and> 8 \<le> w then
             map_option (\<lambda>dst. (dst, w div 8 * 8)) (pack_rgb565 K dst src (w div 8))
           else Some (dst, 0)"
  obtain a i where start: "?start = Some (take a (concat ?P) @ drop a dst, i)" and i: "i \<le> w" "i * n \<le> a" "a \<le> w * n"
  proof -
    consider "pie_have K" "f = Rgb888" "16 \<le> w * 3" | "pie_have K" "f = Rgb565" "8 \<le> w"
      | "\<not> (pie_have K \<and> f = Rgb888 \<and> 16 \<le> w * 3)" "\<not> (pie_have K \<and> f = Rgb565 \<and> 8 \<le> w)" by blast
    then show thesis
    proof cases
      case 1
      let ?m = "w * 3 div 16"
      have m: "?m * 16 \<le> w * 3" by simp
      then have m': "?m * 16 \<le> length src" using assms(4) by linarith
      have k: "pie_bytes K ?m src = map sat8 (take (?m * 16) src)" using assms(1,4) m unfolding pie_ok_def by simp
      have "concat ?P = map sat8 (take (w * 3) src)" using map_sat8_pixels [OF assms(4)] 1 by simp
      then have "map sat8 (take (?m * 16) src) = take (?m * 16) (concat ?P)" using m by (simp add: take_map min_def)
      then have "pack_bytes K dst src ?m = Some (take (?m * 16) (concat ?P) @ drop (?m * 16) dst)"
        using k m m' assms(2,3,4) 1(2) lenP unfolding pack_bytes_def copy_at_def by (simp add: min_def)
      then show thesis using that [of "?m * 16" "?m * 16 div 3"] 1 assms(2) m by simp
    next
      case 2
      let ?m = "w div 8"
      have m: "?m * 8 \<le> w" by simp
      then have m': "?m * 24 \<le> length src" using assms(4) by linarith
      have k: "pie_565 K ?m src = concat (map (pack_pixel Rgb565) (take (?m * 8) (chunks_exact 3 src)))"
        using assms(1,4) m unfolding pie_ok_def by simp
      also have "\<dots> = take (?m * 8 * n) (concat ?P)"
        unfolding take_concat_all [OF P(1)] take_map using m 2(2) by (simp add: min_def)
      finally have "pack_rgb565 K dst src ?m = Some (take (?m * 16) (concat ?P) @ drop (?m * 16) dst)"
        using m m' assms(2,3,4) 2(2) lenP unfolding pack_rgb565_def copy_at_def by (simp add: min_def mult.commute [of 16])
      then show thesis using that [of "?m * 16" "?m * 8"] 2 assms(2) m by simp
    next
      case 3
      show thesis by (rule that [of 0 0]) (simp_all only: if_not_P [OF 3(1)] if_not_P [OF 3(2)], simp_all)
    qed
  qed
  let ?dst = "take a (concat ?P) @ drop a dst"
  have iw: "i * n \<le> w * n" using i(1) by simp
  have len: "length ?dst = w * n" using lenP assms(3) i(3) by simp
  have Q: "map (\<lambda>s. store_rgb f (sat8 (s ! 0)) (sat8 (s ! 1)) (sat8 (s ! 2))) (chunks_exact 3 (drop (i * 3) src)) = drop i ?Q"
    by (simp add: chunks_drop drop_map pack_pixel_def)
  have row: "slice ?dst (i * n) (w * n) = Some (take (w * n - i * n) (drop (i * n) ?dst))"
    unfolding slice_def len using iw by simp
  have part: "slice src (i * 3) (length src) = Some (drop (i * 3) src)"
    using i(1) assms(4) by (simp add: slice_def)
  show ?thesis
    unfolding pack_row_def if_not_P [OF assms(5)] assms(2) Option.bind.bind_lunit start prod.case Let_def row part Q
    by (simp only: pack_rest [OF P(1) n P(2) i assms(3) P(4,3)] bind.bind_lunit prod.case row part Q)
qed

lemma unpack_row_spec:
  assumes "store_bytes f = Some n" "w * n \<le> length src" "length dst = 3 * w" "ch \<noteq> 1"
  shows "unpack_row src dst w f ch = Some (concat (map (unpack_pixel f) (take w (chunks_exact n src))))"
proof -
  have n: "0 < n" by (rule store_bytes_pos [OF assms(1)])
  have "chunks_exact n (take (w * n) src) = take w (chunks_exact n src)"
    using chunks_concat [OF all_length_take [OF all_length_chunks], of n w src] concat_chunks [OF n assms(2)] n by metis
  moreover have "length (take w (chunks_exact n src)) = w" using assms(2) n by (simp add: less_eq_div_iff_mult_less_eq)
  moreover have "length (unpack_pixel f c) = 3" for c by (simp add: unpack_pixel_def Let_def)
  ultimately have "put_chunks 3 dst (map (unpack_pixel f) (chunks_exact n (take (w * n) src)))
      = concat (map (unpack_pixel f) (take w (chunks_exact n src)))"
    using put_chunks_full [of 3 "map (unpack_pixel f) (take w (chunks_exact n src))" dst w] assms(3) by simp
  then show ?thesis using assms by (simp add: unpack_row_def slice_def)
qed

lemma concat_singletons: "concat (map (\<lambda>x. [f x]) xs) = map f xs"
  by (induction xs) simp_all

section \<open>Properties\<close>


definition example_pie :: pie where
  "example_pie = \<lparr>pie_have = True, pie_ycc = (\<lambda>_ _ _ _ _ _. []), pie_bytes = (\<lambda>n src. map sat8 (take (n * 16) src)),
     pie_565 = (\<lambda>n src. concat (map (pack_pixel Rgb565) (take (n * 8) (chunks_exact 3 src))))\<rparr>"


end
