(* ===== verification/Image_Open.thy ===== *)
theory Image_Open
  imports Image_Sources Image_Pixel
begin

text \<open>
  What the decoders share when they open a stream: reads that fail the opening, the allocations that may
  fail, and the entry points of \<open>libs/devkit_image/src/decoder.rs\<close>, which pick the decoder from the first
  bytes of a stream and put them back in front of one that cannot seek.
\<close>

section \<open>Reads and allocations that may fail\<close>

text \<open>The \<open>?\<close> of a function that can also panic.\<close>

definition on_res :: "('e, 'a) res \<Rightarrow> ('a \<Rightarrow> ('e, 'b) res option) \<Rightarrow> ('e, 'b) res option" where
  "on_res m f = (case m of Ok x \<Rightarrow> f x | Err e \<Rightarrow> Some (Err e))"

definition bind_res :: "('e, 'a) res \<Rightarrow> ('a \<Rightarrow> ('e, 'b) res) \<Rightarrow> ('e, 'b) res" where
  "bind_res m f = (case m of Ok x \<Rightarrow> f x | Err e \<Rightarrow> Err e)"

lemma on_res_simps [simp]: "on_res (Ok x) f = f x" "on_res (Err e) f = Some (Err e)"
  by (simp_all add: on_res_def)

lemma bind_res_simps [simp]: "bind_res (Ok x) f = f x" "bind_res (Err e) f = Err e"
  by (simp_all add: bind_res_def)

lemma bind_res_Ok: "bind_res m f = Ok y \<longleftrightarrow> (\<exists>x. m = Ok x \<and> f x = Ok y)"
  by (cases m) simp_all

lemma bind_res_OkE:
  assumes "bind_res m f = Ok y"
  obtains x where "m = Ok x" "f x = Ok y"
  using assms by (auto simp: bind_res_Ok)

lemma bind_res_cong [fundef_cong]: "m = m' \<Longrightarrow> (\<And>x. m' = Ok x \<Longrightarrow> f x = f' x) \<Longrightarrow> bind_res m f = bind_res m' f'"
  by (cases m') simp_all

lemma on_res_total:
  "(\<And>x. m = Ok x \<Longrightarrow> \<exists>r. f x = Some r \<and> P r) \<Longrightarrow> (\<And>e. P (Err e)) \<Longrightarrow> \<exists>r. on_res m f = Some r \<and> P r"
  by (cases m) simp_all

text \<open>\<open>mem k\<close> is whether the \<open>k\<close>-th allocation of the opening succeeds.\<close>

definition alloc :: "(nat \<Rightarrow> bool) \<Rightarrow> nat \<Rightarrow> (image_error, unit) res" where
  "alloc mem k = (if mem k then Ok () else Err ImgOutOfMemory)"

definition read_or :: "reader \<Rightarrow> nat \<Rightarrow> (image_error, u8 list \<times> reader) res" where
  "read_or r n = (case reader_read_exact r n of (ok, bs, r) \<Rightarrow> if ok then Ok (bs, r) else Err ImgTruncated)"

definition skip_or :: "reader \<Rightarrow> nat \<Rightarrow> (image_error, reader) res" where
  "skip_or r n = (case reader_skip r n of (ok, r) \<Rightarrow> if ok then Ok r else Err ImgTruncated)"

definition byte_or :: "reader \<Rightarrow> (image_error, u8 \<times> reader) res" where
  "byte_or r = (case reader_byte r of (None, _) \<Rightarrow> Err ImgTruncated | (Some b, r) \<Rightarrow> Ok (b, r))"

text \<open>Palette entries of three bytes, one read each.\<close>

fun read_entries :: "reader \<Rightarrow> nat \<Rightarrow> (image_error, u8 list list \<times> reader) res" where
  "read_entries r 0 = Ok ([], r)"
| "read_entries r (Suc n) =
     bind_res (read_or r 3) (\<lambda>(e, r). bind_res (read_entries r n) (\<lambda>(es, r). Ok (e # es, r)))"

lemma read_entries_length: "read_entries r n = Ok (es, r') \<Longrightarrow> length es = n \<and> all_length 3 es"
proof (induction n arbitrary: r es r')
  case (Suc n)
  then show ?case by (fastforce simp: bind_res_Ok read_or_def reader_read_exact_def split: if_splits prod.splits)
qed simp

lemma read_or_length: "read_or r n = Ok (bs, r') \<Longrightarrow> length bs = n"
  by (auto simp: read_or_def reader_read_exact_def split: if_splits prod.splits)

lemma skip_left: "reader_skip r n = (ok, r') \<Longrightarrow> reader_left r' \<le> reader_left r"
proof (induction r n arbitrary: ok r' rule: reader_skip.induct)
  case (1 r n)
  show ?case
  proof (cases "n = 0")
    case True
    then show ?thesis using "1.prems" by (simp add: reader_skip.simps [of r 0])
  next
    case False
    obtain o1 bs r1 where r: "reader_read_exact r (min n 64) = (o1, bs, r1)" by (metis prod_cases3)
    have le: "reader_left r1 \<le> reader_left r" using reader_exact_left [OF r] by simp
    have eq: "reader_skip r n = (if \<not> o1 then (False, r1) else reader_skip r1 (n - min n 64))"
      by (subst reader_skip.simps) (use False in \<open>simp only: r if_False Let_def prod.case\<close>)
    show ?thesis
    proof (cases o1)
      case True
      then have "reader_left r' \<le> reader_left r1"
        by (intro "1.IH" [OF False refl refl r [symmetric] refl _, of ok]) (use eq "1.prems" in simp_all)
      then show ?thesis using le by simp
    qed (use eq "1.prems" le in simp)
  qed
qed

lemma read_or_left: "read_or r n = Ok (bs, r') \<Longrightarrow> reader_left r' + n = reader_left r"
  using reader_exact_left by (fastforce simp: read_or_def split: if_splits prod.splits)

lemma skip_or_left: "skip_or r n = Ok r' \<Longrightarrow> reader_left r' \<le> reader_left r"
  using skip_left by (fastforce simp: skip_or_def split: if_splits prod.splits)

lemma read_entries_left: "read_entries r n = Ok (es, r') \<Longrightarrow> reader_left r' \<le> reader_left r"
proof (induction n arbitrary: r es)
  case (Suc n)
  then show ?case by (fastforce simp: bind_res_Ok dest: read_or_left)
qed simp

lemma byte_or_left: "byte_or r = Ok (b, r') \<Longrightarrow> reader_left r' < reader_left r"
  using reader_byte_left by (auto simp: byte_or_def split: prod.splits option.splits)

lemmas reads_left = read_or_left skip_or_left read_entries_left byte_or_left

text \<open>What is read off a reader at a known position.\<close>

lemma read_or_rest:
  assumes "cursor_ok r" "reader_rest r = bs @ rest" "length bs = n"
  obtains r' where "read_or r n = Ok (bs, r')" "cursor_ok r'" "reader_rest r' = rest"
proof -
  obtain r' where "reader_read_exact r n = (n \<le> length (reader_rest r), take n (reader_rest r), r')" "cursor_ok r'"
      "reader_rest r' = drop n (reader_rest r)"
    by (rule reader_exact_rest [OF assms(1), of n])
  then show ?thesis using that [of r'] assms(2,3) by (simp add: read_or_def)
qed

lemma byte_or_rest:
  assumes "cursor_ok r" "reader_rest r = b # rest"
  obtains r' where "byte_or r = Ok (b, r')" "cursor_ok r'" "reader_rest r' = rest"
proof -
  obtain r' where "reader_byte r = (case reader_rest r of [] \<Rightarrow> None | b # _ \<Rightarrow> Some b, r')" "cursor_ok r'" "reader_rest r' = drop 1 (reader_rest r)"
    by (rule reader_byte_rest [OF assms(1)])
  then show ?thesis using that [of r'] assms(2) by (simp add: byte_or_def)
qed

section \<open>Options and formats\<close>

record decode_options =
  do_format :: "image_format option"

datatype format = Jpeg | Png | Bmp | Gif | Tiff | Webp

definition starts_with :: "u8 list \<Rightarrow> u8 list \<Rightarrow> bool" where
  "starts_with xs magic \<longleftrightarrow> take (length magic) xs = magic"

definition sniff :: "u8 list \<Rightarrow> format option" where
  "sniff header =
     (if starts_with header [0x89, 0x50, 0x4E, 0x47, 0x0D, 0x0A, 0x1A, 0x0A] then Some Png
      else if starts_with header [0xFF, 0xD8, 0xFF] then Some Jpeg
      else if starts_with header [0x47, 0x49, 0x46, 0x38, 0x37, 0x61] \<or> starts_with header [0x47, 0x49, 0x46, 0x38, 0x39, 0x61] then Some Gif
      else if starts_with header [0x49, 0x49, 0x2A, 0] \<or> starts_with header [0x4D, 0x4D, 0, 0x2A] then Some Tiff
      else if 12 \<le> length header \<and> starts_with header [0x52, 0x49, 0x46, 0x46] \<and>
              take 4 (drop 8 header) = [0x57, 0x45, 0x42, 0x50] then Some Webp
      else if starts_with header [0x42, 0x4D] then Some Bmp
      else None)"

section \<open>Putting the first bytes back\<close>

text \<open>\<open>rw_head\<close> is \<open>head[..len]\<close>.\<close>

record rewound =
  rw_head :: "u8 list"
  rw_pos :: nat
  rw_rest :: stream

definition rewound_read :: "rewound \<Rightarrow> nat \<Rightarrow> u8 list \<times> rewound" where
  "rewound_read s m =
     (if rw_pos s = length (rw_head s) then
        let (got, rest) = stream_read (rw_rest s) m in (got, s\<lparr>rw_rest := rest\<rparr>)
      else
        let n = min m (length (rw_head s) - rw_pos s)
        in (take n (drop (rw_pos s) (rw_head s)), s\<lparr>rw_pos := rw_pos s + n\<rparr>))"

text \<open>The loop that reads up to twelve bytes.\<close>

function head_loop :: "u8 list \<Rightarrow> stream \<Rightarrow> u8 list \<times> stream" where
  "head_loop head s =
     (if length head < 12 then
        let (got, s') = stream_read s (12 - length head)
        in if got = [] then (head, s') else head_loop (head @ got) s'
      else (head, s))"
  by pat_completeness auto
termination
proof (relation "measure (\<lambda>(head, s). 12 - length head)")
  fix head got :: "u8 list" and s s' :: stream and x
  assume "length head < 12" "got \<noteq> []"
  then have "12 - (length head + length got) < 12 - length head" by (cases got) simp_all
  then show "((head @ got, s'), head, s) \<in> measure (\<lambda>(head, s). 12 - length head)" by simp
qed simp

declare head_loop.simps [simp del]

text \<open>The stream a decoder is opened on.\<close>

datatype opened = Seeking stream | Rewinding rewound

definition open_stream :: "stream \<Rightarrow> (image_error, format \<times> opened) res" where
  "open_stream src =
     (let (head, src) = head_loop [] src in
      case sniff head of
        None \<Rightarrow> Err ImgUnsupported
      | Some f \<Rightarrow>
          if sm_seeks src then
            (case stream_seek src 0 of (Err e, _) \<Rightarrow> Err e | (Ok _, src) \<Rightarrow> Ok (f, Seeking src))
          else Ok (f, Rewinding \<lparr>rw_head = head, rw_pos = 0, rw_rest = src\<rparr>))"

section \<open>The decoder sees the whole stream\<close>

text \<open>A rewound stream is the stream that was read from, back at its start.\<close>

definition as_stream :: "rewound \<Rightarrow> stream" where
  "as_stream s = (rw_rest s)
     \<lparr>sm_pos := (if rw_pos s < length (rw_head s) then rw_pos s else sm_pos (rw_rest s)),
      sm_gives := (\<lambda>p. if p < length (rw_head s) then length (rw_head s) - p else sm_gives (rw_rest s) p),
      sm_seeks := False\<rparr>"

definition rewound_ok :: "rewound \<Rightarrow> bool" where
  "rewound_ok s \<longleftrightarrow> rw_pos s \<le> length (rw_head s) \<and> rw_head s = take (length (rw_head s)) (sm_data (rw_rest s)) \<and>
     length (rw_head s) \<le> sm_pos (rw_rest s) \<and> (rw_pos s < length (rw_head s) \<longrightarrow> sm_pos (rw_rest s) = length (rw_head s))"

lemma rewound_read_as_stream:
  assumes "rewound_ok s"
  shows "fst (rewound_read s m) = fst (stream_read (as_stream s) m) \<and>
    as_stream (snd (rewound_read s m)) = snd (stream_read (as_stream s) m) \<and> rewound_ok (snd (rewound_read s m))"
proof (cases "rw_pos s < length (rw_head s)")
  case True
  let ?k = "length (rw_head s) - rw_pos s" and ?data = "sm_data (rw_rest s)"
  have head: "rw_head s = take (length (rw_head s)) ?data" and le: "length (rw_head s) \<le> length ?data"
    using assms by (simp_all add: rewound_ok_def) (metis length_take min.cobounded1)
  have n: "min (length ?data - rw_pos s) (min m (max 1 ?k)) = min m ?k" using le True by simp
  have "drop (rw_pos s) (rw_head s) = take ?k (drop (rw_pos s) ?data)" by (metis head drop_take)
  then have "take (min m ?k) (drop (rw_pos s) (rw_head s)) = take (min m ?k) (drop (rw_pos s) ?data)" by simp
  moreover have "rewound_read s m = (take (min m ?k) (drop (rw_pos s) (rw_head s)), s\<lparr>rw_pos := rw_pos s + min m ?k\<rparr>)"
    using True by (simp add: rewound_read_def Let_def)
  moreover have "stream_read (as_stream s) m =
      (take (min m ?k) (drop (rw_pos s) ?data), (as_stream s)\<lparr>sm_pos := rw_pos s + min m ?k\<rparr>)"
    using True n by (simp add: stream_read_def as_stream_def Let_def)
  moreover have "as_stream (s\<lparr>rw_pos := rw_pos s + min m ?k\<rparr>) = (as_stream s)\<lparr>sm_pos := rw_pos s + min m ?k\<rparr>"
    using True assms by (intro stream.equality) (auto simp: as_stream_def rewound_ok_def)
  moreover have "rewound_ok (s\<lparr>rw_pos := rw_pos s + min m ?k\<rparr>)" using True assms by (auto simp: rewound_ok_def)
  ultimately show ?thesis by simp
next
  case False
  then have "rw_pos s = length (rw_head s)" "length (rw_head s) \<le> sm_pos (rw_rest s)" using assms by (simp_all add: rewound_ok_def)
  then show ?thesis using False assms
    by (auto simp: rewound_read_def stream_read_def as_stream_def rewound_ok_def Let_def intro!: stream.equality)
qed

lemma stream_read_step:
  assumes "stream_read s n = (got, s')" "sm_pos s \<le> length (sm_data s)" "0 < n"
  shows "got = take (length got) (drop (sm_pos s) (sm_data s)) \<and> length got \<le> n \<and> s' = s\<lparr>sm_pos := sm_pos s + length got\<rparr> \<and>
    sm_pos s + length got \<le> length (sm_data s) \<and> (got = [] \<longrightarrow> sm_pos s = length (sm_data s))"
proof -
  let ?k = "min (length (sm_data s) - sm_pos s) (min n (max 1 (sm_gives s (sm_pos s))))"
  have got: "got = take ?k (drop (sm_pos s) (sm_data s))" "s' = s\<lparr>sm_pos := sm_pos s + ?k\<rparr>"
    using assms(1) unfolding stream_read_def Let_def length_drop by simp_all
  have "length got = ?k" unfolding got(1) length_take length_drop by linarith
  moreover have "?k \<le> n" "sm_pos s + ?k \<le> length (sm_data s)" "?k = 0 \<longrightarrow> sm_pos s = length (sm_data s)" using assms(2,3) by linarith+
  ultimately show ?thesis using got by (metis length_0_conv)
qed

lemma head_loop_spec:
  "head = take (length head) (sm_data s) \<Longrightarrow> sm_pos s = length head \<Longrightarrow> length head \<le> 12 \<Longrightarrow> head_loop head s = (head', s') \<Longrightarrow>
   head' = take 12 (sm_data s) \<and> s' = s\<lparr>sm_pos := length head'\<rparr>"
proof (induction head s arbitrary: head' s' rule: head_loop.induct)
  case (1 head s)
  have le: "sm_pos s \<le> length (sm_data s)" using 1(2,3) by (metis length_take min.cobounded1)
  show ?case
  proof (cases "length head < 12")
    case False
    then have "head' = head" "s' = s" using "1.prems"(4) by (simp_all add: head_loop.simps [of head s])
    moreover have "length head = 12" using False "1.prems"(3) by simp
    ultimately show ?thesis using "1.prems"(1,2) by simp
  next
    case True
    obtain got t where r: "stream_read s (12 - length head) = (got, t)" by fastforce
    note step = stream_read_step [OF r le]
    show ?thesis
    proof (cases "got = []")
      case True
      then have "head_loop head s = (head, t)" using \<open>length head < 12\<close> r by (simp add: head_loop.simps [of head s])
      moreover have "length head = length (sm_data s)" using step \<open>length head < 12\<close> True "1.prems"(2) by simp
      ultimately show ?thesis using "1.prems" step \<open>length head < 12\<close> True by auto
    next
      case False
      have eq: "head_loop head s = head_loop (head @ got) t" using \<open>length head < 12\<close> r False by (simp add: head_loop.simps [of head s])
      have st: "got = take (length got) (drop (length head) (sm_data s))" "length got \<le> 12 - length head"
        "t = s\<lparr>sm_pos := length head + length got\<rparr>" using step \<open>length head < 12\<close> "1.prems"(2) by simp_all
      have all: "head @ got = take (length (head @ got)) (sm_data t)"
        unfolding length_append take_add using "1.prems"(1) st(1,3) by simp
      have pos: "sm_pos t = length (head @ got)" "length (head @ got) \<le> 12" using st(2,3) \<open>length head < 12\<close> by simp_all
      have "head' = take 12 (sm_data t) \<and> s' = t\<lparr>sm_pos := length head'\<rparr>"
        by (rule "1.IH" [OF \<open>length head < 12\<close> r [symmetric] refl False all pos]) (use eq "1.prems"(4) in simp)
      then show ?thesis using st(3) by simp
    qed
  qed
qed



end
