(* ===== verification/Bmp_Decoder.thy ===== *)
theory Bmp_Decoder
  imports Image_Open
begin

text \<open>
  BMP, \<open>libs/devkit_image/src/bmp.rs\<close>: opening a stream (the three kinds of header, the masks of the channels,
  the palette), rows read in chunks from a stream that can seek, and the two run-length encodings. Arithmetic
  of \<open>usize\<close> is on natural numbers; the \<open>u32\<close> multiplication in \<open>Channel::value\<close> is a panic where it
  overflows, as it is in a build with overflow checks.
\<close>

section \<open>The decoder\<close>

abbreviation BI_RGB :: u32 where "BI_RGB \<equiv> 0"
abbreviation BI_RLE8 :: u32 where "BI_RLE8 \<equiv> 1"
abbreviation BI_RLE4 :: u32 where "BI_RLE4 \<equiv> 2"
abbreviation BI_BITFIELDS :: u32 where "BI_BITFIELDS \<equiv> 3"
abbreviation BI_ALPHABITFIELDS :: u32 where "BI_ALPHABITFIELDS \<equiv> 6"

definition BMP_CHUNK_BYTES :: nat where "BMP_CHUNK_BYTES = 32768"

record channel =
  ch_mask :: u32
  ch_shift :: nat
  ch_bits :: nat

text \<open>\<open>trailing_zeros\<close> and \<open>trailing_ones\<close> of a word.\<close>

definition trailing_zeros :: "u32 \<Rightarrow> nat" where
  "trailing_zeros w = length (takeWhile (\<lambda>i. \<not> bit w i) [0..<32])"

definition trailing_ones :: "u32 \<Rightarrow> nat" where
  "trailing_ones w = length (takeWhile (bit w) [0..<32])"

definition channel_default :: channel where
  "channel_default = \<lparr>ch_mask = 0, ch_shift = 0, ch_bits = 0\<rparr>"

definition channel_new :: "u32 \<Rightarrow> channel" where
  "channel_new m =
     (if m = 0 then channel_default
      else let shift = trailing_zeros m
           in \<lparr>ch_mask = m, ch_shift = shift, ch_bits = trailing_ones (drop_bit shift m)\<rparr>)"

definition channel_value :: "channel \<Rightarrow> u32 \<Rightarrow> u8 option" where
  "channel_value c px =
     (if ch_bits c = 0 then Some 0
      else let v = drop_bit (ch_shift c) (px AND ch_mask c) in
        if 8 \<le> ch_bits c then Some (ucast (drop_bit (ch_bits c - 8) v))
        else if unat v * 255 < 2 ^ 32 then Some (word_of_nat (unat v * 255 div (2 ^ ch_bits c - 1)))
        else None)"

record bmp =
  bm_r :: reader
  bm_width :: nat
  bm_height :: nat
  bm_format :: image_format
  bm_data_offset :: nat
  bm_stride :: nat
  bm_bpp :: nat
  bm_compression :: u32
  bm_bottom_up :: bool
  bm_channels :: "channel list"
  bm_palette :: "u8 list list"
  bm_palette_count :: nat
  bm_row :: nat
  bm_chunk :: "u8 list option"
  bm_chunk_rows :: nat
  bm_chunk_first :: nat
  bm_chunk_count :: nat
  bm_indices :: "u8 list option"

subsection \<open>Opening\<close>

text \<open>What the headers say; \<open>bh_rest\<close> is \<open>ih\<close>.\<close>

record bmp_head =
  bh_offset :: nat
  bh_info :: nat
  bh_w :: int
  bh_h :: int
  bh_bpp :: nat
  bh_compression :: u32
  bh_entry :: nat
  bh_used :: nat
  bh_rest :: "u8 list"

definition bmp_header :: "reader \<Rightarrow> (image_error, bmp_head \<times> reader) res" where
  "bmp_header r =
     bind_res (read_or r 18) (\<lambda>(fh, r).
     if take 2 fh \<noteq> [0x42, 0x4D] then Err ImgDecode
     else let offset = unat (le32_at fh 10); info = unat (le32_at fh 14) in
       if info = 12 then bind_res (read_or r 8) (\<lambda>(ih, r).
         Ok (\<lparr>bh_offset = offset, bh_info = info, bh_w = uint (le16_at ih 0), bh_h = uint (le16_at ih 2),
              bh_bpp = unat (le16_at ih 6), bh_compression = BI_RGB, bh_entry = 3, bh_used = 0, bh_rest = ih\<rparr>, r))
       else if info \<in> {40, 52, 56, 108, 124} then bind_res (read_or r (info - 4)) (\<lambda>(ih, r).
         Ok (\<lparr>bh_offset = offset, bh_info = info, bh_w = sint (le32_at ih 0), bh_h = sint (le32_at ih 4),
              bh_bpp = unat (le16_at ih 10), bh_compression = le32_at ih 12, bh_entry = 4, bh_used = unat (le32_at ih 28), bh_rest = ih\<rparr>, r))
       else Err ImgUnsupported)"

definition bmp_size :: "bmp_head \<Rightarrow> image_error option" where
  "bmp_size h =
     (if bh_w h \<le> 0 \<or> bh_h h = 0 \<or> bh_h h = - (2 ^ 31) then Some ImgDecode
      else if 0xFFFF < bh_w h \<or> 0xFFFF < \<bar>bh_h h\<bar> then Some ImgTooLarge
      else None)"

definition bmp_kind :: "u32 \<Rightarrow> nat \<Rightarrow> bool \<Rightarrow> image_error option" where
  "bmp_kind compression bpp bottom_up =
     (if compression = BI_RGB then (if bpp \<notin> {1, 4, 8, 16, 24, 32} then Some ImgUnsupported else None)
      else if compression = BI_RLE8 then (if bpp \<noteq> 8 \<or> \<not> bottom_up then Some ImgDecode else None)
      else if compression = BI_RLE4 then (if bpp \<noteq> 4 \<or> \<not> bottom_up then Some ImgDecode else None)
      else if compression = BI_BITFIELDS \<or> compression = BI_ALPHABITFIELDS then (if bpp \<noteq> 16 \<and> bpp \<noteq> 32 then Some ImgDecode else None)
      else Some ImgUnsupported)"

definition bmp_channels :: "bmp_head \<Rightarrow> reader \<Rightarrow> (image_error, channel list \<times> reader) res" where
  "bmp_channels h r =
     (if bh_compression h = BI_BITFIELDS \<or> bh_compression h = BI_ALPHABITFIELDS then
        bind_res (if bh_info h = 40 then
            bind_res (read_or r 12) (\<lambda>(masks, r). if bh_compression h = BI_ALPHABITFIELDS
              then bind_res (skip_or r 4) (\<lambda>r. Ok (masks, r)) else Ok (masks, r))
          else Ok (take 12 (drop 36 (bh_rest h)), r)) (\<lambda>(masks, r).
        Ok (map (\<lambda>c. channel_new (le32_at masks (4 * c))) [0..<3], r))
      else if bh_bpp h = 16 then Ok (map channel_new [0x7C00, 0x03E0, 0x001F], r)
      else if bh_bpp h = 32 then Ok (map channel_new [0x00FF0000, 0x0000FF00, 0x000000FF], r)
      else Ok (replicate 3 channel_default, r))"

fun bmp_entries :: "nat \<Rightarrow> reader \<Rightarrow> nat \<Rightarrow> (image_error, u8 list list \<times> reader) res" where
  "bmp_entries k r 0 = Ok ([], r)"
| "bmp_entries k r (Suc n) =
     bind_res (read_or r k) (\<lambda>(e, r). bind_res (bmp_entries k r n) (\<lambda>(es, r). Ok ([e ! 2, e ! 1, e ! 0] # es, r)))"

definition bmp_palette :: "bmp_head \<Rightarrow> reader \<Rightarrow> (image_error, u8 list list \<times> nat \<times> reader) res" where
  "bmp_palette h r =
     (if bh_bpp h \<le> 8 then
        let entries = min (if bh_used h \<noteq> 0 then bh_used h else 2 ^ bh_bpp h) 256 in
        bind_res (bmp_entries (bh_entry h) r entries) (\<lambda>(es, r). Ok (es @ replicate (256 - entries) [0, 0, 0], entries, r))
      else Ok (replicate 256 [0, 0, 0], 0, r))"

definition bmp_state :: "bmp_head \<Rightarrow> image_format \<Rightarrow> channel list \<Rightarrow> u8 list list \<Rightarrow> nat \<Rightarrow> reader \<Rightarrow> bmp" where
  "bmp_state h f channels palette entries r =
     \<lparr>bm_r = r, bm_width = nat (bh_w h), bm_height = nat \<bar>bh_h h\<bar>, bm_format = f, bm_data_offset = bh_offset h,
      bm_stride = div_ceil (nat (bh_w h) * bh_bpp h) 32 * 4, bm_bpp = bh_bpp h, bm_compression = bh_compression h,
      bm_bottom_up = (0 < bh_h h), bm_channels = channels, bm_palette = palette, bm_palette_count = entries, bm_row = 0,
      bm_chunk = None, bm_chunk_rows = 0, bm_chunk_first = 0, bm_chunk_count = 0, bm_indices = None\<rparr>"

definition bmp_is_rle :: "bmp \<Rightarrow> bool" where
  "bmp_is_rle d \<longleftrightarrow> bm_compression d = BI_RLE8 \<or> bm_compression d = BI_RLE4"

text \<open>The buffer of the chunks, for all but the run-length encodings.\<close>

definition bmp_chunks :: "(nat \<Rightarrow> bool) \<Rightarrow> bmp \<Rightarrow> (image_error, bmp) res" where
  "bmp_chunks mem d =
     (if bmp_is_rle d then Ok d
      else if bm_bottom_up d \<and> \<not> sm_seeks (rd_src (bm_r d)) then Err ImgUnsupported
      else let rows = max 1 (min (BMP_CHUNK_BYTES div bm_stride d) (bm_height d)) in
        bind_res (alloc mem 3) (\<lambda>_. Ok (d\<lparr>bm_chunk_rows := rows, bm_chunk := Some (replicate (rows * bm_stride d) 0)\<rparr>)))"

definition bmp_open :: "(nat \<Rightarrow> bool) \<Rightarrow> stream \<Rightarrow> decode_options \<Rightarrow> (image_error, bmp) res" where
  "bmp_open mem src options =
     bind_res (alloc mem 0) (\<lambda>_. bind_res (alloc mem 1) (\<lambda>_.
     bind_res (bmp_header (reader_new src)) (\<lambda>(h, r).
     case bmp_size h of Some e \<Rightarrow> Err e | None \<Rightarrow>
     case bmp_kind (bh_compression h) (bh_bpp h) (0 < bh_h h) of Some e \<Rightarrow> Err e | None \<Rightarrow>
     bind_res (bmp_channels h r) (\<lambda>(channels, r).
     bind_res (alloc mem 2) (\<lambda>_.
     bind_res (bmp_palette h r) (\<lambda>(palette, entries, r).
     bind_res (out_format Rgb888 (do_format options)) (\<lambda>f.
     bmp_chunks mem (bmp_state h f channels palette entries r))))))))"

subsection \<open>Converting a row\<close>

definition bmp_colour :: "bmp \<Rightarrow> nat \<Rightarrow> u8 list option" where
  "bmp_colour d idx =
     (let idx = (if bm_palette_count d \<le> idx then 0 else idx) in
      if idx < length (bm_palette d)
      then let p = bm_palette d ! idx in Some (store_rgb (bm_format d) (p ! 0) (p ! 1) (p ! 2)) else None)"

definition bmp_index :: "nat \<Rightarrow> u8 list \<Rightarrow> nat \<Rightarrow> nat option" where
  "bmp_index bpp src x =
     (let bitpos = x * bpp in
      if bitpos div 8 < length src
      then Some (unat (drop_bit (8 - bpp - bitpos mod 8) (src ! (bitpos div 8))) mod 2 ^ bpp) else None)"

definition bmp_mixed :: "bmp \<Rightarrow> u32 \<Rightarrow> u8 list option" where
  "bmp_mixed d px = do {
     vs \<leftarrow> those (map (\<lambda>c. channel_value c px) (bm_channels d));
     Some (store_rgb (bm_format d) (vs ! 0) (vs ! 1) (vs ! 2))
   }"

definition bmp_pixels :: "bmp \<Rightarrow> u8 list \<Rightarrow> u8 list list option" where
  "bmp_pixels d src =
     (let w = bm_width d in
      if bm_bpp d \<in> {1, 4, 8} then those (map (\<lambda>x. do { i \<leftarrow> bmp_index (bm_bpp d) src x; bmp_colour d i }) [0..<w])
      else if bm_bpp d = 16 then those (map (\<lambda>p. bmp_mixed d (ucast (le16_at p 0))) (take w (chunks_exact 2 src)))
      else if bm_bpp d = 24 then Some (map (\<lambda>p. store_rgb (bm_format d) (p ! 2) (p ! 1) (p ! 0)) (take w (chunks_exact 3 src)))
      else those (map (\<lambda>p. bmp_mixed d (le32_at p 0)) (take w (chunks_exact 4 src))))"

definition bmp_convert :: "bmp \<Rightarrow> u8 list \<Rightarrow> u8 list \<Rightarrow> u8 list option" where
  "bmp_convert d src dst = do {
     pixels \<leftarrow> bmp_pixels d src;
     store_pixels (bm_format d) (bm_width d) dst pixels
   }"

subsection \<open>Chunks of rows\<close>

text \<open>The first row of the chunk that holds a row, and how many rows it has.\<close>

definition chunk_span :: "bmp \<Rightarrow> nat \<Rightarrow> nat \<times> nat" where
  "chunk_span d stored =
     (if bm_bottom_up d then let first = stored + 1 - bm_chunk_rows d in (first, stored - first + 1)
      else if bm_height d < stored + bm_chunk_rows d then (stored, bm_height d - stored)
      else (stored, bm_chunk_rows d))"

definition load_chunk :: "bmp \<Rightarrow> nat \<Rightarrow> (bool \<times> bmp) option" where
  "load_chunk d stored =
     (case chunk_span d stored of (first, rows) \<Rightarrow>
      case reader_seek (bm_r d) (bm_data_offset d + first * bm_stride d) of (ok, r) \<Rightarrow>
        if \<not> ok then Some (False, d\<lparr>bm_r := r\<rparr>)
        else do {
          chunk \<leftarrow> bm_chunk d;
          _ \<leftarrow> slice chunk 0 (rows * bm_stride d);
          let (ok, bs, r) = reader_read_exact r (rows * bm_stride d);
          chunk \<leftarrow> copy_at chunk 0 bs;
          let d = d\<lparr>bm_r := r, bm_chunk := Some chunk\<rparr>;
          Some (if ok then (True, d\<lparr>bm_chunk_first := first, bm_chunk_count := rows\<rparr>) else (False, d))
        })"

subsection \<open>Run lengths\<close>

text \<open>The indices of a run or literal of \<open>n\<close> bytes or nibbles.\<close>

definition rle_pick :: "bool \<Rightarrow> nat \<Rightarrow> u8 \<Rightarrow> u8" where
  "rle_pick four i b = (if \<not> four then b else if odd i then b AND 0x0F else drop_bit 4 b)"

text \<open>The closure \<open>put\<close>, for one index and for several.\<close>

definition rle_put :: "nat \<Rightarrow> nat \<Rightarrow> nat \<Rightarrow> nat \<Rightarrow> u8 \<Rightarrow> u8 list \<Rightarrow> u8 list option" where
  "rle_put w h x y idx indices =
     (if x < w \<and> y < h then (if y * w + x < length indices then Some (indices[y * w + x := idx]) else None)
      else Some indices)"

fun rle_puts :: "nat \<Rightarrow> nat \<Rightarrow> nat \<Rightarrow> nat \<Rightarrow> u8 list \<Rightarrow> u8 list \<Rightarrow> (nat \<times> u8 list) option" where
  "rle_puts w h x y [] indices = Some (x, indices)"
| "rle_puts w h x y (i # rest) indices = do {
     indices \<leftarrow> rle_put w h x y i indices;
     rle_puts w h (x + 1) y rest indices
   }"

text \<open>The bytes of a literal: index \<open>i\<close> of it takes a byte of its own, or the other half of \<open>b\<close>.\<close>

fun rle_literal :: "bool \<Rightarrow> reader \<Rightarrow> u8 \<Rightarrow> nat \<Rightarrow> nat \<Rightarrow> u8 list option \<times> reader" where
  "rle_literal four r b i 0 = (Some [], r)"
| "rle_literal four r b i (Suc n) =
     (if \<not> four \<or> even i then
        (case reader_byte r of
           (None, r) \<Rightarrow> (None, r)
         | (Some b, r) \<Rightarrow> (case rle_literal four r b (i + 1) n of (vs, r) \<Rightarrow> (map_option (\<lambda>vs. rle_pick four i b # vs) vs, r)))
      else (case rle_literal four r b (i + 1) n of (vs, r) \<Rightarrow> (map_option (\<lambda>vs. rle_pick four i b # vs) vs, r)))"

text \<open>One turn of the loop: an error, the indices at the end of the bitmap, or the next position.\<close>

datatype rle_next = Rle_error | Rle_end "u8 list" | Rle_at nat nat "u8 list"

definition rle_step :: "bool \<Rightarrow> nat \<Rightarrow> nat \<Rightarrow> reader \<Rightarrow> nat \<Rightarrow> nat \<Rightarrow> u8 list \<Rightarrow> (rle_next \<times> reader) option" where
  "rle_step four w h r x y indices =
     (case reader_byte r of (c, r) \<Rightarrow> case reader_byte r of (v, r) \<Rightarrow>
      case (c, v) of
        (Some n, Some v) \<Rightarrow>
          if 0 < n then do {
            (x, indices) \<leftarrow> rle_puts w h x y (map (\<lambda>i. rle_pick four i v) [0..<unat n]) indices;
            Some (Rle_at x y indices, r)
          }
          else if v = 0 then Some (Rle_at 0 (y + 1) indices, r)
          else if v = 1 then Some (Rle_end indices, r)
          else if v = 2 then
            (case reader_byte r of (dx, r) \<Rightarrow> case reader_byte r of (dy, r) \<Rightarrow>
             case (dx, dy) of
               (Some dx, Some dy) \<Rightarrow> Some (Rle_at (x + unat dx) (y + unat dy) indices, r)
             | _ \<Rightarrow> Some (Rle_error, r))
          else
            let bytes = (if four then div_ceil (unat v) 2 else unat v) in
            (case rle_literal four r 0 0 (unat v) of
               (None, r) \<Rightarrow> Some (Rle_error, r)
             | (Some vs, r) \<Rightarrow> do {
                 (x, indices) \<leftarrow> rle_puts w h x y vs indices;
                 if odd bytes then
                   (case reader_byte r of (None, r) \<Rightarrow> Some (Rle_error, r) | (Some _, r) \<Rightarrow> Some (Rle_at x y indices, r))
                 else Some (Rle_at x y indices, r)
               })
      | _ \<Rightarrow> Some (Rle_error, r))"

lemma rle_literal_left: "rle_literal four r b i n = (vs, r') \<Longrightarrow> vs \<noteq> None \<Longrightarrow> reader_left r' \<le> reader_left r"
proof (induction n arbitrary: r b i vs r')
  case (Suc n)
  obtain c r1 where c: "reader_byte r = (c, r1)" by fastforce
  show ?case
  proof (cases "\<not> four \<or> even i")
    case True
    then obtain b' where b': "c = Some b'" using Suc.prems c by (cases c) auto
    obtain ws r2 where w: "rle_literal four r1 b' (i + 1) n = (ws, r2)" by fastforce
    then have "ws \<noteq> None" "r2 = r'" using Suc.prems c b' True by auto
    then have "reader_left r' \<le> reader_left r1" using Suc.IH [OF w] by simp
    then show ?thesis using reader_byte_left [of r b' r1] c b' by simp
  next
    case False
    obtain ws r2 where w: "rle_literal four r b (i + 1) n = (ws, r2)" by fastforce
    then have "ws \<noteq> None" "r2 = r'" using Suc.prems False by auto
    then show ?thesis using Suc.IH [OF w] by simp
  qed
qed simp

lemma rle_step_left:
  assumes "rle_step four w h r x y indices = Some (Rle_at x' y' indices', r')"
  shows "reader_left r' < reader_left r"
proof -
  obtain n r1 v r2 where n: "reader_byte r = (Some n, r1)" "reader_byte r1 = (Some v, r2)"
    using assms by (auto simp: rle_step_def split: option.splits prod.splits)
  have less: "reader_left r1 < reader_left r" "reader_left r2 < reader_left r1"
    using reader_byte_left [OF n(1)] reader_byte_left [OF n(2)] .
  consider "0 < n \<or> v = 0" | "n = 0" "v = 1" | "n = 0" "v = 2" | "n = 0" "v \<noteq> 0" "v \<noteq> 1" "v \<noteq> 2" by (metis word_gt_0)
  then show ?thesis
  proof cases
    case 1
    then have "r' = r2" using assms n by (auto simp: rle_step_def bind_eq_Some_conv split: if_splits)
    then show ?thesis using less by simp
  next
    case 2
    then show ?thesis using assms n by (simp add: rle_step_def)
  next
    case 3
    obtain dx r3 dy where d: "reader_byte r2 = (dx, r3)" "reader_byte r3 = (dy, r')"
      using assms n 3 by (auto simp: rle_step_def split: prod.splits option.splits)
    then obtain a b where "dx = Some a" "dy = Some b" using assms n 3 by (auto simp: rle_step_def split: option.splits)
    then show ?thesis using reader_byte_left [of r2 a r3] reader_byte_left [of r3 b r'] d less by simp
  next
    case 4
    obtain vs r3 where l: "rle_literal four r2 0 0 (unat v) = (vs, r3)" by fastforce
    then have "vs \<noteq> None" using assms n 4 by (cases vs) (auto simp: rle_step_def Let_def)
    then have "reader_left r3 \<le> reader_left r2" using rle_literal_left [OF l] by simp
    moreover have "r' = r3 \<or> (\<exists>b. reader_byte r3 = (Some b, r'))"
      using assms n 4 l \<open>vs \<noteq> None\<close> by (auto simp: rle_step_def Let_def bind_eq_Some_conv split: if_splits option.splits prod.splits)
    then have "reader_left r' \<le> reader_left r3" using reader_byte_left [of r3 _ r'] less_imp_le by blast
    ultimately show ?thesis using less by simp
  qed
qed

function rle_run :: "bool \<Rightarrow> nat \<Rightarrow> nat \<Rightarrow> reader \<Rightarrow> nat \<Rightarrow> nat \<Rightarrow> u8 list \<Rightarrow> ((image_error, u8 list) res \<times> reader) option" where
  "rle_run four w h r x y indices =
     (if \<not> y < h then Some (Ok indices, r)
      else case rle_step four w h r x y indices of
        None \<Rightarrow> None
      | Some (Rle_error, r) \<Rightarrow> Some (Err ImgTruncated, r)
      | Some (Rle_end indices, r) \<Rightarrow> Some (Ok indices, r)
      | Some (Rle_at x y indices, r) \<Rightarrow> rle_run four w h r x y indices)"
  by pat_completeness auto
termination by (relation "measure (\<lambda>(four, w, h, r, _). reader_left r)") (auto dest: rle_step_left)

declare rle_run.simps [simp del]

definition expand_rle :: "bool \<Rightarrow> bmp \<Rightarrow> ((image_error, unit) res \<times> bmp) option" where
  "expand_rle room d =
     (if \<not> room then Some (Err ImgOutOfMemory, d)
      else case reader_seek (bm_r d) (bm_data_offset d) of (ok, r) \<Rightarrow>
        if \<not> ok then Some (Err ImgTruncated, d\<lparr>bm_r := r\<rparr>)
        else do {
          (result, r) \<leftarrow> rle_run (bm_compression d = BI_RLE4) (bm_width d) (bm_height d) r 0 0 (replicate (bm_width d * bm_height d) 0);
          Some (case result of Err e \<Rightarrow> (Err e, d\<lparr>bm_r := r\<rparr>) | Ok indices \<Rightarrow> (Ok (), d\<lparr>bm_r := r, bm_indices := Some indices\<rparr>))
        })"

subsection \<open>Rows\<close>

definition bmp_rle_row :: "bool \<Rightarrow> bmp \<Rightarrow> nat \<Rightarrow> u8 list \<Rightarrow> ((image_error, bool) res \<times> u8 list \<times> bmp) option" where
  "bmp_rle_row room d stored dst = do {
     (result, d) \<leftarrow> (if bm_indices d = None then expand_rle room d else Some (Ok (), d));
     (case result of
        Err e \<Rightarrow> Some (Err e, dst, d)
      | Ok _ \<Rightarrow> do {
          indices \<leftarrow> bm_indices d;
          line \<leftarrow> slice indices (stored * bm_width d) ((stored + 1) * bm_width d);
          n \<leftarrow> store_bytes (bm_format d);
          pixels \<leftarrow> those (map (\<lambda>i. bmp_colour d (unat i)) line);
          Some (Ok True, put_chunks n dst pixels, d\<lparr>bm_row := bm_row d + 1\<rparr>)
        })
   }"

definition bmp_stored :: "bmp \<Rightarrow> nat" where
  "bmp_stored d = (if bm_bottom_up d then bm_height d - 1 - bm_row d else bm_row d)"

definition bmp_chunk_row :: "bmp \<Rightarrow> nat \<Rightarrow> u8 list \<Rightarrow> ((image_error, bool) res \<times> u8 list \<times> bmp) option" where
  "bmp_chunk_row d stored dst = do {
     (ok, d) \<leftarrow> (if bm_chunk_count d = 0 \<or> stored < bm_chunk_first d \<or> bm_chunk_first d + bm_chunk_count d \<le> stored
                then load_chunk d stored else Some (True, d));
     (if \<not> ok then Some (Err ImgTruncated, dst, d)
      else do {
        let at = (stored - bm_chunk_first d) * bm_stride d;
        chunk \<leftarrow> bm_chunk d;
        src \<leftarrow> slice chunk at (at + bm_stride d);
        dst \<leftarrow> bmp_convert d src dst;
        Some (Ok True, dst, d\<lparr>bm_row := bm_row d + 1\<rparr>)
      })
   }"

definition bmp_next_row :: "bool \<Rightarrow> bmp \<Rightarrow> u8 list \<Rightarrow> ((image_error, bool) res \<times> u8 list \<times> bmp) option" where
  "bmp_next_row room d dst =
     (if length dst < format_row_bytes (bm_format d) (bm_width d) then Some (Err ImgInvalidArgument, dst, d)
      else if bm_height d \<le> bm_row d then Some (Ok False, dst, d)
      else if bmp_is_rle d then bmp_rle_row room d (bmp_stored d) dst
      else bmp_chunk_row d (bmp_stored d) dst)"

section \<open>The decoder never panics\<close>

subsection \<open>Colours\<close>

text \<open>The bits of a mask are one run, as the format demands of them.\<close>

definition contiguous :: "channel \<Rightarrow> bool" where
  "contiguous c \<longleftrightarrow> unat (drop_bit (ch_shift c) (ch_mask c)) < 2 ^ ch_bits c"

lemma masked_less:
  assumes "contiguous c"
  shows "unat (drop_bit (ch_shift c) (px AND ch_mask c)) < 2 ^ ch_bits c"
proof -
  have "unat (px AND ch_mask c) \<le> unat (ch_mask c)" using word_and_le1 [of px "ch_mask c"] by (simp add: word_le_nat_alt)
  then have "unat (drop_bit (ch_shift c) (px AND ch_mask c)) \<le> unat (drop_bit (ch_shift c) (ch_mask c))"
    unfolding unat_drop_bit_eq by (simp add: drop_bit_eq_div div_le_mono)
  then show ?thesis using assms by (simp add: contiguous_def)
qed

lemma channel_value_total:
  assumes "contiguous c"
  shows "\<exists>v. channel_value c px = Some v"
proof (cases "ch_bits c = 0 \<or> 8 \<le> ch_bits c")
  case False
  then have "(2 :: nat) ^ ch_bits c \<le> 2 ^ 8" by (intro power_increasing) simp_all
  then show ?thesis using masked_less [OF assms, of px] False by (simp add: channel_value_def Let_def)
qed (auto simp: channel_value_def Let_def)

text \<open>A mask with a gap is read as the run at its low end, while the value keeps the bits above the gap; the
  multiplication overflows.\<close>

lemma scattered_mask_overflows: "channel_value (channel_new 0x80000001) 0xFFFFFFFF = None"
proof -
  have "trailing_zeros 0x80000001 = 0" "trailing_ones 0x80000001 = 1"
    by (simp_all add: trailing_zeros_def trailing_ones_def upt_conv_Cons bit_iff_odd)
  then show ?thesis by (simp add: channel_value_def channel_new_def Let_def)
qed

subsection \<open>The invariant\<close>

definition bmp_ok :: "bmp \<Rightarrow> bool" where
  "bmp_ok d \<longleftrightarrow> is_row_format (bm_format d) \<and> 0 < bm_width d \<and> bm_bpp d \<in> {1, 4, 8, 16, 24, 32} \<and>
     length (bm_channels d) = 3 \<and> length (bm_palette d) = 256 \<and> bm_palette_count d \<le> 256 \<and>
     bm_stride d = div_ceil (bm_width d * bm_bpp d) 32 * 4 \<and>
     (\<forall>i. bm_indices d = Some i \<longrightarrow> length i = bm_width d * bm_height d) \<and>
     (\<not> bmp_is_rle d \<longrightarrow> 0 < bm_chunk_rows d \<and> bm_chunk_count d \<le> bm_chunk_rows d \<and>
        (\<exists>c. bm_chunk d = Some c \<and> length c = bm_chunk_rows d * bm_stride d))"

text \<open>What next_row may change.\<close>

definition same_bmp :: "bmp \<Rightarrow> bmp \<Rightarrow> bool" where
  "same_bmp d d' \<longleftrightarrow>
     bm_width d' = bm_width d \<and> bm_height d' = bm_height d \<and> bm_format d' = bm_format d \<and> bm_data_offset d' = bm_data_offset d \<and>
     bm_stride d' = bm_stride d \<and> bm_bpp d' = bm_bpp d \<and> bm_compression d' = bm_compression d \<and> bm_bottom_up d' = bm_bottom_up d \<and>
     bm_channels d' = bm_channels d \<and> bm_palette d' = bm_palette d \<and> bm_palette_count d' = bm_palette_count d \<and> bm_chunk_rows d' = bm_chunk_rows d"

lemma same_bmp_trans: "same_bmp a b \<Longrightarrow> same_bmp b c \<Longrightarrow> same_bmp a c"
  by (simp add: same_bmp_def)

lemma same_bmp_sets [simp]:
  "same_bmp d d" "same_bmp d (d\<lparr>bm_r := r\<rparr>)" "same_bmp d (d\<lparr>bm_r := r, bm_chunk := c\<rparr>)" "same_bmp d (d\<lparr>bm_row := n\<rparr>)"
  "same_bmp d (d\<lparr>bm_r := r, bm_indices := i\<rparr>)" "same_bmp d (d\<lparr>bm_r := r, bm_chunk := c, bm_chunk_first := f, bm_chunk_count := k\<rparr>)"
  by (simp_all add: same_bmp_def)

lemma same_bmp_fields:
  assumes "same_bmp d d'"
  shows "bm_width d' = bm_width d" "bm_height d' = bm_height d" "bm_format d' = bm_format d" "bm_data_offset d' = bm_data_offset d"
    "bm_stride d' = bm_stride d" "bm_bpp d' = bm_bpp d" "bm_compression d' = bm_compression d" "bm_bottom_up d' = bm_bottom_up d"
    "bm_channels d' = bm_channels d" "bm_palette d' = bm_palette d" "bm_palette_count d' = bm_palette_count d" "bm_chunk_rows d' = bm_chunk_rows d"
  using assms by (simp_all add: same_bmp_def)

lemma stride_fits:
  assumes "bm_stride d = div_ceil (bm_width d * bm_bpp d) 32 * 4"
  shows "bm_width d * bm_bpp d \<le> bm_stride d * 8"
  using div_ceil_ge [of 32 "bm_width d * bm_bpp d"] assms by simp

lemma bmp_colour_total: "bmp_ok d \<Longrightarrow> store_bytes (bm_format d) = Some n \<Longrightarrow> \<exists>p. bmp_colour d i = Some p \<and> length p = n"
  using length_store_rgb [of "bm_format d" n] by (auto simp: bmp_colour_def bmp_ok_def Let_def)

lemma bmp_mixed_total:
  assumes "\<forall>c \<in> set (bm_channels d). contiguous c" "store_bytes (bm_format d) = Some n"
  shows "\<exists>p. bmp_mixed d px = Some p \<and> length p = n"
proof -
  have "\<exists>vs. those (map (\<lambda>c. channel_value c px) (bm_channels d)) = Some vs \<and> (\<forall>v \<in> set vs. True)"
    by (rule those_total) (use assms(1) channel_value_total in blast)
  then show ?thesis using length_store_rgb [OF assms(2)] by (auto simp: bmp_mixed_def)
qed

lemma bmp_pixels_total:
  assumes "bmp_ok d" "\<forall>c \<in> set (bm_channels d). contiguous c" "store_bytes (bm_format d) = Some n" "length src = bm_stride d"
  shows "\<exists>ps. bmp_pixels d src = Some ps \<and> all_length n ps"
proof -
  let ?w = "bm_width d"
  have fits: "?w * bm_bpp d \<le> length src * 8" using assms(1,4) stride_fits [of d] by (simp add: bmp_ok_def)
  have mixed: "\<exists>ps. those (map (\<lambda>p. bmp_mixed d (g p)) (take ?w (chunks_exact k src))) = Some ps \<and> all_length n ps" for g k
    unfolding all_length_def by (rule those_total) (rule bmp_mixed_total [OF assms(2,3)])
  consider "bm_bpp d \<in> {1, 4, 8}" | "bm_bpp d = 16" | "bm_bpp d = 24" | "bm_bpp d = 32" using assms(1) by (auto simp: bmp_ok_def)
  then show ?thesis
  proof cases
    case 1
    have "\<exists>p. (do { i \<leftarrow> bmp_index (bm_bpp d) src x; bmp_colour d i }) = Some p \<and> length p = n" if "x \<in> set [0..<?w]" for x
    proof -
      have "x * bm_bpp d < ?w * bm_bpp d" using that 1 by auto
      then have "x * bm_bpp d div 8 < length src" using fits by linarith
      then show ?thesis using bmp_colour_total [OF assms(1,3)] by (simp add: bmp_index_def Let_def)
    qed
    then show ?thesis using 1 those_total [of "[0..<?w]" "\<lambda>x. do { i \<leftarrow> bmp_index (bm_bpp d) src x; bmp_colour d i }" "\<lambda>p. length p = n"]
      by (simp add: bmp_pixels_def Let_def all_length_def)
  next
    case 3
    then show ?thesis using length_store_rgb [OF assms(3)] by (simp add: bmp_pixels_def Let_def all_length_def)
  qed (use mixed in \<open>simp_all add: bmp_pixels_def Let_def\<close>)
qed

lemma bmp_convert_total:
  assumes "bmp_ok d" "\<forall>c \<in> set (bm_channels d). contiguous c" "length src = bm_stride d"
    and "format_row_bytes (bm_format d) (bm_width d) \<le> length dst"
  shows "\<exists>dst'. bmp_convert d src dst = Some dst' \<and> length dst' = length dst"
proof -
  obtain n where n: "store_bytes (bm_format d) = Some n" using assms(1) row_format_bytes by (auto simp: bmp_ok_def)
  obtain ps where ps: "bmp_pixels d src = Some ps" "all_length n ps" using bmp_pixels_total [OF assms(1,2) n assms(3)] by blast
  have "bm_width d * n \<le> length dst" using assms(4) row_bytes_store [OF n] by simp
  then show ?thesis using store_pixels_total [OF n _ ps(2)] ps(1) by (simp add: bmp_convert_def)
qed

subsection \<open>Run lengths\<close>

lemma rle_puts_total:
  "length indices = w * h \<Longrightarrow> \<exists>indices'. rle_puts w h x y vs indices = Some (x + length vs, indices') \<and> length indices' = w * h"
proof (induction vs arbitrary: x indices)
  case (Cons v vs)
  have "y * w + x < w * h" if "x < w" "y < h"
  proof -
    have "Suc y * w \<le> h * w" using that by (intro mult_le_mono1) simp
    then show ?thesis using that by (simp add: mult.commute)
  qed
  then have "\<exists>mid. rle_put w h x y v indices = Some mid \<and> length mid = w * h" using Cons.prems by (simp add: rle_put_def)
  then obtain mid where "rle_put w h x y v indices = Some mid" "length mid = w * h" by blast
  then show ?case using Cons.IH [of mid "x + 1"] by auto
qed simp

lemma rle_step_total:
  assumes "length indices = w * h"
  shows "\<exists>next r'. rle_step four w h r x y indices = Some (next, r') \<and>
    (case next of Rle_error \<Rightarrow> True | Rle_end i \<Rightarrow> length i = w * h | Rle_at x y i \<Rightarrow> length i = w * h)"
proof -
  have puts: "\<exists>i. rle_puts w h x y vs indices = Some (x + length vs, i) \<and> length i = w * h" for vs by (rule rle_puts_total [OF assms])
  obtain c r1 where c: "reader_byte r = (c, r1)" by fastforce
  obtain v r2 where v: "reader_byte r1 = (v, r2)" by fastforce
  show ?thesis
  proof (cases "c = None \<or> v = None")
    case True
    then show ?thesis using c v by (auto simp: rle_step_def split: option.splits)
  next
    case False
    then obtain n b where some: "c = Some n" "v = Some b" by auto
    consider "0 < n" | "n = 0" "b = 0 \<or> b = 1" | "n = 0" "b = 2" | "n = 0" "b \<noteq> 0" "b \<noteq> 1" "b \<noteq> 2" by (metis word_gt_0)
    then show ?thesis
    proof cases
      case 1
      then show ?thesis using c v some puts [of "map (\<lambda>i. rle_pick four i b) [0..<unat n]"] by (auto simp: rle_step_def)
    next
      case 2
      then show ?thesis using c v some assms by (auto simp: rle_step_def)
    next
      case 3
      then show ?thesis using c v some assms by (auto simp: rle_step_def split: prod.splits option.splits)
    next
      case 4
      obtain vs r3 where l: "rle_literal four r2 0 0 (unat b) = (vs, r3)" by fastforce
      show ?thesis
      proof (cases vs)
        case None
        then show ?thesis using c v some l 4 by (simp add: rle_step_def Let_def)
      next
        case (Some ws)
        then show ?thesis using c v some l 4 puts [of ws] by (auto simp: rle_step_def Let_def split: prod.splits option.splits)
      qed
    qed
  qed
qed

lemma rle_run_total:
  "length indices = w * h \<Longrightarrow> \<exists>res r'. rle_run four w h r x y indices = Some (res, r') \<and> (\<forall>i. res = Ok i \<longrightarrow> length i = w * h)"
proof (induction four w h r x y indices rule: rle_run.induct)
  case (1 four w h r x y indices)
  show ?case
  proof (cases "y < h")
    case True
    obtain nxt r' where s: "rle_step four w h r x y indices = Some (nxt, r')"
        "case nxt of Rle_error \<Rightarrow> True | Rle_end i \<Rightarrow> length i = w * h | Rle_at x y i \<Rightarrow> length i = w * h"
      using rle_step_total [OF "1.prems"] by blast
    show ?thesis
    proof (cases nxt)
      case (Rle_at x' y' i')
      then show ?thesis using "1.IH" [of "(nxt, r')" nxt r' x' y' i'] s True by (subst rle_run.simps) simp
    qed (use s True in \<open>subst rle_run.simps; simp\<close>)+
  qed (use "1.prems" in \<open>simp add: rle_run.simps\<close>)
qed

lemma expand_rle_total:
  assumes "bmp_ok d" "bm_indices d = None"
  shows "\<exists>res d'. expand_rle room d = Some (res, d') \<and> bmp_ok d' \<and> same_bmp d d' \<and> (res = Ok () \<longrightarrow> bm_indices d' \<noteq> None)"
proof -
  obtain ok r where s: "reader_seek (bm_r d) (bm_data_offset d) = (ok, r)" by fastforce
  obtain res r' where run: "rle_run (bm_compression d = BI_RLE4) (bm_width d) (bm_height d) r 0 0 (replicate (bm_width d * bm_height d) 0) = Some (res, r')"
      "\<forall>i. res = Ok i \<longrightarrow> length i = bm_width d * bm_height d"
    using rle_run_total [of "replicate (bm_width d * bm_height d) 0" "bm_width d" "bm_height d" "bm_compression d = BI_RLE4" r 0 0] by auto
  have r: "bmp_ok (d\<lparr>bm_r := r\<rparr>)" for r using assms by (auto simp: bmp_ok_def bmp_is_rle_def)
  show ?thesis
  proof (cases "room \<and> ok")
    case False
    then show ?thesis using s assms r by (auto simp: expand_rle_def)
  next
    case True
    show ?thesis
    proof (cases res)
      case (Err e)
      then show ?thesis using True s run(1) r by (simp add: expand_rle_def)
    next
      case (Ok i)
      then have "bmp_ok (d\<lparr>bm_r := r', bm_indices := Some i\<rparr>)" using assms run(2) by (auto simp: bmp_ok_def bmp_is_rle_def)
      then show ?thesis using True s run(1) Ok by (simp add: expand_rle_def)
    qed
  qed
qed

lemma length_put_chunks: "all_length n cs \<Longrightarrow> length (put_chunks n dst cs) = length dst"
proof -
  assume "all_length n cs"
  then have "length (concat (take (length dst div n) cs)) = n * length (take (length dst div n) cs)" by (rule length_concat_all [OF all_length_take])
  also have "\<dots> \<le> n * (length dst div n)" by (intro mult_le_mono2) simp
  also have "\<dots> \<le> length dst" by (rule times_div_less_eq_dividend)
  finally show ?thesis by (simp add: put_chunks_def Let_def)
qed

lemma bmp_rle_row_total:
  assumes "bmp_ok d" "stored < bm_height d"
  shows "\<exists>r dst' d'. bmp_rle_row room d stored dst = Some (r, dst', d') \<and> bmp_ok d' \<and> same_bmp d d' \<and> length dst' = length dst"
proof -
  obtain r d' where d': "(if bm_indices d = None then expand_rle room d else Some (Ok (), d)) = Some (r, d')" "bmp_ok d'" "same_bmp d d'"
      "r = Ok () \<longrightarrow> bm_indices d' \<noteq> None"
    using expand_rle_total [OF assms(1), of room] assms(1) by (cases "bm_indices d") auto
  show ?thesis
  proof (cases r)
    case (Err e)
    then show ?thesis using d' by (simp add: bmp_rle_row_def)
  next
    case (Ok u)
    then obtain idx where idx: "bm_indices d' = Some idx" using d'(4) by auto
    let ?w = "bm_width d'"
    have "length idx = ?w * bm_height d'" using d'(2) idx by (simp add: bmp_ok_def)
    moreover have "Suc stored * ?w \<le> bm_height d' * ?w" using assms(2) same_bmp_fields [OF d'(3)] by (intro mult_le_mono1) simp
    ultimately obtain line where line: "slice idx (stored * ?w) ((stored + 1) * ?w) = Some line" by (simp add: slice_def mult.commute)
    obtain n where n: "store_bytes (bm_format d') = Some n" using d'(2) row_format_bytes by (auto simp: bmp_ok_def)
    have "\<exists>ps. those (map (\<lambda>i. bmp_colour d' (unat i)) line) = Some ps \<and> all_length n ps"
      unfolding all_length_def by (rule those_total) (rule bmp_colour_total [OF d'(2) n])
    then obtain ps where ps: "those (map (\<lambda>i. bmp_colour d' (unat i)) line) = Some ps" "all_length n ps" by blast
    have "bmp_ok (d'\<lparr>bm_row := k\<rparr>)" for k using d'(2) by (auto simp: bmp_ok_def bmp_is_rle_def)
    moreover have "same_bmp d (d'\<lparr>bm_row := k\<rparr>)" for k using same_bmp_trans [OF d'(3)] by simp
    ultimately show ?thesis using d'(1) Ok idx line n ps length_put_chunks [OF ps(2)] by (simp add: bmp_rle_row_def)
  qed
qed

subsection \<open>Chunks\<close>

lemma chunk_span_holds:
  assumes "0 < bm_chunk_rows d" "stored < bm_height d" "chunk_span d stored = (first, rows)"
  shows "first \<le> stored \<and> stored < first + rows \<and> rows \<le> bm_chunk_rows d \<and> first + rows \<le> bm_height d"
  using assms by (auto simp: chunk_span_def Let_def split: if_splits)

lemma load_chunk_total:
  assumes "bmp_ok d" "\<not> bmp_is_rle d" "stored < bm_height d"
  shows "\<exists>ok d'. load_chunk d stored = Some (ok, d') \<and> bmp_ok d' \<and> same_bmp d d' \<and>
    (ok \<longrightarrow> bm_chunk_first d' \<le> stored \<and> stored < bm_chunk_first d' + bm_chunk_count d')"
proof -
  obtain first rows where span: "chunk_span d stored = (first, rows)" by fastforce
  obtain c where c: "bm_chunk d = Some c" "length c = bm_chunk_rows d * bm_stride d" "0 < bm_chunk_rows d" using assms(1,2) by (auto simp: bmp_ok_def)
  note holds = chunk_span_holds [OF c(3) assms(3) span]
  then have fits: "rows * bm_stride d \<le> length c" using c(2) by simp
  obtain ok r where s: "reader_seek (bm_r d) (bm_data_offset d + first * bm_stride d) = (ok, r)" by fastforce
  obtain ok2 bs r2 where e: "reader_read_exact r (rows * bm_stride d) = (ok2, bs, r2)" by (metis prod_cases3)
  then have "length bs \<le> rows * bm_stride d" using reader_read_left [of r "rows * bm_stride d"] by (auto simp: reader_read_exact_def split: prod.splits)
  then obtain c' where c': "copy_at c 0 bs = Some c'" "length c' = length c"
    using copy_at_in_range [of 0 bs c] length_copy_at fits by fastforce
  have "bmp_ok (d\<lparr>bm_r := r\<rparr>)" "bmp_ok (d\<lparr>bm_r := r2, bm_chunk := Some c'\<rparr>)"
    "bmp_ok (d\<lparr>bm_r := r2, bm_chunk := Some c', bm_chunk_first := first, bm_chunk_count := rows\<rparr>)"
    using assms(1,2) c'(2) c(2) holds by (auto simp: bmp_ok_def bmp_is_rle_def)
  then show ?thesis using span s c(1) e c'(1) fits holds
    by (cases ok; cases ok2) (auto simp: load_chunk_def slice_def)
qed

lemma bmp_chunk_row_total:
  assumes "bmp_ok d" "\<not> bmp_is_rle d" "\<forall>c \<in> set (bm_channels d). contiguous c" "stored < bm_height d"
    and "format_row_bytes (bm_format d) (bm_width d) \<le> length dst"
  shows "\<exists>r dst' d'. bmp_chunk_row d stored dst = Some (r, dst', d') \<and> bmp_ok d' \<and> same_bmp d d' \<and> length dst' = length dst"
proof -
  let ?outside = "bm_chunk_count d = 0 \<or> stored < bm_chunk_first d \<or> bm_chunk_first d + bm_chunk_count d \<le> stored"
  obtain ok d' where d': "(if ?outside then load_chunk d stored else Some (True, d)) = Some (ok, d')" "bmp_ok d'" "same_bmp d d'"
      "ok \<longrightarrow> bm_chunk_first d' \<le> stored \<and> stored < bm_chunk_first d' + bm_chunk_count d'"
    using load_chunk_total [OF assms(1,2,4)] assms(1) by (cases ?outside) auto
  note f = same_bmp_fields [OF d'(3)]
  show ?thesis
  proof (cases ok)
    case False
    then show ?thesis using d' by (simp add: bmp_chunk_row_def)
  next
    case True
    let ?at = "(stored - bm_chunk_first d') * bm_stride d'"
    have "\<not> bmp_is_rle d'" using assms(2) f by (simp add: bmp_is_rle_def)
    then obtain c where c: "bm_chunk d' = Some c" "length c = bm_chunk_rows d' * bm_stride d'" "bm_chunk_count d' \<le> bm_chunk_rows d'"
      using d'(2) by (auto simp: bmp_ok_def)
    have "Suc (stored - bm_chunk_first d') \<le> bm_chunk_rows d'" using d'(4) True c(3) by linarith
    then have "Suc (stored - bm_chunk_first d') * bm_stride d' \<le> length c" unfolding c(2) by (rule mult_le_mono1)
    then obtain src where src: "slice c ?at (?at + bm_stride d') = Some src" "length src = bm_stride d'" by (simp add: slice_def add.commute)
    obtain dst' where dst': "bmp_convert d' src dst = Some dst'" "length dst' = length dst"
      using bmp_convert_total [OF d'(2) _ src(2), of dst] assms(3,5) f by auto
    have "bmp_ok (d'\<lparr>bm_row := k\<rparr>)" for k using d'(2) by (auto simp: bmp_ok_def bmp_is_rle_def)
    moreover have "same_bmp d (d'\<lparr>bm_row := k\<rparr>)" for k using same_bmp_trans [OF d'(3)] by simp
    ultimately show ?thesis using d'(1) True c(1) src(1) dst' by (simp add: bmp_chunk_row_def Let_def)
  qed
qed

lemma bmp_next_row_total:
  assumes "bmp_ok d" "\<forall>c \<in> set (bm_channels d). contiguous c"
  shows "\<exists>r dst' d'. bmp_next_row room d dst = Some (r, dst', d') \<and> bmp_ok d' \<and> same_bmp d d' \<and> length dst' = length dst"
proof -
  consider "length dst < format_row_bytes (bm_format d) (bm_width d) \<or> bm_height d \<le> bm_row d"
    | "format_row_bytes (bm_format d) (bm_width d) \<le> length dst" "bm_row d < bm_height d" by linarith
  then show ?thesis
  proof cases
    case 2
    then have "bmp_stored d < bm_height d" by (simp add: bmp_stored_def)
    then show ?thesis
      using 2 bmp_rle_row_total [OF assms(1), of "bmp_stored d" room dst] bmp_chunk_row_total [OF assms(1) _ assms(2), of "bmp_stored d" dst]
      by (simp add: bmp_next_row_def)
  qed (use assms in \<open>auto simp: bmp_next_row_def\<close>)
qed

subsection \<open>Opening\<close>

lemma bmp_entries_length: "bmp_entries k r n = Ok (es, r') \<Longrightarrow> length es = n"
  by (induction n arbitrary: r es) (auto simp: bind_res_Ok)

lemma bmp_palette_ok:
  assumes "bmp_palette h r = Ok (palette, entries, r')"
  shows "length palette = 256 \<and> entries \<le> 256"
  using assms bmp_entries_length by (fastforce simp: bmp_palette_def bind_res_Ok Let_def split: if_splits)

lemma bmp_channels_ok: "bmp_channels h r = Ok (cs, r') \<Longrightarrow> length cs = 3"
  by (auto simp: bmp_channels_def bind_res_Ok split: if_splits)

lemma bmp_open_ok:
  assumes "bmp_open mem src options = Ok d"
  shows "bmp_ok d \<and> bm_row d = 0 \<and> bm_indices d = None \<and> bm_chunk_first d = 0 \<and> bm_chunk_count d = 0"
proof -
  obtain h r cs r2 palette entries r3 f where h: "bmp_size h = None" "bmp_kind (bh_compression h) (bh_bpp h) (0 < bh_h h) = None"
      "bmp_channels h r = Ok (cs, r2)" "bmp_palette h r2 = Ok (palette, entries, r3)" "out_format Rgb888 (do_format options) = Ok f"
      "bmp_chunks mem (bmp_state h f cs palette entries r3) = Ok d"
    using assms by (auto simp: bmp_open_def bind_res_Ok split: option.splits)
  define s where "s = bmp_state h f cs palette entries r3"
  have size: "0 < bm_width s" using h(1) by (simp add: s_def bmp_state_def bmp_size_def split: if_splits)
  have bpp: "bm_bpp s \<in> {1, 4, 8, 16, 24, 32}" using h(2) by (auto simp: s_def bmp_state_def bmp_kind_def split: if_splits)
  have fields: "is_row_format (bm_format s)" "length (bm_channels s) = 3" "length (bm_palette s) = 256" "bm_palette_count s \<le> 256"
      "bm_stride s = div_ceil (bm_width s * bm_bpp s) 32 * 4" "bm_row s = 0" "bm_indices s = None" "bm_chunk_first s = 0" "bm_chunk_count s = 0"
    using bmp_channels_ok [OF h(3)] bmp_palette_ok [OF h(4)] out_format_ok [OF h(5)] by (simp_all add: s_def bmp_state_def)
  show ?thesis
  proof (cases "bmp_is_rle s")
    case True
    then have "d = s" using h(6) by (simp add: bmp_chunks_def s_def)
    then show ?thesis using size bpp fields True by (simp add: bmp_ok_def)
  next
    case False
    define rows where "rows = max 1 (min (BMP_CHUNK_BYTES div bm_stride s) (bm_height s))"
    then have "d = s\<lparr>bm_chunk_rows := rows, bm_chunk := Some (replicate (rows * bm_stride s) 0)\<rparr>" "0 < rows"
      using h(6) False by (auto simp: bmp_chunks_def s_def bind_res_Ok Let_def split: if_splits)
    then show ?thesis using size bpp fields by (simp add: bmp_ok_def bmp_is_rle_def)
  qed
qed

text \<open>The masks that the file does not give are runs of bits.\<close>

lemma standard_masks: "contiguous (channel_new m)" if "m \<in> {0x7C00, 0x03E0, 0x001F, 0x00FF0000, 0x0000FF00, 0x000000FF}"
proof -
  have "trailing_zeros 0x7C00 = 10" "trailing_zeros 0x03E0 = 5" "trailing_zeros 0x001F = 0" "trailing_zeros 0x00FF0000 = 16"
    "trailing_zeros 0x0000FF00 = 8" "trailing_zeros 0x000000FF = 0" "trailing_ones 0x1F = 5" "trailing_ones 0xFF = 8"
    by code_simp+
  then show ?thesis using that by (auto simp: channel_new_def contiguous_def Let_def)
qed

section \<open>Rows come from where they are stored\<close>

text \<open>A decoder on the bytes \<open>data\<close>, that hold the whole pixel array; the chunk is a part of it.\<close>

definition bmp_on :: "u8 list \<Rightarrow> bmp \<Rightarrow> bool" where
  "bmp_on data d \<longleftrightarrow> cursor_ok (bm_r d) \<and> sm_seeks (rd_src (bm_r d)) \<and> reader_data (bm_r d) = data"

definition bmp_whole :: "u8 list \<Rightarrow> bmp \<Rightarrow> bool" where
  "bmp_whole data d \<longleftrightarrow> bm_data_offset d + bm_height d * bm_stride d \<le> length data"

definition bmp_line :: "u8 list \<Rightarrow> bmp \<Rightarrow> nat \<Rightarrow> u8 list" where
  "bmp_line data d stored = take (bm_stride d) (drop (bm_data_offset d + stored * bm_stride d) data)"

definition chunk_holds :: "u8 list \<Rightarrow> bmp \<Rightarrow> bool" where
  "chunk_holds data d \<longleftrightarrow> bm_chunk_first d + bm_chunk_count d \<le> bm_height d \<and>
     (\<forall>c. bm_chunk d = Some c \<longrightarrow> take (bm_chunk_count d * bm_stride d) c =
        take (bm_chunk_count d * bm_stride d) (drop (bm_data_offset d + bm_chunk_first d * bm_stride d) data))"

lemma row_in_part:
  assumes "take (n * k) c = take (n * k) xs" "i < n"
  shows "take k (drop (i * k) c) = take k (drop (i * k) xs)"
proof -
  have "Suc i * k \<le> n * k" using assms(2) by (intro mult_le_mono1) simp
  then have i: "i * k + k \<le> n * k" by simp
  have "take k (drop (i * k) ys) = take k (drop (i * k) (take (n * k) ys))" for ys :: "'a list"
    using i by (simp add: drop_take min_def)
  then show ?thesis using assms(1) by metis
qed

lemma load_chunk_on:
  assumes "bmp_ok d" "\<not> bmp_is_rle d" "bmp_on data d" "bmp_whole data d" "stored < bm_height d"
  shows "\<exists>d'. load_chunk d stored = Some (True, d') \<and> bmp_ok d' \<and> same_bmp d d' \<and> bmp_on data d' \<and> chunk_holds data d' \<and>
    bm_chunk_first d' \<le> stored \<and> stored < bm_chunk_first d' + bm_chunk_count d' \<and> bm_row d' = bm_row d"
proof -
  obtain first rows where span: "chunk_span d stored = (first, rows)" by fastforce
  obtain c where c: "bm_chunk d = Some c" "length c = bm_chunk_rows d * bm_stride d" "0 < bm_chunk_rows d" using assms(1,2) by (auto simp: bmp_ok_def)
  note holds = chunk_span_holds [OF c(3) assms(5) span]
  let ?at = "bm_data_offset d + first * bm_stride d" and ?n = "rows * bm_stride d"
  have "(first + rows) * bm_stride d \<le> bm_height d * bm_stride d" using holds by (intro mult_le_mono1) simp
  then have inside: "?at + ?n \<le> length data" using assms(4) by (simp add: bmp_whole_def add_mult_distrib)
  have on: "cursor_ok (bm_r d)" "sm_seeks (rd_src (bm_r d))" "reader_data (bm_r d) = data" using assms(3) by (simp_all add: bmp_on_def)
  obtain r where r: "reader_seek (bm_r d) ?at = (True, r)" "cursor_ok r" "same_stream (bm_r d) r" "reader_tell r = ?at"
    using reader_seek_rest [OF on(1,2), of ?at] on(3) inside by auto
  have rest: "reader_rest r = drop ?at data" using r(3,4) on(3) by (simp add: reader_rest_def same_stream_def)
  obtain r2 where r2: "reader_read_exact r ?n = (?n \<le> length (reader_rest r), take ?n (reader_rest r), r2)" "cursor_ok r2" "same_stream r r2"
    by (rule reader_exact_rest [OF r(2), of ?n])
  have read: "reader_read_exact r ?n = (True, take ?n (drop ?at data), r2)" using r2(1) rest inside by simp
  have "?n \<le> length c" using holds c(2) by simp
  then have slice: "slice c 0 ?n = Some (take ?n c)" and copy: "copy_at c 0 (take ?n (drop ?at data)) = Some (take ?n (drop ?at data) @ drop ?n c)"
    using inside by (simp_all add: slice_def copy_at_def min_absorb2)
  let ?d = "d\<lparr>bm_r := r2, bm_chunk := Some (take ?n (drop ?at data) @ drop ?n c), bm_chunk_first := first, bm_chunk_count := rows\<rparr>"
  have load: "load_chunk d stored = Some (True, ?d)" unfolding load_chunk_def using span r(1) c(1) slice read copy by (simp add: Let_def)
  then have "bmp_ok ?d" using load_chunk_total [OF assms(1,2,5)] by auto
  moreover have "bmp_on data ?d" using r2(2) same_stream_trans [OF r(3) r2(3)] on by (simp add: bmp_on_def same_stream_def)
  moreover have "chunk_holds data ?d" using holds inside by (simp add: chunk_holds_def)
  ultimately show ?thesis using load holds by simp
qed

definition bmp_serves :: "u8 list \<Rightarrow> bmp \<Rightarrow> bool" where
  "bmp_serves data d \<longleftrightarrow> bmp_ok d \<and> \<not> bmp_is_rle d \<and> bmp_on data d \<and> bmp_whole data d \<and> chunk_holds data d"

lemma bmp_convert_same:
  assumes "same_bmp d d'"
  shows "bmp_convert d' = bmp_convert d"
proof -
  note f = same_bmp_fields [OF assms]
  have colour: "bmp_colour d' = bmp_colour d" by (intro ext) (simp only: bmp_colour_def f)
  have mixed: "bmp_mixed d' = bmp_mixed d" by (intro ext) (simp only: bmp_mixed_def f)
  show ?thesis by (intro ext) (simp only: bmp_convert_def bmp_pixels_def f colour mixed)
qed

lemma bmp_line_same: "same_bmp d d' \<Longrightarrow> bmp_line data d' = bmp_line data d"
  by (intro ext) (simp add: bmp_line_def same_bmp_fields)

lemma bmp_next_row_serves:
  assumes "bmp_serves data d" "\<forall>c \<in> set (bm_channels d). contiguous c" "bm_row d < bm_height d"
    and "format_row_bytes (bm_format d) (bm_width d) \<le> length dst"
  shows "\<exists>dst' d'. bmp_next_row room d dst = Some (Ok True, dst', d') \<and> bmp_convert d (bmp_line data d (bmp_stored d)) dst = Some dst' \<and>
    bmp_serves data d' \<and> same_bmp d d' \<and> bm_row d' = bm_row d + 1"
proof -
  let ?s = "bmp_stored d"
  have s: "?s < bm_height d" using assms(3) by (simp add: bmp_stored_def)
  have d: "bmp_ok d" "\<not> bmp_is_rle d" "bmp_on data d" "bmp_whole data d" "chunk_holds data d" using assms(1) by (simp_all add: bmp_serves_def)
  let ?outside = "bm_chunk_count d = 0 \<or> ?s < bm_chunk_first d \<or> bm_chunk_first d + bm_chunk_count d \<le> ?s"
  obtain d' where d': "(if ?outside then load_chunk d ?s else Some (True, d)) = Some (True, d')" "bmp_ok d'" "same_bmp d d'" "bmp_on data d'"
      "chunk_holds data d'" "bm_chunk_first d' \<le> ?s" "?s < bm_chunk_first d' + bm_chunk_count d'" "bm_row d' = bm_row d"
    using load_chunk_on [OF d(1-4) s] d by (cases ?outside) auto
  note f = same_bmp_fields [OF d'(3)]
  have rle: "\<not> bmp_is_rle d'" using d(2) f by (simp add: bmp_is_rle_def)
  then obtain c where c: "bm_chunk d' = Some c" "length c = bm_chunk_rows d' * bm_stride d'" "bm_chunk_count d' \<le> bm_chunk_rows d'"
    using d'(2) by (auto simp: bmp_ok_def)
  let ?i = "?s - bm_chunk_first d'"
  have i: "?i < bm_chunk_count d'" "Suc ?i \<le> bm_chunk_rows d'" using d'(6,7) c(3) by linarith+
  have "Suc ?i * bm_stride d' \<le> length c" unfolding c(2) by (rule mult_le_mono1 [OF i(2)])
  then have slice: "slice c (?i * bm_stride d') (?i * bm_stride d' + bm_stride d') = Some (take (bm_stride d') (drop (?i * bm_stride d') c))"
    by (simp add: slice_def)
  have part: "take (bm_chunk_count d' * bm_stride d') c =
      take (bm_chunk_count d' * bm_stride d') (drop (bm_data_offset d' + bm_chunk_first d' * bm_stride d') data)"
    using d'(5) c(1) by (simp add: chunk_holds_def)
  have "take (bm_stride d') (drop (?i * bm_stride d') c) =
      take (bm_stride d') (drop (?i * bm_stride d') (drop (bm_data_offset d' + bm_chunk_first d' * bm_stride d') data))"
    by (rule row_in_part [OF part i(1)])
  also have "\<dots> = bmp_line data d ?s"
  proof -
    have "?i * bm_stride d' + bm_chunk_first d' * bm_stride d' = ?s * bm_stride d'"
      using d'(6) by (simp only: add_mult_distrib [symmetric]) simp
    then have at: "?i * bm_stride d + (bm_data_offset d + bm_chunk_first d' * bm_stride d) = bm_data_offset d + ?s * bm_stride d"
      unfolding f by linarith
    show ?thesis by (simp only: drop_drop bmp_line_def f at)
  qed
  finally have line: "take (bm_stride d') (drop (?i * bm_stride d') c) = bmp_line data d ?s" .
  have "length (bmp_line data d ?s) = bm_stride d"
    using line slice length_slice [OF slice] f by simp
  then obtain dst' where dst': "bmp_convert d (bmp_line data d ?s) dst = Some dst'" using bmp_convert_total [OF d(1) assms(2) _ assms(4)] by blast
  then have "bmp_convert d' (bmp_line data d ?s) dst = Some dst'" using bmp_convert_same [OF d'(3)] by simp
  then have "bmp_chunk_row d ?s dst = Some (Ok True, dst', d'\<lparr>bm_row := bm_row d' + 1\<rparr>)"
    unfolding bmp_chunk_row_def using d'(1) c(1) slice line by (simp add: Let_def)
  then have "bmp_next_row room d dst = Some (Ok True, dst', d'\<lparr>bm_row := bm_row d' + 1\<rparr>)"
    using assms(3,4) d(2) by (simp add: bmp_next_row_def)
  moreover have "bmp_serves data (d'\<lparr>bm_row := bm_row d' + 1\<rparr>)"
    using d'(2,4,5) rle d(4) f by (auto simp: bmp_serves_def bmp_ok_def bmp_is_rle_def bmp_on_def bmp_whole_def chunk_holds_def)
  moreover have "same_bmp d (d'\<lparr>bm_row := bm_row d' + 1\<rparr>)" using same_bmp_trans [OF d'(3)] by simp
  ultimately show ?thesis using dst' d'(8) by auto
qed

text \<open>Rows into the given buffers.\<close>

fun bmp_rows :: "bmp \<Rightarrow> (bool \<times> u8 list) list \<Rightarrow> (((image_error, bool) res \<times> u8 list) list \<times> bmp) option" where
  "bmp_rows d [] = Some ([], d)"
| "bmp_rows d ((room, dst) # dsts) = do {
     (r, out, d) \<leftarrow> bmp_next_row room d dst;
     (outs, d) \<leftarrow> bmp_rows d dsts;
     Some ((r, out) # outs, d)
   }"

lemma bmp_rows_total:
  "bmp_ok d \<Longrightarrow> \<forall>c \<in> set (bm_channels d). contiguous c \<Longrightarrow>
   \<exists>outs d'. bmp_rows d dsts = Some (outs, d') \<and> map (\<lambda>x. length (snd x)) outs = map (\<lambda>x. length (snd x)) dsts"
proof (induction dsts arbitrary: d)
  case (Cons x dsts)
  obtain room dst where x: "x = (room, dst)" by fastforce
  obtain r out d1 where "bmp_next_row room d dst = Some (r, out, d1)" "bmp_ok d1" "same_bmp d d1" "length out = length dst"
    using bmp_next_row_total [OF Cons.prems] by blast
  then show ?case using Cons.IH [of d1] Cons.prems(2) x by (auto simp: same_bmp_fields)
qed simp

text \<open>The rows of the image from the top, as the file stores them.\<close>

definition bmp_order :: "bmp \<Rightarrow> nat \<Rightarrow> nat" where
  "bmp_order d y = (if bm_bottom_up d then bm_height d - 1 - y else y)"

lemma bmp_rows_serve:
  "bmp_serves data d \<Longrightarrow> \<forall>c \<in> set (bm_channels d). contiguous c \<Longrightarrow> bm_row d + length dsts \<le> bm_height d \<Longrightarrow>
   \<forall>x \<in> set dsts. format_row_bytes (bm_format d) (bm_width d) \<le> length (snd x) \<Longrightarrow>
   \<exists>outs d'. bmp_rows d dsts = Some (map (\<lambda>out. (Ok True, out)) outs, d') \<and>
     map Some outs = map2 (\<lambda>y x. bmp_convert d (bmp_line data d (bmp_order d y)) (snd x)) [bm_row d..<bm_row d + length dsts] dsts"
proof (induction dsts arbitrary: d)
  case (Cons x dsts)
  obtain room dst where x: "x = (room, dst)" by fastforce
  obtain out d1 where d1: "bmp_next_row room d dst = Some (Ok True, out, d1)" "bmp_convert d (bmp_line data d (bmp_stored d)) dst = Some out"
      "bmp_serves data d1" "same_bmp d d1" "bm_row d1 = bm_row d + 1"
    using bmp_next_row_serves [OF Cons.prems(1,2)] Cons.prems(3,4) x by fastforce
  note f = same_bmp_fields [OF d1(4)]
  have "bmp_order d1 = bmp_order d" by (intro ext) (simp add: bmp_order_def f)
  then obtain outs d2 where d2: "bmp_rows d1 dsts = Some (map (\<lambda>out. (Ok True, out)) outs, d2)"
      "map Some outs = map2 (\<lambda>y x. bmp_convert d (bmp_line data d (bmp_order d y)) (snd x)) [bm_row d + 1..<bm_row d + 1 + length dsts] dsts"
    using Cons.IH [OF d1(3)] Cons.prems(2-4) f d1(5) bmp_convert_same [OF d1(4)] bmp_line_same [OF d1(4)] by auto
  have upt: "[bm_row d..<bm_row d + length (x # dsts)] = bm_row d # [bm_row d + 1..<bm_row d + 1 + length dsts]"
    by (simp add: upt_conv_Cons del: upt_Suc)
  have "bmp_rows d (x # dsts) = Some (map (\<lambda>out. (Ok True, out)) (out # outs), d2)" using d1(1) d2(1) x by simp
  moreover have "map Some (out # outs) = map2 (\<lambda>y x. bmp_convert d (bmp_line data d (bmp_order d y)) (snd x)) [bm_row d..<bm_row d + length (x # dsts)] (x # dsts)"
    unfolding upt using d1(2) d2(2) x by (simp add: bmp_order_def bmp_stored_def)
  ultimately show ?case by blast
qed simp

subsection \<open>Opening keeps the stream\<close>

lemma read_or_cursor: "read_or r n = Ok (bs, r') \<Longrightarrow> cursor_ok r \<Longrightarrow> cursor_ok r' \<and> same_stream r r'"
proof -
  assume r: "read_or r n = Ok (bs, r')" "cursor_ok r"
  obtain r2 where "reader_read_exact r n = (n \<le> length (reader_rest r), take n (reader_rest r), r2)" "cursor_ok r2" "same_stream r r2"
    by (rule reader_exact_rest [OF r(2), of n])
  then show ?thesis using r(1) by (simp add: read_or_def split: if_splits)
qed

lemma skip_or_cursor: "skip_or r n = Ok r' \<Longrightarrow> cursor_ok r \<Longrightarrow> cursor_ok r' \<and> same_stream r r'"
  using reader_skip_rest [of r n] by (auto simp: skip_or_def split: if_splits prod.splits)

lemma bmp_entries_cursor: "bmp_entries k r n = Ok (es, r') \<Longrightarrow> cursor_ok r \<Longrightarrow> cursor_ok r' \<and> same_stream r r'"
proof (induction n arbitrary: r es)
  case (Suc n)
  obtain e r1 es1 where "read_or r k = Ok (e, r1)" "bmp_entries k r1 n = Ok (es1, r')" using Suc.prems(1) by (auto simp: bind_res_Ok)
  then show ?case using read_or_cursor [of r k e r1] Suc.IH [of r1 es1] Suc.prems(2) same_stream_trans [of r r1 r'] by blast
qed simp

lemma bmp_header_cursor: "bmp_header r = Ok (h, r') \<Longrightarrow> cursor_ok r \<Longrightarrow> cursor_ok r' \<and> same_stream r r'"
proof -
  assume h: "bmp_header r = Ok (h, r')" "cursor_ok r"
  then obtain fh r1 k ih where r: "read_or r 18 = Ok (fh, r1)" "read_or r1 k = Ok (ih, r')"
    unfolding bmp_header_def by (elim bind_res_OkE) (auto simp: Let_def bind_res_Ok split: if_splits)
  show ?thesis using read_or_cursor [OF r(1) h(2)] read_or_cursor [OF r(2)] same_stream_trans [of r r1 r'] by blast
qed

lemma bmp_channels_cursor: "bmp_channels h r = Ok (cs, r') \<Longrightarrow> cursor_ok r \<Longrightarrow> cursor_ok r' \<and> same_stream r r'"
proof -
  assume h: "bmp_channels h r = Ok (cs, r')" "cursor_ok r"
  then have "r' = r \<or> (\<exists>masks. read_or r 12 = Ok (masks, r')) \<or> (\<exists>masks r1. read_or r 12 = Ok (masks, r1) \<and> skip_or r1 4 = Ok r')"
    unfolding bmp_channels_def by (auto simp: bind_res_Ok split: if_splits)
  then show ?thesis using read_or_cursor [OF _ h(2)] skip_or_cursor same_stream_trans h(2) by (metis same_stream_refl)
qed

lemma bmp_palette_cursor: "bmp_palette h r = Ok (p, n, r') \<Longrightarrow> cursor_ok r \<Longrightarrow> cursor_ok r' \<and> same_stream r r'"
  using bmp_entries_cursor by (fastforce simp: bmp_palette_def bind_res_Ok Let_def split: if_splits)

lemma bmp_open_on:
  assumes "bmp_open mem src options = Ok d" "sm_pos src = 0" "sm_seeks src"
  shows "bmp_on (sm_data src) d"
proof -
  obtain h r cs r2 palette entries r3 f where h: "bmp_header (reader_new src) = Ok (h, r)"
      "bmp_channels h r = Ok (cs, r2)" "bmp_palette h r2 = Ok (palette, entries, r3)"
      "bmp_chunks mem (bmp_state h f cs palette entries r3) = Ok d"
    using assms(1) by (auto simp: bmp_open_def bind_res_Ok split: option.splits)
  have new: "cursor_ok (reader_new src)" using assms(2) by simp
  have r: "cursor_ok r" "same_stream (reader_new src) r" using bmp_header_cursor [OF h(1) new] by simp_all
  have r2: "cursor_ok r2" "same_stream r r2" using bmp_channels_cursor [OF h(2) r(1)] by simp_all
  have r3: "cursor_ok r3" "same_stream r2 r3" using bmp_palette_cursor [OF h(3) r2(1)] by simp_all
  have "bm_r d = r3" using h(4) by (auto simp: bmp_chunks_def bmp_state_def bind_res_Ok Let_def split: if_splits)
  then show ?thesis using r(2) r2(2) r3 assms(3) by (simp add: bmp_on_def same_stream_def) (simp add: reader_new_def)
qed

section \<open>Run lengths are drawing commands\<close>

text \<open>What the encodings write, as commands on a pen: a run, a row of given indices, the end of a line, a move.\<close>

datatype rle_cmd = Run u8 u8 | Literal "u8 list" | Line | Delta u8 u8

fun pack_nibbles :: "u8 list \<Rightarrow> u8 list" where
  "pack_nibbles [] = []"
| "pack_nibbles [a] = [push_bit 4 a]"
| "pack_nibbles (a # b # rest) = (push_bit 4 a OR b) # pack_nibbles rest"

definition rle_packed :: "bool \<Rightarrow> u8 list \<Rightarrow> u8 list" where
  "rle_packed four vs = (if four then pack_nibbles vs else vs)"

fun rle_bytes :: "bool \<Rightarrow> rle_cmd \<Rightarrow> u8 list" where
  "rle_bytes four (Run n v) = [n, v]"
| "rle_bytes four (Literal vs) = 0 # word_of_nat (length vs) # rle_packed four vs @ (if odd (length (rle_packed four vs)) then [0] else [])"
| "rle_bytes four Line = [0, 0]"
| "rle_bytes four (Delta dx dy) = [0, 2, dx, dy]"

fun cmd_ok :: "bool \<Rightarrow> rle_cmd \<Rightarrow> bool" where
  "cmd_ok four (Run n v) \<longleftrightarrow> 0 < n"
| "cmd_ok four (Literal vs) \<longleftrightarrow> 3 \<le> length vs \<and> length vs < 256 \<and> (four \<longrightarrow> (\<forall>v \<in> set vs. v < 16))"
| "cmd_ok four Line \<longleftrightarrow> True"
| "cmd_ok four (Delta dx dy) \<longleftrightarrow> True"

text \<open>A picture is a function of the row and the column.\<close>

type_synonym picture = "nat \<Rightarrow> nat \<Rightarrow> u8"

definition draw_at :: "nat \<Rightarrow> nat \<Rightarrow> u8 list \<Rightarrow> picture \<Rightarrow> picture" where
  "draw_at x y vs pic = (\<lambda>y' x'. if y' = y \<and> x \<le> x' \<and> x' < x + length vs then vs ! (x' - x) else pic y' x')"

fun rle_draw :: "bool \<Rightarrow> nat \<times> nat \<times> picture \<Rightarrow> rle_cmd \<Rightarrow> nat \<times> nat \<times> picture" where
  "rle_draw four (x, y, pic) (Run n v) = (x + unat n, y, draw_at x y (map (\<lambda>i. rle_pick four i v) [0..<unat n]) pic)"
| "rle_draw four (x, y, pic) (Literal vs) = (x + length vs, y, draw_at x y vs pic)"
| "rle_draw four (x, y, pic) Line = (0, y + 1, pic)"
| "rle_draw four (x, y, pic) (Delta dx dy) = (x + unat dx, y + unat dy, pic)"

definition shows_pic :: "nat \<Rightarrow> nat \<Rightarrow> u8 list \<Rightarrow> picture \<Rightarrow> bool" where
  "shows_pic w h indices pic \<longleftrightarrow> length indices = w * h \<and> (\<forall>y < h. \<forall>x < w. indices ! (y * w + x) = pic y x)"

lemma pixel_place: "x < w \<Longrightarrow> x' < w \<Longrightarrow> y * w + x = y' * w + x' \<longleftrightarrow> y = y' \<and> x = (x' :: nat)"
proof
  assume w: "x < w" "x' < w" and eq: "y * w + x = y' * w + x'"
  have "y = (y * w + x) div w" "y' = (y' * w + x') div w" using w by simp_all
  then have "y = y'" using eq by simp
  then show "y = y' \<and> x = x'" using eq by simp
qed simp

lemma pixel_inside: "x < w \<Longrightarrow> y < h \<Longrightarrow> y * w + x < w * (h :: nat)"
proof -
  assume "x < w" "y < h"
  then have "Suc y * w \<le> h * w" by (intro mult_le_mono1) simp
  then show ?thesis using \<open>x < w\<close> by (simp add: mult.commute)
qed

lemma rle_put_draws:
  assumes "shows_pic w h indices pic"
  shows "\<exists>indices'. rle_put w h x y v indices = Some indices' \<and> shows_pic w h indices' (draw_at x y [v] pic)"
proof (cases "x < w \<and> y < h")
  case True
  then have "y * w + x < length indices" using assms pixel_inside by (simp add: shows_pic_def)
  moreover have "shows_pic w h (indices[y * w + x := v]) (draw_at x y [v] pic)"
    using assms calculation True by (auto simp: shows_pic_def draw_at_def nth_list_update pixel_place)
  ultimately show ?thesis using True by (simp add: rle_put_def)
next
  case False
  then show ?thesis using assms by (auto simp: rle_put_def shows_pic_def draw_at_def)
qed

lemma draw_at_Nil [simp]: "draw_at x y [] pic = pic"
  by (intro ext) (auto simp: draw_at_def)

lemma draw_at_Cons: "draw_at x y (v # vs) pic = draw_at (x + 1) y vs (draw_at x y [v] pic)"
  by (intro ext) (auto simp: draw_at_def nth_Cons' Suc_diff_Suc le_less)

lemma rle_puts_draws:
  "shows_pic w h indices pic \<Longrightarrow> \<exists>indices'. rle_puts w h x y vs indices = Some (x + length vs, indices') \<and> shows_pic w h indices' (draw_at x y vs pic)"
proof (induction vs arbitrary: x indices pic)
  case Nil
  then show ?case by simp
next
  case (Cons v vs)
  obtain mid where mid: "rle_put w h x y v indices = Some mid" "shows_pic w h mid (draw_at x y [v] pic)"
    using rle_put_draws [OF Cons.prems] by blast
  then show ?case using Cons.IH [OF mid(2), of "x + 1"] draw_at_Cons [of x y v vs pic] by auto
qed

lemma nibbles:
  assumes "a < 16" "b < (16 :: u8)"
  shows "drop_bit 4 (push_bit 4 a OR b) = a" "(push_bit 4 a OR b) AND 0x0F = b" "drop_bit 4 (push_bit 4 a) = a"
proof -
  have small: "n < 4" if "c < 16" "bit c n" for c :: u8 and n
  proof -
    have "take_bit 4 c = c" using that(1) by (simp add: take_bit_eq_mod mod_word_less)
    then show "n < 4" using that(2) bit_take_bit_iff [of 4 c n] by simp
  qed
  have len: "bit c n \<Longrightarrow> n < 8" for c :: u8 and n using bit_imp_le_length [of c n] by simp
  show "drop_bit 4 (push_bit 4 a OR b) = a" by (rule bit_word_eqI) (use small [OF assms(1)] small [OF assms(2)] in \<open>auto simp: bit_simps\<close>)
  have "(push_bit 4 a OR b) AND 0x0F = take_bit 4 (push_bit 4 a OR b)" by (simp add: take_bit_eq_mask mask_eq_exp_minus_1)
  also have "\<dots> = b" by (rule bit_word_eqI) (use small [OF assms(2)] in \<open>auto simp: bit_simps\<close>)
  finally show "(push_bit 4 a OR b) AND 0x0F = b" .
  show "drop_bit 4 (push_bit 4 a) = a" by (rule bit_word_eqI) (use small [OF assms(1)] in \<open>auto simp: bit_simps\<close>)
qed

lemma reader_byte_next:
  assumes "cursor_ok r" "reader_rest r = b # rest"
  obtains r' where "reader_byte r = (Some b, r')" "cursor_ok r'" "reader_rest r' = rest"
proof -
  obtain r' where "reader_byte r = (case reader_rest r of [] \<Rightarrow> None | b # _ \<Rightarrow> Some b, r')" "cursor_ok r'" "reader_rest r' = drop 1 (reader_rest r)"
    by (rule reader_byte_rest [OF assms(1)])
  then show ?thesis using that [of r'] assms(2) by simp
qed

lemma rle_literal_bytes:
  "cursor_ok r \<Longrightarrow> reader_rest r = vs @ rest \<Longrightarrow>
   \<exists>r'. rle_literal False r b i (length vs) = (Some vs, r') \<and> cursor_ok r' \<and> reader_rest r' = rest"
proof (induction vs arbitrary: r b i)
  case (Cons v vs)
  have rest: "reader_rest r = v # vs @ rest" using Cons.prems(2) by simp
  obtain r1 where r1: "reader_byte r = (Some v, r1)" "cursor_ok r1" "reader_rest r1 = vs @ rest"
    by (rule reader_byte_next [OF Cons.prems(1) rest])
  then show ?case using Cons.IH [OF r1(2,3), of v "i + 1"] by (auto simp: rle_pick_def)
qed simp

lemma rle_literal_nibbles:
  "cursor_ok r \<Longrightarrow> reader_rest r = pack_nibbles vs @ rest \<Longrightarrow> even i \<Longrightarrow> \<forall>v \<in> set vs. v < 16 \<Longrightarrow>
   \<exists>r'. rle_literal True r b i (length vs) = (Some vs, r') \<and> cursor_ok r' \<and> reader_rest r' = rest"
proof (induction vs arbitrary: r b i rule: pack_nibbles.induct)
  case (2 v)
  have rest: "reader_rest r = push_bit 4 v # rest" using "2.prems"(2) by simp
  obtain r1 where r1: "reader_byte r = (Some (push_bit 4 v), r1)" "cursor_ok r1" "reader_rest r1 = rest"
    by (rule reader_byte_next [OF "2.prems"(1) rest])
  then show ?case using "2.prems"(3,4) nibbles(3) [of v 0] by (simp add: rle_pick_def)
next
  case (3 v u vs)
  have rest: "reader_rest r = (push_bit 4 v OR u) # pack_nibbles vs @ rest" using "3.prems"(2) by simp
  obtain r1 where r1: "reader_byte r = (Some (push_bit 4 v OR u), r1)" "cursor_ok r1" "reader_rest r1 = pack_nibbles vs @ rest"
    by (rule reader_byte_next [OF "3.prems"(1) rest])
  obtain r2 where r2: "rle_literal True r1 (push_bit 4 v OR u) (i + 2) (length vs) = (Some vs, r2)" "cursor_ok r2" "reader_rest r2 = rest"
    using "3.IH" [OF r1(2,3), of "i + 2"] "3.prems"(3,4) by auto
  have "v < 16" "u < 16" using "3.prems"(4) by simp_all
  then show ?case using r1(1) r2 "3.prems"(3) nibbles [of v u] by (simp add: rle_pick_def)
qed simp

lemma rle_literal_packed:
  assumes "cursor_ok r" "reader_rest r = rle_packed four vs @ rest" "four \<longrightarrow> (\<forall>v \<in> set vs. v < 16)"
  obtains r' where "rle_literal four r 0 0 (length vs) = (Some vs, r')" "cursor_ok r'" "reader_rest r' = rest"
proof (cases four)
  case True
  then show ?thesis using that rle_literal_nibbles [of r vs rest 0 0] assms by (auto simp: rle_packed_def)
next
  case False
  then show ?thesis using that rle_literal_bytes [of r vs rest 0 0] assms by (auto simp: rle_packed_def)
qed

lemma length_nibbles: "length (pack_nibbles vs) = div_ceil (length vs) 2"
  by (induction vs rule: pack_nibbles.induct) (simp_all add: div_ceil_def)

lemma rle_step_draws:
  assumes "cursor_ok r" "reader_rest r = rle_bytes four c @ rest" "cmd_ok four c" "shows_pic w h indices pic"
    and "rle_draw four (x, y, pic) c = (x', y', pic')"
  shows "\<exists>indices' r'. rle_step four w h r x y indices = Some (Rle_at x' y' indices', r') \<and> cursor_ok r' \<and> reader_rest r' = rest \<and>
    shows_pic w h indices' pic'"
proof (cases c)
  case (Run n v)
  have first: "reader_rest r = n # v # rest" using assms(2) Run by simp
  obtain r1 where r1: "reader_byte r = (Some n, r1)" "cursor_ok r1" "reader_rest r1 = v # rest" by (rule reader_byte_next [OF assms(1) first])
  obtain r2 where r2: "reader_byte r1 = (Some v, r2)" "cursor_ok r2" "reader_rest r2 = rest" by (rule reader_byte_next [OF r1(2,3)])
  have "x' = x + unat n" "y' = y" "pic' = draw_at x y (map (\<lambda>i. rle_pick four i v) [0..<unat n]) pic" using assms(5) Run by auto
  then show ?thesis using rle_puts_draws [OF assms(4), of x y "map (\<lambda>i. rle_pick four i v) [0..<unat n]"] r1(1) r2 assms(3) Run
    by (auto simp: rle_step_def)
next
  case Line
  have first: "reader_rest r = 0 # 0 # rest" using assms(2) Line by simp
  obtain r1 where r1: "reader_byte r = (Some 0, r1)" "cursor_ok r1" "reader_rest r1 = 0 # rest" by (rule reader_byte_next [OF assms(1) first])
  obtain r2 where "reader_byte r1 = (Some 0, r2)" "cursor_ok r2" "reader_rest r2 = rest" by (rule reader_byte_next [OF r1(2,3)])
  then show ?thesis using r1(1) assms(4,5) Line by (simp add: rle_step_def)
next
  case (Delta dx dy)
  have first: "reader_rest r = 0 # 2 # dx # dy # rest" using assms(2) Delta by simp
  obtain r1 where r1: "reader_byte r = (Some 0, r1)" "cursor_ok r1" "reader_rest r1 = 2 # dx # dy # rest" by (rule reader_byte_next [OF assms(1) first])
  obtain r2 where r2: "reader_byte r1 = (Some 2, r2)" "cursor_ok r2" "reader_rest r2 = dx # dy # rest" by (rule reader_byte_next [OF r1(2,3)])
  obtain r3 where r3: "reader_byte r2 = (Some dx, r3)" "cursor_ok r3" "reader_rest r3 = dy # rest" by (rule reader_byte_next [OF r2(2,3)])
  obtain r4 where "reader_byte r3 = (Some dy, r4)" "cursor_ok r4" "reader_rest r4 = rest" by (rule reader_byte_next [OF r3(2,3)])
  then show ?thesis using r1(1) r2(1) r3(1) assms(4,5) Delta by (simp add: rle_step_def)
next
  case (Literal vs)
  let ?n = "word_of_nat (length vs) :: u8"
  let ?pad = "if odd (length (rle_packed four vs)) then [0] else [] :: u8 list"
  have ok: "3 \<le> length vs" "length vs < 256" "four \<longrightarrow> (\<forall>v \<in> set vs. v < 16)" using assms(3) Literal by simp_all
  have n: "unat ?n = length vs" using ok(2) by (simp add: unat_of_nat take_bit_nat_eq_self)
  then have kinds: "?n \<noteq> 0" "?n \<noteq> 1" "?n \<noteq> 2" using ok(1) by (auto simp: unat_eq_zero dest: arg_cong [of _ _ unat])
  have first: "reader_rest r = 0 # ?n # rle_packed four vs @ ?pad @ rest" using assms(2) Literal by simp
  obtain r1 where r1: "reader_byte r = (Some 0, r1)" "cursor_ok r1" "reader_rest r1 = ?n # rle_packed four vs @ ?pad @ rest"
    by (rule reader_byte_next [OF assms(1) first])
  obtain r2 where r2: "reader_byte r1 = (Some ?n, r2)" "cursor_ok r2" "reader_rest r2 = rle_packed four vs @ ?pad @ rest"
    by (rule reader_byte_next [OF r1(2,3)])
  obtain r3 where r3: "rle_literal four r2 0 0 (length vs) = (Some vs, r3)" "cursor_ok r3" "reader_rest r3 = ?pad @ rest"
    by (rule rle_literal_packed [OF r2(2,3) ok(3)])
  have bytes: "(if four then div_ceil (length vs) 2 else length vs) = length (rle_packed four vs)" by (simp add: rle_packed_def length_nibbles)
  have to: "x' = x + length vs" "y' = y" "pic' = draw_at x y vs pic" using assms(5) Literal by auto
  obtain indices' where puts: "rle_puts w h x y vs indices = Some (x + length vs, indices')" "shows_pic w h indices' (draw_at x y vs pic)"
    using rle_puts_draws [OF assms(4)] by blast
  have step: "rle_step four w h r x y indices =
      (if odd (length (rle_packed four vs)) then
         (case reader_byte r3 of (None, r) \<Rightarrow> Some (Rle_error, r) | (Some _, r) \<Rightarrow> Some (Rle_at (x + length vs) y indices', r))
       else Some (Rle_at (x + length vs) y indices', r3))"
    using r1(1) r2(1) r3(1) kinds n puts(1) by (simp add: rle_step_def Let_def bytes [symmetric])
  show ?thesis
  proof (cases "odd (length (rle_packed four vs))")
    case True
    then have "reader_rest r3 = 0 # rest" using r3(3) by simp
    then obtain r4 where "reader_byte r3 = (Some 0, r4)" "cursor_ok r4" "reader_rest r4 = rest" by (rule reader_byte_next [OF r3(2)])
    then show ?thesis using step True puts(2) to by simp
  next
    case False
    then show ?thesis using step r3 puts(2) to by simp
  qed
qed

text \<open>Rows above the pen are finished.\<close>

lemma rle_draw_above:
  assumes "rle_draw four (x, y, pic) c = (x', y', pic')"
  shows "y \<le> y'" "\<And>j. j < y \<Longrightarrow> pic' j = pic j"
  using assms by (cases c; auto simp: draw_at_def)+

lemma rle_draws_above:
  "foldl (rle_draw four) (x, y, pic) cs = (x', y', pic') \<Longrightarrow> j < y \<Longrightarrow> pic' j = pic j"
proof (induction cs arbitrary: x y pic)
  case (Cons c cs)
  obtain x1 y1 pic1 where c: "rle_draw four (x, y, pic) c = (x1, y1, pic1)" using prod_cases3 by blast
  then show ?case using Cons.IH [of x1 y1 pic1] Cons.prems rle_draw_above [OF c] by auto
qed simp

lemma rle_run_draws:
  "cursor_ok r \<Longrightarrow> reader_rest r = concat (map (rle_bytes four) cs) @ 0 # 1 # rest \<Longrightarrow> \<forall>c \<in> set cs. cmd_ok four c \<Longrightarrow>
   shows_pic w h indices pic \<Longrightarrow> foldl (rle_draw four) (x, y, pic) cs = (x', y', pic') \<Longrightarrow>
   \<exists>indices' r'. rle_run four w h r x y indices = Some (Ok indices', r') \<and> shows_pic w h indices' pic'"
proof (induction cs arbitrary: r x y indices pic)
  case Nil
  have first: "reader_rest r = 0 # 1 # rest" using Nil.prems(2) by simp
  obtain r1 where r1: "reader_byte r = (Some 0, r1)" "cursor_ok r1" "reader_rest r1 = 1 # rest" by (rule reader_byte_next [OF Nil.prems(1) first])
  obtain r2 where "reader_byte r1 = (Some 1, r2)" "cursor_ok r2" "reader_rest r2 = rest" by (rule reader_byte_next [OF r1(2,3)])
  then show ?case using r1(1) Nil.prems(4,5) by (subst rle_run.simps) (simp add: rle_step_def)
next
  case (Cons c cs)
  show ?case
  proof (cases "y < h")
    case True
    obtain x1 y1 pic1 where c: "rle_draw four (x, y, pic) c = (x1, y1, pic1)" using prod_cases3 by blast
    have "reader_rest r = rle_bytes four c @ concat (map (rle_bytes four) cs) @ 0 # 1 # rest" using Cons.prems(2) by simp
    then obtain i1 r1 where "rle_step four w h r x y indices = Some (Rle_at x1 y1 i1, r1)" "cursor_ok r1"
        "reader_rest r1 = concat (map (rle_bytes four) cs) @ 0 # 1 # rest" "shows_pic w h i1 pic1"
      using rle_step_draws [OF Cons.prems(1) _ _ Cons.prems(4) c] Cons.prems(3) by auto
    then show ?thesis using Cons.IH [of r1 i1 pic1 x1 y1] Cons.prems(3,5) c True by (subst rle_run.simps) simp
  next
    case False
    then have "pic' j = pic j" if "j < h" for j using rle_draws_above [OF Cons.prems(5)] that by simp
    then show ?thesis using False Cons.prems(4) by (subst rle_run.simps) (simp add: shows_pic_def)
  qed
qed

section \<open>Properties\<close>


text \<open>An image of one by two pixels of 24 bits, stored bottom-up.\<close>

definition two_pixels :: "u8 list" where
  "two_pixels = [0x42, 0x4D, 0, 0, 0, 0, 0, 0, 0, 0, 26, 0, 0, 0, 12, 0, 0, 0] @ [1, 0, 2, 0, 1, 0, 24, 0] @ [1, 2, 3, 0, 4, 5, 6, 0]"

lemma two_pixels_open:
  "\<exists>d. bmp_open (\<lambda>_. True) (slice_stream two_pixels) \<lparr>do_format = None\<rparr> = Ok d \<and> bm_width d = 1 \<and> bm_height d = 2 \<and> bm_format d = Rgb888 \<and>
     bm_bpp d = 24 \<and> bm_stride d = 4 \<and> bm_data_offset d = 26 \<and> bm_bottom_up d \<and> \<not> bmp_is_rle d \<and> (\<forall>c \<in> set (bm_channels d). contiguous c)"
proof -
  let ?r = "reader_new (slice_stream two_pixels)"
  have start: "cursor_ok ?r" "reader_rest ?r = two_pixels" by (simp_all add: slice_stream_def reader_rest_def)
  obtain r1 where r1: "read_or ?r 18 = Ok ([0x42, 0x4D, 0, 0, 0, 0, 0, 0, 0, 0, 26, 0, 0, 0, 12, 0, 0, 0], r1)" "cursor_ok r1"
      "reader_rest r1 = [1, 0, 2, 0, 1, 0, 24, 0] @ [1, 2, 3, 0, 4, 5, 6, 0]"
    by (rule read_or_rest [OF start(1) trans [OF start(2) two_pixels_def], of 18]) simp_all
  obtain r2 where r2: "read_or r1 8 = Ok ([1, 0, 2, 0, 1, 0, 24, 0], r2)" "cursor_ok r2" "reader_rest r2 = [1, 2, 3, 0, 4, 5, 6, 0]"
    by (rule read_or_rest [OF r1(2,3), of 8]) simp_all
  have same: "same_stream ?r r2" using read_or_cursor [OF r1(1) start(1)] read_or_cursor [OF r2(1) r1(2)] same_stream_trans by blast
  then have seeks: "sm_seeks (rd_src r2)" by (simp add: same_stream_def) (simp add: reader_new_def slice_stream_def)
  let ?h = "\<lparr>bh_offset = 26, bh_info = 12, bh_w = 1, bh_h = 2, bh_bpp = 24, bh_compression = BI_RGB, bh_entry = 3, bh_used = 0,
      bh_rest = [1, 0, 2, 0, 1, 0, 24, 0]\<rparr>"
  have "bmp_header ?r = Ok (?h, r2)" using r1(1) r2(1) by (simp add: bmp_header_def le16_at_def le32_at_def)
  moreover have "bmp_channels ?h r2 = Ok (replicate 3 channel_default, r2)" by (simp add: bmp_channels_def)
  moreover have "bmp_palette ?h r2 = Ok (replicate 256 [0, 0, 0], 0, r2)" by (simp add: bmp_palette_def)
  moreover have "contiguous channel_default" by (simp add: contiguous_def channel_default_def)
  ultimately show ?thesis using seeks
    by (simp add: bmp_open_def alloc_def bmp_size_def bmp_kind_def out_format_def is_row_format_def bmp_chunks_def bmp_is_rle_def bmp_state_def
        Let_def div_ceil_def)
qed


text \<open>C38: A run-length encoded BMP is the picture its commands draw. When the pixel data is a list of commands (runs,
  literals padded to a whole word, ends of line and moves) closed by the end of the bitmap, in RLE8 or
  RLE4, expanding it gives exactly the picture that a pen draws which follows the commands, with the first
  index where nothing is drawn; commands that leave the image to the right or above it change nothing.\<close>

theorem bmp_rle_draws_commands:
  assumes "bmp_open mem src options = Ok d" "sm_pos src = 0" "sm_seeks src"
    and "drop (bm_data_offset d) (sm_data src) = concat (map (rle_bytes (bm_compression d = BI_RLE4)) cs) @ 0 # 1 # rest"
    and "\<forall>c \<in> set cs. cmd_ok (bm_compression d = BI_RLE4) c"
    and "foldl (rle_draw (bm_compression d = BI_RLE4)) (0, 0, \<lambda>_ _. 0) cs = (x, y, pic)"
  shows "\<exists>indices d'. expand_rle True d = Some (Ok (), d') \<and> bm_indices d' = Some indices \<and> shows_pic (bm_width d) (bm_height d) indices pic"
proof -
  let ?four = "bm_compression d = BI_RLE4" and ?zero = "replicate (bm_width d * bm_height d) 0"
  have on: "cursor_ok (bm_r d)" "sm_seeks (rd_src (bm_r d))" "reader_data (bm_r d) = sm_data src"
    using bmp_open_on [OF assms(1-3)] by (simp_all add: bmp_on_def)
  have "drop (bm_data_offset d) (sm_data src) \<noteq> []" using assms(4) by simp
  then have inside: "bm_data_offset d \<le> length (sm_data src)" by simp
  obtain r where r: "reader_seek (bm_r d) (bm_data_offset d) = (True, r)" "cursor_ok r" "same_stream (bm_r d) r" "reader_tell r = bm_data_offset d"
    using reader_seek_rest [OF on(1,2), of "bm_data_offset d"] on(3) inside by auto
  have rest: "reader_rest r = concat (map (rle_bytes ?four) cs) @ 0 # 1 # rest" using r(3,4) on(3) assms(4) by (simp add: reader_rest_def same_stream_def)
  have zero: "shows_pic (bm_width d) (bm_height d) ?zero (\<lambda>_ _. 0)"
    using pixel_inside by (simp add: shows_pic_def)
  obtain indices r' where "rle_run ?four (bm_width d) (bm_height d) r 0 0 ?zero = Some (Ok indices, r')" "shows_pic (bm_width d) (bm_height d) indices pic"
    using rle_run_draws [OF r(2) rest assms(5) zero assms(6)] by blast
  then show ?thesis using r(1) by (simp add: expand_rle_def)
qed

text \<open>An image of three by one pixels in RLE8: a move to the right, a run of two, and the end.\<close>

definition three_indices :: "u8 list" where
  "three_indices = [0x42, 0x4D, 0, 0, 0, 0, 0, 0, 0, 0, 58, 0, 0, 0, 40, 0, 0, 0] @
     [3, 0, 0, 0, 1, 0, 0, 0, 1, 0, 8, 0, 1, 0, 0, 0, 0, 0, 0, 0, 0, 0, 0, 0, 0, 0, 0, 0, 1, 0, 0, 0, 0, 0, 0, 0] @ [9, 8, 7, 0] @ [0, 2, 1, 0, 2, 5, 0, 1]"

lemma three_indices_open:
  "\<exists>d. bmp_open (\<lambda>_. True) (slice_stream three_indices) \<lparr>do_format = None\<rparr> = Ok d \<and> bm_width d = 3 \<and> bm_height d = 1 \<and>
     bm_compression d = BI_RLE8 \<and> bm_data_offset d = 58"
proof -
  let ?r = "reader_new (slice_stream three_indices)"
  let ?fh = "[0x42, 0x4D, 0, 0, 0, 0, 0, 0, 0, 0, 58, 0, 0, 0, 40, 0, 0, 0] :: u8 list"
  let ?ih = "[3, 0, 0, 0, 1, 0, 0, 0, 1, 0, 8, 0, 1, 0, 0, 0, 0, 0, 0, 0, 0, 0, 0, 0, 0, 0, 0, 0, 1, 0, 0, 0, 0, 0, 0, 0] :: u8 list"
  have start: "cursor_ok ?r" "reader_rest ?r = three_indices" by (simp_all add: slice_stream_def reader_rest_def)
  obtain r1 where r1: "read_or ?r 18 = Ok (?fh, r1)" "cursor_ok r1" "reader_rest r1 = ?ih @ [9, 8, 7, 0] @ [0, 2, 1, 0, 2, 5, 0, 1]"
    by (rule read_or_rest [OF start(1) trans [OF start(2) three_indices_def], of 18]) simp_all
  obtain r2 where r2: "read_or r1 36 = Ok (?ih, r2)" "cursor_ok r2" "reader_rest r2 = [9, 8, 7, 0] @ [0, 2, 1, 0, 2, 5, 0, 1]"
    by (rule read_or_rest [OF r1(2,3), of 36]) simp_all
  obtain r3 where r3: "read_or r2 4 = Ok ([9, 8, 7, 0], r3)"
    by (rule read_or_rest [OF r2(2,3), of 4]) simp_all
  let ?h = "\<lparr>bh_offset = 58, bh_info = 40, bh_w = 3, bh_h = 1, bh_bpp = 8, bh_compression = BI_RLE8, bh_entry = 4, bh_used = 1, bh_rest = ?ih\<rparr>"
  have "bmp_header ?r = Ok (?h, r2)" using r1(1) r2(1) by (simp add: bmp_header_def le16_at_def le32_at_def)
  moreover have "bmp_channels ?h r2 = Ok (replicate 3 channel_default, r2)" by (simp add: bmp_channels_def)
  moreover have "bmp_palette ?h r2 = Ok ([7, 8, 9] # replicate 255 [0, 0, 0], 1, r3)" using r3 by (simp add: bmp_palette_def numeral_eq_Suc)
  ultimately show ?thesis
    by (simp add: bmp_open_def alloc_def bmp_size_def bmp_kind_def out_format_def is_row_format_def bmp_chunks_def bmp_is_rle_def bmp_state_def)
qed

lemma bmp_rle_draws_commands_witness:
  "\<exists>d indices d'. bmp_open (\<lambda>_. True) (slice_stream three_indices) \<lparr>do_format = None\<rparr> = Ok d \<and>
     expand_rle True d = Some (Ok (), d') \<and> bm_indices d' = Some indices \<and> indices = [0, 5, 5]"
proof -
  obtain d where d: "bmp_open (\<lambda>_. True) (slice_stream three_indices) \<lparr>do_format = None\<rparr> = Ok d" "bm_width d = 3" "bm_height d = 1"
      "bm_compression d = BI_RLE8" "bm_data_offset d = 58"
    using three_indices_open by blast
  let ?pic = "draw_at 1 0 [5, 5] (\<lambda>_ _. 0)"
  have draw: "foldl (rle_draw (bm_compression d = BI_RLE4)) (0, 0, \<lambda>_ _. 0) [Delta 1 0, Run 2 5] = (3, 0, ?pic)"
    using d(4) by (simp add: rle_pick_def upt_conv_Cons)
  have "drop (bm_data_offset d) (sm_data (slice_stream three_indices)) =
      concat (map (rle_bytes (bm_compression d = BI_RLE4)) [Delta 1 0, Run 2 5]) @ 0 # 1 # []"
    using d(4,5) by (simp add: slice_stream_def three_indices_def)
  then obtain indices d' where i: "expand_rle True d = Some (Ok (), d')" "bm_indices d' = Some indices" "shows_pic 3 1 indices ?pic"
    using bmp_rle_draws_commands [OF d(1) _ _ _ _ draw, of "[]"] d(2,3) by (auto simp: slice_stream_def)
  have "indices = [0, 5, 5]"
  proof (rule nth_equalityI)
    show "length indices = length [0, 5, 5 :: u8]" using i(3) by (simp add: shows_pic_def)
    fix k assume "k < length indices"
    then have "k = 0 \<or> k = 1 \<or> k = 2" using i(3) by (auto simp: shows_pic_def)
    moreover have "indices ! k = ?pic 0 k" if "k < 3" using i(3) that by (simp add: shows_pic_def)
    ultimately show "indices ! k = [0, 5, 5] ! k" by (auto simp: draw_at_def)
  qed
  then show ?thesis using d(1) i by blast
qed



end
