(* ===== verification/Ranges.thy ===== *)
theory Ranges
  imports Base
begin

text \<open>
  The merging of byte ranges that \<open>frag.rs\<close> (\<open>Pending::add_range\<close>) and \<open>tcp.rs\<close>
  (\<open>Assembler::add\<close>) both write out: one pass over the held ranges that keeps those apart from
  the new one and grows the new one over the others, then an insertion before the first kept
  range that starts after it. A range \<open>(s, e)\<close> stands for the bytes \<open>s \<le> i < e\<close>.
\<close>

section \<open>Operations\<close>

type_synonym range = "nat \<times> nat"

fun absorb :: "range \<Rightarrow> range list \<Rightarrow> range list \<times> range" where
  "absorb m [] = ([], m)"
| "absorb m ((s, e) # rs) =
     (if e < fst m \<or> snd m < s then (case absorb m rs of (kept, m') \<Rightarrow> ((s, e) # kept, m'))
      else absorb (min (fst m) s, max (snd m) e) rs)"

definition insert_range :: "range \<Rightarrow> range list \<Rightarrow> range list" where
  "insert_range m kept =
     (let at = (case position (\<lambda>(s, _). fst m < s) kept of Some i \<Rightarrow> i | None \<Rightarrow> length kept)
      in take at kept @ m # drop at kept)"

section \<open>Invariant and abstraction\<close>

text \<open>Sorted, and apart: a gap of at least one byte between neighbours.\<close>

fun apart_ranges :: "range list \<Rightarrow> bool" where
  "apart_ranges [] = True"
| "apart_ranges ((s, e) # rs) = (s \<le> e \<and> (\<forall>r \<in> set rs. e < fst r) \<and> apart_ranges rs)"

definition covered :: "range list \<Rightarrow> nat set" where
  "covered rs = (\<Union>(s, e) \<in> set rs. {s..<e})"

lemma covered_Nil [simp]: "covered [] = {}"
  by (simp add: covered_def)

lemma covered_Cons [simp]: "covered ((s, e) # rs) = {s..<e} \<union> covered rs"
  by (auto simp: covered_def)

lemma covered_append [simp]: "covered (xs @ ys) = covered xs \<union> covered ys"
  by (auto simp: covered_def)

section \<open>Lemmas\<close>

lemma apart_ranges_le: "apart_ranges rs \<Longrightarrow> (s, e) \<in> set rs \<Longrightarrow> s \<le> e"
  by (induction rs rule: apart_ranges.induct) auto

lemma apart_ranges_append:
  "apart_ranges (xs @ ys) \<longleftrightarrow>
     apart_ranges xs \<and> apart_ranges ys \<and> (\<forall>x \<in> set xs. \<forall>y \<in> set ys. snd x < fst y)"
  by (induction xs rule: apart_ranges.induct) auto

lemma absorb_apart: "(\<forall>r \<in> set rs. snd m < fst r) \<Longrightarrow> absorb m rs = (rs, m)"
  by (induction m rs rule: absorb.induct) auto

lemma absorb_spec:
  assumes "absorb m rs = (kept, m')" and "apart_ranges rs" and "fst m \<le> snd m"
  shows "apart_ranges kept \<and> set kept \<subseteq> set rs \<and> length kept \<le> length rs \<and>
         fst m' \<le> fst m \<and> snd m \<le> snd m' \<and>
         (fst m' = fst m \<or> fst m' \<in> fst ` set rs) \<and>
         covered kept \<union> {fst m'..<snd m'} = covered rs \<union> {fst m..<snd m} \<and>
         (\<forall>(s, e) \<in> set kept. e < fst m' \<or> snd m' < s)"
  using assms
proof (induction m rs arbitrary: kept m' rule: absorb.induct)
  case (1 m)
  then show ?case by simp
next
  case (2 m s e rs)
  show ?case
  proof (cases "e < fst m \<or> snd m < s")
    case True
    obtain k where k: "absorb m rs = (k, m')" "kept = (s, e) # k"
      using "2.prems"(1) True by (auto split: prod.splits)
    note IH = "2.IH"(1) [OF True k(1)]
    have IH': "apart_ranges k \<and> set k \<subseteq> set rs \<and> length k \<le> length rs \<and>
         fst m' \<le> fst m \<and> snd m \<le> snd m' \<and>
         (fst m' = fst m \<or> fst m' \<in> fst ` set rs) \<and>
         covered k \<union> {fst m'..<snd m'} = covered rs \<union> {fst m..<snd m} \<and>
         (\<forall>(s, e) \<in> set k. e < fst m' \<or> snd m' < s)"
      using IH "2.prems" by auto
    have sep: "e < fst m' \<or> snd m' < s"
    proof (cases "e < fst m")
      case True
      then show ?thesis using IH' "2.prems"(2) by auto
    next
      case False
      then have "\<forall>r \<in> set rs. snd m < fst r"
        using \<open>e < fst m \<or> snd m < s\<close> "2.prems"(2) by auto
      from absorb_apart [OF this] k(1) have "m' = m" by simp
      then show ?thesis using \<open>e < fst m \<or> snd m < s\<close> by simp
    qed
    show ?thesis using IH' sep k(2) "2.prems"(2) by auto
  next
    case False
    let ?m = "(min (fst m) s, max (snd m) e)"
    have ab: "absorb ?m rs = (kept, m')" using "2.prems"(1) False by simp
    have IH': "apart_ranges kept \<and> set kept \<subseteq> set rs \<and> length kept \<le> length rs \<and>
         fst m' \<le> fst ?m \<and> snd ?m \<le> snd m' \<and>
         (fst m' = fst ?m \<or> fst m' \<in> fst ` set rs) \<and>
         covered kept \<union> {fst m'..<snd m'} = covered rs \<union> {fst ?m..<snd ?m} \<and>
         (\<forall>(s, e) \<in> set kept. e < fst m' \<or> snd m' < s)"
      by (rule "2.IH"(2) [OF False ab]) (use "2.prems" in auto)
    have "{fst ?m..<snd ?m} = {s..<e} \<union> {fst m..<snd m}"
      using False "2.prems"(2,3) by auto
    then show ?thesis using IH' by (auto simp: min_def split: if_splits)
  qed
qed

lemma absorb_bound:
  "absorb m rs = (kept, m') \<Longrightarrow> snd m \<le> n \<Longrightarrow> \<forall>r \<in> set rs. snd r \<le> n \<Longrightarrow> snd m' \<le> n"
  by (induction m rs arbitrary: kept m' rule: absorb.induct) (auto split: if_splits prod.splits)

text \<open>The position of the insertion is the place that keeps the ranges sorted.\<close>

lemma insert_range_spec:
  assumes ap: "apart_ranges kept" and m: "fst m \<le> snd m"
    and sep: "\<forall>(s, e) \<in> set kept. e < fst m \<or> snd m < s"
  shows "apart_ranges (insert_range m kept) \<and> covered (insert_range m kept) = covered kept \<union> {fst m..<snd m} \<and>
         set (insert_range m kept) = insert m (set kept) \<and> length (insert_range m kept) = Suc (length kept)"
proof -
  define at where "at = (case position (\<lambda>(s, _). fst m < s) kept of Some i \<Rightarrow> i | None \<Rightarrow> length kept)"
  have ins: "insert_range m kept = take at kept @ m # drop at kept"
    by (simp add: insert_range_def at_def Let_def)
  have before: "snd x < fst m" if x: "x \<in> set (take at kept)" for x
  proof -
    obtain j where "j < length (take at kept)" "take at kept ! j = x"
      using x unfolding in_set_conv_nth by blast
    then have j: "j < at" "j < length kept" "x = kept ! j" by auto
    then have "\<not> fst m < fst x"
      unfolding at_def by (auto simp: position_Some_iff position_None_iff case_prod_beta split: option.splits)
    moreover have "x \<in> set kept" using j by simp
    ultimately show ?thesis using sep m by (cases x) fastforce
  qed
  have after: "snd m < fst y" if "y \<in> set (drop at kept)" for y
  proof -
    have ne: "drop at kept \<noteq> []" using that by auto
    then have at: "at < length kept" by simp
    then have hd: "fst m < fst (kept ! at)"
    proof (cases "position (\<lambda>(s, _). fst m < s) kept")
      case None
      then show ?thesis using at by (simp add: at_def)
    next
      case (Some i)
      then have "at = i" by (simp add: at_def)
      with Some show ?thesis by (auto simp: position_Some_iff case_prod_beta)
    qed
    have split: "drop at kept = kept ! at # drop (Suc at) kept" using at by (simp add: Cons_nth_drop_Suc)
    have ap': "apart_ranges (kept ! at # drop (Suc at) kept)"
      using ap split by (metis append_take_drop_id apart_ranges_append)
    have mem: "kept ! at \<in> set kept" using at by simp
    obtain s e where se: "kept ! at = (s, e)" by fastforce
    have "snd m < s" using sep mem hd se apart_ranges_le [OF ap, of s e] by fastforce
    then show ?thesis using that ap' unfolding split se by auto
  qed
  have "apart_ranges (take at kept @ drop at kept)" using ap by simp
  then have "apart_ranges (take at kept)" "apart_ranges (drop at kept)"
    unfolding apart_ranges_append by blast+
  then have "apart_ranges (insert_range m kept)"
    unfolding ins apart_ranges_append using before after m by (cases m) fastforce
  moreover have "covered kept = covered (take at kept) \<union> covered (drop at kept)"
    by (metis append_take_drop_id covered_append)
  moreover have "set kept = set (take at kept) \<union> set (drop at kept)"
    by (metis append_take_drop_id set_append)
  ultimately show ?thesis unfolding ins by (cases m) auto
qed

lemma add_range_spec:
  assumes ap: "apart_ranges rs" and le: "s \<le> e" and ab: "absorb (s, e) rs = (kept, m)"
    and n: "\<forall>r \<in> set rs. snd r \<le> n" "e \<le> n"
  shows "apart_ranges (insert_range m kept) \<and> covered (insert_range m kept) = covered rs \<union> {s..<e} \<and>
         (\<forall>r \<in> set (insert_range m kept). snd r \<le> n)"
proof -
  note a = absorb_spec [OF ab ap, simplified, OF le]
  have "fst m \<le> snd m" using a le by linarith
  moreover have "snd m \<le> n" using absorb_bound [OF ab _ n(1)] n(2) by simp
  ultimately show ?thesis using insert_range_spec [of kept m] a n(1) by auto
qed

text \<open>Everything up to \<open>n\<close> is there exactly when the ranges are the single range \<open>(0, n)\<close>.\<close>

lemma covered_all:
  assumes ap: "apart_ranges rs" and cov: "covered rs = {0..<n}" and n: "0 < n" and le: "\<forall>r \<in> set rs. snd r \<le> n"
  shows "rs = [(0, n)]"
proof (cases rs)
  case Nil
  then show ?thesis using cov n by auto
next
  case (Cons r rest)
  obtain s e where r: "r = (s, e)" by fastforce
  have later: "\<forall>x \<in> set rest. e < fst x" "s \<le> e" "apart_ranges rest" using ap Cons r by auto
  have notin: "e \<notin> covered rs"
    unfolding Cons r using later by (auto simp: covered_def)
  have low: "s \<le> i" if "i \<in> covered rs" for i
    using that later unfolding Cons r by (fastforce simp: covered_def)
  have "0 \<in> covered rs" using cov n by auto
  then have "s = 0" using low by auto
  moreover have "e \<le> n" using le Cons r by simp
  moreover have "\<not> e < n" using notin cov by auto
  moreover have "rest = []"
  proof (cases rest)
    case (Cons x xs)
    obtain s' e' where x: "x = (s', e')" by fastforce
    have "e < s'" "s' \<le> e'" "e' \<le> n" using later le Cons x \<open>rs = r # rest\<close> by auto
    then show ?thesis using \<open>\<not> e < n\<close> by simp
  qed simp
  ultimately show ?thesis using Cons r by simp
qed

text \<open>The bytes from 0 on are all there exactly when the first range starts at 0.\<close>

lemma covered_from_zero:
  assumes "apart_ranges ((0, n) # rs)"
  shows "{0..<n} \<subseteq> covered ((0, n) # rs)" and "n \<notin> covered ((0, n) # rs)"
  using assms by (auto simp: covered_def)

lemma covered_bound: "(\<forall>(s, e) \<in> set rs. e \<le> n) \<Longrightarrow> covered rs \<subseteq> {..<n}"
  by (force simp: covered_def)

end
