(* ===== verification/Byte_Buffer.thy ===== *)
theory Byte_Buffer
  imports Ranges
begin

text \<open>
  The interface between the ring of a socket and the protocol that fills it. A byte buffer holds
  bytes, has room for more, and can be written ahead of the held bytes before they are committed.
  The locale states what its operations promise; in it, a buffer that is filled with parts of a
  stream in any order is shown to hold the stream, in order and without gaps. \<open>Ring\<close> interprets it.
\<close>

text \<open>The buffer \<open>b\<close> holds the bytes from \<open>p\<close> to \<open>k\<close> of the stream \<open>s\<close>, and ahead of them those in
  the ranges \<open>rs\<close>, which are offsets from \<open>k\<close>.\<close>

definition buffer_holds ::
  "('b \<Rightarrow> bool) \<Rightarrow> ('b \<Rightarrow> u8 list) \<Rightarrow> ('b \<Rightarrow> nat \<Rightarrow> u8 option) \<Rightarrow> ('b \<Rightarrow> nat) \<Rightarrow>
   u8 list \<Rightarrow> nat \<Rightarrow> nat \<Rightarrow> 'b \<Rightarrow> range list \<Rightarrow> bool" where
  "buffer_holds valid bytes ahead room s p k b rs \<longleftrightarrow>
     valid b \<and> p \<le> k \<and> k \<le> length s \<and> bytes b = take (k - p) (drop p s) \<and> apart_ranges rs \<and>
     (\<forall>i \<in> covered rs. k + i < length s \<and> ahead b i = Some (s ! (k + i))) \<and> (\<forall>r \<in> set rs. snd r \<le> room b)"

text \<open>The ranges after the first \<open>n\<close> bytes ahead were committed.\<close>

definition shift_ranges :: "nat \<Rightarrow> range list \<Rightarrow> range list" where
  "shift_ranges n rs = map (\<lambda>(s, e). (s - n, e - n)) rs"

lemma shift_ranges_spec:
  "apart_ranges ((0, n) # rs) \<Longrightarrow>
     apart_ranges (shift_ranges n rs) \<and> (\<forall>i. i \<in> covered (shift_ranges n rs) \<longleftrightarrow> n + i \<in> covered rs)"
proof -
  assume ap: "apart_ranges ((0, n) # rs)"
  then have later: "\<forall>r \<in> set rs. n < fst r" and ap': "apart_ranges rs" by auto
  have "apart_ranges (shift_ranges n rs)"
    using ap' later unfolding shift_ranges_def
    by (induction rs rule: apart_ranges.induct) (auto intro: diff_less_mono diff_le_mono)
  moreover have "i \<in> covered (shift_ranges n rs) \<longleftrightarrow> n + i \<in> covered rs" for i
    using later by (induction rs) (auto simp: shift_ranges_def less_diff_conv add.commute)
  ultimately show ?thesis by blast
qed

locale byte_buffer =
  fixes valid :: "'b \<Rightarrow> bool"
    and bytes :: "'b \<Rightarrow> u8 list"
    and ahead :: "'b \<Rightarrow> nat \<Rightarrow> u8 option"
    and room :: "'b \<Rightarrow> nat"
    and put :: "'b \<Rightarrow> nat \<Rightarrow> u8 list \<Rightarrow> (bool \<times> 'b) option"
    and commit :: "'b \<Rightarrow> nat \<Rightarrow> 'b"
    and discard :: "'b \<Rightarrow> nat \<Rightarrow> 'b"
  assumes write_law:
      "valid b \<Longrightarrow> at + length src \<le> room b \<Longrightarrow>
       \<exists>ok b'. put b at src = Some (ok, b') \<and> valid b' \<and> bytes b' = bytes b \<and> room b' = room b \<and>
         (\<forall>i x. ahead b i = Some x \<longrightarrow> \<not> (at \<le> i \<and> i < at + length src) \<longrightarrow> ahead b' i = Some x) \<and>
         (ok \<longrightarrow> (\<forall>i < length src. ahead b' (at + i) = Some (src ! i))) \<and> (\<not> ok \<longrightarrow> b' = b)"
    and commit_law:
      "valid b \<Longrightarrow> n \<le> room b \<Longrightarrow> \<forall>i < n. ahead b i \<noteq> None \<Longrightarrow>
       valid (commit b n) \<and> room (commit b n) = room b - n \<and>
       bytes (commit b n) = bytes b @ map (\<lambda>i. the (ahead b i)) [0..<n] \<and>
       (\<forall>i. ahead (commit b n) i = ahead b (n + i))"
    and discard_law:
      "valid b \<Longrightarrow> n \<le> length (bytes b) \<Longrightarrow>
       valid (discard b n) \<and> room (discard b n) = room b + n \<and> bytes (discard b n) = drop n (bytes b) \<and>
       (\<forall>i x. ahead b i = Some x \<longrightarrow> ahead (discard b n) i = Some x)"
begin

abbreviation holds :: "u8 list \<Rightarrow> nat \<Rightarrow> nat \<Rightarrow> 'b \<Rightarrow> range list \<Rightarrow> bool" where
  "holds \<equiv> buffer_holds valid bytes ahead room"

lemma holds_write:
  assumes h: "holds s p k b rs" and fit: "at + length src \<le> room b"
    and src: "k + at + length src \<le> length s" "src = take (length src) (drop (k + at) s)"
  shows "\<exists>ok b'. put b at src = Some (ok, b') \<and> room b' = room b \<and> holds s p k b' rs \<and>
    (ok \<longrightarrow> (\<forall>rs'. apart_ranges rs' \<longrightarrow> covered rs' \<subseteq> covered rs \<union> {at..<at + length src} \<longrightarrow>
      (\<forall>r \<in> set rs'. snd r \<le> room b) \<longrightarrow> holds s p k b' rs'))"
proof -
  have valid: "valid b" using h by (simp add: buffer_holds_def)
  obtain ok b' where w: "put b at src = Some (ok, b')" "valid b'" "bytes b' = bytes b" "room b' = room b"
      "\<forall>i x. ahead b i = Some x \<longrightarrow> \<not> (at \<le> i \<and> i < at + length src) \<longrightarrow> ahead b' i = Some x"
      "ok \<longrightarrow> (\<forall>i < length src. ahead b' (at + i) = Some (src ! i))" "\<not> ok \<longrightarrow> b' = b"
    using write_law [OF valid fit] by blast
  have nth: "src ! i = s ! (k + at + i)" if "i < length src" for i
    using that src(1) by (subst src(2)) simp
  have kept: "ahead b' i = Some (s ! (k + i)) \<and> k + i < length s" if "i \<in> covered rs" for i
  proof (cases "ok \<and> at \<le> i \<and> i < at + length src")
    case True
    then have "ahead b' (at + (i - at)) = Some (src ! (i - at))"
      using w(6) True by (auto dest!: spec [of _ "i - at"])
    then show ?thesis using True nth [of "i - at"] h that src(1) by (auto simp: buffer_holds_def)
  next
    case False
    then show ?thesis using w(5,7) h that by (cases ok) (auto simp: buffer_holds_def)
  qed
  have new: "ahead b' i = Some (s ! (k + i)) \<and> k + i < length s" if "ok" "at \<le> i" "i < at + length src" for i
  proof -
    have "ahead b' (at + (i - at)) = Some (src ! (i - at))"
      using w(6) that by (auto dest!: spec [of _ "i - at"])
    then show ?thesis using that nth [of "i - at"] src(1) by auto
  qed
  have "holds s p k b' rs'"
    if "ok" "apart_ranges rs'" "covered rs' \<subseteq> covered rs \<union> {at..<at + length src}" "\<forall>r \<in> set rs'. snd r \<le> room b" for rs'
    using that h w kept new unfolding buffer_holds_def by (auto simp: subset_iff)
  moreover have "holds s p k b' rs" using h w kept unfolding buffer_holds_def by auto
  ultimately show ?thesis using w(1,4) by blast
qed

lemma holds_commit:
  assumes h: "holds s p k b ((0, n) # rs)"
  shows "holds s p (k + n) (commit b n) (shift_ranges n rs)"
proof -
  have valid: "valid b" and ap: "apart_ranges ((0, n) # rs)" and room: "n \<le> room b" "\<forall>r \<in> set rs. snd r \<le> room b"
    and al: "\<And>i. i \<in> covered ((0, n) # rs) \<Longrightarrow> k + i < length s \<and> ahead b i = Some (s ! (k + i))"
    and pk: "p \<le> k" "k \<le> length s" "bytes b = take (k - p) (drop p s)"
    using h unfolding buffer_holds_def by auto
  have front: "\<forall>i < n. ahead b i \<noteq> None" using al by simp
  note c = commit_law [OF valid room(1) front]
  have len: "k + n \<le> length s" using al [of "n - 1"] pk(2) by (cases n) auto
  have "map (\<lambda>i. the (ahead b i)) [0..<n] = take n (drop k s)"
    using al len by (intro nth_equalityI) auto
  moreover have "take (k - p + n) (drop p s) = take (k - p) (drop p s) @ take n (drop (k - p) (drop p s))"
    by (rule take_add)
  ultimately have "bytes (commit b n) = take (k + n - p) (drop p s)"
    using c pk by simp
  then show ?thesis
    unfolding buffer_holds_def using c shift_ranges_spec [OF ap] al room pk len
    by (auto simp: shift_ranges_def add.assoc diff_le_mono)
qed

lemma holds_discard:
  assumes h: "holds s p k b rs" and n: "n \<le> k - p"
  shows "holds s (p + n) k (discard b n) rs"
proof -
  have valid: "valid b" and pk: "p \<le> k" "k \<le> length s" "bytes b = take (k - p) (drop p s)"
    using h unfolding buffer_holds_def by auto
  have le: "n \<le> length (bytes b)" using pk n by simp
  note d = discard_law [OF valid le]
  have "drop n (take (k - p) (drop p s)) = take (k - (p + n)) (drop (p + n) s)"
    using n by (simp add: drop_take add.commute)
  then show ?thesis unfolding buffer_holds_def using d h n pk by (auto simp: buffer_holds_def intro: trans_le_add1)
qed

end

end
