(* ===== verification/Tcp_Segment.thy ===== *)
theory Tcp_Segment
  imports Wire Byte_Buffer
begin

text \<open>
  The parts of \<open>libs/devkit_net/src/tcp.rs\<close> that do not depend on a connection: the comparison of
  sequence numbers, the window rules, the assembler of out-of-order ranges and the segments on the
  wire.
\<close>

section \<open>Constants\<close>

definition TCP_HEADER :: nat where "TCP_HEADER = 20"
definition SYN_OPTIONS :: nat where "SYN_OPTIONS = 8"
definition FIN :: u8 where "FIN = 0x01"
definition SYN :: u8 where "SYN = 0x02"
definition RST :: u8 where "RST = 0x04"
definition PSH :: u8 where "PSH = 0x08"
definition ACK :: u8 where "ACK = 0x10"
definition DEFAULT_MSS :: nat where "DEFAULT_MSS = 536"
definition RTO_INITIAL :: duration where "RTO_INITIAL = from_secs 1"
definition RTO_MIN :: duration where "RTO_MIN = from_millis 200"
definition RTO_MAX :: duration where "RTO_MAX = from_secs 60"
definition MAX_RETRIES :: nat where "MAX_RETRIES = 12"
definition MAX_SYN_RETRIES :: nat where "MAX_SYN_RETRIES = 7"
definition DELAYED_ACK :: duration where "DELAYED_ACK = from_millis 40"
definition TIME_WAIT :: duration where "TIME_WAIT = from_secs 60"
definition FIN_WAIT_2 :: duration where "FIN_WAIT_2 = from_secs 60"
definition EPHEMERAL_FIRST :: u16 where "EPHEMERAL_FIRST = 49152"
definition MAX_WINDOW_SCALE :: nat where "MAX_WINDOW_SCALE = 14"
definition KEEPALIVE_INTERVAL :: duration where "KEEPALIVE_INTERVAL = from_secs 75"
definition KEEPALIVE_PROBES :: nat where "KEEPALIVE_PROBES = 9"
definition LINK_RETRY :: duration where "LINK_RETRY = from_millis 1"

lemmas tcp_flag_defs = FIN_def SYN_def RST_def PSH_def ACK_def

section \<open>Windows and sequence numbers\<close>

definition initial_window :: "nat \<Rightarrow> nat" where
  "initial_window mss = min (4 * mss) (max (2 * mss) 4380)"

definition worth_sending :: "nat \<Rightarrow> nat \<Rightarrow> nat \<Rightarrow> nat \<Rightarrow> nat \<Rightarrow> bool \<Rightarrow> bool \<Rightarrow> bool" where
  "worth_sending n unsent mss max_window in_flight nodelay forced =
     (if n = 0 then False
      else if mss \<le> n \<or> forced then True
      else if n = unsent then in_flight = 0 \<or> nodelay
      else max_window \<le> n * 2)"

text \<open>The difference of two sequence numbers read as a signed 32-bit number.\<close>

definition seq_lt :: "u32 \<Rightarrow> u32 \<Rightarrow> bool" where
  "seq_lt a b \<longleftrightarrow> sint (a - b) < 0"

definition seq_le :: "u32 \<Rightarrow> u32 \<Rightarrow> bool" where
  "seq_le a b \<longleftrightarrow> sint (a - b) \<le> 0"

section \<open>The assembler\<close>

text \<open>\<open>as_ranges\<close> is the array of four; only the first \<open>as_count\<close> count.\<close>

record assembler =
  as_ranges :: "range list"
  as_count :: nat

definition assembler_default :: assembler where
  "assembler_default = \<lparr>as_ranges = replicate 4 (0, 0), as_count = 0\<rparr>"

definition assembler_add :: "assembler \<Rightarrow> nat \<Rightarrow> nat \<Rightarrow> bool \<times> assembler" where
  "assembler_add a start stop =
     (case absorb (start, stop) (take (as_count a) (as_ranges a)) of (kept, merged) \<Rightarrow>
       let k = length kept in
       if k = 4 then (False, a)
       else (True, \<lparr>as_ranges = insert_range merged kept @ replicate (3 - k) (0, 0), as_count = k + 1\<rparr>))"

definition assembler_take_front :: "assembler \<Rightarrow> nat \<times> assembler" where
  "assembler_take_front a =
     (if as_count a = 0 \<or> fst (as_ranges a ! 0) \<noteq> 0 then (0, a)
      else
        let n = snd (as_ranges a ! 0);
            moved = take (as_count a - 1) (drop 1 (as_ranges a)) @ drop (as_count a - 1) (as_ranges a);
            count = as_count a - 1
        in (n, \<lparr>as_ranges = map (\<lambda>(s, e). (s - n, e - n)) (take count moved) @ drop count moved,
                as_count = count\<rparr>))"

definition live_ranges :: "assembler \<Rightarrow> range list" where
  "live_ranges a = take (as_count a) (as_ranges a)"

definition assembler_wf :: "assembler \<Rightarrow> bool" where
  "assembler_wf a \<longleftrightarrow> length (as_ranges a) = 4 \<and> as_count a \<le> 4 \<and> apart_ranges (live_ranges a)"

section \<open>Segments\<close>

record segment =
  sg_src_port :: u16
  sg_dst_port :: u16
  sg_seq :: u32
  sg_ack :: u32
  sg_flags :: u8
  sg_window :: u16
  sg_mss :: "u16 option"
  sg_window_scale :: "nat option"
  sg_data :: "u8 list"

definition tcp_pseudo_sum :: "platform \<Rightarrow> ipv4addr \<Rightarrow> ipv4addr \<Rightarrow> nat \<Rightarrow> u32" where
  "tcp_pseudo_sum pl src dst len =
     inet_sum pl (u32_bytes dst) (inet_sum pl (u32_bytes src) 0) + ucast PROTO_TCP + word_of_nat len"

text \<open>One option of a kind with a length; \<open>opts\<close> starts at it.\<close>

definition segment_option :: "segment \<Rightarrow> u8 \<Rightarrow> nat \<Rightarrow> u8 list \<Rightarrow> segment option" where
  "segment_option seg kind len opts =
     (if kind = 2 \<and> len = 4 then do { v \<leftarrow> be16 opts 2; Some (seg\<lparr>sg_mss := Some v\<rparr>) }
      else if kind = 3 \<and> len = 3 then do {
        v \<leftarrow> byte_at opts 2;
        Some (seg\<lparr>sg_window_scale := Some (min (unat v) MAX_WINDOW_SCALE)\<rparr>)
      }
      else Some seg)"

text \<open>The options: kind 0 ends them, kind 1 is padding, the others carry their length.\<close>

function segment_options :: "segment \<Rightarrow> u8 list \<Rightarrow> segment option option" where
  "segment_options seg [] = Some (Some seg)"
| "segment_options seg (kind # rest) =
     (if kind = 0 then Some (Some seg)
      else if kind = 1 then segment_options seg rest
      else case rest of
        [] \<Rightarrow> Some None
      | l # _ \<Rightarrow>
          let len = unat l; opts = kind # rest in
          if len < 2 \<or> length opts < len then Some None
          else do {
            seg \<leftarrow> segment_option seg kind len opts;
            segment_options seg (drop len opts)
          })"
  by pat_completeness auto
termination
  by (relation "measure (\<lambda>(_, opts). length opts)") auto

declare segment_options.simps(2) [simp del]

definition segment_parse :: "platform \<Rightarrow> ipv4 \<Rightarrow> u8 list \<Rightarrow> segment option option" where
  "segment_parse pl ip p =
     (if length p < TCP_HEADER then Some None
      else do {
        b12 \<leftarrow> byte_at p 12;
        let header = unat (drop_bit 4 b12) * 4;
        if header < TCP_HEADER \<or> length p < header \<or>
           checksum (inet_sum pl p (tcp_pseudo_sum pl (ip_src ip) (ip_dst ip) (length p))) \<noteq> 0
        then Some None
        else do {
          src_port \<leftarrow> be16 p 0;
          dst_port \<leftarrow> be16 p 2;
          sq \<leftarrow> be32 p 4;
          ack \<leftarrow> be32 p 8;
          flags \<leftarrow> byte_at p 13;
          window \<leftarrow> be16 p 14;
          data \<leftarrow> slice p header (length p);
          opts \<leftarrow> slice p TCP_HEADER header;
          segment_options
            \<lparr>sg_src_port = src_port, sg_dst_port = dst_port, sg_seq = sq, sg_ack = ack, sg_flags = flags,
             sg_window = window, sg_mss = None, sg_window_scale = None, sg_data = data\<rparr> opts
        }
      })"

definition has_flag :: "u8 \<Rightarrow> u8 \<Rightarrow> bool" where
  "has_flag flags f \<longleftrightarrow> flags AND f \<noteq> 0"

definition segment_len :: "segment \<Rightarrow> u32" where
  "segment_len seg =
     word_of_nat (length (sg_data seg)) + of_bool (has_flag (sg_flags seg) SYN) + of_bool (has_flag (sg_flags seg) FIN)"

definition tcp_write_header ::
  "u8 list \<Rightarrow> u16 \<Rightarrow> u16 \<Rightarrow> u32 \<Rightarrow> u32 \<Rightarrow> u8 \<Rightarrow> u16 \<Rightarrow> nat \<Rightarrow> u8 list option" where
  "tcp_write_header out src dst sq ack flags window header = do {
     out \<leftarrow> put16 out 0 src;
     out \<leftarrow> put16 out 2 dst;
     out \<leftarrow> copy_at out 4 (u32_bytes sq);
     out \<leftarrow> copy_at out 8 (u32_bytes ack);
     out \<leftarrow> put8 out 12 (push_bit 4 (word_of_nat (header div 4)));
     out \<leftarrow> put8 out 13 flags;
     out \<leftarrow> put16 out 14 window;
     out \<leftarrow> put16 out 16 0;
     put16 out 18 0
   }"

definition tcp_finish :: "platform \<Rightarrow> u8 list \<Rightarrow> ipv4addr \<Rightarrow> ipv4addr \<Rightarrow> u8 list option" where
  "tcp_finish pl out src dst =
     put16 out 16 (checksum (inet_sum pl out (tcp_pseudo_sum pl src dst (length out))))"

section \<open>Lemmas on windows and sequence numbers\<close>

lemma worth_sending_pos: "worth_sending n unsent mss max_window in_flight nodelay forced \<Longrightarrow> 0 < n"
  by (auto simp: worth_sending_def split: if_splits)

text \<open>\<open>seq_le\<close> and \<open>seq_lt\<close> on numbers less than half the space apart are the order of the positions.\<close>

lemma sint_word_of_int_small:
  "- (2 ^ 31) \<le> i \<Longrightarrow> i < 2 ^ 31 \<Longrightarrow> sint (word_of_int i :: u32) = i"
  by (simp add: sint_sbintrunc' signed_take_bit_int_eq_self)

lemma seq_lt_positions:
  "\<bar>int a - int b\<bar> < 2 ^ 31 \<Longrightarrow> seq_lt (base + word_of_nat a) (base + word_of_nat b) \<longleftrightarrow> a < b"
proof -
  assume d: "\<bar>int a - int b\<bar> < 2 ^ 31"
  have "base + word_of_nat a - (base + word_of_nat b) = (word_of_int (int a - int b) :: u32)"
    by simp
  then show ?thesis using sint_word_of_int_small [of "int a - int b"] d by (simp add: seq_lt_def)
qed

lemma seq_le_positions:
  "\<bar>int a - int b\<bar> < 2 ^ 31 \<Longrightarrow> seq_le (base + word_of_nat a) (base + word_of_nat b) \<longleftrightarrow> a \<le> b"
proof -
  assume d: "\<bar>int a - int b\<bar> < 2 ^ 31"
  have "base + word_of_nat a - (base + word_of_nat b) = (word_of_int (int a - int b) :: u32)"
    by simp
  then show ?thesis using sint_word_of_int_small [of "int a - int b"] d by (simp add: seq_le_def)
qed

lemma seq_le_refl [simp]: "seq_le a a" by (simp add: seq_le_def)

lemma seq_lt_irrefl [simp]: "\<not> seq_lt a a" by (simp add: seq_lt_def)

lemma seq_le_iff: "seq_le a b \<longleftrightarrow> seq_lt a b \<or> a = b"
proof -
  have "sint (a - b) = 0 \<longleftrightarrow> a = b" by (simp add: signed_eq_0_iff)
  then show ?thesis by (auto simp: seq_le_def seq_lt_def)
qed

section \<open>Lemmas on the assembler\<close>

lemma assembler_default_wf [simp]: "assembler_wf assembler_default" "live_ranges assembler_default = []"
  by (simp_all add: assembler_wf_def live_ranges_def assembler_default_def)

lemma assembler_count: "assembler_wf a \<Longrightarrow> length (live_ranges a) = as_count a"
  by (simp add: assembler_wf_def live_ranges_def)

text \<open>An added range is merged, or refused when four ranges apart from it are held.\<close>

lemma assembler_add_spec:
  assumes wf: "assembler_wf a" and le: "start \<le> stop"
    and n: "\<forall>r \<in> set (live_ranges a). snd r \<le> n" "stop \<le> n"
  shows "assembler_wf (snd (assembler_add a start stop)) \<and>
    (if fst (assembler_add a start stop)
     then covered (live_ranges (snd (assembler_add a start stop))) = covered (live_ranges a) \<union> {start..<stop} \<and>
          (\<forall>r \<in> set (live_ranges (snd (assembler_add a start stop))). snd r \<le> n)
     else snd (assembler_add a start stop) = a \<and> as_count a = 4 \<and>
          (\<forall>r \<in> set (live_ranges a). snd r < start \<or> stop < fst r))"
proof -
  obtain kept m where ab: "absorb (start, stop) (live_ranges a) = (kept, m)"
    by (cases "absorb (start, stop) (live_ranges a)")
  have ap: "apart_ranges (live_ranges a)" using wf by (simp add: assembler_wf_def)
  note A = absorb_spec [OF ab ap] and R = add_range_spec [OF ap le ab n]
  have len: "length kept \<le> 4" using A le wf assembler_count [OF wf] by (auto simp: assembler_wf_def)
  have ins: "length (insert_range m kept) = Suc (length kept)"
    by (simp add: insert_range_def Let_def split: option.splits)
  show ?thesis
  proof (cases "length kept = 4")
    case True
    have add: "assembler_add a start stop = (False, a)"
      using ab True by (simp add: assembler_add_def live_ranges_def)
    have "length (live_ranges a) = 4"
      using A le True wf assembler_count [OF wf] by (auto simp: assembler_wf_def)
    moreover have "length kept = length xs \<longrightarrow> kept = xs \<and> (\<forall>r \<in> set xs. snd r < fst y \<or> snd y < fst r)"
      if "absorb y xs = (kept, m)" for xs y
      using that
    proof (induction y xs arbitrary: kept m rule: absorb.induct)
      case (2 y s e rs)
      have short: "absorb z rs = (k, m') \<Longrightarrow> length k \<le> length rs" for z k m'
        by (induction z rs arbitrary: k m' rule: absorb.induct) (fastforce split: if_splits prod.splits)+
      show ?case
      proof (cases "e < fst y \<or> snd y < s")
        case True
        obtain k where "absorb y rs = (k, m)" "kept = (s, e) # k" using 2(3) True by (auto split: prod.splits)
        then show ?thesis using 2(1) [OF True] True by auto
      next
        case False
        then have "length kept \<le> length rs" using 2(3) short by simp
        then show ?thesis by simp
      qed
    qed simp
    ultimately show ?thesis using add wf ab True assembler_count [OF wf] by fastforce
  next
    case False
    have add: "assembler_add a start stop =
        (True, \<lparr>as_ranges = insert_range m kept @ replicate (3 - length kept) (0, 0), as_count = length kept + 1\<rparr>)"
      using ab False by (simp add: assembler_add_def live_ranges_def Let_def)
    have live: "live_ranges \<lparr>as_ranges = insert_range m kept @ replicate (3 - length kept) (0, 0), as_count = length kept + 1\<rparr> =
        insert_range m kept"
      using ins by (simp add: live_ranges_def)
    show ?thesis
      using R ins len False unfolding add assembler_wf_def live fst_conv snd_conv by simp
  qed
qed

lemma assembler_take_front_spec:
  assumes wf: "assembler_wf a"
  obtains (none) "assembler_take_front a = (0, a)" "\<forall>rs n. live_ranges a \<noteq> (0, n) # rs"
  | (front) n rs where "live_ranges a = (0, n) # rs" "fst (assembler_take_front a) = n"
      "assembler_wf (snd (assembler_take_front a))"
      "live_ranges (snd (assembler_take_front a)) = shift_ranges n rs"
proof (cases "live_ranges a")
  case Nil
  then have "as_count a = 0" using assembler_count [OF wf] by simp
  then show thesis using Nil by (intro none) (simp_all add: assembler_take_front_def)
next
  case (Cons r rs)
  obtain s n where r: "r = (s, n)" by (cases r)
  have cnt: "as_count a = Suc (length rs)" using assembler_count [OF wf] Cons by simp
  have len: "length (as_ranges a) = 4" "as_count a \<le> 4" using wf by (simp_all add: assembler_wf_def)
  have at0: "as_ranges a ! 0 = (s, n)"
    using Cons r cnt len by (metis live_ranges_def nth_Cons_0 nth_take zero_less_Suc)
  show thesis
  proof (cases "s = 0")
    case False
    then show thesis using at0 Cons r by (intro none) (simp_all add: assembler_take_front_def)
  next
    case True
    have split: "as_ranges a = (0, n) # rs @ drop (as_count a) (as_ranges a)"
      using Cons r True by (metis append_Cons append_take_drop_id live_ranges_def)
    define rest where "rest = drop (as_count a) (as_ranges a)"
    have rs: "as_ranges a = (0, n) # rs @ rest" using split rest_def by simp
    have tf: "assembler_take_front a = (n, \<lparr>as_ranges = map (\<lambda>(s, e). (s - n, e - n)) rs @ drop (length rs) ((0, n) # rs @ rest),
        as_count = length rs\<rparr>)"
      using at0 True cnt by (simp add: assembler_take_front_def Let_def rs)
    have ap: "apart_ranges ((0, n) # rs)" using wf Cons r True by (simp add: assembler_wf_def)
    have "apart_ranges (shift_ranges n rs)"
      using shift_ranges_spec [OF ap] by blast
    moreover have "length rs + length rest = 3" using len rs by simp
    ultimately have "assembler_wf (snd (assembler_take_front a))" "live_ranges (snd (assembler_take_front a)) = shift_ranges n rs"
      unfolding tf by (auto simp: assembler_wf_def live_ranges_def shift_ranges_def)
    then show thesis using Cons r True tf by (intro front) simp_all
  qed
qed

section \<open>Segments on the wire\<close>

lemma be16_inside: "i + 1 < length b \<Longrightarrow> \<exists>v. be16 b i = Some v"
  by (simp add: be16_Some)

lemma be32_inside: "i + 3 < length b \<Longrightarrow> \<exists>v. be32 b i = Some v"
  by (simp add: be32_Some)

text \<open>No segment makes the parser panic.\<close>

lemma segment_option_total: "len \<le> length opts \<Longrightarrow> \<exists>s. segment_option seg kind len opts = Some s"
  using be16_inside [of 2 opts] by (auto simp: segment_option_def byte_at_def)

lemma segment_options_total: "\<exists>r. segment_options seg opts = Some r"
proof (induction seg opts rule: segment_options.induct)
  case (2 seg kind rest)
  show ?case
  proof (cases "kind = 0 \<or> kind = 1 \<or> rest = []")
    case True
    then show ?thesis using "2.IH"(1) by (auto simp: segment_options.simps(2))
  next
    case False
    then obtain l tl where rest: "rest = l # tl" by (cases rest) auto
    let ?len = "unat l"
    let ?opts = "kind # rest"
    show ?thesis
    proof (cases "?len < 2 \<or> length ?opts < ?len")
      case True
      then show ?thesis using False rest by (simp add: segment_options.simps(2))
    next
      case ok: False
      obtain seg' where seg': "segment_option seg kind ?len ?opts = Some seg'"
        using segment_option_total [of ?len ?opts seg kind] ok by auto
      have "segment_options seg ?opts = segment_options seg' (drop ?len ?opts)"
        using False rest ok seg' by (simp add: segment_options.simps(2) Let_def)
      then show ?thesis using "2.IH"(2) [of l tl ?len ?opts seg'] False rest ok seg' by simp
    qed
  qed
qed simp

lemma segment_parse_total: "\<exists>r. segment_parse pl ip p = Some r"
proof (cases "length p < TCP_HEADER")
  case True
  then show ?thesis by (simp add: segment_parse_def)
next
  case False
  then have len: "20 \<le> length p" by (simp add: TCP_HEADER_def)
  let ?h = "unat (drop_bit 4 (p ! 12)) * 4"
  obtain a b c d f w where "be16 p 0 = Some a" "be16 p 2 = Some b" "be32 p 4 = Some c" "be32 p 8 = Some d"
      "byte_at p 13 = Some f" "be16 p 14 = Some w"
    using len be16_inside [of 0 p] be16_inside [of 2 p] be32_inside [of 4 p] be32_inside [of 8 p] be16_inside [of 14 p]
    by auto
  then show ?thesis
    using len False segment_options_total by (simp add: segment_parse_def Let_def slice_def TCP_HEADER_def)
qed

definition tcp_header_bytes :: "u16 \<Rightarrow> u16 \<Rightarrow> u32 \<Rightarrow> u32 \<Rightarrow> u8 \<Rightarrow> u16 \<Rightarrow> nat \<Rightarrow> u16 \<Rightarrow> u8 list" where
  "tcp_header_bytes src dst sq ack flags window header c =
     u16_bytes src @ u16_bytes dst @ u32_bytes sq @ u32_bytes ack @
     [push_bit 4 (word_of_nat (header div 4)), flags] @ u16_bytes window @ u16_bytes c @ [0, 0]"

lemma length_tcp_header_bytes [simp]: "length (tcp_header_bytes src dst sq ack flags window header c) = 20"
  by (simp add: tcp_header_bytes_def)

lemma tcp_write_header_spec:
  assumes "20 \<le> length out"
  shows "tcp_write_header out src dst sq ack flags window header =
    Some (tcp_header_bytes src dst sq ack flags window header 0 @ drop 20 out)"
  using assms
  by (simp add: tcp_write_header_def put16_def put8_def copy_at_grows u16_bytes_def u32_bytes_def tcp_header_bytes_def)

lemma tcp_finish_spec:
  "tcp_finish pl (tcp_header_bytes sp dp sq ack flags window header 0 @ rest) src dst =
    Some (tcp_header_bytes sp dp sq ack flags window header
      (checksum (inet_sum pl (tcp_header_bytes sp dp sq ack flags window header 0 @ rest)
         (tcp_pseudo_sum pl src dst (20 + length rest)))) @ rest)"
proof -
  have "put16 (tcp_header_bytes sp dp sq ack flags window header 0 @ rest) 16 v =
      Some (tcp_header_bytes sp dp sq ack flags window header v @ rest)" for v
    by (simp add: put16_def copy_at_grows tcp_header_bytes_def u16_bytes_def u32_bytes_def)
  then show ?thesis by (simp add: tcp_finish_def)
qed

lemma segment_roundtrip:
  assumes pl: "align_ok pl" and opts: "length opts mod 4 = 0" "length opts \<le> 40"
    and len: "length (opts @ data) < 4294967276"
    and c: "c = checksum (inet_sum pl (tcp_header_bytes sp dp sq ack flags window (20 + length opts) 0 @ opts @ data)
         (tcp_pseudo_sum pl (ip_src ip) (ip_dst ip) (20 + length (opts @ data))))"
  shows "segment_parse pl ip (tcp_header_bytes sp dp sq ack flags window (20 + length opts) c @ opts @ data) =
    segment_options \<lparr>sg_src_port = sp, sg_dst_port = dp, sg_seq = sq, sg_ack = ack, sg_flags = flags, sg_window = window,
      sg_mss = None, sg_window_scale = None, sg_data = data\<rparr> opts"
proof -
  let ?header = "20 + length opts"
  let ?p = "tcp_header_bytes sp dp sq ack flags window ?header c @ opts @ data"
  define k where "k = ?header div 4"
  have k: "k < 16" "k * 4 = ?header" using opts unfolding k_def by presburger+
  have "list_all (\<lambda>k. unat (drop_bit 4 (push_bit 4 (word_of_nat k :: u8))) = k) [0..<16]" by code_simp
  then have nib: "unat (drop_bit 4 (push_bit 4 (word_of_nat k :: u8))) = k"
    using k(1) unfolding list_all_iff by (metis atLeastLessThan_iff set_upt zero_le)
  let ?pre = "u16_bytes sp @ u16_bytes dp @ u32_bytes sq @ u32_bytes ack @
     [push_bit 4 (word_of_nat k), flags] @ u16_bytes window"
  have z: "u16_bytes 0 = [0, 0]" by (simp add: u16_bytes_def)
  have hb: "tcp_header_bytes sp dp sq ack flags window ?header v @ opts @ data = ?pre @ u16_bytes v @ ([0, 0] @ opts @ data)" for v
    by (simp add: tcp_header_bytes_def k_def)
  have ck: "checksum (inet_sum pl ?p (tcp_pseudo_sum pl (ip_src ip) (ip_dst ip) (length ?p))) = 0"
    unfolding hb by (rule checksum_fills [OF pl]) (use len c in \<open>simp_all add: hb z [symmetric]\<close>)
  have bs: "be16 ?p 0 = Some sp" "be16 ?p 2 = Some dp" "be32 ?p 4 = Some sq" "be32 ?p 8 = Some ack"
    "byte_at ?p 13 = Some flags" "be16 ?p 14 = Some window" "?p ! 12 = push_bit 4 (word_of_nat k)"
    unfolding hb by (simp_all add: wire_reads be32_def u16_bytes_def u32_bytes_def)
  have len20: "\<not> length ?p < TCP_HEADER" by (simp add: TCP_HEADER_def)
  have "byte_at ?p 12 = Some (push_bit 4 (word_of_nat k))" using bs(7) by (simp add: byte_at_def)
  moreover have "slice ?p ?header (length ?p) = Some data" "slice ?p 20 ?header = Some opts"
    by (simp_all add: slice_def)
  ultimately show ?thesis
    using len20 bs(1-6) ck nib k(2) by (simp add: segment_parse_def Let_def TCP_HEADER_def)
qed

section \<open>Properties\<close>

text \<open>Segments round trip: a header written with \<open>write_header\<close>, its options and its data, finished
  with the checksum, is parsed to the same ports, numbers, flags, window and data, with the options read
  as they are.\<close>

theorem segment_write_parse:
  assumes pl: "align_ok pl" and opts: "length opts mod 4 = 0" "length opts \<le> 40"
    and len: "length (opts @ data) < 65536" and buf: "length buf = 20"
  shows "\<exists>h p. tcp_write_header (buf @ opts @ data) sp dp sq ack flags window (20 + length opts) = Some h \<and>
    tcp_finish pl h (ip_src ip) (ip_dst ip) = Some p \<and>
    segment_parse pl ip p = segment_options \<lparr>sg_src_port = sp, sg_dst_port = dp, sg_seq = sq, sg_ack = ack,
      sg_flags = flags, sg_window = window, sg_mss = None, sg_window_scale = None, sg_data = data\<rparr> opts"
proof -
  have "length (opts @ data) < 4294967276" using len by simp
  note rt = segment_roundtrip [OF pl opts this refl]
  show ?thesis
    using tcp_write_header_spec [of "buf @ opts @ data"] buf rt
      tcp_finish_spec [of pl sp dp sq ack flags window "20 + length opts" "opts @ data" "ip_src ip" "ip_dst ip"]
    by simp
qed

lemma segment_write_parse_witness:
  "\<exists>h p. tcp_write_header (replicate 20 0 @ [2, 4, 5, 0xb4] @ [9]) 80 81 7 8 ACK 100 24 = Some h \<and>
    tcp_finish \<lparr>little_endian = True, align_to = (\<lambda>b. (0, length b div 4))\<rparr> h 1 2 = Some p \<and>
    segment_parse \<lparr>little_endian = True, align_to = (\<lambda>b. (0, length b div 4))\<rparr>
        \<lparr>ip_src = 1, ip_dst = 2, ip_protocol = 6, ip_ttl = 64, ip_ident = 7, ip_frag = 0\<rparr> p =
      Some (Some \<lparr>sg_src_port = 80, sg_dst_port = 81, sg_seq = 7, sg_ack = 8, sg_flags = ACK, sg_window = 100,
        sg_mss = Some 1460, sg_window_scale = None, sg_data = [9]\<rparr>)"
  using segment_write_parse [where pl = "\<lparr>little_endian = True, align_to = (\<lambda>b. (0, length b div 4))\<rparr>"
      and opts = "[2, 4, 5, 0xb4]" and data = "[9]" and buf = "replicate 20 0" and sp = 80 and dp = 81 and sq = 7 and ack = 8
      and flags = ACK and window = 100
      and ip = "\<lparr>ip_src = 1, ip_dst = 2, ip_protocol = 6, ip_ttl = 64, ip_ident = 7, ip_frag = 0\<rparr>"]
  by (simp add: align_ok_def segment_options.simps segment_option_def be16_def byte_at_def u16_be_def Let_def)

text \<open>No bytes panic the segment parser, its options included.\<close>

theorem segment_parse_safe: "segment_parse pl ip bytes \<noteq> None"
  using segment_parse_total [of pl ip bytes] by auto

text \<open>Sequence numbers order positions of a stream across the wrap of 32 bits: two positions less than
  2^31 apart compare as their positions do, wherever the stream started.\<close>

theorem seq_order_positions:
  "\<bar>int a - int b\<bar> < 2 ^ 31 \<Longrightarrow>
   (seq_lt (base + word_of_nat a) (base + word_of_nat b) \<longleftrightarrow> a < b) \<and>
   (seq_le (base + word_of_nat a) (base + word_of_nat b) \<longleftrightarrow> a \<le> b)"
  using seq_lt_positions [of a b base] seq_le_positions [of a b base] by blast

lemma seq_order_positions_witness:
  "seq_lt (0xfffffff0 + word_of_nat 10) (0xfffffff0 + word_of_nat 20) \<and> (0xfffffff0 + word_of_nat 20 :: u32) = 4"
  using seq_order_positions [where a = 10 and b = 20 and base = "0xfffffff0"] by simp

text \<open>C16: The assembler keeps an exact account: after \<open>add\<close> of a range its ranges cover what they covered
  and the new range, sorted and apart, or nothing changed because four ranges are kept already and the new
  one touches none of them.\<close>

theorem assembler_exact:
  assumes "assembler_wf a" and "start \<le> stop"
  shows "case assembler_add a start stop of (kept, a') \<Rightarrow> assembler_wf a' \<and>
    (if kept then covered (live_ranges a') = covered (live_ranges a) \<union> {start..<stop}
     else a' = a \<and> as_count a = 4 \<and> (\<forall>r \<in> set (live_ranges a). snd r < start \<or> stop < fst r))"
proof -
  define n where "n = Max (insert stop (snd ` set (live_ranges a)))"
  have "\<forall>r \<in> set (live_ranges a). snd r \<le> n" "stop \<le> n" by (auto simp: n_def)
  from assembler_add_spec [OF assms this] show ?thesis by (auto split: prod.splits if_splits)
qed

lemma assembler_exact_witness:
  "case assembler_add \<lparr>as_ranges = [(2, 4), (6, 8), (0, 0), (0, 0)], as_count = 2\<rparr> 4 6 of (kept, a') \<Rightarrow>
     live_ranges a' = [(2, 8)] \<and> covered (live_ranges a') = {2..<4} \<union> {6..<8} \<union> {4..<6}"
  using assembler_exact [of "\<lparr>as_ranges = [(2, 4), (6, 8), (0, 0), (0, 0)], as_count = 2\<rparr>" 4 6]
  by (auto simp: assembler_wf_def live_ranges_def assembler_add_def insert_range_def numeral_eq_Suc)

end
