(* ===== verification/Ring.thy ===== *)
theory Ring
  imports Byte_Buffer
begin

text \<open>
  The byte ring of the sockets, \<open>libs/devkit_net/src/ring.rs\<close>: a buffer that grows up to its
  capacity as bytes arrive, in which bytes can be written ahead of the held ones
  (\<open>write_free\<close>) and held later (\<open>commit\<close>).

  The abstraction is \<open>ring_view\<close>, the storage read from the oldest byte on: its first
  \<open>r_len\<close> bytes are the held ones (\<open>ring_bytes\<close>), the rest is the room written ahead.
  The outcome of an allocation is the parameter \<open>mem\<close>: whether \<open>try_reserve_exact(n)\<close>
  succeeds.
\<close>

section \<open>State and operations\<close>

record ring =
  r_data :: "u8 list"
  r_capacity :: nat
  r_head :: nat
  r_len :: nat

definition ring_new :: "nat \<Rightarrow> ring" where
  "ring_new capacity = \<lparr>r_data = [], r_capacity = capacity, r_head = 0, r_len = 0\<rparr>"

definition ring_free :: "ring \<Rightarrow> nat" where
  "ring_free r = r_capacity r - r_len r"

definition ring_at :: "ring \<Rightarrow> nat \<Rightarrow> nat" where
  "ring_at r offset =
     (let cap = length (r_data r); i = r_head r + offset in if cap \<le> i then i - cap else i)"

text \<open>\<open>rotate_left(head)\<close> on \<open>data[..old]\<close> panics when \<open>head > old\<close>.\<close>

definition ring_reserve :: "(nat \<Rightarrow> bool) \<Rightarrow> ring \<Rightarrow> nat \<Rightarrow> (bool \<times> ring) option" where
  "ring_reserve mem r need =
     (let old = length (r_data r) in
      if need \<le> old then Some (True, r)
      else
        let doubled = min (max (old * 2) need) (r_capacity r) in
        case find (\<lambda>n. mem (n - old)) [doubled, need] of
          None \<Rightarrow> Some (False, r)
        | Some new \<Rightarrow>
            let resized = vec_resize (r_data r) new 0 in
            if r_head r \<le> old \<and> old \<le> new
            then Some (True, r\<lparr>r_data := rotate (r_head r) (take old resized) @ drop old resized,
                               r_head := 0\<rparr>)
            else None)"

definition ring_write_free :: "(nat \<Rightarrow> bool) \<Rightarrow> ring \<Rightarrow> nat \<Rightarrow> u8 list \<Rightarrow> (bool \<times> ring) option" where
  "ring_write_free mem r offset src =
     (if src = [] then Some (True, r)
      else do {
        (ok, r) \<leftarrow> ring_reserve mem r (r_len r + offset + length src);
        if \<not> ok then Some (False, r)
        else do {
          let cap = length (r_data r);
          let start = ring_at r (r_len r + offset);
          let first = min (length src) (cap - start);
          part1 \<leftarrow> slice src 0 first;
          data1 \<leftarrow> copy_at (r_data r) start part1;
          part2 \<leftarrow> slice src first (length src);
          data2 \<leftarrow> copy_at data1 0 part2;
          Some (True, r\<lparr>r_data := data2\<rparr>)
        }
      })"

definition ring_commit :: "ring \<Rightarrow> nat \<Rightarrow> ring" where
  "ring_commit r n = r\<lparr>r_len := r_len r + n\<rparr>"

definition ring_push :: "(nat \<Rightarrow> bool) \<Rightarrow> ring \<Rightarrow> u8 list \<Rightarrow> (nat \<times> ring) option" where
  "ring_push mem r src = do {
     let n = min (length src) (ring_free r);
     (ok, r) \<leftarrow> ring_reserve mem r (r_len r + n);
     let n = (if ok then n else length (r_data r) - r_len r);
     part \<leftarrow> slice src 0 n;
     (_, r) \<leftarrow> ring_write_free mem r 0 part;
     Some (n, ring_commit r n)
   }"

definition ring_read_at :: "ring \<Rightarrow> nat \<Rightarrow> u8 list \<Rightarrow> (nat \<times> u8 list) option" where
  "ring_read_at r offset out =
     (let n = min (length out) (r_len r - offset) in
      if n = 0 then Some (0, out)
      else do {
        let cap = length (r_data r);
        let start = ring_at r offset;
        let first = min n (cap - start);
        part1 \<leftarrow> slice (r_data r) start (start + first);
        out1 \<leftarrow> copy_at out 0 part1;
        part2 \<leftarrow> slice (r_data r) 0 (n - first);
        out2 \<leftarrow> copy_at out1 first part2;
        Some (n, out2)
      })"

definition ring_discard :: "ring \<Rightarrow> nat \<Rightarrow> ring" where
  "ring_discard r n =
     (if 0 < n then r\<lparr>r_head := ring_at r n, r_len := r_len r - n\<rparr> else r)"

definition ring_pop :: "ring \<Rightarrow> nat \<Rightarrow> u8 list \<Rightarrow> (nat \<times> u8 list \<times> ring) option" where
  "ring_pop r n out = do {
     let copy = min n (length out);
     part \<leftarrow> slice out 0 copy;
     (copied, part) \<leftarrow> ring_read_at r 0 part;
     Some (copied, part @ drop copy out, ring_discard r n)
   }"

section \<open>Invariant and abstraction\<close>

definition ring_wf :: "ring \<Rightarrow> bool" where
  "ring_wf r \<longleftrightarrow>
     r_len r \<le> length (r_data r) \<and> length (r_data r) \<le> r_capacity r \<and>
     (r_head r < length (r_data r) \<or> r_data r = [] \<and> r_head r = 0)"

definition ring_view :: "ring \<Rightarrow> u8 list" where
  "ring_view r = drop (r_head r) (r_data r) @ take (r_head r) (r_data r)"

definition ring_bytes :: "ring \<Rightarrow> u8 list" where
  "ring_bytes r = take (r_len r) (ring_view r)"

text \<open>The byte written ahead at \<open>offset\<close> past the held ones.\<close>

definition ring_ahead :: "ring \<Rightarrow> nat \<Rightarrow> u8 option" where
  "ring_ahead r offset =
     (if r_len r + offset < length (ring_view r) then Some (ring_view r ! (r_len r + offset))
      else None)"

section \<open>Lemmas\<close>

lemma length_ring_view [simp]: "length (ring_view r) = length (r_data r)"
  by (simp add: ring_view_def min_def)

lemma length_ring_bytes: "ring_wf r \<Longrightarrow> length (ring_bytes r) = r_len r"
  by (simp add: ring_bytes_def ring_wf_def)

lemma ring_at_less: "ring_wf r \<Longrightarrow> i \<le> length (r_data r) \<Longrightarrow> r_data r \<noteq> [] \<Longrightarrow> ring_at r i < length (r_data r)"
  by (auto simp: ring_at_def ring_wf_def Let_def)

lemma nth_ring_view:
  "ring_wf r \<Longrightarrow> i < length (r_data r) \<Longrightarrow> ring_view r ! i = r_data r ! ring_at r i"
  by (auto simp: ring_view_def ring_at_def ring_wf_def nth_append Let_def min_def intro!: arg_cong2[where f=nth])

lemma ring_new_wf [simp]: "ring_wf (ring_new c)"
  by (simp add: ring_wf_def ring_new_def)

lemma ring_new_bytes [simp]: "ring_bytes (ring_new c) = []"
  by (simp add: ring_bytes_def ring_new_def ring_view_def)

lemma ring_new_sel [simp]:
  "r_capacity (ring_new c) = c" "r_len (ring_new c) = 0" "r_data (ring_new c) = []" "r_head (ring_new c) = 0"
  by (simp_all add: ring_new_def)

text \<open>Growing keeps the view: the old storage, rotated to its oldest byte, then zeros.\<close>

lemma ring_reserve_spec:
  assumes wf: "ring_wf r" and need: "need \<le> r_capacity r"
  shows "\<exists>ok r'. ring_reserve mem r need = Some (ok, r') \<and> ring_wf r' \<and> r_len r' = r_len r \<and>
           r_capacity r' = r_capacity r \<and> (ok \<longrightarrow> need \<le> length (r_data r')) \<and> (\<not> ok \<longrightarrow> r' = r) \<and>
           take (length (r_data r)) (ring_view r') = ring_view r \<and>
           length (r_data r) \<le> length (r_data r') \<and> ((\<forall>n. mem n) \<longrightarrow> ok)"
proof (cases "need \<le> length (r_data r)")
  case True
  then show ?thesis using wf by (auto simp: ring_reserve_def)
next
  case False
  let ?old = "length (r_data r)"
  let ?doubled = "min (max (?old * 2) need) (r_capacity r)"
  show ?thesis
  proof (cases "find (\<lambda>n. mem (n - ?old)) [?doubled, need]")
    case None
    then have "\<not> (\<forall>n. mem n)" by (force simp: find_None_iff simp del: find.simps)
    then show ?thesis using False None wf by (simp add: ring_reserve_def Let_def del: find.simps) blast
  next
    case (Some new)
    then have "new = ?doubled \<or> new = need"
      by (auto split: if_splits)
    then have new: "need \<le> new" "new \<le> r_capacity r" "?old < new"
      using need False wf by (auto simp: ring_wf_def)
    have head: "r_head r \<le> ?old" "r_len r \<le> ?old"
      using wf by (auto simp: ring_wf_def)
    let ?d = "rotate (r_head r) (take ?old (vec_resize (r_data r) new 0)) @ drop ?old (vec_resize (r_data r) new 0)"
    let ?r' = "r\<lparr>r_data := ?d, r_head := 0\<rparr>"
    have take_old: "take ?old (vec_resize (r_data r) new 0) = r_data r"
      using new by (simp add: vec_resize_def)
    have rot: "rotate (r_head r) (r_data r) = ring_view r"
    proof (cases "r_head r = ?old")
      case True
      then show ?thesis by (simp add: ring_view_def)
    next
      case False
      with head(1) have "r_head r mod ?old = r_head r" by simp
      then show ?thesis by (simp only: ring_view_def rotate_drop_take)
    qed
    have len: "length ?d = new"
      using new by (simp add: take_old)
    have "ring_reserve mem r need = Some (True, ?r')"
      using False Some new head by (simp add: ring_reserve_def Let_def)
    moreover have "ring_wf ?r'"
      using new head len wf by (auto simp: ring_wf_def)
    moreover have "take ?old (ring_view ?r') = ring_view r"
    proof -
      have "ring_view ?r' = ring_view r @ drop ?old (vec_resize (r_data r) new 0)"
        unfolding ring_view_def [of ?r'] by (simp add: take_old rot)
      then show ?thesis by simp
    qed
    ultimately show ?thesis using new len by auto
  qed
qed

text \<open>The two halves of a copy into the ring, \<open>[start..start + first]\<close> and \<open>[0..m - first]\<close>,
  are exactly the logical positions \<open>p .. p + m\<close>.\<close>

lemma ring_split_positions:
  fixes c h p m i s j f :: nat
  assumes "p + m \<le> c" "i < c" "h < c" "0 < m"
    and s: "s = (if c \<le> h + p then h + p - c else h + p)"
    and j: "j = (if c \<le> h + i then h + i - c else h + i)"
    and f: "f = min m (c - s)"
  shows "j < m - f \<Longrightarrow> p \<le> i \<and> i < p + m \<and> i - p = f + j"
    and "\<not> j < m - f \<Longrightarrow> s \<le> j \<Longrightarrow> j < s + f \<Longrightarrow> p \<le> i \<and> i < p + m \<and> i - p = j - s"
    and "\<not> j < m - f \<Longrightarrow> \<not> (s \<le> j \<and> j < s + f) \<Longrightarrow> \<not> (p \<le> i \<and> i < p + m)"
  using assms(1-4) unfolding f s j by (simp_all split: if_splits) arith+

text \<open>Writing in place, once the storage is there: exactly the bytes from the logical position
  \<open>p\<close> on change.\<close>

lemma ring_place:
  assumes wf: "ring_wf r" and fit: "p + length src \<le> length (r_data r)" and ne: "src \<noteq> []"
  defines "start \<equiv> ring_at r p" and "first \<equiv> min (length src) (length (r_data r) - ring_at r p)"
  shows "\<exists>d1 d2. slice src 0 first = Some (take first src) \<and> copy_at (r_data r) start (take first src) = Some d1 \<and>
      slice src first (length src) = Some (drop first src) \<and> copy_at d1 0 (drop first src) = Some d2 \<and>
      length d2 = length (r_data r) \<and>
      (\<forall>i < length (r_data r). ring_view (r\<lparr>r_data := d2\<rparr>) ! i =
          (if p \<le> i \<and> i < p + length src then src ! (i - p) else ring_view r ! i))"
proof -
  let ?cap = "length (r_data r)"
  have cap: "0 < ?cap" "r_head r < ?cap" using wf fit ne by (auto simp: ring_wf_def)
  have start: "start < ?cap" using ring_at_less [OF wf, of p] fit ne cap by (simp add: start_def)
  have "start + first \<le> ?cap" using start by (simp add: first_def start_def)
  then obtain d1 where d1: "copy_at (r_data r) start (take first src) = Some d1"
    using copy_at_in_range [of start "take first src" "r_data r"] by (auto simp: first_def)
  have rest: "length src - first \<le> ?cap" using fit by simp
  obtain d2 where d2: "copy_at d1 0 (drop first src) = Some d2"
    using copy_at_in_range [of 0 "drop first src" d1] rest length_copy_at [OF d1] by auto
  have len: "length d2 = ?cap" using length_copy_at [OF d1] length_copy_at [OF d2] by simp
  have fl: "first \<le> length src" by (simp add: first_def)
  have wf2: "ring_wf (r\<lparr>r_data := d2\<rparr>)" using wf len cap by (auto simp: ring_wf_def)
  have "ring_view (r\<lparr>r_data := d2\<rparr>) ! i =
          (if p \<le> i \<and> i < p + length src then src ! (i - p) else ring_view r ! i)" if i: "i < ?cap" for i
  proof -
    have j: "ring_at r i < ?cap" using ring_at_less [OF wf] i cap by auto
    have at2: "ring_at (r\<lparr>r_data := d2\<rparr>) i = ring_at r i" by (simp add: ring_at_def len)
    have "ring_view (r\<lparr>r_data := d2\<rparr>) ! i = d2 ! ring_at r i"
      using nth_ring_view [OF wf2, of i] i len at2 by simp
    also have "\<dots> = (if ring_at r i < length src - first then src ! (first + ring_at r i)
        else if start \<le> ring_at r i \<and> ring_at r i < start + first then src ! (ring_at r i - start)
        else r_data r ! ring_at r i)"
      using nth_copy_at [OF d2, of "ring_at r i"] nth_copy_at [OF d1 j] j length_copy_at [OF d1] fl
      by (auto simp: min_absorb2)
    also have "\<dots> = (if p \<le> i \<and> i < p + length src then src ! (i - p) else r_data r ! ring_at r i)"
    proof -
      have s: "start = (if ?cap \<le> r_head r + p then r_head r + p - ?cap else r_head r + p)"
        by (simp add: start_def ring_at_def)
      have j: "ring_at r i = (if ?cap \<le> r_head r + i then r_head r + i - ?cap else r_head r + i)"
        by (simp add: ring_at_def)
      have f: "first = min (length src) (?cap - start)" by (simp add: first_def start_def)
      have m: "0 < length src" using ne by simp
      note sp = ring_split_positions [OF fit i cap(2) m s j f]
      show ?thesis
      proof (cases "ring_at r i < length src - first")
        case True
        then show ?thesis using sp(1) by simp
      next
        case False
        then show ?thesis using sp(2,3)
          by (cases "start \<le> ring_at r i \<and> ring_at r i < start + first") auto
      qed
    qed
    finally show ?thesis using nth_ring_view [OF wf i] by simp
  qed
  then show ?thesis using d1 d2 len by (auto simp: slice_def first_def)
qed

text \<open>\<open>write_free\<close> within the free room never panics, keeps what is held and what was written
  ahead elsewhere, and writes \<open>src\<close> at \<open>offset\<close> unless memory ran out.\<close>

lemma ring_write_free_spec:
  assumes wf: "ring_wf r" and fit: "offset + length src \<le> ring_free r"
  shows "\<exists>ok r'. ring_write_free mem r offset src = Some (ok, r') \<and> ring_wf r' \<and> r_len r' = r_len r \<and>
           r_capacity r' = r_capacity r \<and> ring_bytes r' = ring_bytes r \<and>
           (\<forall>i x. ring_ahead r i = Some x \<longrightarrow> \<not> (offset \<le> i \<and> i < offset + length src) \<longrightarrow> ring_ahead r' i = Some x) \<and>
           (ok \<longrightarrow> (\<forall>i < length src. ring_ahead r' (offset + i) = Some (src ! i))) \<and>
           (\<not> ok \<longrightarrow> r' = r) \<and> (ok \<longrightarrow> src \<noteq> [] \<longrightarrow> r_len r + offset + length src \<le> length (r_data r')) \<and>
           length (r_data r) \<le> length (r_data r') \<and>
           ((\<forall>n. mem n) \<longrightarrow> ok) \<and> (r_len r + offset + length src \<le> length (r_data r) \<longrightarrow> ok)"
proof (cases "src = []")
  case True
  then show ?thesis using wf by (auto simp: ring_write_free_def)
next
  case False
  let ?p = "r_len r + offset"
  have need: "?p + length src \<le> r_capacity r"
    using fit wf by (auto simp: ring_free_def ring_wf_def)
  obtain ok r1 where r1: "ring_reserve mem r (?p + length src) = Some (ok, r1)" "ring_wf r1"
    "r_len r1 = r_len r" "r_capacity r1 = r_capacity r" "ok \<longrightarrow> ?p + length src \<le> length (r_data r1)"
    "\<not> ok \<longrightarrow> r1 = r" "take (length (r_data r)) (ring_view r1) = ring_view r"
    "length (r_data r) \<le> length (r_data r1)" "(\<forall>n. mem n) \<longrightarrow> ok"
    using ring_reserve_spec [OF wf need, of mem] by blast
  have old: "ring_view r1 ! i = ring_view r ! i" if "i < length (r_data r)" for i
    using r1(7) that by (metis nth_take)
  show ?thesis
  proof (cases ok)
    case False
    have "\<not> ?p + length src \<le> length (r_data r)"
      using False r1(1) by (auto simp: ring_reserve_def)
    then show ?thesis using False r1 \<open>src \<noteq> []\<close> wf by (auto simp: ring_write_free_def)
  next
    case True
    then have fit1: "?p + length src \<le> length (r_data r1)" using r1(5) by simp
    obtain d1 d2 where d: "slice src 0 (min (length src) (length (r_data r1) - ring_at r1 ?p)) =
          Some (take (min (length src) (length (r_data r1) - ring_at r1 ?p)) src)"
      "copy_at (r_data r1) (ring_at r1 ?p) (take (min (length src) (length (r_data r1) - ring_at r1 ?p)) src) = Some d1"
      "slice src (min (length src) (length (r_data r1) - ring_at r1 ?p)) (length src) =
          Some (drop (min (length src) (length (r_data r1) - ring_at r1 ?p)) src)"
      "copy_at d1 0 (drop (min (length src) (length (r_data r1) - ring_at r1 ?p)) src) = Some d2"
      and len: "length d2 = length (r_data r1)"
      and view: "\<And>i. i < length (r_data r1) \<Longrightarrow> ring_view (r1\<lparr>r_data := d2\<rparr>) ! i =
          (if ?p \<le> i \<and> i < ?p + length src then src ! (i - ?p) else ring_view r1 ! i)"
      using ring_place [OF r1(2) fit1 False] by blast
    let ?r2 = "r1\<lparr>r_data := d2\<rparr>"
    have res: "ring_write_free mem r offset src = Some (True, ?r2)"
      using False True d r1(1,3) by (simp add: ring_write_free_def Let_def)
    have wf2: "ring_wf ?r2" using r1(2) len by (auto simp: ring_wf_def)
    have bytes: "ring_bytes ?r2 = ring_bytes r"
    proof (rule nth_equalityI)
      show "length (ring_bytes ?r2) = length (ring_bytes r)"
        using length_ring_bytes [OF wf] length_ring_bytes [OF wf2] r1(3) by simp
    next
      fix i assume "i < length (ring_bytes ?r2)"
      then have "i < r_len r" using length_ring_bytes [OF wf2] r1(3) by simp
      moreover have "r_len r \<le> length (r_data r)" using wf by (simp add: ring_wf_def)
      ultimately show "ring_bytes ?r2 ! i = ring_bytes r ! i"
        using view [of i] old [of i] r1(3,8) by (simp add: ring_bytes_def)
    qed
    have ahead: "ring_ahead ?r2 i = Some x"
      if "ring_ahead r i = Some x" "\<not> (offset \<le> i \<and> i < offset + length src)" for i x
      using that view [of "r_len r + i"] old [of "r_len r + i"] r1(3,8) len
      by (auto simp: ring_ahead_def split: if_splits)
    have written: "ring_ahead ?r2 (offset + i) = Some (src ! i)" if "i < length src" for i
      using that view [of "?p + i"] fit1 r1(3) len by (auto simp: ring_ahead_def add.assoc)
    show ?thesis
      using res wf2 bytes ahead written r1(3,4,8) True fit1 len by auto
  qed
qed

lemma ring_commit_spec:
  assumes wf: "ring_wf r" and fit: "r_len r + n \<le> length (r_data r)"
  shows "ring_wf (ring_commit r n) \<and> r_len (ring_commit r n) = r_len r + n \<and>
         r_capacity (ring_commit r n) = r_capacity r \<and>
         ring_bytes (ring_commit r n) = ring_bytes r @ map (\<lambda>i. the (ring_ahead r i)) [0..<n] \<and>
         ring_ahead (ring_commit r n) i = ring_ahead r (n + i)"
proof -
  have view: "ring_view (ring_commit r n) = ring_view r" by (simp add: ring_view_def ring_commit_def)
  have "take (r_len r + n) (ring_view r) = take (r_len r) (ring_view r) @ map (\<lambda>i. the (ring_ahead r i)) [0..<n]"
    using fit by (auto simp: list_eq_iff_nth_eq nth_append ring_ahead_def)
  then have "ring_bytes (ring_commit r n) = ring_bytes r @ map (\<lambda>i. the (ring_ahead r i)) [0..<n]"
    unfolding ring_bytes_def view by (simp add: ring_commit_def)
  moreover have "ring_wf (ring_commit r n)" "r_len (ring_commit r n) = r_len r + n"
      "r_capacity (ring_commit r n) = r_capacity r"
    using wf fit by (auto simp: ring_wf_def ring_commit_def)
  moreover have "ring_ahead (ring_commit r n) i = ring_ahead r (n + i)"
    using view by (simp add: ring_ahead_def ring_commit_def add.assoc)
  ultimately show ?thesis by blast
qed

lemma ring_discard_spec:
  assumes wf: "ring_wf r" and n: "n \<le> r_len r"
  shows "ring_wf (ring_discard r n) \<and> r_len (ring_discard r n) = r_len r - n \<and>
         r_capacity (ring_discard r n) = r_capacity r \<and> ring_bytes (ring_discard r n) = drop n (ring_bytes r) \<and>
         (\<forall>i x. ring_ahead r i = Some x \<longrightarrow> ring_ahead (ring_discard r n) i = Some x)"
proof (cases "n = 0")
  case True
  then show ?thesis using wf by (simp add: ring_discard_def)
next
  case False
  let ?r = "ring_discard r n"
  have cap: "r_head r < length (r_data r)" "n \<le> length (r_data r)" "r_data r \<noteq> []"
    using wf n False by (auto simp: ring_wf_def)
  have sel: "r_data ?r = r_data r" "r_head ?r = ring_at r n" "r_len ?r = r_len r - n" "r_capacity ?r = r_capacity r"
    using False by (simp_all add: ring_discard_def)
  have wf': "ring_wf ?r"
    using wf ring_at_less [OF wf cap(2,3)] by (auto simp: ring_wf_def sel)
  have view: "ring_view ?r ! i = ring_view r ! (n + i)" if "n + i < length (r_data r)" for i
  proof -
    have "ring_at ?r i = ring_at r (n + i)"
      using cap that by (auto simp: ring_at_def sel Let_def add.assoc)
    then show ?thesis
      using nth_ring_view [OF wf' , of i] nth_ring_view [OF wf that] that sel(1) by simp
  qed
  have "ring_bytes ?r = drop n (ring_bytes r)"
  proof (rule nth_equalityI)
    show "length (ring_bytes ?r) = length (drop n (ring_bytes r))"
      using length_ring_bytes [OF wf] length_ring_bytes [OF wf'] sel by simp
  next
    fix i assume "i < length (ring_bytes ?r)"
    then have "n + i < r_len r" using length_ring_bytes [OF wf'] sel by simp
    moreover have "r_len r \<le> length (r_data r)" using wf by (simp add: ring_wf_def)
    ultimately show "ring_bytes ?r ! i = drop n (ring_bytes r) ! i"
      using view [of i] sel by (simp add: ring_bytes_def)
  qed
  moreover have "ring_ahead ?r i = Some x" if "ring_ahead r i = Some x" for i x
  proof -
    from that have lt: "r_len r + i < length (r_data r)" "ring_view r ! (r_len r + i) = x"
      by (auto simp: ring_ahead_def split: if_splits)
    then show ?thesis using view [of "r_len r - n + i"] n sel by (simp add: ring_ahead_def)
  qed
  ultimately show ?thesis using wf' sel by blast
qed

text \<open>Reading: the \<open>n\<close> bytes from \<open>offset\<close>, as many as are held and fit into \<open>out\<close>.\<close>

lemma ring_split_view:
  fixes c h p :: nat
  assumes wf: "ring_wf r" and fit: "p + n \<le> length (r_data r)" and n: "0 < n"
  shows "take n (drop p (ring_view r)) =
     take (min n (length (r_data r) - ring_at r p)) (drop (ring_at r p) (r_data r)) @
     take (n - min n (length (r_data r) - ring_at r p)) (r_data r)"
proof -
  have h: "r_head r < length (r_data r)" using wf fit n by (auto simp: ring_wf_def)
  then show ?thesis
    using fit n unfolding ring_view_def ring_at_def Let_def
    by (cases "length (r_data r) \<le> r_head r + p")
      (auto simp: min_def drop_take take_append drop_append add.commute)
qed

lemma ring_read_at_spec:
  assumes wf: "ring_wf r" and n: "n = min (length out) (r_len r - offset)"
  shows "ring_read_at r offset out = Some (n, take n (drop offset (ring_bytes r)) @ drop n out)"
proof (cases "n = 0")
  case True
  then show ?thesis using n by (simp add: ring_read_at_def)
next
  case False
  let ?cap = "length (r_data r)"
  let ?start = "ring_at r offset"
  define first where "first = min n (?cap - ?start)"
  have lens: "r_len r \<le> ?cap" "n \<le> length out" "offset + n \<le> r_len r"
    using wf False n by (auto simp: ring_wf_def)
  have ne: "r_data r \<noteq> []" using lens(1,3) False by auto
  have start: "?start < ?cap" using ring_at_less [OF wf _ ne, of offset] lens by simp
  have bytes: "take n (drop offset (ring_bytes r)) = take n (drop offset (ring_view r))"
    using lens by (simp add: ring_bytes_def drop_take min_def)
  have split: "take n (drop offset (ring_view r)) = take first (drop ?start (r_data r)) @ take (n - first) (r_data r)"
    using ring_split_view [OF wf, of offset n] lens False by (simp add: first_def)
  have le: "?start + first \<le> ?cap" "first \<le> n" "n - first \<le> ?cap" using start lens by (auto simp: first_def)
  define p1 p2 where "p1 = take first (drop ?start (r_data r))" and "p2 = take (n - first) (r_data r)"
  have len: "length p1 = first" "length p2 = n - first" using le by (auto simp: p1_def p2_def)
  have "slice (r_data r) ?start (?start + first) = Some p1" "slice (r_data r) 0 (n - first) = Some p2"
    using le by (simp_all add: slice_def p1_def p2_def)
  moreover have "copy_at out 0 p1 = Some (p1 @ drop first out)"
    using le lens len by (simp add: copy_at_def)
  moreover have "copy_at (p1 @ drop first out) first p2 = Some ((p1 @ p2) @ drop n out)"
    using le lens len by (simp add: copy_at_def)
  ultimately have "ring_read_at r offset out = Some (n, (p1 @ p2) @ drop n out)"
    unfolding ring_read_at_def Let_def n [symmetric] first_def [symmetric] using False by simp
  then show ?thesis using bytes split by (simp add: p1_def p2_def)
qed

lemma ring_pop_spec:
  assumes wf: "ring_wf r" and n: "n \<le> r_len r"
  shows "\<exists>r'. ring_pop r n out =
           Some (min n (length out), take (min n (length out)) (ring_bytes r) @ drop (min n (length out)) out, r') \<and>
         r' = ring_discard r n"
proof -
  let ?c = "min n (length out)"
  have c: "?c = min (length (take ?c out)) (r_len r - 0)" using n by auto
  have "ring_read_at r 0 (take ?c out) = Some (?c, take ?c (ring_bytes r))"
    using ring_read_at_spec [OF wf c] by simp
  then show ?thesis by (simp add: ring_pop_def slice_def Let_def)
qed

text \<open>\<open>push\<close> holds a prefix of \<open>src\<close>: all that fits when there is memory.\<close>

lemma ring_push_spec:
  assumes wf: "ring_wf r"
  shows "\<exists>n r'. ring_push mem r src = Some (n, r') \<and> ring_wf r' \<and> n \<le> min (length src) (ring_free r) \<and>
           r_capacity r' = r_capacity r \<and> r_len r' = r_len r + n \<and> ring_bytes r' = ring_bytes r @ take n src \<and>
           ((\<forall>k. mem k) \<longrightarrow> n = min (length src) (ring_free r))"
proof -
  let ?n = "min (length src) (ring_free r)"
  have need: "r_len r + ?n \<le> r_capacity r" using wf by (auto simp: ring_free_def ring_wf_def)
  obtain ok r1 where r1: "ring_reserve mem r (r_len r + ?n) = Some (ok, r1)" "ring_wf r1"
    "r_len r1 = r_len r" "r_capacity r1 = r_capacity r" "ok \<longrightarrow> r_len r + ?n \<le> length (r_data r1)"
    "\<not> ok \<longrightarrow> r1 = r" "take (length (r_data r)) (ring_view r1) = ring_view r"
    "length (r_data r) \<le> length (r_data r1)" "(\<forall>n. mem n) \<longrightarrow> ok"
    using ring_reserve_spec [OF wf need, of mem] by blast
  have short: "\<not> r_len r + ?n \<le> length (r_data r)" if "\<not> ok"
    using r1(1) that unfolding ring_reserve_def Let_def by (metis Pair_inject option.inject)
  define m where "m = (if ok then ?n else length (r_data r1) - r_len r)"
  have m: "m \<le> ?n" "r_len r + m \<le> length (r_data r1)"
    using short r1(2,3,5,6) by (auto simp: m_def ring_wf_def)
  have bytes1: "ring_bytes r1 = ring_bytes r"
  proof -
    have "r_len r \<le> length (r_data r)" using wf by (simp add: ring_wf_def)
    then show ?thesis using r1(3) r1(7) unfolding ring_bytes_def by (metis min.absorb1 take_take)
  qed
  have fits: "0 + length (take m src) \<le> ring_free r1"
    using m(1) r1(3,4) by (simp add: ring_free_def)
  obtain ok2 r2 where r2: "ring_write_free mem r1 0 (take m src) = Some (ok2, r2)" "ring_wf r2"
      "r_len r2 = r_len r1" "r_capacity r2 = r_capacity r1" "ring_bytes r2 = ring_bytes r1"
      "ok2 \<longrightarrow> (\<forall>i < length (take m src). ring_ahead r2 (0 + i) = Some (take m src ! i))"
      "length (r_data r1) \<le> length (r_data r2)"
      "r_len r1 + 0 + length (take m src) \<le> length (r_data r1) \<longrightarrow> ok2"
    using ring_write_free_spec [OF r1(2) fits, of mem] by blast
  have ok2: ok2 using r2(8) m r1(3) by simp
  have fit2: "r_len r2 + m \<le> length (r_data r2)" using m r2(3,7) r1(3) by simp
  have "map (\<lambda>i. the (ring_ahead r2 i)) [0..<m] = take m src"
    using r2(6) ok2 m(1) by (auto intro!: nth_equalityI)
  moreover note ring_commit_spec [OF r2(2) fit2]
  moreover have "ring_push mem r src = Some (m, ring_commit r2 m)"
    using r1(1,3) r2(1) m(1) by (cases ok) (auto simp: ring_push_def m_def slice_def Let_def)
  moreover have "(\<forall>k. mem k) \<longrightarrow> m = ?n" using r1(9) by (auto simp: m_def)
  ultimately show ?thesis using m(1) r2(3,4,5) r1(3,4) bytes1 by auto
qed

section \<open>The ring is a byte buffer\<close>

interpretation rb: byte_buffer ring_wf ring_bytes ring_ahead ring_free "ring_write_free mem" ring_commit ring_discard
  for mem
proof
  fix b :: ring and at and src :: "u8 list"
  assume wf: "ring_wf b" and fit: "at + length src \<le> ring_free b"
  show "\<exists>ok b'. ring_write_free mem b at src = Some (ok, b') \<and> ring_wf b' \<and> ring_bytes b' = ring_bytes b \<and>
      ring_free b' = ring_free b \<and>
      (\<forall>i x. ring_ahead b i = Some x \<longrightarrow> \<not> (at \<le> i \<and> i < at + length src) \<longrightarrow> ring_ahead b' i = Some x) \<and>
      (ok \<longrightarrow> (\<forall>i < length src. ring_ahead b' (at + i) = Some (src ! i))) \<and> (\<not> ok \<longrightarrow> b' = b)"
  proof -
    obtain ok r where r: "ring_write_free mem b at src = Some (ok, r)" "ring_wf r" "r_len r = r_len b"
      "r_capacity r = r_capacity b" "ring_bytes r = ring_bytes b"
      "\<forall>i x. ring_ahead b i = Some x \<longrightarrow> \<not> (at \<le> i \<and> i < at + length src) \<longrightarrow> ring_ahead r i = Some x"
      "ok \<longrightarrow> (\<forall>i < length src. ring_ahead r (at + i) = Some (src ! i))" "\<not> ok \<longrightarrow> r = b"
      using ring_write_free_spec [OF wf fit, of mem] by blast
    have "ring_free r = ring_free b" using r by (simp add: ring_free_def)
    then show ?thesis using r by blast
  qed
next
  fix b :: ring and n
  assume wf: "ring_wf b" and n: "n \<le> ring_free b" and ahead: "\<forall>i < n. ring_ahead b i \<noteq> None"
  have fit: "r_len b + n \<le> length (r_data b)"
  proof (cases n)
    case 0
    then show ?thesis using wf by (simp add: ring_wf_def)
  next
    case (Suc m)
    then have "ring_ahead b m \<noteq> None" using ahead by simp
    then show ?thesis using Suc by (simp add: ring_ahead_def split: if_splits)
  qed
  show "ring_wf (ring_commit b n) \<and> ring_free (ring_commit b n) = ring_free b - n \<and>
      ring_bytes (ring_commit b n) = ring_bytes b @ map (\<lambda>i. the (ring_ahead b i)) [0..<n] \<and>
      (\<forall>i. ring_ahead (ring_commit b n) i = ring_ahead b (n + i))"
    using ring_commit_spec [OF wf fit] by (auto simp: ring_free_def)
next
  fix b :: ring and n
  assume wf: "ring_wf b" and n: "n \<le> length (ring_bytes b)"
  then have le: "n \<le> r_len b" by (simp add: length_ring_bytes)
  have "r_len b \<le> r_capacity b" using wf by (simp add: ring_wf_def)
  then show "ring_wf (ring_discard b n) \<and> ring_free (ring_discard b n) = ring_free b + n \<and>
      ring_bytes (ring_discard b n) = drop n (ring_bytes b) \<and>
      (\<forall>i x. ring_ahead b i = Some x \<longrightarrow> ring_ahead (ring_discard b n) i = Some x)"
    using ring_discard_spec [OF wf le] le by (auto simp: ring_free_def)
qed

section \<open>Runs of pushes and pops\<close>

text \<open>A pop reads into a buffer as much as it can hold, the way the sockets call it. A run returns
  what the pushes accepted and what the pops returned, in order.\<close>

datatype ring_op = Push "u8 list" | Pop "u8 list"

fun ring_run :: "(nat \<Rightarrow> bool) \<Rightarrow> ring \<Rightarrow> ring_op list \<Rightarrow> (u8 list \<times> u8 list \<times> ring) option" where
  "ring_run mem r [] = Some ([], [], r)"
| "ring_run mem r (Push bs # ops) = do {
     (n, r) \<leftarrow> ring_push mem r bs;
     (acc, out, r) \<leftarrow> ring_run mem r ops;
     Some (take n bs @ acc, out, r)
   }"
| "ring_run mem r (Pop buf # ops) = do {
     (n, part, r) \<leftarrow> ring_pop r (min (length buf) (r_len r)) buf;
     (acc, out, r) \<leftarrow> ring_run mem r ops;
     Some (acc, take n part @ out, r)
   }"

lemma ring_run_queue:
  "ring_wf r \<Longrightarrow> \<exists>acc out r'. ring_run mem r ops = Some (acc, out, r') \<and> ring_wf r' \<and>
     r_capacity r' = r_capacity r \<and> ring_bytes r @ acc = out @ ring_bytes r'"
proof (induction mem r ops rule: ring_run.induct)
  case (2 mem r bs ops)
  obtain n q where q: "ring_push mem r bs = Some (n, q)" "ring_wf q" "r_capacity q = r_capacity r"
      "ring_bytes q = ring_bytes r @ take n bs"
    using ring_push_spec [OF "2.prems", of mem bs] by blast
  then show ?case using "2.IH" [OF q(1) refl q(2)] by fastforce
next
  case (3 mem r buf ops)
  let ?n = "min (length buf) (r_len r)"
  have pop: "ring_pop r ?n buf = Some (?n, take ?n (ring_bytes r) @ drop ?n buf, ring_discard r ?n)"
    using ring_pop_spec [OF "3.prems", of ?n buf] by (simp add: min.commute)
  note d = ring_discard_spec [OF "3.prems", of ?n]
  have len: "length (ring_bytes r) = r_len r" using length_ring_bytes [OF "3.prems"] .
  obtain acc out r' where IH: "ring_run mem (ring_discard r ?n) ops = Some (acc, out, r')" "ring_wf r'"
      "r_capacity r' = r_capacity r" "drop ?n (ring_bytes r) @ acc = out @ ring_bytes r'"
    using "3.IH" [OF pop refl refl] d by auto
  have "ring_bytes r @ acc = (take ?n (ring_bytes r) @ out) @ ring_bytes r'"
    using IH(4) by (metis append.assoc append_take_drop_id)
  then show ?case using IH pop len by auto
qed simp

text \<open>C1: A run of pushes and pops on a new ring is a run of a bounded FIFO queue: it never panics, what
  is popped followed by what is still held is exactly what the pushes accepted, and no more than the
  capacity is ever held, whatever the allocator refuses.\<close>

theorem ring_is_fifo:
  "\<exists>acc out r. ring_run mem (ring_new c) ops = Some (acc, out, r) \<and> acc = out @ ring_bytes r \<and>
     length (ring_bytes r) \<le> c"
proof -
  obtain acc out r where r: "ring_run mem (ring_new c) ops = Some (acc, out, r)" "ring_wf r" "r_capacity r = c"
      "acc = out @ ring_bytes r"
    using ring_run_queue [of "ring_new c" mem ops] by auto
  then show ?thesis using length_ring_bytes [of r] by (auto simp: ring_wf_def)
qed

end
