(* ===== verification/Siphash.thy ===== *)
theory Siphash
  imports Bytes
begin

text \<open>SipHash-2-4, \<open>libs/devkit_crypto/src/mac.rs\<close> (\<open>siphash\<close>), the keyed hash behind the initial
  sequence numbers of TCP.\<close>

type_synonym sip_state = "u64 \<times> u64 \<times> u64 \<times> u64"

definition rotate_left :: "nat \<Rightarrow> u64 \<Rightarrow> u64" where
  "rotate_left n x = push_bit n x OR drop_bit (64 - n) x"

definition sip_round :: "sip_state \<Rightarrow> sip_state" where
  "sip_round v =
     (case v of (v0, v1, v2, v3) \<Rightarrow>
       let v0 = v0 + v1;
           v1 = rotate_left 13 v1 XOR v0;
           v0 = rotate_left 32 v0;
           v2 = v2 + v3;
           v3 = rotate_left 16 v3 XOR v2;
           v0 = v0 + v3;
           v3 = rotate_left 21 v3 XOR v0;
           v2 = v2 + v1;
           v1 = rotate_left 17 v1 XOR v2;
           v2 = rotate_left 32 v2
       in (v0, v1, v2, v3))"

text \<open>\<open>u64::from_le_bytes\<close> of eight bytes.\<close>

definition u64_le :: "u8 list \<Rightarrow> u64" where
  "u64_le b = foldr (\<lambda>x acc. push_bit 8 acc OR ucast x) b 0"

definition sip_absorb :: "u64 \<Rightarrow> sip_state \<Rightarrow> sip_state" where
  "sip_absorb m v =
     (case v of (v0, v1, v2, v3) \<Rightarrow>
       case sip_round (sip_round (v0, v1, v2, v3 XOR m)) of (v0, v1, v2, v3) \<Rightarrow> (v0 XOR m, v1, v2, v3))"

text \<open>\<open>chunks_exact(8)\<close> and the remainder.\<close>

function sip_chunks :: "u8 list \<Rightarrow> sip_state \<Rightarrow> sip_state \<times> u8 list" where
  "sip_chunks data v =
     (if length data < 8 then (v, data) else sip_chunks (drop 8 data) (sip_absorb (u64_le (take 8 data)) v))"
  by pat_completeness auto
termination by (relation "measure (\<lambda>(data, _). length data)") auto

declare sip_chunks.simps [simp del]

definition siphash :: "u64 \<Rightarrow> u64 \<Rightarrow> u8 list \<Rightarrow> u64" where
  "siphash k0 k1 data =
     (let v = (k0 XOR 0x736f6d6570736575, k1 XOR 0x646f72616e646f6d,
               k0 XOR 0x6c7967656e657261, k1 XOR 0x7465646279746573)
      in case sip_chunks data v of (v, rest) \<Rightarrow>
        let last = (rest @ replicate (8 - length rest) 0)[7 := word_of_nat (length data)]
        in case sip_absorb (u64_le last) v of (v0, v1, v2, v3) \<Rightarrow>
          case (sip_round ^^ 4) (v0, v1, v2 XOR 0xff, v3) of (v0, v1, v2, v3) \<Rightarrow>
            v0 XOR v1 XOR v2 XOR v3)"

text \<open>The reference vector of the SipHash paper: key \<open>00..0f\<close>, data \<open>00..0e\<close>.\<close>

lemma sip_chunks_more: "length xs = 8 \<Longrightarrow> sip_chunks (xs @ ys) v = sip_chunks ys (sip_absorb (u64_le xs) v)"
  by (subst sip_chunks.simps) simp

lemma sip_chunks_rest: "length xs < 8 \<Longrightarrow> sip_chunks xs v = (v, xs)"
  by (subst sip_chunks.simps) simp

lemma siphash_reference:
  "siphash 0x0706050403020100 0x0f0e0d0c0b0a0908 [0, 1, 2, 3, 4, 5, 6, 7, 8, 9, 10, 11, 12, 13, 14] = 0xa129ca6149be45e5"
proof -
  have c: "sip_chunks [0, 1, 2, 3, 4, 5, 6, 7, 8, 9, 10, 11, 12, 13, 14] v =
      (sip_absorb (u64_le [0, 1, 2, 3, 4, 5, 6, 7]) v, [8, 9, 10, 11, 12, 13, 14])" for v
    using sip_chunks_more [of "[0, 1, 2, 3, 4, 5, 6, 7]" "[8, 9, 10, 11, 12, 13, 14]" v] by (simp add: sip_chunks_rest)
  have m: "u64_le [0, 1, 2, 3, 4, 5, 6, 7] = 0x0706050403020100"
    "u64_le [8, 9, 10, 11, 12, 13, 14, 15] = 0x0f0e0d0c0b0a0908" by code_simp+
  have l: "([8, 9, 10, 11, 12, 13, 14] @ replicate (8 - length [8 :: u8, 9, 10, 11, 12, 13, 14]) 0)
      [7 := word_of_nat (length [0 :: u8, 1, 2, 3, 4, 5, 6, 7, 8, 9, 10, 11, 12, 13, 14])] = [8 :: u8, 9, 10, 11, 12, 13, 14, 15]"
    by simp
  have r:
    "sip_round (0x7469686173716475, 0x6b617f6d656e6665, 0x6b7f62616d677361, 0x7c6d6c6a717c6d7b) = (0x64668a929363847f, 0x4ed232083d9aa8dc, 0xf2f74892d8141a2e, 0x9290f9810552f4a8)"
    "sip_round (0x64668a929363847f, 0x4ed232083d9aa8dc, 0xf2f74892d8141a2e, 0x9290f9810552f4a8) = (0x4d07749cdd0858e0, 0xd52f6f62a4f59a4, 0x634cb3577b01fd3d, 0xa5224d6f55c7d9c8)"
    "sip_round (0x4a017198de0a59e0, 0xd52f6f62a4f59a4, 0x634cb3577b01fd3d, 0xaa2c40635ecdd0c0) = (0x557560fb6063d060, 0x4c8e675bd961133e, 0xbd3d002b1703a181, 0xfb9441179a4a7315)"
    "sip_round (0x557560fb6063d060, 0x4c8e675bd961133e, 0xbd3d002b1703a181, 0xfb9441179a4a7315) = (0x338bbea7645fb759, 0x414fc3fb98efe374, 0xccf13ea527b9f4bd, 0x5293f5da84008f82)"
    "sip_round (0x3c85b3ab6f55be51, 0x414fc3fb98efe374, 0xccf13ea527b9f442, 0x5293f5da84008f82) = (0xf2a55244a20e48fe, 0xac5ad16ccc3ca6e4, 0x9fe5adb0a52f393a, 0xfd41d55e88f30308)"
    "sip_round (0xf2a55244a20e48fe, 0xac5ad16ccc3ca6e4, 0x9fe5adb0a52f393a, 0xfd41d55e88f30308) = (0xb6c3fbdecc2ae4b4, 0x1638c86adc6b3cf0, 0x28b8b6ab62553d46, 0xc9465e86ec43eb95)"
    "sip_round (0xb6c3fbdecc2ae4b4, 0x1638c86adc6b3cf0, 0x28b8b6ab62553d46, 0xc9465e86ec43eb95) = (0x58101b167209a5e6, 0xf8792ae75b66e7dd, 0x1da14c3ec7f0b4f7, 0x7624ba8a41bc4ad9)"
    "sip_round (0x58101b167209a5e6, 0xf8792ae75b66e7dd, 0x1da14c3ec7f0b4f7, 0x7624ba8a41bc4ad9) = (0xf6bcd53893fecff1, 0x54b9964c7ea0d937, 0x1b38329c099bb55a, 0x1814bb89ad7be679)"
    by (simp_all add: sip_round_def Let_def rotate_left_def)
  have n: "(sip_round ^^ 4) w = sip_round (sip_round (sip_round (sip_round w)))" for w
    by (simp add: numeral_eq_Suc)
  show ?thesis
    unfolding siphash_def c Let_def prod.case l m by (simp add: sip_absorb_def r n)
qed

end
