(* ===== verification/Net_Error.thy ===== *)
theory Net_Error
  imports Base
begin

text \<open>The errors of the network stack, \<open>libs/devkit_net/src/error.rs\<close>. The payload of \<open>Tls\<close>, an
  error of the crypto library, is not modelled.\<close>

datatype net_error =
  NotStarted | AlreadyStarted | Unsupported | AddrInUse | AddrNotAvailable | NoRoute
| HostUnreachable | MessageTooLarge | NotConnected | ConnectionRefused | ConnectionReset
| ConnectionAborted | BrokenPipe | TimedOut | NoMemory | WouldBlock | InvalidInput | NotFound
| NoNameServer | Tls

end
