(* ===== verification/Tcp_Control.thy ===== *)
theory Tcp_Control
  imports Tcp_Segment Ring Siphash Net_Error
begin

text \<open>
  The control block of a connection and the tables of connections and listeners,
  \<open>libs/devkit_net/src/tcp.rs\<close>: \<open>State\<close>, \<open>Tcb\<close> with the operations that only touch it,
  \<open>Listener\<close> and \<open>Sockets\<close>.

  Lengths, buffer sizes, windows of congestion control and retry counts are \<open>nat\<close>; sequence numbers
  and the windows of the peer are 32-bit words.
\<close>

section \<open>The control block\<close>

type_synonym sockaddr = "ipv4addr \<times> u16"

datatype tcp_state =
  SynSent | SynReceived | Established | FinWait1 | FinWait2 | CloseWait | Closing | LastAck | TimeWait | Closed

definition synchronized :: "tcp_state \<Rightarrow> bool" where
  "synchronized s \<longleftrightarrow> s \<notin> {SynSent, SynReceived, Closed}"

record buffers =
  b_rx :: nat
  b_tx :: nat

record tcb =
  t_state :: tcp_state
  t_local :: sockaddr
  t_remote :: sockaddr
  t_listener :: "nat option"
  t_released :: bool
  t_error :: "net_error option"
  t_soft_error :: "net_error option"
  t_rx :: ring
  t_tx :: ring
  t_assembler :: assembler
  iss :: u32
  snd_una :: u32
  snd_nxt :: u32
  snd_max :: u32
  tx_base :: u32
  snd_wnd :: u32
  snd_wl1 :: u32
  snd_wl2 :: u32
  rcv_nxt :: u32
  rcv_adv :: u32
  snd_mss :: nat
  rcv_mss :: nat
  snd_scale :: nat
  rcv_scale :: nat
  scaling :: bool
  fin_queued :: bool
  fin_sent :: bool
  fin_seq :: "u32 option"
  fin_received :: bool
  rto :: duration
  srtt :: "duration option"
  rttvar :: duration
  rtt_sample :: "(u32 \<times> instant) option"
  retransmit_at :: "instant option"
  retries :: nat
  ack_at :: "instant option"
  ack_now :: bool
  unacked_segments :: nat
  probe :: bool
  persist_at :: "instant option"
  link_retry_at :: "instant option"
  max_window :: u32
  last_sent :: instant
  keepalive :: "duration option"
  heard :: instant
  keepalive_probes :: nat
  close_at :: "instant option"
  cwnd :: nat
  ssthresh :: nat
  dupacks :: nat
  recover :: "u32 option"
  nodelay :: bool

definition USIZE_MAX :: nat where "USIZE_MAX = 2 ^ 32 - 1"

definition window_scale_for :: "nat \<Rightarrow> nat" where
  "window_scale_for rx =
     (case find (\<lambda>s. drop_bit s rx \<le> 0xffff) [0..<MAX_WINDOW_SCALE + 1] of Some s \<Rightarrow> s | None \<Rightarrow> MAX_WINDOW_SCALE)"

definition tcb_new :: "sockaddr \<Rightarrow> sockaddr \<Rightarrow> tcp_state \<Rightarrow> buffers \<Rightarrow> nat \<Rightarrow> u32 \<Rightarrow> tcb" where
  "tcb_new local remote st bufs rmss isn =
     \<lparr>t_state = st, t_local = local, t_remote = remote, t_listener = None, t_released = False,
      t_error = None, t_soft_error = None, t_rx = ring_new (b_rx bufs), t_tx = ring_new (b_tx bufs),
      t_assembler = assembler_default,
      iss = isn, snd_una = isn, snd_nxt = isn, snd_max = isn, tx_base = isn + 1,
      snd_wnd = 0, snd_wl1 = 0, snd_wl2 = 0, rcv_nxt = 0, rcv_adv = 0,
      snd_mss = DEFAULT_MSS, rcv_mss = rmss, snd_scale = 0, rcv_scale = window_scale_for (b_rx bufs),
      scaling = False, fin_queued = False, fin_sent = False, fin_seq = None, fin_received = False,
      rto = RTO_INITIAL, srtt = None, rttvar = 0, rtt_sample = None, retransmit_at = None, retries = 0,
      ack_at = None, ack_now = False, unacked_segments = 0, probe = False, persist_at = None,
      link_retry_at = None, max_window = 0, last_sent = 0, keepalive = None, heard = 0,
      keepalive_probes = 0, close_at = None, cwnd = 0, ssthresh = USIZE_MAX, dupacks = 0, recover = None,
      nodelay = False\<rparr>"

definition in_flight :: "tcb \<Rightarrow> nat" where
  "in_flight t = unat (snd_nxt t - snd_una t)"

definition advance :: "tcb \<Rightarrow> u32 \<Rightarrow> tcb" where
  "advance t to =
     (let t = t\<lparr>snd_nxt := to\<rparr> in if seq_lt (snd_max t) to then t\<lparr>snd_max := to\<rparr> else t)"

definition unsent :: "tcb \<Rightarrow> nat" where
  "unsent t =
     (if fin_sent t then 0
      else if seq_lt (snd_nxt t) (tx_base t) then r_len (t_tx t)
      else r_len (t_tx t) - unat (snd_nxt t - tx_base t))"

definition readiness :: "tcb \<Rightarrow> tcp_state \<times> nat \<times> nat \<times> bool \<times> bool" where
  "readiness t = (t_state t, r_len (t_rx t), ring_free (t_tx t), fin_received t, t_error t \<noteq> None)"

definition clamp :: "nat \<Rightarrow> nat \<Rightarrow> nat \<Rightarrow> nat" where
  "clamp x lo hi = (if x < lo then lo else if hi < x then hi else x)"

definition on_syn :: "tcb \<Rightarrow> segment \<Rightarrow> tcb" where
  "on_syn t seg =
     (let t = t\<lparr>rcv_nxt := sg_seq seg + 1\<rparr>;
          t = t\<lparr>rcv_adv := rcv_nxt t\<rparr>;
          t = t\<lparr>snd_mss := clamp (case sg_mss seg of None \<Rightarrow> DEFAULT_MSS | Some m \<Rightarrow> unat m) 64 (max (rcv_mss t) 64)\<rparr>;
          t = t\<lparr>scaling := sg_window_scale seg \<noteq> None\<rparr>;
          t = (case sg_window_scale seg of Some scale \<Rightarrow> t\<lparr>snd_scale := scale\<rparr> | None \<Rightarrow> t\<lparr>rcv_scale := 0\<rparr>);
          t = t\<lparr>snd_wnd := ucast (sg_window seg)\<rparr>;
          t = t\<lparr>snd_wl1 := sg_seq seg\<rparr>;
          t = t\<lparr>snd_wl2 := sg_ack seg\<rparr>;
          t = t\<lparr>cwnd := initial_window (snd_mss t)\<rparr>
      in t\<lparr>max_window := snd_wnd t\<rparr>)"

definition window_step :: "tcb \<Rightarrow> u32" where
  "window_step t = min (word_of_nat (r_capacity (t_rx t)) div 2) (word_of_nat (rcv_mss t))"

definition window :: "tcb \<Rightarrow> u32 \<times> tcb" where
  "window t =
     (let t = (if seq_lt (rcv_adv t) (rcv_nxt t) then t\<lparr>rcv_adv := rcv_nxt t\<rparr> else t);
          free = min (word_of_nat (ring_free (t_rx t))) (push_bit (rcv_scale t) 0xffff);
          current = rcv_adv t - rcv_nxt t
      in if current + window_step t \<le> free then (free, t\<lparr>rcv_adv := rcv_nxt t + free\<rparr>)
         else (current, t))"

definition window_grew :: "tcb \<Rightarrow> bool" where
  "window_grew t \<longleftrightarrow>
     (let current = rcv_adv t - rcv_nxt t
      in current + window_step t \<le> word_of_nat (ring_free (t_rx t)))"

definition sample_rtt :: "tcb \<Rightarrow> duration \<Rightarrow> tcb" where
  "sample_rtt t rtt =
     (let t = (case srtt t of
                 None \<Rightarrow> t\<lparr>srtt := Some rtt, rttvar := rtt div 2\<rparr>
               | Some s \<Rightarrow>
                   let delta = (if rtt < s then s - rtt else rtt - s)
                   in t\<lparr>rttvar := (rttvar t * 3 + delta) div 4, srtt := Some ((s * 7 + rtt) div 8)\<rparr>)
      in t\<lparr>rto := clamp (the (srtt t) + max (rttvar t * 4) (from_millis 10)) RTO_MIN RTO_MAX\<rparr>)"

definition close_with :: "tcb \<Rightarrow> net_error option \<Rightarrow> tcb" where
  "close_with t err =
     (let t = t\<lparr>t_state := Closed\<rparr>;
          t = (if t_error t = None then t\<lparr>t_error := err\<rparr> else t)
      in t\<lparr>retransmit_at := None, ack_at := None, persist_at := None, close_at := None\<rparr>)"

definition keepalive_at :: "tcb \<Rightarrow> instant option" where
  "keepalive_at t =
     (case keepalive t of
        None \<Rightarrow> None
      | Some idle \<Rightarrow>
          if t_state t \<in> {Established, CloseWait} \<and> snd_una t = snd_max t \<and> unsent t = 0
          then Some (instant_add (instant_add (heard t) idle) (KEEPALIVE_INTERVAL * keepalive_probes t))
          else None)"

definition deadline :: "tcb \<Rightarrow> instant option" where
  "deadline t =
     min_option (somes [retransmit_at t, ack_at t, persist_at t, close_at t, link_retry_at t, keepalive_at t])"

definition due :: "instant option \<Rightarrow> instant \<Rightarrow> bool" where
  "due at now = (case at of None \<Rightarrow> False | Some t \<Rightarrow> t \<le> now)"

section \<open>The tables\<close>

record listener =
  l_local :: sockaddr
  l_backlog :: nat
  l_buffers :: buffers
  l_ready :: "nat list"

record tcp_sockets =
  tcbs :: "tcb option list"
  listeners :: "listener option list"
  isn_key :: "(u64 \<times> u64) option"

definition tcp_sockets_default :: tcp_sockets where
  "tcp_sockets_default = \<lparr>tcbs = [], listeners = [], isn_key = None\<rparr>"

definition port_in_use :: "tcp_sockets \<Rightarrow> u16 \<Rightarrow> bool" where
  "port_in_use s port \<longleftrightarrow>
     (\<exists>l \<in> set (somes (listeners s)). snd (l_local l) = port) \<or>
     (\<exists>t \<in> set (somes (tcbs s)). snd (t_local t) = port)"

text \<open>The ports of the ephemeral range from the random one on.\<close>

definition ephemeral_span :: u32 where
  "ephemeral_span = ucast (0xffff - EPHEMERAL_FIRST) + 1"

definition ephemeral_ports :: "u32 \<Rightarrow> u16 list" where
  "ephemeral_ports rnd =
     (let start = rnd mod ephemeral_span
      in map (\<lambda>i. EPHEMERAL_FIRST + ucast ((start + word_of_nat i) mod ephemeral_span)) [0..<unat ephemeral_span])"

definition ephemeral :: "tcp_sockets \<Rightarrow> u32 \<Rightarrow> (net_error, u16) res" where
  "ephemeral s rnd =
     (case find (\<lambda>port. \<not> port_in_use s port) (ephemeral_ports rnd) of
        None \<Rightarrow> Err AddrInUse | Some port \<Rightarrow> Ok port)"

text \<open>\<open>rnd\<close> gives the random words drawn for a missing key.\<close>

definition isn :: "tcp_sockets \<Rightarrow> (nat \<Rightarrow> u32) \<Rightarrow> sockaddr \<Rightarrow> sockaddr \<Rightarrow> instant \<Rightarrow> u32 \<times> tcp_sockets" where
  "isn s rnd local remote now =
     (let word = (\<lambda>i. push_bit 32 (ucast (rnd i)) OR ucast (rnd (i + 1)));
          key = (case isn_key s of Some k \<Rightarrow> k | None \<Rightarrow> (word 0, word 2));
          tuple = u32_bytes (fst local) @ u16_bytes (snd local) @ u32_bytes (fst remote) @ u16_bytes (snd remote)
      in (word_of_nat (now div 4) + ucast (siphash (fst key) (snd key) tuple), s\<lparr>isn_key := Some key\<rparr>))"

definition tcb_insert :: "tcp_sockets \<Rightarrow> tcb \<Rightarrow> nat \<times> tcp_sockets" where
  "tcb_insert s t =
     (case position (\<lambda>x. x = None) (tcbs s) of
        Some i \<Rightarrow> (i, s\<lparr>tcbs := (tcbs s)[i := Some t]\<rparr>)
      | None \<Rightarrow> (length (tcbs s), s\<lparr>tcbs := tcbs s @ [Some t]\<rparr>))"

definition tcb_of :: "tcp_sockets \<Rightarrow> nat \<Rightarrow> tcb option" where
  "tcb_of s i = (if i < length (tcbs s) then tcbs s ! i else None)"

end
