(* ===== verification/Frag.thy ===== *)
theory Frag
  imports Wire Ranges Table
begin

text \<open>
  Reassembly of IPv4 fragments, \<open>libs/devkit_net/src/frag.rs\<close>. At most four datagrams are
  pending; each keeps its bytes, the ranges received (merged as in \<open>Ranges\<close>) and, once the last
  fragment was seen, its total length.
\<close>

section \<open>State and operations\<close>

definition MAX_DATAGRAM :: nat where "MAX_DATAGRAM = 16 * 1024"
definition MAX_PENDING :: nat where "MAX_PENDING = 4"
definition FRAG_TIMEOUT :: duration where "FRAG_TIMEOUT = from_secs 30"

record pending =
  p_src :: ipv4addr
  p_dst :: ipv4addr
  p_protocol :: u8
  p_ident :: u16
  p_data :: "u8 list"
  p_have :: "range list"
  p_total :: "nat option"
  p_deadline :: instant

definition complete :: "pending \<Rightarrow> bool" where
  "complete p = (case p_total p of None \<Rightarrow> False | Some n \<Rightarrow> p_have p = [(0, n)])"

definition add_range :: "pending \<Rightarrow> nat \<Rightarrow> nat \<Rightarrow> pending" where
  "add_range p s e = (case absorb (s, e) (p_have p) of (kept, m) \<Rightarrow> p\<lparr>p_have := insert_range m kept\<rparr>)"

definition same_datagram :: "ipv4 \<Rightarrow> pending \<Rightarrow> bool" where
  "same_datagram ip p \<longleftrightarrow>
     p_src p = ip_src ip \<and> p_dst p = ip_dst ip \<and> p_protocol p = ip_protocol ip \<and> p_ident p = ip_ident ip"

definition new_pending :: "ipv4 \<Rightarrow> instant \<Rightarrow> pending" where
  "new_pending ip now =
     \<lparr>p_src = ip_src ip, p_dst = ip_dst ip, p_protocol = ip_protocol ip, p_ident = ip_ident ip,
      p_data = [], p_have = [], p_total = None, p_deadline = instant_add now FRAG_TIMEOUT\<rparr>"

definition frag_make_room :: "pending list \<Rightarrow> pending list option" where
  "frag_make_room ps = (if length ps < MAX_PENDING then Some ps else evict_least p_deadline ps)"

text \<open>The index of the datagram of \<open>ip\<close>, with a fresh entry when there is none; the entry that
  times out first makes room for it.\<close>

definition frag_slot :: "pending list \<Rightarrow> ipv4 \<Rightarrow> instant \<Rightarrow> (nat \<times> pending list) option" where
  "frag_slot ps ip now =
     (case position (same_datagram ip) ps of
        Some i \<Rightarrow> Some (i, ps)
      | None \<Rightarrow> do {
          ps \<leftarrow> frag_make_room ps;
          Some (length ps, ps @ [new_pending ip now])
        })"

definition frag_store :: "pending \<Rightarrow> ipv4 \<Rightarrow> u8 list \<Rightarrow> pending option" where
  "frag_store p ip payload = do {
     let start = fragment_offset ip;
     let stop = start + length payload;
     let p = (if more_fragments ip then p else p\<lparr>p_total := Some stop\<rparr>);
     let p = (if length (p_data p) < stop then p\<lparr>p_data := vec_resize (p_data p) stop 0\<rparr> else p);
     d \<leftarrow> copy_at (p_data p) start payload;
     Some (add_range (p\<lparr>p_data := d\<rparr>) start stop)
   }"

definition frag_add ::
  "pending list \<Rightarrow> ipv4 \<Rightarrow> u8 list \<Rightarrow> instant \<Rightarrow> (u8 list option \<times> pending list) option" where
  "frag_add ps ip payload now = do {
     (i, ps) \<leftarrow> frag_slot ps ip now;
     let p = ps ! i;
     let stop = fragment_offset ip + length payload;
     if MAX_DATAGRAM < stop \<or> (case p_total p of None \<Rightarrow> False | Some n \<Rightarrow> n < stop)
     then Some (None, swap_remove ps i)
     else do {
       p \<leftarrow> frag_store p ip payload;
       let ps = ps[i := p];
       if \<not> complete p then Some (None, ps)
       else Some (Some (take (the (p_total p)) (p_data p)), swap_remove ps i)
     }
   }"

definition frag_next_deadline :: "pending list \<Rightarrow> instant option" where
  "frag_next_deadline ps = min_option (map p_deadline ps)"

definition frag_poll :: "pending list \<Rightarrow> instant \<Rightarrow> instant option \<times> pending list" where
  "frag_poll ps now =
     (let ps = filter (\<lambda>p. now < p_deadline p) ps in (min_option (map p_deadline ps), ps))"

section \<open>Invariant\<close>

type_synonym frag_key = "ipv4addr \<times> ipv4addr \<times> u8 \<times> u16"

definition pending_key :: "pending \<Rightarrow> frag_key" where
  "pending_key p = (p_src p, p_dst p, p_protocol p, p_ident p)"

definition ip_key :: "ipv4 \<Rightarrow> frag_key" where
  "ip_key ip = (ip_src ip, ip_dst ip, ip_protocol ip, ip_ident ip)"

definition pending_wf :: "pending \<Rightarrow> bool" where
  "pending_wf p \<longleftrightarrow>
     apart_ranges (p_have p) \<and> length (p_data p) \<le> MAX_DATAGRAM \<and> (\<forall>r \<in> set (p_have p). snd r \<le> length (p_data p))"

definition frag_wf :: "pending list \<Rightarrow> bool" where
  "frag_wf ps \<longleftrightarrow> table pending_key MAX_PENDING ps \<and> (\<forall>p \<in> set ps. pending_wf p)"

interpretation ft: keyed_table pending_key MAX_PENDING frag_make_room
  unfolding frag_make_room_def [abs_def] by (rule keyed_table_evict_least) (simp add: MAX_PENDING_def)

text \<open>A fragment of the datagram \<open>d\<close>, and a pending entry that holds parts of \<open>d\<close> only.\<close>

definition fragment_of :: "u8 list \<Rightarrow> ipv4 \<Rightarrow> u8 list \<Rightarrow> bool" where
  "fragment_of d ip payload \<longleftrightarrow>
     fragment_offset ip + length payload \<le> length d \<and>
     payload = take (length payload) (drop (fragment_offset ip) d) \<and>
     (\<not> more_fragments ip \<longrightarrow> fragment_offset ip + length payload = length d)"

definition holds_part :: "u8 list \<Rightarrow> pending \<Rightarrow> bool" where
  "holds_part d p \<longleftrightarrow>
     (\<forall>i \<in> covered (p_have p). i < length (p_data p) \<and> i < length d \<and> p_data p ! i = d ! i) \<and>
     (\<forall>n. p_total p = Some n \<longrightarrow> n = length d) \<and>
     (\<forall>r \<in> set (p_have p). snd r \<le> length d)"

section \<open>Lemmas on one entry\<close>

lemma same_datagram_key: "same_datagram ip p \<longleftrightarrow> pending_key p = ip_key ip"
  by (auto simp: same_datagram_def pending_key_def ip_key_def)

lemma new_pending_sel [simp]:
  "pending_key (new_pending ip now) = ip_key ip" "p_data (new_pending ip now) = []"
  "p_have (new_pending ip now) = []" "p_total (new_pending ip now) = None"
  by (simp_all add: new_pending_def pending_key_def ip_key_def)

lemma new_pending_wf [simp]: "pending_wf (new_pending ip now)" "holds_part d (new_pending ip now)"
  by (simp_all add: pending_wf_def holds_part_def)

lemma frag_store_spec:
  assumes wf: "pending_wf p" and le: "fragment_offset ip + length payload \<le> MAX_DATAGRAM"
  shows "\<exists>q. frag_store p ip payload = Some q \<and> pending_wf q \<and> pending_key q = pending_key p \<and>
    p_deadline q = p_deadline p \<and>
    p_total q = (if more_fragments ip then p_total p else Some (fragment_offset ip + length payload)) \<and>
    covered (p_have q) = covered (p_have p) \<union> {fragment_offset ip..<fragment_offset ip + length payload} \<and>
    (\<forall>n. (\<forall>r \<in> set (p_have p). snd r \<le> n) \<and> fragment_offset ip + length payload \<le> n \<longrightarrow> (\<forall>r \<in> set (p_have q). snd r \<le> n)) \<and>
    length (p_data q) = max (length (p_data p)) (fragment_offset ip + length payload) \<and>
    (\<forall>i < length (p_data q). p_data q ! i =
       (if fragment_offset ip \<le> i \<and> i < fragment_offset ip + length payload then payload ! (i - fragment_offset ip)
        else if i < length (p_data p) then p_data p ! i else 0))"
proof -
  define start where "start = fragment_offset ip"
  define stop where "stop = start + length payload"
  define p1 where "p1 = (if more_fragments ip then p else p\<lparr>p_total := Some stop\<rparr>)"
  define p2 where "p2 = (if length (p_data p1) < stop then p1\<lparr>p_data := vec_resize (p_data p1) stop 0\<rparr> else p1)"
  have d1: "p_data p1 = p_data p" by (simp add: p1_def)
  have d2: "length (p_data p2) = max (length (p_data p)) stop" by (simp add: p2_def d1)
  obtain d where d: "copy_at (p_data p2) start payload = Some d"
    using copy_at_in_range [of start payload "p_data p2"] d2 by (auto simp: stop_def)
  obtain kept m where ab: "absorb (start, stop) (p_have p) = (kept, m)" by (cases "absorb (start, stop) (p_have p)")
  define q where "q = p2\<lparr>p_data := d, p_have := insert_range m kept\<rparr>"
  have st: "frag_store p ip payload = Some q"
    using d ab unfolding q_def p2_def p1_def start_def stop_def
    by (auto simp: frag_store_def Let_def add_range_def split: if_splits)
  have ap: "apart_ranges (p_have p)" using wf by (simp add: pending_wf_def)
  have ss: "start \<le> stop" by (simp add: stop_def)
  note A = add_range_spec [OF ap ss ab]
  have "apart_ranges (insert_range m kept) \<and> covered (insert_range m kept) = covered (p_have p) \<union> {start..<stop} \<and>
      (\<forall>r \<in> set (insert_range m kept). snd r \<le> max (length (p_data p)) stop)"
    by (rule A) (use wf in \<open>auto simp: pending_wf_def max_def\<close>)
  moreover have "\<forall>n. (\<forall>r \<in> set (p_have p). snd r \<le> n) \<and> stop \<le> n \<longrightarrow> (\<forall>r \<in> set (insert_range m kept). snd r \<le> n)"
    using A by blast
  moreover have ld: "length d = max (length (p_data p)) stop" using length_copy_at [OF d] d2 by simp
  moreover have "\<forall>i < length d. d ! i = (if start \<le> i \<and> i < stop then payload ! (i - start)
        else if i < length (p_data p) then p_data p ! i else 0)"
    using nth_copy_at [OF d] ld d2 d1 by (auto simp: stop_def p2_def nth_vec_resize)
  ultimately show ?thesis
    using st le wf unfolding start_def [symmetric] stop_def [symmetric]
    by (intro exI [of _ q]) (auto simp: q_def pending_wf_def pending_key_def p2_def p1_def stop_def start_def)
qed

lemma frag_store_holds:
  assumes hp: "holds_part d p" and f: "fragment_of d ip payload" and wf: "pending_wf p"
    and le: "fragment_offset ip + length payload \<le> MAX_DATAGRAM"
    and st: "frag_store p ip payload = Some q"
  shows "holds_part d q"
proof -
  define start where "start = fragment_offset ip"
  obtain q' where S': "frag_store p ip payload = Some q'"
    and S: "covered (p_have q') = covered (p_have p) \<union> {start..<start + length payload}"
    "\<forall>n. (\<forall>r \<in> set (p_have p). snd r \<le> n) \<and> start + length payload \<le> n \<longrightarrow> (\<forall>r \<in> set (p_have q'). snd r \<le> n)"
    "p_total q' = (if more_fragments ip then p_total p else Some (start + length payload))"
    "length (p_data q') = max (length (p_data p)) (start + length payload)"
    "\<forall>i < length (p_data q'). p_data q' ! i = (if start \<le> i \<and> i < start + length payload then payload ! (i - start)
        else if i < length (p_data p) then p_data p ! i else 0)"
    using frag_store_spec [OF wf le] unfolding start_def [symmetric] by blast
  have q: "q' = q" using S' st by simp
  note S = S [unfolded q]
  have pl: "start + length payload \<le> length d" and pe: "payload = take (length payload) (drop start d)"
    using f unfolding fragment_of_def start_def by blast+
  have pn: "payload ! j = d ! (start + j)" if "j < length payload" for j
    using pl that by (subst pe) simp
  have hv: "\<forall>r \<in> set (p_have q). snd r \<le> length d"
    using S(2) hp pl by (auto simp: holds_part_def)
  have "p_data q ! i = d ! i \<and> i < length (p_data q) \<and> i < length d" if i: "i \<in> covered (p_have q)" for i
  proof (cases "start \<le> i \<and> i < start + length payload")
    case True
    then show ?thesis using S(4,5) pl pn [of "i - start"] by auto
  next
    case False
    then have "i \<in> covered (p_have p)" using i S(1) by auto
    then have "i < length (p_data p)" "i < length d" "p_data p ! i = d ! i" using hp by (auto simp: holds_part_def)
    then show ?thesis using S(4,5) False by auto
  qed
  moreover have "\<forall>n. p_total q = Some n \<longrightarrow> n = length d"
    using S(3) hp f by (auto simp: holds_part_def fragment_of_def start_def)
  ultimately show ?thesis using hv by (auto simp: holds_part_def)
qed

lemma complete_data:
  assumes "holds_part d p" and "complete p"
  shows "take (the (p_total p)) (p_data p) = d"
proof -
  have t: "p_total p = Some (length d)" and h: "p_have p = [(0, length d)]"
    using assms by (auto simp: complete_def holds_part_def split: option.splits)
  have H: "\<And>i. i < length d \<Longrightarrow> i < length (p_data p) \<and> p_data p ! i = d ! i"
    using assms(1) h by (auto simp: holds_part_def)
  have "length d \<le> length (p_data p)"
    using H [of "length d - 1"] by (cases "length d") auto
  then show ?thesis using H t by (auto intro!: nth_equalityI)
qed

lemma complete_covered:
  assumes "pending_wf p" and "holds_part d p" and "covered (p_have p) = {0..<length d}" and "d \<noteq> []"
    and "p_total p = Some (length d)"
  shows "complete p"
proof -
  have "p_have p = [(0, length d)]"
    by (rule covered_all) (use assms in \<open>auto simp: pending_wf_def holds_part_def\<close>)
  then show ?thesis using assms by (simp add: complete_def)
qed

section \<open>Lemmas on the table\<close>

lemma frag_slot_cases:
  assumes wf: "frag_wf ps"
  obtains (old) i where "frag_slot ps ip now = Some (i, ps)" "i < length ps" "pending_key (ps ! i) = ip_key ip"
  | (new) ts where "frag_slot ps ip now = Some (length ts, ts @ [new_pending ip now])" "set ts \<subseteq> set ps"
      "frag_wf (ts @ [new_pending ip now])" "ip_key ip \<notin> pending_key ` set ps"
proof (cases "position (same_datagram ip) ps")
  case (Some i)
  then have "frag_slot ps ip now = Some (i, ps)" by (simp add: frag_slot_def)
  moreover have "i < length ps" "pending_key (ps ! i) = ip_key ip"
    using Some by (auto simp: position_Some_iff same_datagram_key)
  ultimately show ?thesis by (rule old)
next
  case None
  then have no: "ip_key ip \<notin> pending_key ` set ps"
    by (auto simp: position_None_iff same_datagram_key)
  obtain ts where ts: "frag_make_room ps = Some ts" "set ts \<subseteq> set ps"
    using ft.room_spec [of ps] wf by (auto simp: frag_wf_def)
  have "table pending_key MAX_PENDING (ts @ [new_pending ip now])"
    by (rule ft.push_table [OF _ ts(1)]) (use wf no in \<open>simp_all add: frag_wf_def\<close>)
  then have "frag_wf (ts @ [new_pending ip now])" using wf ts(2) by (auto simp: frag_wf_def)
  moreover have "frag_slot ps ip now = Some (length ts, ts @ [new_pending ip now])"
    using None ts(1) by (simp add: frag_slot_def)
  ultimately show ?thesis using ts(2) no by (intro new)
qed

lemma frag_slot_spec:
  assumes wf: "frag_wf ps"
  shows "\<exists>i qs. frag_slot ps ip now = Some (i, qs) \<and> frag_wf qs \<and> i < length qs \<and> pending_key (qs ! i) = ip_key ip \<and>
    ((\<forall>p \<in> set ps. holds_part (d (pending_key p)) p) \<longrightarrow> (\<forall>p \<in> set qs. holds_part (d (pending_key p)) p)) \<and>
    (if ip_key ip \<in> pending_key ` set ps then qs = ps else qs ! i = new_pending ip now)"
  using wf
proof (cases rule: frag_slot_cases [of ps ip now])
  case (old i)
  have "ip_key ip \<in> pending_key ` set ps" using old(2,3) by (metis image_eqI nth_mem)
  then show ?thesis using old wf by auto
next
  case (new ts)
  then show ?thesis by auto
qed

lemma frag_wf_remove: "frag_wf ps \<Longrightarrow> i < length ps \<Longrightarrow> frag_wf (swap_remove ps i)"
  using mset_swap_remove_set [of i ps] table_submset [OF _ mset_swap_remove_le [of i ps], of pending_key MAX_PENDING]
  unfolding frag_wf_def by auto

lemma frag_wf_update:
  "frag_wf ps \<Longrightarrow> pending_wf q \<Longrightarrow> pending_key q = pending_key (ps ! i) \<Longrightarrow> frag_wf (ps[i := q])"
  using set_update_subset_insert [of ps i q] table_update [of pending_key MAX_PENDING ps q i]
  unfolding frag_wf_def by auto

text \<open>What a fragment does to the table: the entry of its key is the slot, and is given up, updated
  or completed.\<close>

lemma frag_add_cases:
  assumes wf: "frag_wf ps"
  obtains (given_up) i qs where "frag_slot ps ip now = Some (i, qs)" "frag_wf qs" "i < length qs"
      "frag_add ps ip payload now = Some (None, swap_remove qs i)"
      "MAX_DATAGRAM < fragment_offset ip + length payload \<or>
       (\<exists>n. p_total (qs ! i) = Some n \<and> n < fragment_offset ip + length payload)"
  | (kept) i qs q where "frag_slot ps ip now = Some (i, qs)" "frag_wf qs" "i < length qs"
      "fragment_offset ip + length payload \<le> MAX_DATAGRAM"
      "frag_store (qs ! i) ip payload = Some q" "pending_wf q" "pending_key q = ip_key ip" "\<not> complete q"
      "frag_add ps ip payload now = Some (None, qs[i := q])"
  | (whole) i qs q where "frag_slot ps ip now = Some (i, qs)" "frag_wf qs" "i < length qs"
      "fragment_offset ip + length payload \<le> MAX_DATAGRAM"
      "frag_store (qs ! i) ip payload = Some q" "pending_wf q" "pending_key q = ip_key ip" "complete q"
      "frag_add ps ip payload now = Some (Some (take (the (p_total q)) (p_data q)), swap_remove (qs[i := q]) i)"
proof -
  obtain i qs where slot: "frag_slot ps ip now = Some (i, qs)" "frag_wf qs" "i < length qs"
    "pending_key (qs ! i) = ip_key ip"
    using frag_slot_spec [OF wf, where d = "\<lambda>_. []"] by blast
  have pw: "pending_wf (qs ! i)" using slot by (simp add: frag_wf_def)
  show thesis
  proof (cases "MAX_DATAGRAM < fragment_offset ip + length payload \<or>
      (case p_total (qs ! i) of None \<Rightarrow> False | Some n \<Rightarrow> n < fragment_offset ip + length payload)")
    case True
    have "frag_add ps ip payload now = Some (None, swap_remove qs i)"
      using slot(1) True by (simp add: frag_add_def Let_def)
    then show thesis using True by (intro given_up [OF slot(1-3)]) (auto split: option.splits)
  next
    case False
    then have le: "fragment_offset ip + length payload \<le> MAX_DATAGRAM" by simp
    obtain q where q: "frag_store (qs ! i) ip payload = Some q" "pending_wf q" "pending_key q = pending_key (qs ! i)"
      using frag_store_spec [OF pw le] by blast
    have add: "frag_add ps ip payload now = (if \<not> complete q then Some (None, qs[i := q])
        else Some (Some (take (the (p_total q)) (p_data q)), swap_remove (qs[i := q]) i))"
      using slot(1) q(1) False by (simp add: frag_add_def Let_def)
    show thesis
    proof (cases "complete q")
      case True
      show thesis by (rule whole [OF slot(1-3) le q(1,2)]) (use True add q(3) slot(4) in simp_all)
    next
      case False
      show thesis by (rule kept [OF slot(1-3) le q(1,2)]) (use False add q(3) slot(4) in simp_all)
    qed
  qed
qed

lemma frag_slot_key:
  assumes "frag_wf ps" "frag_slot ps ip now = Some (i, qs)"
  shows "pending_key (qs ! i) = ip_key ip"
  using frag_slot_spec [OF assms(1), of ip now "\<lambda>_. []"] assms(2) by auto

text \<open>A fragment is handled without a panic and keeps the table well-formed; when every fragment
  belongs to the datagram \<open>d\<close> of its key, what comes out is that datagram.\<close>

lemma frag_add_wf:
  assumes wf: "frag_wf ps"
  shows "\<exists>r qs. frag_add ps ip payload now = Some (r, qs) \<and> frag_wf qs"
  using wf
proof (cases rule: frag_add_cases [of ps ip now payload])
  case (given_up i qs)
  then show ?thesis using frag_wf_remove by blast
next
  case (kept i qs q)
  have "frag_wf (qs[i := q])" using kept frag_slot_key [OF wf kept(1)] by (intro frag_wf_update) auto
  then show ?thesis using kept by blast
next
  case (whole i qs q)
  have "frag_wf (qs[i := q])" using whole frag_slot_key [OF wf whole(1)] by (intro frag_wf_update) auto
  then have "frag_wf (swap_remove (qs[i := q]) i)" using whole(3) by (intro frag_wf_remove) auto
  then show ?thesis using whole by blast
qed

lemma frag_add_sound:
  assumes wf: "frag_wf ps" and h: "\<forall>p \<in> set ps. holds_part (d (pending_key p)) p"
    and f: "fragment_of (d (ip_key ip)) ip payload"
    and add: "frag_add ps ip payload now = Some (r, qs)"
  shows "(\<forall>p \<in> set qs. holds_part (d (pending_key p)) p) \<and> (\<forall>x. r = Some x \<longrightarrow> x = d (ip_key ip))"
proof -
  have slot_h: "\<forall>p \<in> set ts. holds_part (d (pending_key p)) p" if "frag_slot ps ip now = Some (i, ts)" for i ts
    using frag_slot_spec [OF wf, of ip now d] h that by auto
  have store_h: "holds_part (d (ip_key ip)) q"
    if "frag_slot ps ip now = Some (i, ts)" "frag_store (ts ! i) ip payload = Some q" "i < length ts" "frag_wf ts"
      "fragment_offset ip + length payload \<le> MAX_DATAGRAM" for i ts q
  proof -
    have "holds_part (d (ip_key ip)) (ts ! i)"
      using slot_h [OF that(1)] frag_slot_key [OF wf that(1)] that(3) by (metis nth_mem)
    moreover have "pending_wf (ts ! i)" using that(3,4) by (simp add: frag_wf_def)
    ultimately show ?thesis using frag_store_holds f that(2,5) by blast
  qed
  show ?thesis
    using wf
  proof (cases rule: frag_add_cases [of ps ip now payload])
    case (given_up i ts)
    then show ?thesis using add slot_h [OF given_up(1)] mset_swap_remove_set [OF given_up(3)] by auto
  next
    case (kept i ts q)
    note st = store_h [OF kept(1,5,3,2,4)]
    have "holds_part (d (pending_key p)) p" if "p \<in> set (ts[i := q])" for p
      using that set_update_subset_insert [of ts i q] slot_h [OF kept(1)] st kept(7) by auto
    then show ?thesis using add kept(9) by auto
  next
    case (whole i ts q)
    note st = store_h [OF whole(1,5,3,2,4)]
    have "holds_part (d (pending_key p)) p" if "p \<in> set (swap_remove (ts[i := q]) i)" for p
      using that mset_swap_remove_set [of i "ts[i := q]"] whole(3,7) set_update_subset_insert [of ts i q]
        slot_h [OF whole(1)] st by auto
    then show ?thesis using add whole(9) complete_data [OF st whole(8)] by auto
  qed
qed

section \<open>Runs\<close>

text \<open>What the stack does with the table: it adds fragments as they arrive and polls. A run lists the
  datagrams that came out, with their keys.\<close>

datatype frag_event = Arrive ipv4 "u8 list" instant | Tick instant

fun frag_run :: "pending list \<Rightarrow> frag_event list \<Rightarrow> ((frag_key \<times> u8 list) list \<times> pending list) option" where
  "frag_run ps [] = Some ([], ps)"
| "frag_run ps (Arrive ip payload now # evs) = do {
     (r, qs) \<leftarrow> frag_add ps ip payload now;
     (outs, rs) \<leftarrow> frag_run qs evs;
     Some ((case r of None \<Rightarrow> outs | Some x \<Rightarrow> (ip_key ip, x) # outs), rs)
   }"
| "frag_run ps (Tick now # evs) = frag_run (snd (frag_poll ps now)) evs"

fun event_of :: "(frag_key \<Rightarrow> u8 list) \<Rightarrow> frag_event \<Rightarrow> bool" where
  "event_of d (Arrive ip payload now) = fragment_of (d (ip_key ip)) ip payload"
| "event_of d (Tick now) = True"

lemma frag_poll_wf: "frag_wf ps \<Longrightarrow> frag_wf (snd (frag_poll ps now))"
  by (auto simp: frag_wf_def frag_poll_def Let_def table_filter)

lemma set_frag_poll: "set (snd (frag_poll ps now)) = {p \<in> set ps. now < p_deadline p}"
  by (auto simp: frag_poll_def Let_def)

lemma frag_run_wf:
  "frag_wf ps \<Longrightarrow> \<exists>outs qs. frag_run ps evs = Some (outs, qs) \<and> frag_wf qs"
proof (induction ps evs rule: frag_run.induct)
  case (2 ps ip payload now evs)
  obtain r qs where "frag_add ps ip payload now = Some (r, qs)" "frag_wf qs"
    using frag_add_wf [OF "2.prems"] by blast
  then show ?case using "2.IH" by (fastforce split: option.splits)
qed (auto dest: frag_poll_wf)

lemma frag_run_sound:
  "frag_wf ps \<Longrightarrow> \<forall>p \<in> set ps. holds_part (d (pending_key p)) p \<Longrightarrow> list_all (event_of d) evs \<Longrightarrow>
   frag_run ps evs = Some (outs, rs) \<Longrightarrow> \<forall>(k, x) \<in> set outs. x = d k"
proof (induction ps evs arbitrary: outs rs rule: frag_run.induct)
  case (2 ps ip payload now evs)
  obtain r qs where a: "frag_add ps ip payload now = Some (r, qs)" "frag_wf qs"
    using frag_add_wf [OF "2.prems"(1)] by blast
  have f: "fragment_of (d (ip_key ip)) ip payload" using "2.prems"(3) by simp
  note s = frag_add_sound [OF "2.prems"(1,2) f a(1)]
  obtain os where os: "frag_run qs evs = Some (os, rs)"
    "outs = (case r of None \<Rightarrow> os | Some x \<Rightarrow> (ip_key ip, x) # os)"
    using "2.prems"(4) a(1) by (auto simp: bind_eq_Some_conv)
  have "\<forall>(k, x) \<in> set os. x = d k" using "2.IH" [OF a(1) refl a(2)] s "2.prems"(3) os(1) by simp
  then show ?case using os(2) s by (auto split: option.splits)
next
  case (3 ps now evs)
  then show ?case using frag_poll_wf [of ps now] by (simp add: set_frag_poll)
qed simp

subsection \<open>Nothing lost, nothing withheld\<close>

text \<open>The entry of the datagram \<open>x\<close> with key \<open>k\<close> holds at least the bytes of \<open>C\<close>, and knows the
  length once the last fragment was seen.\<close>

definition awaits :: "frag_key \<Rightarrow> u8 list \<Rightarrow> nat set \<Rightarrow> bool \<Rightarrow> pending list \<Rightarrow> bool" where
  "awaits k x C fin ps \<longleftrightarrow> (\<exists>p \<in> set ps. pending_key p = k \<and> holds_part x p \<and> \<not> complete p \<and>
     C \<subseteq> covered (p_have p) \<and> (fin \<longrightarrow> p_total p = Some (length x)))"

lemma frag_add_awaits:
  assumes wf: "frag_wf ps" and f: "fragment_of x ip payload" and len: "length x \<le> MAX_DATAGRAM"
    and add: "frag_add ps ip payload now = Some (r, rs)"
    and st: "awaits (ip_key ip) x C fin ps \<or> C = {} \<and> \<not> fin \<and> ip_key ip \<notin> pending_key ` set ps"
  shows "case r of None \<Rightarrow> awaits (ip_key ip) x (C \<union> {fragment_offset ip..<fragment_offset ip + length payload})
    (fin \<or> \<not> more_fragments ip) rs | Some y \<Rightarrow> y = x"
proof -
  have stop: "fragment_offset ip + length payload \<le> length x" using f by (simp add: fragment_of_def)
  have entry: "holds_part x (ts ! i) \<and> C \<subseteq> covered (p_have (ts ! i)) \<and> (fin \<longrightarrow> p_total (ts ! i) = Some (length x))"
    if slot: "frag_slot ps ip now = Some (i, ts)" for i ts
    using st
  proof
    assume "awaits (ip_key ip) x C fin ps"
    then obtain p where p: "p \<in> set ps" "pending_key p = ip_key ip" "holds_part x p" "C \<subseteq> covered (p_have p)"
      "fin \<longrightarrow> p_total p = Some (length x)" by (auto simp: awaits_def)
    have "ip_key ip \<in> pending_key ` set ps" using p(1,2) by (metis image_eqI)
    then have "ts = ps \<and> i < length ts" using frag_slot_spec [OF wf, of ip now "\<lambda>_. []"] slot by auto
    then have "ts ! i = p" using frag_slot_key [OF wf slot] p(1,2) wf
      by (metis frag_wf_def table_def distinct_map inj_onD nth_mem)
    then show ?thesis using p by simp
  next
    assume "C = {} \<and> \<not> fin \<and> ip_key ip \<notin> pending_key ` set ps"
    moreover from this have "ts ! i = new_pending ip now"
      using frag_slot_spec [OF wf, of ip now "\<lambda>_. []"] slot by auto
    ultimately show ?thesis by simp
  qed
  show ?thesis
    using wf
  proof (cases rule: frag_add_cases [of ps ip now payload])
    case (given_up i ts)
    have "\<forall>n. p_total (ts ! i) = Some n \<longrightarrow> n = length x"
      using entry [OF given_up(1)] unfolding holds_part_def by blast
    then show ?thesis using given_up(5) stop len by fastforce
  next
    case (kept i ts q)
    have pw: "pending_wf (ts ! i)" using kept by (simp add: frag_wf_def)
    have hq: "holds_part x q" using frag_store_holds [OF _ f pw kept(4,5)] entry [OF kept(1)] by blast
    have "covered (p_have q) = covered (p_have (ts ! i)) \<union> {fragment_offset ip..<fragment_offset ip + length payload}"
      "p_total q = (if more_fragments ip then p_total (ts ! i) else Some (fragment_offset ip + length payload))"
      using frag_store_spec [OF pw kept(4)] kept(5) by auto
    then have "C \<union> {fragment_offset ip..<fragment_offset ip + length payload} \<subseteq> covered (p_have q)"
      "fin \<or> \<not> more_fragments ip \<longrightarrow> p_total q = Some (length x)"
      using entry [OF kept(1)] f by (auto simp: fragment_of_def)
    moreover have "q \<in> set rs" using add kept(3,9) by (auto simp: set_update_memI)
    ultimately have "awaits (ip_key ip) x (C \<union> {fragment_offset ip..<fragment_offset ip + length payload})
        (fin \<or> \<not> more_fragments ip) rs"
      using kept(7,8) hq unfolding awaits_def by blast
    then show ?thesis using add kept(9) by simp
  next
    case (whole i ts q)
    have pw: "pending_wf (ts ! i)" using whole by (simp add: frag_wf_def)
    have "holds_part x q" using frag_store_holds [OF _ f pw whole(4,5)] entry [OF whole(1)] by blast
    then show ?thesis using complete_data whole(8,9) add by auto
  qed
qed

type_synonym arrival = "ipv4 \<times> u8 list \<times> instant"

definition arrive :: "arrival \<Rightarrow> frag_event" where
  "arrive f = Arrive (fst f) (fst (snd f)) (snd (snd f))"

definition arrival_range :: "arrival \<Rightarrow> nat set" where
  "arrival_range f = {fragment_offset (fst f)..<fragment_offset (fst f) + length (fst (snd f))}"

lemma frag_run_awaits:
  "frag_wf ps \<Longrightarrow> \<forall>f \<in> set fs. ip_key (fst f) = k \<and> fragment_of x (fst f) (fst (snd f)) \<Longrightarrow> length x \<le> MAX_DATAGRAM \<Longrightarrow>
   awaits k x C fin ps \<or> C = {} \<and> \<not> fin \<and> k \<notin> pending_key ` set ps \<Longrightarrow>
   frag_run ps (map arrive fs) = Some (outs, rs) \<Longrightarrow>
   (k, x) \<in> set outs \<or> fs = [] \<or>
   awaits k x (C \<union> (\<Union>f \<in> set fs. arrival_range f)) (fin \<or> (\<exists>f \<in> set fs. \<not> more_fragments (fst f))) rs"
proof (induction fs arbitrary: ps C fin outs)
  case (Cons f fs)
  obtain ip payload now where f: "f = (ip, payload, now)" by (cases f)
  have frag: "ip_key ip = k" "fragment_of x ip payload" using Cons.prems(2) f by auto
  obtain r qs where a: "frag_add ps ip payload now = Some (r, qs)" "frag_wf qs"
    using frag_add_wf [OF Cons.prems(1)] by blast
  obtain os where os: "frag_run qs (map arrive fs) = Some (os, rs)"
    "outs = (case r of None \<Rightarrow> os | Some x \<Rightarrow> (ip_key ip, x) # os)"
    using Cons.prems(5) a(1) by (auto simp: f arrive_def [of "(ip, payload, now)"] bind_eq_Some_conv)
  note step = frag_add_awaits [OF Cons.prems(1) frag(2) Cons.prems(3) a(1), of C fin, unfolded frag(1), OF Cons.prems(4)]
  show ?case
  proof (cases r)
    case None
    let ?C = "C \<union> arrival_range f"
    let ?fin = "fin \<or> \<not> more_fragments (fst f)"
    have aw: "awaits k x ?C ?fin qs" using step None f by (simp add: arrival_range_def)
    have IH: "(k, x) \<in> set os \<or> fs = [] \<or> awaits k x (?C \<union> (\<Union>f \<in> set fs. arrival_range f))
        (?fin \<or> (\<exists>f \<in> set fs. \<not> more_fragments (fst f))) rs"
      by (rule Cons.IH [OF a(2) _ Cons.prems(3) _ os(1)]) (use Cons.prems(2) aw in auto)
    have sets: "?C \<union> (\<Union>f \<in> set fs. arrival_range f) = C \<union> (\<Union>f \<in> set (f # fs). arrival_range f)"
      "(?fin \<or> (\<exists>f \<in> set fs. \<not> more_fragments (fst f))) = (fin \<or> (\<exists>g \<in> set (f # fs). \<not> more_fragments (fst g)))"
      by auto
    show ?thesis
    proof (cases "fs = []")
      case True
      then show ?thesis using aw os(1) sets by simp
    next
      case False
      then show ?thesis using IH os(2) None unfolding sets by auto
    qed
  next
    case (Some y)
    then show ?thesis using os(2) step frag(1) by simp
  qed
qed simp

section \<open>Properties\<close>

text \<open>C8: Reassembly delivers. When the fragments of one datagram of at most 16 KiB arrive, in any order
  and with any number of duplicates, no fragment of another datagram and no timeout coming between them,
  the whole datagram is handed up, with the bytes its sender gave it.\<close>

theorem frag_run_complete:
  assumes wf: "frag_wf ps" and fresh: "k \<notin> pending_key ` set ps"
    and fs: "\<forall>f \<in> set fs. ip_key (fst f) = k \<and> fragment_of x (fst f) (fst (snd f))"
    and len: "length x \<le> MAX_DATAGRAM" and ne: "x \<noteq> []"
    and cov: "{0..<length x} \<subseteq> (\<Union>f \<in> set fs. arrival_range f)"
    and last: "\<exists>f \<in> set fs. \<not> more_fragments (fst f)"
  shows "\<exists>outs rs. frag_run ps (map arrive fs) = Some (outs, rs) \<and> (k, x) \<in> set outs"
proof -
  obtain outs rs where run: "frag_run ps (map arrive fs) = Some (outs, rs)" "frag_wf rs"
    using frag_run_wf [OF wf] by blast
  have "\<not> awaits k x (\<Union>f \<in> set fs. arrival_range f) True rs"
  proof
    assume "awaits k x (\<Union>f \<in> set fs. arrival_range f) True rs"
    then obtain p where p: "p \<in> set rs" "holds_part x p" "\<not> complete p" "{0..<length x} \<subseteq> covered (p_have p)"
      "p_total p = Some (length x)" using cov by (auto simp: awaits_def)
    have "covered (p_have p) = {0..<length x}" using p(2,4) by (auto simp: holds_part_def)
    then show False using complete_covered [of p x] p run(2) ne by (auto simp: frag_wf_def)
  qed
  then show ?thesis
    using frag_run_awaits [OF wf fs len _ run(1), of "{}" False] fresh last run(1) by auto
qed

text \<open>Two fragments, the last one first and again at the end.\<close>

definition sample_fragment :: "u16 \<Rightarrow> u16 \<Rightarrow> ipv4" where
  "sample_fragment ident fr =
     \<lparr>ip_src = 1, ip_dst = 2, ip_protocol = PROTO_UDP, ip_ttl = 64, ip_ident = ident, ip_frag = fr\<rparr>"

lemma sample_fragment_reads [simp]:
  "ip_key (sample_fragment ident fr) = (1, 2, PROTO_UDP, ident)"
  "ip_src (sample_fragment ident fr) = 1" "ip_dst (sample_fragment ident fr) = 2"
  "ip_protocol (sample_fragment ident fr) = PROTO_UDP" "ip_ident (sample_fragment ident fr) = ident"
  "fragment_offset (sample_fragment ident 1) = 8" "\<not> more_fragments (sample_fragment ident 1)"
  "fragment_offset (sample_fragment ident 0x2000) = 0" "more_fragments (sample_fragment ident 0x2000)"
  by (simp_all add: sample_fragment_def ip_key_def fragment_offset_def more_fragments_def)

lemma frag_run_complete_witness:
  "\<exists>outs rs. frag_run [] (map arrive [(sample_fragment 7 1, [9, 10], 5),
       (sample_fragment 7 0x2000, [1, 2, 3, 4, 5, 6, 7, 8], 6), (sample_fragment 7 1, [9, 10], 7)]) = Some (outs, rs) \<and>
     ((1, 2, PROTO_UDP, 7), [1, 2, 3, 4, 5, 6, 7, 8, 9, 10]) \<in> set outs"
  by (rule frag_run_complete)
    (auto simp: frag_wf_def table_def MAX_DATAGRAM_def fragment_of_def arrival_range_def)

text \<open>C9: Reassembly mixes nothing up. Whatever fragments of whatever datagrams arrive, interleaved with
  timeouts, every datagram handed up is the one its key stands for, byte for byte: \<open>d\<close> gives the
  datagram the sender of each key sent.\<close>

theorem frag_no_corruption:
  "list_all (event_of d) evs \<Longrightarrow> frag_run [] evs = Some (outs, ps) \<Longrightarrow> (k, x) \<in> set outs \<Longrightarrow> x = d k"
  using frag_run_sound [of "[]" d evs outs ps] by (auto simp: frag_wf_def table_def)

lemmas frag_eval = arrive_def frag_add_def frag_slot_def frag_store_def frag_make_room_def Let_def same_datagram_key
  pending_key_def new_pending_def MAX_PENDING_def MAX_DATAGRAM_def vec_resize_def copy_at_def add_range_def
  insert_range_def complete_def swap_remove_def PROTO_UDP_def

lemma frag_no_corruption_witness:
  "\<exists>outs ps x. frag_run [] (map arrive [(sample_fragment 7 1, [9, 10], 5), (sample_fragment 8 1, [3], 5),
       (sample_fragment 7 0x2000, [1, 2, 3, 4, 5, 6, 7, 8], 6)]) = Some (outs, ps) \<and>
     ((1, 2, 17, 7), x) \<in> set outs \<and> x = [1, 2, 3, 4, 5, 6, 7, 8, 9, 10]"
proof -
  let ?d = "\<lambda>k. if k = (1, 2, 17, 7) then [1, 2, 3, 4, 5, 6, 7, 8, 9, 10] else [1, 2, 3, 4, 5, 6, 7, 8, 3]"
  let ?evs = "map arrive [(sample_fragment 7 1, [9, 10], 5), (sample_fragment 8 1, [3], 5),
       (sample_fragment 7 0x2000, [1, 2, 3, 4, 5, 6, 7, 8], 6)]"
  have run: "map_option fst (frag_run [] ?evs) = Some [((1, 2, 17, 7), [1, 2, 3, 4, 5, 6, 7, 8, 9, 10])]"
    by (simp add: frag_eval)
  then obtain outs ps where r: "frag_run [] ?evs = Some (outs, ps)" by auto
  have "list_all (event_of ?d) ?evs" by (simp add: arrive_def fragment_of_def PROTO_UDP_def)
  note nc = frag_no_corruption [OF this r, of "(1, 2, 17, 7)" "[1, 2, 3, 4, 5, 6, 7, 8, 9, 10]"]
  show ?thesis using r run nc by auto
qed

text \<open>C10: Memory stays bounded and nothing panics: after any sequence of fragments and timeouts at most
  four datagrams are pending, each with at most 16 KiB.\<close>

theorem frag_bounded:
  "\<exists>outs ps. frag_run [] evs = Some (outs, ps) \<and> length ps \<le> MAX_PENDING \<and>
     list_all (\<lambda>p. length (p_data p) \<le> MAX_DATAGRAM) ps"
  using frag_run_wf [of "[]" evs] by (auto simp: frag_wf_def table_def pending_wf_def list_all_iff)

end
