(* ===== verification/Stack_State.thy ===== *)
theory Stack_State
  imports Tcp_Control Arp_Cache Frag
begin

text \<open>
  The state of the stack, \<open>libs/devkit_net/src/stack.rs\<close> (with the socket of \<open>udp.rs\<close>, the limiter of
  \<open>icmp.rs\<close> and \<open>link.rs\<close>), its routing, and the sending side: from an IPv4 payload to the frame
  handed to the link.

  The frames handed to the link so far, with what it answered, are kept in \<open>st_sent\<close>; the answer is
  a parameter (\<open>e_tx\<close>) that sees this history, so any link is one. The scratch buffer \<open>buf\<close> of the
  source, cleared on each use, is not part of the state.
\<close>

section \<open>State\<close>

datatype medium = Ethernet | Ip

record link_info =
  li_medium :: medium
  li_mac :: mac
  li_mtu :: nat

record ipv4_config =
  c_address :: ipv4addr
  c_prefix_len :: nat
  c_gateway :: "ipv4addr option"

datatype socket_id = UdpSocket nat | TcpSocket nat | ListenerSocket nat | IfaceSocket iface_id

record iface_stats =
  rx_frames :: u32
  rx_dropped :: u32
  rx_overflow :: u32
  tx_frames :: u32
  tx_dropped :: u32

record iface =
  if_name :: string
  if_info :: link_info
  if_up :: bool
  if_ipv4 :: "ipv4_config option"
  if_dns :: "ipv4addr list"
  if_stats :: iface_stats
  if_announce :: nat
  if_announce_at :: instant
  if_probing :: "ipv4addr option"
  if_conflict :: bool

record limiter =
  lim_tokens :: nat
  lim_refilled :: instant

record udp_socket =
  u_local :: sockaddr
  u_iface :: "iface_id option"
  u_remote :: "sockaddr option"
  u_rx :: ring
  u_queue :: "(sockaddr \<times> nat) list"
  u_error :: "net_error option"

record stack =
  st_ifaces :: "iface list"
  st_loopback :: "u8 list list"
  st_arp :: "arp_entry list"
  st_ident :: u16
  st_frag :: "pending list"
  st_icmp_limit :: limiter
  st_udp :: "udp_socket option list"
  st_tcp :: tcp_sockets
  st_woken :: "socket_id list"
  st_dns_generation :: u32
  st_sent :: "(iface_id \<times> u8 list \<times> bool) list"

record net_env =
  e_platform :: platform
  e_mem :: "nat \<Rightarrow> bool"
  e_tx :: "(iface_id \<times> u8 list \<times> bool) list \<Rightarrow> iface_id \<Rightarrow> u8 list \<Rightarrow> bool"

definition LOOPBACK :: iface_id where "LOOPBACK = 0"
definition LOOPBACK_MTU :: nat where "LOOPBACK_MTU = 16384"
definition LOOPBACK_QUEUE :: nat where "LOOPBACK_QUEUE = 16"
definition ANNOUNCEMENTS :: nat where "ANNOUNCEMENTS = 2"
definition ANNOUNCE_INTERVAL :: duration where "ANNOUNCE_INTERVAL = from_secs 2"
definition ERRORS_PER_SECOND :: nat where "ERRORS_PER_SECOND = 10"
definition ARP_REQUEST :: u16 where "ARP_REQUEST = 1"
definition ARP_REPLY :: u16 where "ARP_REPLY = 2"
definition ETHERTYPE_IPV4 :: u16 where "ETHERTYPE_IPV4 = 0x0800"
definition ETHERTYPE_ARP :: u16 where "ETHERTYPE_ARP = 0x0806"
definition ETHERNET_HEADER :: nat where "ETHERNET_HEADER = 14"
definition ETHERNET_MIN_FRAME :: nat where "ETHERNET_MIN_FRAME = 60"
definition ARP_LEN :: nat where "ARP_LEN = 28"
definition IPV4_HEADER :: nat where "IPV4_HEADER = 20"
definition DEFAULT_TTL :: u8 where "DEFAULT_TTL = 64"

section \<open>Addresses\<close>

definition first_octet :: "ipv4addr \<Rightarrow> nat" where
  "first_octet a = unat (drop_bit 24 a)"

definition is_loopback :: "ipv4addr \<Rightarrow> bool" where
  "is_loopback a \<longleftrightarrow> first_octet a = 127"

definition is_multicast :: "ipv4addr \<Rightarrow> bool" where
  "is_multicast a \<longleftrightarrow> 224 \<le> first_octet a \<and> first_octet a \<le> 239"

definition is_broadcast :: "ipv4addr \<Rightarrow> bool" where
  "is_broadcast a \<longleftrightarrow> a = 0xffffffff"

definition is_unspecified :: "ipv4addr \<Rightarrow> bool" where
  "is_unspecified a \<longleftrightarrow> a = 0"

definition config_mask :: "ipv4_config \<Rightarrow> u32" where
  "config_mask c = (if c_prefix_len c = 0 then 0 else push_bit (32 - c_prefix_len c) 0xffffffff)"

definition config_contains :: "ipv4_config \<Rightarrow> ipv4addr \<Rightarrow> bool" where
  "config_contains c ip \<longleftrightarrow> (ip XOR c_address c) AND config_mask c = 0"

definition config_broadcast :: "ipv4_config \<Rightarrow> ipv4addr" where
  "config_broadcast c = c_address c OR NOT (config_mask c)"

section \<open>Interfaces\<close>

definition announce_soon :: "iface \<Rightarrow> iface" where
  "announce_soon i =
     (let announce = if_up i \<and> li_medium (if_info i) = Ethernet \<and> if_ipv4 i \<noteq> None
      in i\<lparr>if_announce := (if announce then ANNOUNCEMENTS else 0), if_announce_at := 0\<rparr>)"

definition header_len :: "iface \<Rightarrow> nat" where
  "header_len i = (case li_medium (if_info i) of Ethernet \<Rightarrow> ETHERNET_HEADER | Ip \<Rightarrow> 0)"

text \<open>Indexing the interfaces panics for an unknown one.\<close>

definition get_iface :: "stack \<Rightarrow> iface_id \<Rightarrow> iface option" where
  "get_iface st i = (if i < length (st_ifaces st) then Some (st_ifaces st ! i) else None)"

definition set_iface :: "stack \<Rightarrow> iface_id \<Rightarrow> iface \<Rightarrow> stack" where
  "set_iface st i x = st\<lparr>st_ifaces := (st_ifaces st)[i := x]\<rparr>"

definition stats_default :: iface_stats where
  "stats_default = \<lparr>rx_frames = 0, rx_dropped = 0, rx_overflow = 0, tx_frames = 0, tx_dropped = 0\<rparr>"

definition add_interface :: "stack \<Rightarrow> string \<Rightarrow> link_info \<Rightarrow> (iface_id \<times> stack) option" where
  "add_interface st name info =
     (if length (st_ifaces st) < 256 then
        Some (length (st_ifaces st), st\<lparr>st_ifaces := st_ifaces st @
          [\<lparr>if_name = name, if_info = info, if_up = False, if_ipv4 = None, if_dns = [], if_stats = stats_default,
            if_announce = 0, if_announce_at = 0, if_probing = None, if_conflict = False\<rparr>]\<rparr>)
      else None)"

definition set_link_up :: "stack \<Rightarrow> iface_id \<Rightarrow> bool \<Rightarrow> stack option" where
  "set_link_up st i up = do {
     x \<leftarrow> get_iface st i;
     let st = set_iface st i (announce_soon (x\<lparr>if_up := up\<rparr>));
     Some (if up then st else st\<lparr>st_arp := arp_forget_iface (st_arp st) i\<rparr>)
   }"

definition wake :: "stack \<Rightarrow> socket_id \<Rightarrow> stack" where
  "wake st s = (if s \<in> set (st_woken st) then st else st\<lparr>st_woken := st_woken st @ [s]\<rparr>)"

definition set_ipv4 :: "stack \<Rightarrow> iface_id \<Rightarrow> ipv4_config option \<Rightarrow> stack option" where
  "set_ipv4 st i config =
     (if (case config of None \<Rightarrow> True | Some c \<Rightarrow> c_prefix_len c \<le> 32) then do {
        x \<leftarrow> get_iface st i;
        let st = set_iface st i (announce_soon (x\<lparr>if_ipv4 := config\<rparr>));
        let st = st\<lparr>st_arp := arp_forget_iface (st_arp st) i\<rparr>;
        Some (wake st (IfaceSocket i))
      }
      else None)"

definition set_dns_servers :: "stack \<Rightarrow> iface_id \<Rightarrow> ipv4addr list \<Rightarrow> stack option" where
  "set_dns_servers st i servers = do {
     x \<leftarrow> get_iface st i;
     Some (if if_dns x \<noteq> servers
           then (set_iface st i (x\<lparr>if_dns := servers\<rparr>))\<lparr>st_dns_generation := st_dns_generation st + 1\<rparr>
           else st)
   }"

text \<open>The servers of the interfaces that are up, each once, in order.\<close>

definition name_servers :: "stack \<Rightarrow> ipv4addr list" where
  "name_servers st =
     foldl (\<lambda>servers s. if s \<in> set servers then servers else servers @ [s]) []
       (concat (map if_dns (filter if_up (st_ifaces st))))"

definition set_link_info :: "stack \<Rightarrow> iface_id \<Rightarrow> link_info \<Rightarrow> stack option" where
  "set_link_info st i info = do { x \<leftarrow> get_iface st i; Some (set_iface st i (x\<lparr>if_info := info\<rparr>)) }"

definition limiter_default :: limiter where
  "limiter_default = \<lparr>lim_tokens = ERRORS_PER_SECOND, lim_refilled = 0\<rparr>"

definition stack_new :: "stack option" where
  "stack_new = do {
     let st = \<lparr>st_ifaces = [], st_loopback = [], st_arp = [], st_ident = 0, st_frag = [],
               st_icmp_limit = limiter_default, st_udp = [], st_tcp = tcp_sockets_default, st_woken = [],
               st_dns_generation = 0, st_sent = []\<rparr>;
     (lo, st) \<leftarrow> add_interface st ''lo'' \<lparr>li_medium = Ip, li_mac = replicate 6 0, li_mtu = LOOPBACK_MTU\<rparr>;
     st \<leftarrow> set_ipv4 st lo (Some \<lparr>c_address = 0x7f000001, c_prefix_len = 8, c_gateway = None\<rparr>);
     set_link_up st lo True
   }"

section \<open>Routing\<close>

definition is_own_address :: "stack \<Rightarrow> ipv4addr \<Rightarrow> bool" where
  "is_own_address st ip \<longleftrightarrow> (\<exists>i \<in> set (st_ifaces st). case if_ipv4 i of None \<Rightarrow> False | Some c \<Rightarrow> c_address c = ip)"

text \<open>The configured interfaces that are up, except the loopback, with their numbers.\<close>

definition configured :: "stack \<Rightarrow> (iface_id \<times> ipv4_config) list" where
  "configured st =
     concat (map (\<lambda>(n, i). case if_ipv4 i of None \<Rightarrow> [] | Some c \<Rightarrow> [(n, c)])
       (filter (\<lambda>(_, i). if_up i) (drop 1 (enumerate 0 (st_ifaces st)))))"

definition route_v4 :: "stack \<Rightarrow> ipv4addr \<Rightarrow> (iface_id \<times> ipv4addr) option" where
  "route_v4 st dst =
     (if is_loopback dst \<or> is_own_address st dst then Some (LOOPBACK, dst)
      else case find (\<lambda>(_, c). is_broadcast dst \<or> config_contains c dst) (configured st) of
        Some (i, _) \<Rightarrow> Some (i, dst)
      | None \<Rightarrow>
          (case find (\<lambda>(_, c). c_gateway c \<noteq> None) (configured st) of
             Some (i, c) \<Rightarrow> map_option (\<lambda>g. (i, g)) (c_gateway c)
           | None \<Rightarrow> None))"

definition next_hop_on :: "stack \<Rightarrow> iface_id \<Rightarrow> ipv4addr \<Rightarrow> ipv4addr option option" where
  "next_hop_on st i dst =
     (if is_broadcast dst then Some (Some dst)
      else do {
        x \<leftarrow> get_iface st i;
        Some (case if_ipv4 x of None \<Rightarrow> None
              | Some c \<Rightarrow> if config_contains c dst then Some dst else c_gateway c)
      })"

text \<open>The subtraction panics for a link with an MTU below the header.\<close>

definition mtu_to :: "stack \<Rightarrow> ipv4addr \<Rightarrow> nat option option" where
  "mtu_to st dst =
     (case route_v4 st dst of
        None \<Rightarrow> Some None
      | Some (i, _) \<Rightarrow> do {
          x \<leftarrow> get_iface st i;
          if IPV4_HEADER \<le> li_mtu (if_info x) then Some (Some (li_mtu (if_info x) - IPV4_HEADER)) else None
        })"

definition source_for :: "stack \<Rightarrow> ipv4addr \<Rightarrow> ipv4addr option option" where
  "source_for st dst =
     (if is_loopback dst \<or> is_own_address st dst then Some (Some dst)
      else case route_v4 st dst of
        None \<Rightarrow> Some None
      | Some (i, _) \<Rightarrow> do { x \<leftarrow> get_iface st i; Some (map_option c_address (if_ipv4 x)) })"

definition valid_source :: "stack \<Rightarrow> iface_id \<Rightarrow> ipv4addr \<Rightarrow> bool option" where
  "valid_source st i src =
     (if is_broadcast src \<or> is_multicast src \<or> 240 \<le> first_octet src then Some False
      else if i = LOOPBACK then Some True
      else do {
        x \<leftarrow> get_iface st i;
        let subnet_broadcast = (case if_ipv4 x of None \<Rightarrow> False | Some c \<Rightarrow> c_prefix_len c < 31 \<and> src = config_broadcast c);
        Some (\<not> is_loopback src \<and> \<not> subnet_broadcast)
      })"

section \<open>Sending\<close>

definition emit :: "net_env \<Rightarrow> stack \<Rightarrow> iface_id \<Rightarrow> u8 list \<Rightarrow> (bool \<times> stack) option" where
  "emit E st i frame = do {
     let loopback_full = LOOPBACK_QUEUE \<le> length (st_loopback st);
     x \<leftarrow> get_iface st i;
     let (sent, st) =
       (if \<not> if_up x then (False, st)
        else if i = LOOPBACK then (\<not> loopback_full, st)
        else let ok = e_tx E (st_sent st) i frame in (ok, st\<lparr>st_sent := st_sent st @ [(i, frame, ok)]\<rparr>));
     let s = if_stats x;
     if \<not> sent then
       Some (False, set_iface st i (x\<lparr>if_stats := s\<lparr>tx_dropped := tx_dropped s + 1\<rparr>\<rparr>))
     else
       let st = set_iface st i (x\<lparr>if_stats := s\<lparr>tx_frames := tx_frames s + 1\<rparr>\<rparr>)
       in Some (True, if i = LOOPBACK then st\<lparr>st_loopback := st_loopback st @ [frame]\<rparr> else st)
   }"

definition emit_ethernet ::
  "net_env \<Rightarrow> stack \<Rightarrow> iface_id \<Rightarrow> mac \<Rightarrow> u16 \<Rightarrow> u8 list \<Rightarrow> (bool \<times> stack) option" where
  "emit_ethernet E st i dst ethertype buf = do {
     x \<leftarrow> get_iface st i;
     buf \<leftarrow> ethernet_write_header buf dst (li_mac (if_info x)) ethertype;
     let buf = (if length buf < ETHERNET_MIN_FRAME then vec_resize buf ETHERNET_MIN_FRAME 0 else buf);
     emit E st i buf
   }"

definition send_arp :: "net_env \<Rightarrow> stack \<Rightarrow> iface_id \<Rightarrow> mac \<Rightarrow> arp \<Rightarrow> stack option" where
  "send_arp E st i dst a = do {
     let buf = replicate (ETHERNET_HEADER + ARP_LEN) 0;
     body \<leftarrow> arp_write a (drop ETHERNET_HEADER buf);
     let buf = take ETHERNET_HEADER buf @ body;
     (_, st) \<leftarrow> emit_ethernet E st i dst ETHERTYPE_ARP buf;
     Some st
   }"

definition send_arp_to :: "net_env \<Rightarrow> stack \<Rightarrow> iface_id \<Rightarrow> mac \<Rightarrow> ipv4addr \<Rightarrow> stack option" where
  "send_arp_to E st i dst ip = do {
     x \<leftarrow> get_iface st i;
     let spa = (case if_ipv4 x of None \<Rightarrow> 0 | Some c \<Rightarrow> c_address c);
     send_arp E st i dst \<lparr>arp_op = ARP_REQUEST, arp_sha = li_mac (if_info x), arp_spa = spa,
                          arp_tha = replicate 6 0, arp_tpa = ip\<rparr>
   }"

definition send_arp_request :: "net_env \<Rightarrow> stack \<Rightarrow> iface_id \<Rightarrow> ipv4addr \<Rightarrow> stack option" where
  "send_arp_request E st i ip = send_arp_to E st i BROADCAST_MAC ip"

text \<open>\<open>fill\<close> writes the payload of \<open>len\<close> zero bytes, given the source address.\<close>

definition send_ipv4_on ::
  "net_env \<Rightarrow> stack \<Rightarrow> iface_id \<Rightarrow> ipv4addr \<Rightarrow> ipv4addr option \<Rightarrow> ipv4addr \<Rightarrow> u8 \<Rightarrow> nat \<Rightarrow> instant \<Rightarrow>
   (u8 list \<Rightarrow> ipv4addr \<Rightarrow> u8 list option) \<Rightarrow> ((net_error, unit) res \<times> stack) option" where
  "send_ipv4_on E st i next_hop src dst protocol len now fill = do {
     x \<leftarrow> get_iface st i;
     case (case src of Some s \<Rightarrow> Some s | None \<Rightarrow> map_option c_address (if_ipv4 x)) of
       None \<Rightarrow> Some (Err NoRoute, st)
     | Some src \<Rightarrow>
         if li_mtu (if_info x) < IPV4_HEADER + len then Some (Err MessageTooLarge, st)
         else do {
           let header = header_len x;
           let broadcast = (is_broadcast next_hop \<or>
             (case if_ipv4 x of None \<Rightarrow> False | Some c \<Rightarrow> next_hop = config_broadcast c));
           let st = st\<lparr>st_ident := st_ident st + 1\<rparr>;
           let ip = \<lparr>ip_src = src, ip_dst = dst, ip_protocol = protocol, ip_ttl = DEFAULT_TTL,
                     ip_ident = st_ident st, ip_frag = 0\<rparr>;
           h \<leftarrow> ipv4_write_header (e_platform E) ip (replicate (IPV4_HEADER + len) 0) len;
           body \<leftarrow> fill (drop IPV4_HEADER h) src;
           let packet = take IPV4_HEADER h @ body;
           let buf = replicate header 0 @ packet;
           (sent, st) \<leftarrow>
             (case li_medium (if_info x) of
                Ip \<Rightarrow> emit E st i buf
              | Ethernet \<Rightarrow>
                  if broadcast then emit_ethernet E st i BROADCAST_MAC ETHERTYPE_IPV4 buf
                  else do {
                    (answer, es) \<leftarrow> arp_resolve (st_arp st) i next_hop now packet;
                    let st = st\<lparr>st_arp := es\<rparr>;
                    case answer of
                      Known m \<Rightarrow> emit_ethernet E st i m ETHERTYPE_IPV4 buf
                    | Refresh m \<Rightarrow> do {
                        (sent, st) \<leftarrow> emit_ethernet E st i m ETHERTYPE_IPV4 buf;
                        st \<leftarrow> send_arp_to E st i m next_hop;
                        Some (sent, st)
                      }
                    | Request \<Rightarrow> do { st \<leftarrow> send_arp_request E st i next_hop; Some (True, st) }
                    | Waiting \<Rightarrow> Some (True, st)
                  });
           Some (if sent then Ok () else Err WouldBlock, st)
         }
   }"

definition send_ipv4 ::
  "net_env \<Rightarrow> stack \<Rightarrow> ipv4addr option \<Rightarrow> ipv4addr \<Rightarrow> u8 \<Rightarrow> nat \<Rightarrow> instant \<Rightarrow>
   (u8 list \<Rightarrow> ipv4addr \<Rightarrow> u8 list option) \<Rightarrow> ((net_error, unit) res \<times> stack) option" where
  "send_ipv4 E st src dst protocol len now fill =
     (case route_v4 st dst of
        None \<Rightarrow> Some (Err NoRoute, st)
      | Some (i, next_hop) \<Rightarrow> send_ipv4_on E st i next_hop src dst protocol len now fill)"

end
