(* ===== verification/Dhcp.thy ===== *)
theory Dhcp
  imports Stack_State
begin

text \<open>
  The DHCP client, \<open>libs/devkit_net/src/dhcp.rs\<close>: the messages on the wire, the lease an
  acknowledgement gives, the requests, and the decisions of the client while it waits. The sockets,
  the clock and the sleeps are parameters: what a wait for a reply comes to.
\<close>

section \<open>Messages\<close>

definition DHCP_MAGIC :: "u8 list" where "DHCP_MAGIC = [99, 130, 83, 99]"
definition DHCP_FIXED :: nat where "DHCP_FIXED = 236"
definition DHCP_REQUEST :: u8 where "DHCP_REQUEST = 3"
definition DHCP_ACK :: u8 where "DHCP_ACK = 5"
definition OPT_PAD :: u8 where "OPT_PAD = 0"
definition OPT_SUBNET :: u8 where "OPT_SUBNET = 1"
definition OPT_ROUTER :: u8 where "OPT_ROUTER = 3"
definition OPT_DNS :: u8 where "OPT_DNS = 6"
definition OPT_HOSTNAME :: u8 where "OPT_HOSTNAME = 12"
definition OPT_REQUESTED :: u8 where "OPT_REQUESTED = 50"
definition OPT_LEASE :: u8 where "OPT_LEASE = 51"
definition OPT_TYPE :: u8 where "OPT_TYPE = 53"
definition OPT_SERVER :: u8 where "OPT_SERVER = 54"
definition OPT_PARAMS :: u8 where "OPT_PARAMS = 55"
definition OPT_MAX_SIZE :: u8 where "OPT_MAX_SIZE = 57"
definition OPT_T1 :: u8 where "OPT_T1 = 58"
definition OPT_T2 :: u8 where "OPT_T2 = 59"
definition OPT_CLIENT_ID :: u8 where "OPT_CLIENT_ID = 61"
definition OPT_END :: u8 where "OPT_END = 255"
definition MAX_DNS :: nat where "MAX_DNS = 3"
definition BROADCAST_FLAG :: u16 where "BROADCAST_FLAG = 0x8000"
definition MAX_MESSAGE :: u16 where "MAX_MESSAGE = 1500"
definition FIRST_RETRY :: duration where "FIRST_RETRY = from_secs 4"
definition MAX_RETRY :: duration where "MAX_RETRY = from_secs 64"
definition MIN_RENEW_RETRY :: duration where "MIN_RENEW_RETRY = from_secs 60"

lemmas opt_defs = OPT_PAD_def OPT_SUBNET_def OPT_ROUTER_def OPT_DNS_def OPT_HOSTNAME_def OPT_REQUESTED_def
  OPT_LEASE_def OPT_TYPE_def OPT_SERVER_def OPT_PARAMS_def OPT_MAX_SIZE_def OPT_T1_def OPT_T2_def
  OPT_CLIENT_ID_def OPT_END_def

record dhcp_message =
  d_op :: u8
  d_xid :: u32
  d_secs :: u16
  d_flags :: u16
  d_ciaddr :: ipv4addr
  d_yiaddr :: ipv4addr
  d_chaddr :: mac
  d_kind :: u8
  d_server :: "ipv4addr option"
  d_requested :: "ipv4addr option"
  d_subnet :: "ipv4addr option"
  d_router :: "ipv4addr option"
  d_dns :: "ipv4addr list"
  d_lease :: "u32 option"
  d_t1 :: "u32 option"
  d_t2 :: "u32 option"
  d_hostname :: "u8 list"
  d_max_size :: "u16 option"

definition dhcp_default :: dhcp_message where
  "dhcp_default = \<lparr>d_op = 0, d_xid = 0, d_secs = 0, d_flags = 0, d_ciaddr = 0, d_yiaddr = 0, d_chaddr = replicate 6 0,
     d_kind = 0, d_server = None, d_requested = None, d_subnet = None, d_router = None, d_dns = [], d_lease = None,
     d_t1 = None, d_t2 = None, d_hostname = [], d_max_size = None\<rparr>"

definition encode_u32_option :: "u8 \<Rightarrow> u32 option \<Rightarrow> u8 list" where
  "encode_u32_option code v = (case v of None \<Rightarrow> [] | Some v \<Rightarrow> [code, 4] @ u32_bytes v)"

definition dhcp_encode_options :: "dhcp_message \<Rightarrow> u8 list" where
  "dhcp_encode_options m =
     [OPT_TYPE, 1, d_kind m] @
     encode_u32_option OPT_SERVER (d_server m) @
     encode_u32_option OPT_REQUESTED (d_requested m) @
     encode_u32_option OPT_SUBNET (d_subnet m) @
     encode_u32_option OPT_ROUTER (d_router m) @
     (if d_dns m = [] then [] else [OPT_DNS, word_of_nat (length (d_dns m) * 4)] @ concat (map u32_bytes (d_dns m))) @
     encode_u32_option OPT_LEASE (d_lease m) @
     encode_u32_option OPT_T1 (d_t1 m) @
     encode_u32_option OPT_T2 (d_t2 m) @
     (if d_op m = 1 then [OPT_PARAMS, 4, OPT_SUBNET, OPT_ROUTER, OPT_DNS, OPT_LEASE] @ [OPT_CLIENT_ID, 7, 1] @ d_chaddr m
      else []) @
     (if d_hostname m = [] then []
      else let name = take (min (length (d_hostname m)) 255) (d_hostname m)
           in [OPT_HOSTNAME, word_of_nat (length name)] @ name) @
     (case d_max_size m of None \<Rightarrow> [] | Some sz \<Rightarrow> [OPT_MAX_SIZE, 2] @ u16_bytes sz) @
     [OPT_END]"

definition dhcp_encode :: "dhcp_message \<Rightarrow> u8 list option" where
  "dhcp_encode m = do {
     let p = replicate DHCP_FIXED 0;
     p \<leftarrow> put8 p 0 (d_op m);
     p \<leftarrow> put8 p 1 1;
     p \<leftarrow> put8 p 2 6;
     p \<leftarrow> copy_at p 4 (u32_bytes (d_xid m));
     p \<leftarrow> copy_at p 8 (u16_bytes (d_secs m));
     p \<leftarrow> copy_at p 10 (u16_bytes (d_flags m));
     p \<leftarrow> copy_at p 12 (u32_bytes (d_ciaddr m));
     p \<leftarrow> copy_at p 16 (u32_bytes (d_yiaddr m));
     p \<leftarrow> copy_at p 28 (d_chaddr m);
     Some (p @ DHCP_MAGIC @ dhcp_encode_options m)
   }"

text \<open>\<open>chunks_exact(4)\<close>.\<close>

fun chunks4 :: "u8 list \<Rightarrow> u32 list" where
  "chunks4 (a # b # c # d # rest) = u32_be a b c d # chunks4 rest"
| "chunks4 _ = []"

text \<open>What one option sets; the inner \<open>None\<close> is the \<open>?\<close> on an empty message type.\<close>

definition dhcp_option :: "dhcp_message \<Rightarrow> u8 \<Rightarrow> u8 list \<Rightarrow> dhcp_message option option" where
  "dhcp_option m code v =
     (let addr = (if 4 \<le> length v then map_option Some (be32 v 0) else Some None);
          secs = (if length v = 4 then map_option Some (be32 v 0) else Some None)
      in if code = OPT_TYPE then Some (case v of [] \<Rightarrow> None | k # _ \<Rightarrow> Some (m\<lparr>d_kind := k\<rparr>))
         else if code = OPT_SERVER then map_option (\<lambda>a. Some (m\<lparr>d_server := a\<rparr>)) addr
         else if code = OPT_REQUESTED then map_option (\<lambda>a. Some (m\<lparr>d_requested := a\<rparr>)) addr
         else if code = OPT_SUBNET then map_option (\<lambda>a. Some (m\<lparr>d_subnet := a\<rparr>)) addr
         else if code = OPT_ROUTER then map_option (\<lambda>a. Some (m\<lparr>d_router := a\<rparr>)) addr
         else if code = OPT_DNS then Some (Some (m\<lparr>d_dns := take MAX_DNS (chunks4 v)\<rparr>))
         else if code = OPT_LEASE then map_option (\<lambda>s. Some (m\<lparr>d_lease := s\<rparr>)) secs
         else if code = OPT_T1 then map_option (\<lambda>s. Some (m\<lparr>d_t1 := s\<rparr>)) secs
         else if code = OPT_T2 then map_option (\<lambda>s. Some (m\<lparr>d_t2 := s\<rparr>)) secs
         else if code = OPT_HOSTNAME then Some (Some (m\<lparr>d_hostname := v\<rparr>))
         else if code = OPT_MAX_SIZE \<and> length v = 2 then map_option (\<lambda>s. Some (m\<lparr>d_max_size := Some s\<rparr>)) (be16 v 0)
         else Some (Some m))"

function dhcp_options :: "dhcp_message \<Rightarrow> u8 list \<Rightarrow> dhcp_message option option" where
  "dhcp_options m [] = Some (Some m)"
| "dhcp_options m (code # rest) =
     (if code = OPT_PAD then dhcp_options m rest
      else if code = OPT_END then Some (Some m)
      else case rest of
        [] \<Rightarrow> Some None
      | len # rest \<Rightarrow>
          (case slice rest 0 (unat len) of
             None \<Rightarrow> Some None
           | Some v \<Rightarrow> do {
               r \<leftarrow> dhcp_option m code v;
               try_some r (\<lambda>m. dhcp_options m (drop (unat len) rest))
             }))"
  by pat_completeness auto
termination by (relation "measure (\<lambda>(_, opts). length opts)") auto

declare dhcp_options.simps(2) [simp del]

definition dhcp_decode :: "u8 list \<Rightarrow> dhcp_message option option" where
  "dhcp_decode p =
     (if length p < DHCP_FIXED + length DHCP_MAGIC then Some None
      else do {
        b1 \<leftarrow> byte_at p 1;
        b2 \<leftarrow> byte_at p 2;
        magic \<leftarrow> slice p DHCP_FIXED (DHCP_FIXED + 4);
        if b1 \<noteq> 1 \<or> b2 \<noteq> 6 \<or> magic \<noteq> DHCP_MAGIC then Some None
        else do {
          op \<leftarrow> byte_at p 0;
          xid \<leftarrow> be32 p 4;
          secs \<leftarrow> be16 p 8;
          flags \<leftarrow> be16 p 10;
          ciaddr \<leftarrow> be32 p 12;
          yiaddr \<leftarrow> be32 p 16;
          chaddr \<leftarrow> slice p 28 34;
          opts \<leftarrow> slice p (DHCP_FIXED + 4) (length p);
          r \<leftarrow> dhcp_options (dhcp_default\<lparr>d_op := op, d_xid := xid, d_secs := secs, d_flags := flags,
                 d_ciaddr := ciaddr, d_yiaddr := yiaddr, d_chaddr := chaddr\<rparr>) opts;
          try_some r (\<lambda>m. Some (if d_kind m \<noteq> 0 then Some m else None))
        }
      })"

section \<open>Leases\<close>

record dhcp_lease =
  le_config :: ipv4_config
  le_dns :: "ipv4addr list"
  le_server :: ipv4addr
  le_lease :: duration
  le_t1 :: duration
  le_t2 :: duration

text \<open>\<open>u32::leading_ones\<close>.\<close>

definition leading_ones :: "u32 \<Rightarrow> nat" where
  "leading_ones w = length (takeWhile (\<lambda>i. bit w (31 - i)) [0..<32])"

definition lease_from_ack :: "dhcp_message \<Rightarrow> dhcp_lease option" where
  "lease_from_ack ack =
     (if is_unspecified (d_yiaddr ack) then None
      else do {
        let prefix_len = (case d_subnet ack of None \<Rightarrow> 24 | Some m \<Rightarrow> leading_ones m);
        secs \<leftarrow> map_option unat (d_lease ack);
        srv \<leftarrow> d_server ack;
        Some \<lparr>le_config = \<lparr>c_address = d_yiaddr ack, c_prefix_len = prefix_len, c_gateway = d_router ack\<rparr>,
              le_dns = d_dns ack, le_server = srv, le_lease = from_secs secs,
              le_t1 = from_secs (case d_t1 ack of None \<Rightarrow> secs div 2 | Some t \<Rightarrow> unat t),
              le_t2 = from_secs (case d_t2 ack of None \<Rightarrow> secs * 7 div 8 | Some t \<Rightarrow> unat t)\<rparr>
      })"

section \<open>The client\<close>

record dhcp_client =
  dc_mac :: mac
  dc_hostname :: "u8 list option"

definition dhcp_request :: "dhcp_client \<Rightarrow> u8 \<Rightarrow> u32 \<Rightarrow> duration \<Rightarrow> dhcp_message" where
  "dhcp_request c kind xid elapsed =
     dhcp_default\<lparr>d_op := 1, d_xid := xid, d_secs := word_of_nat (min (elapsed div 1000000000) 65535),
       d_flags := BROADCAST_FLAG, d_chaddr := dc_mac c, d_kind := kind,
       d_hostname := (case dc_hostname c of None \<Rightarrow> [] | Some h \<Rightarrow> h), d_max_size := Some MAX_MESSAGE\<rparr>"

text \<open>Which of the datagrams received is the reply, \<open>reply\<close>: each is decoded; \<open>None\<close> when they run out,
  that is when the wait ends.\<close>

fun dhcp_reply :: "dhcp_client \<Rightarrow> u32 \<Rightarrow> u8 list \<Rightarrow> u8 list list \<Rightarrow> dhcp_message option option" where
  "dhcp_reply c xid kinds [] = Some None"
| "dhcp_reply c xid kinds (p # ps) = do {
     r \<leftarrow> dhcp_decode p;
     case r of
       None \<Rightarrow> dhcp_reply c xid kinds ps
     | Some m \<Rightarrow>
         if d_op m = 2 \<and> d_xid m = xid \<and> d_chaddr m = dc_mac c \<and> d_kind m \<in> set kinds then Some (Some m)
         else dhcp_reply c xid kinds ps
   }"

definition dhcp_accepted :: "dhcp_message \<Rightarrow> ipv4addr \<Rightarrow> dhcp_lease option" where
  "dhcp_accepted ack address =
     (if d_kind ack = DHCP_ACK \<and> d_yiaddr ack = address then lease_from_ack ack else None)"

text \<open>\<open>extend\<close>, one round at a time: what the client does when \<open>elapsed\<close> has passed since the lease was
  bound. It gives up, or asks the server or anyone and waits.\<close>

datatype extend_round = Expired | AskServer duration | AskAnyone duration

definition extend_round :: "dhcp_lease \<Rightarrow> duration \<Rightarrow> extend_round" where
  "extend_round l elapsed =
     (if le_lease l \<le> elapsed then Expired
      else
        let rebinding = le_t2 l \<le> elapsed;
            until = (if rebinding then le_lease l else le_t2 l) - elapsed;
            wait = min (max (until div 2) MIN_RENEW_RETRY) until
        in if rebinding then AskAnyone wait else AskServer wait)"

section \<open>Lemmas\<close>

lemma dhcp_option_total: "\<exists>r. dhcp_option m code v = Some r"
  unfolding dhcp_option_def Let_def by (auto simp: be32_Some be16_Some)

lemma dhcp_options_total: "\<exists>r. dhcp_options m opts = Some r"
proof (induction m opts rule: dhcp_options.induct)
  case (2 m code rest)
  show ?case
  proof (cases "code = OPT_PAD \<or> code = OPT_END \<or> rest = []")
    case True
    then show ?thesis using "2.IH"(1) by (auto simp: dhcp_options.simps(2))
  next
    case False
    then obtain len tl where rest: "rest = len # tl" by (cases rest) auto
    show ?thesis
    proof (cases "slice tl 0 (unat len)")
      case None
      then show ?thesis using False rest by (simp add: dhcp_options.simps(2))
    next
      case (Some v)
      obtain r where r: "dhcp_option m code v = Some r" using dhcp_option_total by blast
      show ?thesis
        using False rest Some r "2.IH"(2) [of len tl v r] by (cases r) (auto simp: dhcp_options.simps(2))
    qed
  qed
qed simp

lemma dhcp_decode_total: "\<exists>r. dhcp_decode p = Some r"
proof (cases "length p < DHCP_FIXED + length DHCP_MAGIC")
  case True
  then show ?thesis by (simp add: dhcp_decode_def)
next
  case False
  then have len: "240 \<le> length p" by (simp add: DHCP_FIXED_def DHCP_MAGIC_def)
  obtain r where r: "dhcp_options (dhcp_default\<lparr>d_op := p ! 0, d_xid := u32_be (p ! 4) (p ! 5) (p ! 6) (p ! 7),
      d_secs := u16_be (p ! 8) (p ! 9), d_flags := u16_be (p ! 10) (p ! 11),
      d_ciaddr := u32_be (p ! 12) (p ! 13) (p ! 14) (p ! 15), d_yiaddr := u32_be (p ! 16) (p ! 17) (p ! 18) (p ! 19),
      d_chaddr := take 6 (drop 28 p)\<rparr>) (drop 240 p) = Some r"
    using dhcp_options_total by blast
  show ?thesis
    using False len r
    by (cases r) (auto simp: dhcp_decode_def byte_at_def be32_Some be16_Some slice_def DHCP_FIXED_def)
qed

text \<open>An option that is written reads back.\<close>

lemma dhcp_options_step:
  assumes "code \<noteq> OPT_PAD" "code \<noteq> OPT_END" "unat len = length v" "dhcp_option m code v = Some (Some m')"
  shows "dhcp_options m (code # len # v @ rest) = dhcp_options m' rest"
  using assms by (simp add: dhcp_options.simps(2) slice_def)

lemma chunks4_bytes: "chunks4 (concat (map u32_bytes xs)) = xs"
  by (induction xs) (simp_all add: u32_bytes_def)

lemma length_u32s: "length (concat (map u32_bytes xs)) = 4 * length xs"
  by (induction xs) simp_all

lemma be32_u32_bytes [simp]: "be32 (u32_bytes v) 0 = Some v"
  by (simp add: be32_def u32_bytes_def)

lemma be16_u16_bytes [simp]: "be16 (u16_bytes v) 0 = Some v"
  by (simp add: be16_def u16_bytes_def)

definition dhcp_ok :: "dhcp_message \<Rightarrow> bool" where
  "dhcp_ok m \<longleftrightarrow> d_kind m \<noteq> 0 \<and> mac_ok (d_chaddr m) \<and> length (d_dns m) \<le> MAX_DNS \<and> length (d_hostname m) \<le> 255"

lemma dhcp_options_u32:
  assumes "code \<noteq> OPT_PAD" "code \<noteq> OPT_END" "\<And>a. dhcp_option m code (u32_bytes a) = Some (Some (f (Some a)))" "f None = m"
  shows "dhcp_options m (encode_u32_option code v @ rest) = dhcp_options (f v) rest"
  using assms dhcp_options_step [of code 4 "u32_bytes _" m "f (Some _)" rest]
  by (cases v) (simp_all add: encode_u32_option_def)

lemma unat_word_small: "n < 256 \<Longrightarrow> unat (word_of_nat n :: u8) = n"
  by (simp add: unat_of_nat)

lemma dhcp_options_dns:
  assumes "length ads \<le> MAX_DNS" and "d_dns m = []"
  shows "dhcp_options m ((if ads = [] then [] else [OPT_DNS, word_of_nat (length ads * 4)] @ concat (map u32_bytes ads)) @ rest) =
    dhcp_options (m\<lparr>d_dns := ads\<rparr>) rest"
proof (cases "ads = []")
  case False
  have opt: "dhcp_option m OPT_DNS (concat (map u32_bytes ads)) = Some (Some (m\<lparr>d_dns := ads\<rparr>))"
    using assms(1) by (simp add: dhcp_option_def opt_defs chunks4_bytes)
  have "unat (word_of_nat (length ads * 4) :: u8) = length (concat (map u32_bytes ads))"
    using assms(1) unfolding length_u32s by (subst unat_word_small) (simp_all add: MAX_DNS_def)
  then show ?thesis
    using dhcp_options_step [OF _ _ _ opt, of "word_of_nat (length ads * 4)" rest] False by (simp add: opt_defs)
next
  case True
  then have "m\<lparr>d_dns := ads\<rparr> = m" using assms(2) by (cases m) simp
  then show ?thesis using True by simp
qed

lemma dhcp_options_hostname:
  assumes "length h \<le> 255" and "d_hostname m = []"
  shows "dhcp_options m ((if h = [] then [] else let name = take (min (length h) 255) h
           in [OPT_HOSTNAME, word_of_nat (length name)] @ name) @ rest) = dhcp_options (m\<lparr>d_hostname := h\<rparr>) rest"
proof (cases "h = []")
  case False
  have opt: "dhcp_option m OPT_HOSTNAME h = Some (Some (m\<lparr>d_hostname := h\<rparr>))"
    by (simp add: dhcp_option_def opt_defs)
  have "unat (word_of_nat (length h) :: u8) = length h" using assms(1) by (intro unat_word_small) simp
  then show ?thesis
    using dhcp_options_step [OF _ _ _ opt, of "word_of_nat (length h)" rest] False assms(1)
    by (simp add: opt_defs Let_def)
next
  case True
  then have "m\<lparr>d_hostname := h\<rparr> = m" using assms(2) by (cases m) simp
  then show ?thesis using True by simp
qed

lemma dhcp_options_params:
  assumes "mac_ok c"
  shows "dhcp_options m ((if b then [OPT_PARAMS, 4, OPT_SUBNET, OPT_ROUTER, OPT_DNS, OPT_LEASE] @ [OPT_CLIENT_ID, 7, 1] @ c
      else []) @ rest) = dhcp_options m rest"
proof -
  have "dhcp_options m (OPT_PARAMS # 4 # [OPT_SUBNET, OPT_ROUTER, OPT_DNS, OPT_LEASE] @ xs) = dhcp_options m xs" for xs
    by (rule dhcp_options_step) (simp_all add: dhcp_option_def opt_defs)
  moreover have "dhcp_options m (OPT_CLIENT_ID # 7 # (1 # c) @ xs) = dhcp_options m xs" for xs
    by (rule dhcp_options_step) (use assms in \<open>simp_all add: dhcp_option_def opt_defs mac_ok_def\<close>)
  ultimately show ?thesis by simp
qed

lemma dhcp_options_max_size:
  assumes "d_max_size m = None"
  shows "dhcp_options m ((case v of None \<Rightarrow> [] | Some sz \<Rightarrow> [OPT_MAX_SIZE, 2] @ u16_bytes sz) @ rest) =
    dhcp_options (m\<lparr>d_max_size := v\<rparr>) rest"
proof (cases v)
  case (Some sz)
  have "dhcp_options m (OPT_MAX_SIZE # 2 # u16_bytes sz @ rest) = dhcp_options (m\<lparr>d_max_size := Some sz\<rparr>) rest"
    by (rule dhcp_options_step) (simp_all add: dhcp_option_def opt_defs)
  then show ?thesis using Some by simp
next
  case None
  then have "m\<lparr>d_max_size := v\<rparr> = m" using assms by (cases m) simp
  then show ?thesis using None by simp
qed

lemma dhcp_options_end: "dhcp_options m [OPT_END] = Some (Some m)"
  by (simp add: dhcp_options.simps(2) opt_defs)

lemma dhcp_options_encode:
  assumes ok: "dhcp_ok m"
  shows "dhcp_options (dhcp_default\<lparr>d_op := d_op m, d_xid := d_xid m, d_secs := d_secs m, d_flags := d_flags m,
      d_ciaddr := d_ciaddr m, d_yiaddr := d_yiaddr m, d_chaddr := d_chaddr m\<rparr>) (dhcp_encode_options m) = Some (Some m)"
proof -
  have kind: "dhcp_options x ([OPT_TYPE, 1, k] @ rest) = dhcp_options (x\<lparr>d_kind := k\<rparr>) rest" for x k rest
    using dhcp_options_step [of OPT_TYPE 1 "[k]" x "x\<lparr>d_kind := k\<rparr>" rest] by (simp add: dhcp_option_def opt_defs)
  have server: "dhcp_options x (encode_u32_option OPT_SERVER v @ rest) = dhcp_options (x\<lparr>d_server := v\<rparr>) rest"
    if "d_server x = None" for x v rest
    by (rule dhcp_options_u32) (use that in \<open>(cases x, simp add: dhcp_option_def opt_defs)+\<close>)
  have requested: "dhcp_options x (encode_u32_option OPT_REQUESTED v @ rest) = dhcp_options (x\<lparr>d_requested := v\<rparr>) rest"
    if "d_requested x = None" for x v rest
    by (rule dhcp_options_u32) (use that in \<open>(cases x, simp add: dhcp_option_def opt_defs)+\<close>)
  have subnet: "dhcp_options x (encode_u32_option OPT_SUBNET v @ rest) = dhcp_options (x\<lparr>d_subnet := v\<rparr>) rest"
    if "d_subnet x = None" for x v rest
    by (rule dhcp_options_u32) (use that in \<open>(cases x, simp add: dhcp_option_def opt_defs)+\<close>)
  have router: "dhcp_options x (encode_u32_option OPT_ROUTER v @ rest) = dhcp_options (x\<lparr>d_router := v\<rparr>) rest"
    if "d_router x = None" for x v rest
    by (rule dhcp_options_u32) (use that in \<open>(cases x, simp add: dhcp_option_def opt_defs)+\<close>)
  have lease: "dhcp_options x (encode_u32_option OPT_LEASE v @ rest) = dhcp_options (x\<lparr>d_lease := v\<rparr>) rest"
    if "d_lease x = None" for x v rest
    by (rule dhcp_options_u32) (use that in \<open>(cases x, simp add: dhcp_option_def opt_defs)+\<close>)
  have t1: "dhcp_options x (encode_u32_option OPT_T1 v @ rest) = dhcp_options (x\<lparr>d_t1 := v\<rparr>) rest"
    if "d_t1 x = None" for x v rest
    by (rule dhcp_options_u32) (use that in \<open>(cases x, simp add: dhcp_option_def opt_defs)+\<close>)
  have t2: "dhcp_options x (encode_u32_option OPT_T2 v @ rest) = dhcp_options (x\<lparr>d_t2 := v\<rparr>) rest"
    if "d_t2 x = None" for x v rest
    by (rule dhcp_options_u32) (use that in \<open>(cases x, simp add: dhcp_option_def opt_defs)+\<close>)
  obtain op xid secs flags ci yi ch k sv rq sn rt dns le ta tb hn ms where m: "m = \<lparr>d_op = op, d_xid = xid, d_secs = secs,
      d_flags = flags, d_ciaddr = ci, d_yiaddr = yi, d_chaddr = ch, d_kind = k, d_server = sv, d_requested = rq, d_subnet = sn,
      d_router = rt, d_dns = dns, d_lease = le, d_t1 = ta, d_t2 = tb, d_hostname = hn, d_max_size = ms\<rparr>"
    by (cases m)
  have lens: "length dns \<le> MAX_DNS" "length hn \<le> 255" "mac_ok ch" using ok m by (simp_all add: dhcp_ok_def)
  show ?thesis
    unfolding m dhcp_encode_options_def dhcp_default_def dhcp_message.select_convs dhcp_message.update_convs
    by (simp only: kind server requested subnet router lease t1 t2 dhcp_options_dns dhcp_options_hostname
        dhcp_options_params dhcp_options_max_size dhcp_options_end lens dhcp_message.select_convs dhcp_message.update_convs)
qed

lemma dhcp_encode_spec:
  assumes "mac_ok (d_chaddr m)"
  shows "dhcp_encode m = Some ([d_op m, 1, 6, 0] @ u32_bytes (d_xid m) @ u16_bytes (d_secs m) @ u16_bytes (d_flags m) @
    u32_bytes (d_ciaddr m) @ u32_bytes (d_yiaddr m) @ replicate 8 0 @ d_chaddr m @ replicate 202 0 @ DHCP_MAGIC @
    dhcp_encode_options m)"
proof -
  obtain a b c d e f where ch: "d_chaddr m = [a, b, c, d, e, f]" using assms by (rule mac_cases)
  have r: "replicate DHCP_FIXED (0 :: u8) = replicate 34 0 @ replicate 202 0"
    by (simp add: DHCP_FIXED_def flip: replicate_add)
  have n: "replicate 34 (0 :: u8) = [0,0,0,0,0,0,0,0,0,0,0,0,0,0,0,0,0,0,0,0,0,0,0,0,0,0,0,0,0,0,0,0,0,0]"
    "replicate 8 (0 :: u8) = [0,0,0,0,0,0,0,0]" by (simp_all add: numeral_eq_Suc)
  show ?thesis
    unfolding dhcp_encode_def Let_def r n
    by (simp add: put8_def copy_at_grows u16_bytes_def u32_bytes_def ch)
qed



end
