(* ===== verification/Dns_Message.thy ===== *)
theory Dns_Message
  imports Wire
begin

text \<open>
  DNS messages, \<open>libs/devkit_net/src/dns/message.rs\<close>: the names a query can carry, the query, and
  the response, whose names may be compressed. A name is its bytes, lower case, with the labels
  joined by dots and without the root's.
\<close>

section \<open>Definitions\<close>

type_synonym name = "u8 list"

definition DNS_HEADER :: nat where "DNS_HEADER = 12"
definition TYPE_A :: u16 where "TYPE_A = 1"
definition TYPE_CNAME :: u16 where "TYPE_CNAME = 5"
definition TYPE_SOA :: u16 where "TYPE_SOA = 6"
definition CLASS_IN :: u16 where "CLASS_IN = 1"
definition RCODE_NXDOMAIN :: u8 where "RCODE_NXDOMAIN = 3"
definition FLAG_QR :: u16 where "FLAG_QR = 0x8000"
definition FLAG_TC :: u16 where "FLAG_TC = 0x0200"
definition FLAG_RD :: u16 where "FLAG_RD = 0x0100"
definition OPCODE :: u16 where "OPCODE = 0x7800"
definition MAX_NAME :: nat where "MAX_NAME = 253"
definition MAX_LABEL :: nat where "MAX_LABEL = 63"

abbreviation dot :: u8 where "dot \<equiv> 0x2e"

text \<open>\<open>split\<close> on a separator: one part more than separators.\<close>

fun split_on :: "'a \<Rightarrow> 'a list \<Rightarrow> 'a list list" where
  "split_on sep [] = [[]]"
| "split_on sep (x # xs) =
     (if x = sep then [] # split_on sep xs
      else case split_on sep xs of [] \<Rightarrow> [[x]] | l # ls \<Rightarrow> (x # l) # ls)"

definition is_ascii_graphic :: "u8 \<Rightarrow> bool" where
  "is_ascii_graphic b \<longleftrightarrow> 0x21 \<le> b \<and> b \<le> 0x7e"

definition to_ascii_lowercase :: "u8 \<Rightarrow> u8" where
  "to_ascii_lowercase b = (if 0x41 \<le> b \<and> b \<le> 0x5a then b OR 0x20 else b)"

definition parse_name :: "u8 list \<Rightarrow> name option" where
  "parse_name host =
     (let host = (if host \<noteq> [] \<and> last host = dot then butlast host else host) in
      if host = [] \<or> MAX_NAME < length host then None
      else if (\<forall>l \<in> set (split_on dot host). 1 \<le> length l \<and> length l \<le> MAX_LABEL \<and> (\<forall>b \<in> set l. is_ascii_graphic b))
           then Some (map to_ascii_lowercase host) else None)"

definition put_label :: "u8 list \<Rightarrow> u8 list" where
  "put_label l = word_of_nat (length l) # l"

definition put_name :: "u8 list \<Rightarrow> name \<Rightarrow> u8 list" where
  "put_name out n = out @ concat (map put_label (split_on dot n)) @ [0]"

definition query :: "u16 \<Rightarrow> name \<Rightarrow> u8 list option" where
  "query ident n = do {
     let out = replicate DNS_HEADER 0;
     out \<leftarrow> put16 out 0 ident;
     out \<leftarrow> put16 out 2 FLAG_RD;
     out \<leftarrow> put16 out 4 1;
     let out = put_name out n;
     Some (out @ u16_bytes TYPE_A @ u16_bytes CLASS_IN)
   }"

record response =
  rs_id :: u16
  rs_truncated :: bool
  rs_rcode :: u8
  rs_question :: name
  rs_cnames :: "(name \<times> name \<times> u32) list"
  rs_addrs :: "(name \<times> ipv4addr \<times> u32) list"
  rs_negative_ttl :: "u32 option"

text \<open>\<open>get(i)\<close> is \<open>byte_at\<close>, and \<open>get(a..b)\<close> is \<open>slice\<close>, whose \<open>None\<close> the code passes on.\<close>

function read_name_from :: "u8 list \<Rightarrow> name \<Rightarrow> nat \<Rightarrow> nat option \<Rightarrow> (name \<times> nat) option" where
  "read_name_from msg n pos end_at =
     (if length msg \<le> pos then None
      else
        let b = msg ! pos; len = unat b in
        if b AND 0xc0 = 0 then
          (if len = 0 then Some (n, case end_at of None \<Rightarrow> pos + 1 | Some e \<Rightarrow> e)
           else
             case slice msg (pos + 1) (pos + 1 + len) of
               None \<Rightarrow> None
             | Some label \<Rightarrow>
                 if dot \<in> set label then None
                 else
                   let n' = (if n = [] then n else n @ [dot]) @ map to_ascii_lowercase label in
                   if MAX_NAME < length n' then None else read_name_from msg n' (pos + 1 + len) end_at)
        else if b AND 0xc0 = 0xc0 then
          (case byte_at msg (pos + 1) of
             None \<Rightarrow> None
           | Some low \<Rightarrow>
               let target = 256 * unat (b AND 0x3f) + unat low in
               if pos \<le> target then None
               else read_name_from msg n target (case end_at of None \<Rightarrow> Some (pos + 2) | Some e \<Rightarrow> Some e))
        else None)"
  by pat_completeness auto

text \<open>A label makes the name longer, up to 253 bytes; a pointer keeps it and goes backwards.\<close>

termination
  by (relation "measures [\<lambda>(msg, n, pos, e). MAX_NAME + 1 - length n, \<lambda>(msg, n, pos, e). pos]")
    (auto simp: slice_Some split: if_splits)

declare read_name_from.simps [simp del]

definition read_name :: "u8 list \<Rightarrow> nat \<Rightarrow> (name \<times> nat) option" where
  "read_name msg at = read_name_from msg [] at None"

definition ttl_at :: "u8 list \<Rightarrow> u32 option" where
  "ttl_at b = do { v \<leftarrow> be32 b 0; Some (if 0x7fffffff < v then 0 else v) }"

definition ttl :: "u8 list \<Rightarrow> nat \<Rightarrow> u32 option" where
  "ttl b at = do { s \<leftarrow> slice b at (at + 4); ttl_at s }"

text \<open>What a record of class IN adds to the response.\<close>

definition decode_rdata ::
  "u8 list \<Rightarrow> bool \<Rightarrow> u16 \<Rightarrow> name \<Rightarrow> u32 \<Rightarrow> nat \<Rightarrow> u8 list \<Rightarrow> response \<Rightarrow> response option option" where
  "decode_rdata msg answer kind owner t data rdata r =
     (if answer \<and> kind = TYPE_A \<and> length rdata = 4 then do {
        a \<leftarrow> be32 rdata 0;
        Some (Some (r\<lparr>rs_addrs := rs_addrs r @ [(owner, a, t)]\<rparr>))
      }
      else if answer \<and> kind = TYPE_CNAME then
        try_some (read_name msg data) (\<lambda>(target, _).
          Some (Some (r\<lparr>rs_cnames := rs_cnames r @ [(owner, target, t)]\<rparr>)))
      else if \<not> answer \<and> kind = TYPE_SOA then
        try_some (read_name msg data) (\<lambda>(_, after_mname).
        try_some (read_name msg after_mname) (\<lambda>(_, after_rname).
        try_some (slice msg (after_rname + 16) (after_rname + 20)) (\<lambda>m. do {
          minimum \<leftarrow> ttl_at m;
          Some (Some (r\<lparr>rs_negative_ttl := Some (min t minimum)\<rparr>))
        })))
      else Some (Some r))"

definition decode_record ::
  "u8 list \<Rightarrow> bool \<Rightarrow> nat \<Rightarrow> response \<Rightarrow> (nat \<times> response) option option" where
  "decode_record msg answer at r =
     try_some (read_name msg at) (\<lambda>(owner, nxt).
     try_some (slice msg nxt (nxt + 10)) (\<lambda>fixed. do {
       kind \<leftarrow> be16 fixed 0;
       cls \<leftarrow> be16 fixed 2;
       t \<leftarrow> ttl fixed 4;
       len \<leftarrow> be16 fixed 8;
       let data = nxt + 10;
       let stop = data + unat len;
       try_some (slice msg data stop) (\<lambda>rdata.
         if cls \<noteq> CLASS_IN then Some (Some (stop, r))
         else do {
           r' \<leftarrow> decode_rdata msg answer kind owner t data rdata r;
           Some (map_option (\<lambda>r'. (stop, r')) r')
         })
     }))"

fun decode_records ::
  "u8 list \<Rightarrow> nat \<Rightarrow> nat \<Rightarrow> nat list \<Rightarrow> response \<Rightarrow> response option option" where
  "decode_records msg answers at [] r = Some (Some r)"
| "decode_records msg answers at (i # is) r = do {
     x \<leftarrow> decode_record msg (i < answers) at r;
     try_some x (\<lambda>(at, r). decode_records msg answers at is r)
   }"

definition decode :: "u8 list \<Rightarrow> response option option" where
  "decode msg =
     (if length msg < DNS_HEADER then Some None
      else do {
        flags \<leftarrow> be16 msg 2;
        questions \<leftarrow> be16 msg 4;
        if flags AND FLAG_QR = 0 \<or> flags AND OPCODE \<noteq> 0 \<or> questions \<noteq> 1 then Some None
        else try_some (read_name msg DNS_HEADER) (\<lambda>(question, at).
          try_some (slice msg at (at + 4)) (\<lambda>kind.
            if kind \<noteq> [0, 1, 0, 1] then Some None
            else do {
              ident \<leftarrow> be16 msg 0;
              let r = \<lparr>rs_id = ident, rs_truncated = flags AND FLAG_TC \<noteq> 0, rs_rcode = ucast (flags AND 0x000f),
                       rs_question = question, rs_cnames = [], rs_addrs = [], rs_negative_ttl = None\<rparr>;
              if rs_truncated r then Some (Some r)
              else do {
                an \<leftarrow> be16 msg 6;
                ns \<leftarrow> be16 msg 8;
                decode_records msg (unat an) (at + 4) [0..<unat an + unat ns] r
              }
            }))
      })"

section \<open>Nothing panics\<close>

lemma be16_in: "i + 1 < length b \<Longrightarrow> \<exists>v. be16 b i = Some v"
  by (simp add: be16_def byte_at_def)

lemma be32_in: "i + 3 < length b \<Longrightarrow> \<exists>v. be32 b i = Some v"
  by (simp add: be32_def byte_at_def)

lemma ttl_at_in: "length b = 4 \<Longrightarrow> \<exists>v. ttl_at b = Some v \<and> v \<le> 0x7fffffff"
  using be32_in [of 0 b] by (auto simp: ttl_at_def)

lemma ttl_in: "at + 4 \<le> length b \<Longrightarrow> \<exists>v. ttl b at = Some v \<and> v \<le> 0x7fffffff"
  using ttl_at_in [of "take 4 (drop at b)"] by (auto simp: ttl_def slice_def)

text \<open>What a decoded response is made of: names of at most 253 bytes and lifetimes below \<open>2^31\<close>.\<close>

definition response_ok :: "response \<Rightarrow> bool" where
  "response_ok r \<longleftrightarrow>
     length (rs_question r) \<le> MAX_NAME \<and>
     (\<forall>(owner, target, t) \<in> set (rs_cnames r). length owner \<le> MAX_NAME \<and> length target \<le> MAX_NAME \<and> t \<le> 0x7fffffff) \<and>
     (\<forall>(owner, a, t) \<in> set (rs_addrs r). length owner \<le> MAX_NAME \<and> t \<le> 0x7fffffff) \<and>
     (\<forall>t. rs_negative_ttl r = Some t \<longrightarrow> t \<le> 0x7fffffff)"

text \<open>The three ways a name goes on: it ends, a label is added, a pointer is followed.\<close>

lemma read_name_from_cases:
  assumes "read_name_from msg n pos e = Some (n', stop)"
  obtains (ends) "pos < length msg" "msg ! pos = 0" "n' = n" "stop = (case e of None \<Rightarrow> pos + 1 | Some x \<Rightarrow> x)"
  | (label) l where "pos < length msg" "msg ! pos AND 0xc0 = 0" "msg ! pos \<noteq> 0"
      "slice msg (pos + 1) (pos + 1 + unat (msg ! pos)) = Some l" "dot \<notin> set l"
      "length ((if n = [] then n else n @ [dot]) @ map to_ascii_lowercase l) \<le> MAX_NAME"
      "read_name_from msg ((if n = [] then n else n @ [dot]) @ map to_ascii_lowercase l)
         (pos + 1 + unat (msg ! pos)) e = Some (n', stop)"
  | (pointer) low where "pos + 1 < length msg" "msg ! pos AND 0xc0 = 0xc0" "msg ! (pos + 1) = low"
      "256 * unat (msg ! pos AND 0x3f) + unat low < pos"
      "read_name_from msg n (256 * unat (msg ! pos AND 0x3f) + unat low)
         (case e of None \<Rightarrow> Some (pos + 2) | Some x \<Rightarrow> Some x) = Some (n', stop)"
  using assms unfolding read_name_from.simps [of msg n pos e]
  by (auto simp: Let_def byte_at_def unat_eq_zero split: if_splits option.splits)

lemma read_name_from_bound:
  "read_name_from msg n pos e = Some (n', stop) \<Longrightarrow> length n \<le> MAX_NAME \<Longrightarrow> (\<forall>x. e = Some x \<longrightarrow> x \<le> length msg) \<Longrightarrow>
   length n' \<le> MAX_NAME \<and> stop \<le> length msg"
proof (induction msg n pos e rule: read_name_from.induct)
  case (1 msg n pos e)
  from "1.prems"(1) show ?case
  proof (cases rule: read_name_from_cases)
    case ends
    then show ?thesis using "1.prems"(2,3) by (cases e) auto
  next
    case (label l)
    show ?thesis
      by (rule "1.IH"(1) [OF _ refl refl _ _ label(4) _ refl _ label(7)])
        (use label "1.prems"(3) in \<open>auto simp: unat_eq_zero\<close>)
  next
    case (pointer low)
    show ?thesis
      by (rule "1.IH"(2) [OF _ refl refl _ pointer(2) _ refl _ pointer(5) "1.prems"(2)])
        (use pointer "1.prems"(3) in \<open>auto split: option.splits\<close>)
  qed
qed

lemma read_name_bound: "read_name msg at = Some (n, stop) \<Longrightarrow> length n \<le> MAX_NAME \<and> stop \<le> length msg"
  unfolding read_name_def by (drule read_name_from_bound) simp_all

lemma decode_rdata_ok:
  assumes r: "response_ok r" and owner: "length owner \<le> MAX_NAME" and t: "t \<le> 0x7fffffff"
  shows "\<exists>r'. decode_rdata msg answer kind owner t data rdata r = Some r' \<and> (\<forall>q. r' = Some q \<longrightarrow> response_ok q)"
proof -
  consider (a) "answer" "kind = TYPE_A" "length rdata = 4" | (cname) "answer" "kind = TYPE_CNAME"
    | (soa) "\<not> answer" "kind = TYPE_SOA"
    | (other) "\<not> (answer \<and> kind = TYPE_A \<and> length rdata = 4)" "\<not> (answer \<and> kind = TYPE_CNAME)" "\<not> (\<not> answer \<and> kind = TYPE_SOA)"
    by blast
  then show ?thesis
  proof cases
    case a
    then obtain v where "be32 rdata 0 = Some v" using be32_in [of 0 rdata] by auto
    then show ?thesis using a r owner t by (simp add: decode_rdata_def response_ok_def)
  next
    case cname
    show ?thesis
    proof (cases "read_name msg data")
      case (Some x)
      then show ?thesis using cname r owner t read_name_bound [of msg data]
        by (cases x) (auto simp: decode_rdata_def response_ok_def TYPE_A_def TYPE_CNAME_def)
    qed (use cname in \<open>simp add: decode_rdata_def TYPE_A_def TYPE_CNAME_def\<close>)
  next
    case soa
    have m: "\<exists>v. ttl_at m = Some v \<and> v \<le> 0x7fffffff" if "slice msg a (a + 4) = Some m" for a m
      using ttl_at_in [of m] length_slice [OF that] by simp
    show ?thesis
    proof (cases "read_name msg data")
      case (Some x)
      obtain n1 e1 where x: "x = (n1, e1)" by (cases x)
      show ?thesis
      proof (cases "read_name msg e1")
        case (Some y)
        obtain n2 e2 where y: "y = (n2, e2)" by (cases y)
        show ?thesis
        proof (cases "slice msg (e2 + 16) (e2 + 20)")
          case (Some z)
          then obtain v where "ttl_at z = Some v" "v \<le> 0x7fffffff" using m [of "e2 + 16" z] by (auto simp: add.assoc)
          then show ?thesis
            using soa x y Some \<open>read_name msg data = Some x\<close> \<open>read_name msg e1 = Some y\<close> r t
            by (auto simp: decode_rdata_def response_ok_def min_def)
        qed (use soa x y \<open>read_name msg data = Some x\<close> \<open>read_name msg e1 = Some y\<close> in \<open>simp add: decode_rdata_def\<close>)
      qed (use soa x \<open>read_name msg data = Some x\<close> in \<open>simp add: decode_rdata_def\<close>)
    qed (use soa in \<open>simp add: decode_rdata_def\<close>)
  next
    case other
    have "decode_rdata msg answer kind owner t data rdata r = Some (Some r)"
      by (simp only: decode_rdata_def other if_False)
    then show ?thesis using r by simp
  qed
qed

lemma decode_record_ok:
  assumes r: "response_ok r"
  shows "\<exists>x. decode_record msg answer at r = Some x \<and> (\<forall>stop q. x = Some (stop, q) \<longrightarrow> response_ok q \<and> stop \<le> length msg)"
proof (cases "read_name msg at")
  case None
  then show ?thesis by (simp add: decode_record_def)
next
  case (Some x)
  obtain owner nxt where x: "read_name msg at = Some (owner, nxt)" using Some by (cases x) simp
  show ?thesis
  proof (cases "slice msg nxt (nxt + 10)")
    case None
    then show ?thesis using x by (simp add: decode_record_def)
  next
    case (Some fixed)
    have len: "length fixed = 10" using length_slice [OF Some] by simp
    obtain kind cls t l where reads: "be16 fixed 0 = Some kind" "be16 fixed 2 = Some cls" "ttl fixed 4 = Some t"
        "be16 fixed 8 = Some l" "t \<le> 0x7fffffff"
      using be16_in [of 0 fixed] be16_in [of 2 fixed] be16_in [of 8 fixed] ttl_in [of 4 fixed] len by auto
    have owner: "length owner \<le> MAX_NAME" using read_name_bound [OF x] by simp
    let ?data = "nxt + 10"
    show ?thesis
    proof (cases "slice msg ?data (?data + unat l)")
      case None
      then show ?thesis using x Some reads by (simp add: decode_record_def Let_def)
    next
      case rdata: (Some rdata)
      obtain r' where r': "decode_rdata msg answer kind owner t ?data rdata r = Some r'" "\<forall>q. r' = Some q \<longrightarrow> response_ok q"
        using decode_rdata_ok [OF r owner reads(5), of msg answer kind ?data rdata] by blast
      have le: "?data + unat l \<le> length msg" using rdata by (simp add: slice_Some)
      show ?thesis
      proof (cases "cls = CLASS_IN")
        case True
        have "decode_record msg answer at r = Some (map_option (\<lambda>r'. (?data + unat l, r')) r')"
          using x Some reads rdata r'(1) True by (simp add: decode_record_def Let_def)
        then show ?thesis using r'(2) le by (cases r') auto
      next
        case False
        then have "decode_record msg answer at r = Some (Some (?data + unat l, r))"
          using x Some reads rdata by (simp add: decode_record_def Let_def)
        then show ?thesis using r le by auto
      qed
    qed
  qed
qed

lemma decode_records_ok:
  "response_ok r \<Longrightarrow> \<exists>x. decode_records msg answers at is r = Some x \<and> (\<forall>q. x = Some q \<longrightarrow> response_ok q)"
proof (induction "is" arbitrary: at r)
  case (Cons i "is")
  obtain x where x: "decode_record msg (i < answers) at r = Some x"
    "\<forall>stop q. x = Some (stop, q) \<longrightarrow> response_ok q \<and> stop \<le> length msg"
    using decode_record_ok [OF Cons.prems] by blast
  then show ?case using Cons.IH by (cases x) auto
qed simp

lemma decode_ok: "\<exists>x. decode msg = Some x \<and> (\<forall>r. x = Some r \<longrightarrow> response_ok r)"
proof (cases "length msg < DNS_HEADER")
  case True
  then show ?thesis by (simp add: decode_def)
next
  case False
  then obtain ident flags questions an ns where reads: "be16 msg 0 = Some ident" "be16 msg 2 = Some flags"
      "be16 msg 4 = Some questions" "be16 msg 6 = Some an" "be16 msg 8 = Some ns"
    using be16_in [of 0 msg] be16_in [of 2 msg] be16_in [of 4 msg] be16_in [of 6 msg] be16_in [of 8 msg]
    by (auto simp: DNS_HEADER_def)
  show ?thesis
  proof (cases "flags AND FLAG_QR = 0 \<or> flags AND OPCODE \<noteq> 0 \<or> questions \<noteq> 1 \<or> read_name msg DNS_HEADER = None")
    case True
    then show ?thesis using reads False by (auto simp: decode_def)
  next
    case ok: False
    then obtain question at where q: "read_name msg DNS_HEADER = Some (question, at)" by auto
    let ?r = "\<lparr>rs_id = ident, rs_truncated = flags AND FLAG_TC \<noteq> 0, rs_rcode = ucast (flags AND 0x000f),
                rs_question = question, rs_cnames = [], rs_addrs = [], rs_negative_ttl = None\<rparr>"
    have r: "response_ok ?r" using read_name_bound [OF q] by (simp add: response_ok_def)
    obtain x where x: "decode_records msg (unat an) (at + 4) [0..<unat an + unat ns] ?r = Some x"
      "\<forall>q. x = Some q \<longrightarrow> response_ok q"
      using decode_records_ok [OF r] by blast
    show ?thesis
      using reads False ok q r x by (cases "slice msg at (at + 4)") (auto simp: decode_def Let_def)
  qed
qed

section \<open>Names round trip\<close>

definition label_ok :: "u8 list \<Rightarrow> bool" where
  "label_ok l \<longleftrightarrow> 1 \<le> length l \<and> length l \<le> MAX_LABEL \<and> dot \<notin> set l"

text \<open>The names the resolver works with.\<close>

definition name_ok :: "name \<Rightarrow> bool" where
  "name_ok n \<longleftrightarrow> length n \<le> MAX_NAME \<and> (\<forall>l \<in> set (split_on dot n). 1 \<le> length l \<and> length l \<le> MAX_LABEL) \<and>
     map to_ascii_lowercase n = n"

lemma split_on_ne [simp]: "split_on sep xs \<noteq> []"
  by (induction xs) (auto split: list.splits)

lemma split_on_no_sep: "l \<in> set (split_on sep xs) \<Longrightarrow> sep \<notin> set l"
  by (induction xs arbitrary: l) (fastforce split: list.splits if_splits)+

lemma concat_split_on: "concat (map ((#) sep) (split_on sep xs)) = sep # xs"
proof (induction xs)
  case (Cons x xs)
  then show ?case by (cases "split_on sep xs") auto
qed simp

lemma split_on_map:
  "(\<And>x. f x = sep \<longleftrightarrow> x = sep) \<Longrightarrow> split_on sep (map f xs) = map (map f) (split_on sep xs)"
  by (induction xs) (auto split: list.splits)

fun join_labels :: "name \<Rightarrow> u8 list list \<Rightarrow> name" where
  "join_labels n [] = n"
| "join_labels n (l # ls) = join_labels ((if n = [] then n else n @ [dot]) @ map to_ascii_lowercase l) ls"

lemma join_labels_append:
  "n \<noteq> [] \<Longrightarrow> join_labels n ls = n @ concat (map (\<lambda>l. dot # map to_ascii_lowercase l) ls)"
  by (induction ls arbitrary: n) auto

lemma lowercase_dot [simp]: "to_ascii_lowercase dot = dot"
  by (simp add: to_ascii_lowercase_def)

lemma lowercase_eq_dot [simp]: "to_ascii_lowercase b = dot \<longleftrightarrow> b = dot"
proof
  assume a: "to_ascii_lowercase b = dot"
  show "b = dot"
  proof (cases "0x41 \<le> b \<and> b \<le> 0x5a")
    case True
    then have "b OR 0x20 = dot" using a by (simp add: to_ascii_lowercase_def)
    moreover have "b \<le> b OR 0x20" by (rule le_word_or2)
    ultimately have "b \<le> dot" by simp
    then show ?thesis using True by (simp add: word_le_nat_alt)
  next
    case False
    then have "to_ascii_lowercase b = b" by (auto simp: to_ascii_lowercase_def)
    then show ?thesis using a by simp
  qed
qed simp

lemma join_labels_split:
  assumes "hd (split_on dot n) \<noteq> []"
  shows "join_labels [] (split_on dot n) = map to_ascii_lowercase n"
proof -
  obtain l ls where ls: "split_on dot n = l # ls" by (cases "split_on dot n") simp_all
  have "dot # join_labels [] (split_on dot n) = concat (map ((#) dot) (map (map to_ascii_lowercase) (split_on dot n)))"
    using assms ls by (simp add: join_labels_append comp_def)
  also have "\<dots> = dot # map to_ascii_lowercase n"
    by (simp only: split_on_map [symmetric, of to_ascii_lowercase dot] lowercase_eq_dot concat_split_on)
  finally show ?thesis by simp
qed

lemma length_put_labels: "length (concat (map put_label (split_on dot n))) = Suc (length n)"
proof -
  have "length (concat (map put_label ls)) = length (concat (map ((#) dot) ls))" for ls
    by (induction ls) (simp_all add: put_label_def)
  then show ?thesis by (simp add: concat_split_on)
qed

lemma word_list_all:
  assumes "list_all (\<lambda>k. P (word_of_nat k)) [a..<b]" and "a \<le> unat (w :: u8)" and "unat w < b"
  shows "P w"
proof -
  have "unat w \<in> set [a..<b]" using assms(2,3) by simp
  then have "P (word_of_nat (unat w))" using assms(1) unfolding list_all_iff by blast
  then show ?thesis by simp
qed

lemma small_label_bits: "unat (b :: u8) < 64 \<Longrightarrow> b AND 0xc0 = 0"
proof (rule word_list_all [where a = 0 and b = 64 and P = "\<lambda>b. b AND 0xc0 = 0"])
  show "list_all (\<lambda>k. (word_of_nat k :: u8) AND 0xc0 = 0) [0..<64]" by code_simp
qed simp_all

lemma slice_middle: "slice (pre @ xs @ post) (length pre) (length pre + length xs) = Some xs"
  by (simp add: slice_def)

lemma read_labels:
  assumes "\<forall>l \<in> set ls. label_ok l" and "length (join_labels n ls) \<le> MAX_NAME"
  shows "read_name_from (pre @ concat (map put_label ls) @ 0 # post) n (length pre) None =
    Some (join_labels n ls, length pre + length (concat (map put_label ls)) + 1)"
  using assms
proof (induction ls arbitrary: n pre)
  case Nil
  then show ?case by (simp add: read_name_from.simps [of _ n "length pre"])
next
  case (Cons l ls)
  have l: "1 \<le> length l" "length l \<le> 63" "dot \<notin> set l"
    using Cons.prems(1) by (simp_all add: label_ok_def MAX_LABEL_def)
  have l_ne: "l \<noteq> []" using l(1) by auto
  let ?b = "word_of_nat (length l) :: u8"
  let ?msg = "pre @ concat (map put_label (l # ls)) @ 0 # post"
  have ub: "unat ?b = length l" using l(2) by (simp add: unat_of_nat)
  have msg: "?msg = (pre @ [?b]) @ l @ (concat (map put_label ls) @ 0 # post)" by (simp add: put_label_def)
  have nth: "?msg ! length pre = ?b" by (simp add: put_label_def)
  have sl: "slice ?msg (length pre + 1) (length pre + 1 + unat ?b) = Some l"
    using slice_middle [of "pre @ [?b]" l] unfolding msg ub by simp
  let ?n = "(if n = [] then n else n @ [dot]) @ map to_ascii_lowercase l"
  have jl: "length (join_labels ?n ls) \<le> MAX_NAME" using Cons.prems(2) by simp
  have "?n \<noteq> []" using l(1) by auto
  then have "length ?n \<le> length (join_labels ?n ls)" by (subst join_labels_append) simp_all
  then have len: "length ?n \<le> MAX_NAME" using jl by linarith
  have "read_name_from ?msg n (length pre) None = read_name_from ?msg ?n (length pre + 1 + unat ?b) None"
    using l sl nth ub len small_label_bits [of ?b] l_ne
    by (subst read_name_from.simps) (simp add: Let_def)
  also have "\<dots> = read_name_from ((pre @ put_label l) @ concat (map put_label ls) @ 0 # post) ?n (length (pre @ put_label l)) None"
    unfolding ub by (simp add: put_label_def)
  also have "\<dots> = Some (join_labels ?n ls, length (pre @ put_label l) + length (concat (map put_label ls)) + 1)"
    by (rule Cons.IH) (use Cons.prems(1) jl in simp_all)
  also have "\<dots> = Some (join_labels n (l # ls), length pre + length (concat (map put_label (l # ls))) + 1)"
    by simp
  finally show ?case .
qed

lemma read_put_name:
  assumes "name_ok n"
  shows "read_name (put_name pre n @ post) (length pre) = Some (n, length pre + length n + 2)"
proof -
  let ?ls = "split_on dot n"
  have ok: "\<forall>l \<in> set ?ls. label_ok l"
    using assms split_on_no_sep [of _ dot n] by (auto simp: name_ok_def label_ok_def)
  have "hd ?ls \<in> set ?ls" by simp
  then have "hd ?ls \<noteq> []" using ok by (fastforce simp: label_ok_def)
  then have j: "join_labels [] ?ls = n" using join_labels_split [of n] assms by (simp add: name_ok_def)
  show ?thesis
    using read_labels [OF ok, of "[]" pre post] j assms
    by (simp add: read_name_def put_name_def length_put_labels name_ok_def)
qed

lemma lowercase_idem [simp]: "to_ascii_lowercase (to_ascii_lowercase b) = to_ascii_lowercase b"
proof (cases "0x41 \<le> b \<and> b \<le> 0x5a")
  case True
  then have u: "65 \<le> unat b" "unat b < 91" by (simp_all add: word_le_nat_alt)
  have "list_all (\<lambda>k. to_ascii_lowercase (to_ascii_lowercase (word_of_nat k)) = to_ascii_lowercase (word_of_nat k)) [65..<91]"
    by code_simp
  then show ?thesis using u by (rule word_list_all)
qed (auto simp: to_ascii_lowercase_def)

lemma split_on_lengths:
  "map length (split_on dot (map to_ascii_lowercase n)) = map length (split_on dot n)"
  using split_on_map [of to_ascii_lowercase dot n] by simp

text \<open>The names \<open>parse_name\<close> accepts can be carried.\<close>

lemma parse_name_ok:
  assumes "parse_name host = Some n"
  shows "name_ok n" and "n \<noteq> []" and "\<forall>b \<in> set n. is_ascii_graphic b"
proof -
  define h where "h = (if host \<noteq> [] \<and> last host = dot then butlast host else host)"
  have h: "h \<noteq> []" "length h \<le> MAX_NAME" "n = map to_ascii_lowercase h"
    "\<forall>l \<in> set (split_on dot h). 1 \<le> length l \<and> length l \<le> MAX_LABEL \<and> (\<forall>b \<in> set l. is_ascii_graphic b)"
    using assms unfolding parse_name_def Let_def h_def [symmetric] by (auto split: if_splits)
  have "set (map length (split_on dot n)) = set (map length (split_on dot h))"
    unfolding h(3) split_on_lengths ..
  then have "length ` set (split_on dot n) = length ` set (split_on dot h)" by simp
  then have "\<forall>k \<in> length ` set (split_on dot n). 1 \<le> k \<and> k \<le> MAX_LABEL" using h(4) by auto
  then show "name_ok n" using h by (auto simp: name_ok_def)
  show "n \<noteq> []" using h by simp
  have "is_ascii_graphic b" if "b \<in> set h" for b
  proof (cases "b = dot")
    case False
    have "b \<in> set (concat (map ((#) dot) (split_on dot h)))" using that by (simp add: concat_split_on)
    then obtain l where "l \<in> set (split_on dot h)" "b \<in> set l" using False by auto
    then show ?thesis using h(4) by blast
  qed (simp add: is_ascii_graphic_def)
  moreover have "is_ascii_graphic (to_ascii_lowercase b)" if "is_ascii_graphic b" for b
  proof -
    have "list_all (\<lambda>k. is_ascii_graphic (to_ascii_lowercase (word_of_nat k))) [33..<127]" by code_simp
    then show ?thesis
      by (rule word_list_all) (use that in \<open>simp_all add: is_ascii_graphic_def word_le_nat_alt\<close>)
  qed
  ultimately show "\<forall>b \<in> set n. is_ascii_graphic b" using h(3) by auto
qed

section \<open>Messages round trip\<close>

lemma be16_middle: "i = length pre \<Longrightarrow> be16 (pre @ u16_bytes v @ post) i = Some v"
  by (simp add: be16_def u16_bytes_def nth_append)

lemma slice_at: "i = length pre \<Longrightarrow> j = length pre + length xs \<Longrightarrow> slice (pre @ xs @ post) i j = Some xs"
  using slice_middle [of pre xs post] by simp

lemma length_put_name [simp]: "length (put_name pre n) = length pre + length n + 2"
  by (simp add: put_name_def length_put_labels)

lemma put_name_append: "put_name pre n = pre @ put_name [] n"
  by (simp add: put_name_def)

lemma read_name_at:
  "name_ok n \<Longrightarrow> i = length pre \<Longrightarrow> read_name (pre @ put_name [] n @ post) i = Some (n, i + length n + 2)"
  using read_put_name [of n pre post] by (simp add: put_name_append [of pre])

text \<open>The query: a header that asks for recursion and one question, which reads back as the name.\<close>

lemma query_spec:
  "query ident n = Some (u16_bytes ident @ u16_bytes FLAG_RD @ u16_bytes 1 @ replicate 6 0 @ put_name [] n @
     u16_bytes TYPE_A @ u16_bytes CLASS_IN)"
  by (simp add: query_def put16_def copy_at_def u16_bytes_def DNS_HEADER_def put_name_append [of "_ # _"]
      put_name_append [of "_ @ _"] numeral_eq_Suc)

text \<open>A response as a name server writes it, without compression.\<close>

datatype answer_rr = A_rr name ipv4addr u32 | Cname_rr name name u32

fun encode_rr :: "answer_rr \<Rightarrow> u8 list" where
  "encode_rr (A_rr owner a t) =
     put_name [] owner @ (u16_bytes TYPE_A @ u16_bytes CLASS_IN @ u32_bytes t @ u16_bytes 4) @ u32_bytes a"
| "encode_rr (Cname_rr owner target t) =
     put_name [] owner @ (u16_bytes TYPE_CNAME @ u16_bytes CLASS_IN @ u32_bytes t @
       u16_bytes (word_of_nat (length target + 2))) @ put_name [] target"

fun rr_ok :: "answer_rr \<Rightarrow> bool" where
  "rr_ok (A_rr owner a t) \<longleftrightarrow> name_ok owner \<and> t \<le> 0x7fffffff"
| "rr_ok (Cname_rr owner target t) \<longleftrightarrow> name_ok owner \<and> name_ok target \<and> t \<le> 0x7fffffff"

fun add_rr :: "response \<Rightarrow> answer_rr \<Rightarrow> response" where
  "add_rr r (A_rr owner a t) = r\<lparr>rs_addrs := rs_addrs r @ [(owner, a, t)]\<rparr>"
| "add_rr r (Cname_rr owner target t) = r\<lparr>rs_cnames := rs_cnames r @ [(owner, target, t)]\<rparr>"

definition encode_response :: "u16 \<Rightarrow> u8 \<Rightarrow> name \<Rightarrow> answer_rr list \<Rightarrow> u8 list" where
  "encode_response ident rcode n rrs =
     u16_bytes ident @ u16_bytes (FLAG_QR OR ucast rcode) @ u16_bytes 1 @ u16_bytes (word_of_nat (length rrs)) @
     u16_bytes 0 @ u16_bytes 0 @ put_name [] n @ [0, 1, 0, 1] @ concat (map encode_rr rrs)"

lemma be32_bytes: "be32 (u32_bytes v) 0 = Some v"
  by (simp add: be32_def u32_bytes_def)

lemma decode_record_rr:
  assumes rr: "rr_ok rr"
  shows "decode_record (pre @ encode_rr rr @ post) True (length pre) r =
    Some (Some (length pre + length (encode_rr rr), add_rr r rr))"
proof -
  define msg where "msg = pre @ encode_rr rr @ post"
  obtain owner kind t rdata where parts: "encode_rr rr = put_name [] owner @ (u16_bytes kind @ u16_bytes CLASS_IN @
      u32_bytes t @ u16_bytes (word_of_nat (length rdata))) @ rdata" "name_ok owner" "t \<le> 0x7fffffff" "length rdata \<le> 255"
    and r': "\<And>data. data = length pre + length owner + 12 \<Longrightarrow> decode_rdata msg True kind owner t data rdata r = Some (Some (add_rr r rr))"
  proof (cases rr)
    case (A_rr owner a t)
    show thesis
      by (rule that [of owner TYPE_A t "u32_bytes a"])
        (use rr in \<open>simp_all add: A_rr decode_rdata_def be32_bytes TYPE_A_def\<close>)
  next
    case (Cname_rr owner target t)
    have "read_name msg (length pre + length owner + 12) = Some (target, length pre + length owner + 12 + length target + 2)"
      using read_name_at [of target _ "pre @ put_name [] owner @ (u16_bytes TYPE_CNAME @ u16_bytes CLASS_IN @ u32_bytes t @
       u16_bytes (word_of_nat (length target + 2)))" post] rr by (simp add: msg_def Cname_rr add_ac)
    then show thesis
      by (intro that [of owner TYPE_CNAME t "put_name [] target"])
        (use rr in \<open>simp_all add: Cname_rr decode_rdata_def TYPE_A_def TYPE_CNAME_def name_ok_def MAX_NAME_def add.assoc\<close>)
  qed
  let ?fixed = "u16_bytes kind @ u16_bytes CLASS_IN @ u32_bytes t @ u16_bytes (word_of_nat (length rdata))"
  let ?nxt = "length pre + length owner + 2"
  have name: "read_name msg (length pre) = Some (owner, ?nxt)"
    using read_name_at [OF parts(2) refl, of pre "?fixed @ rdata @ post"] by (simp add: msg_def parts(1))
  have fixed: "slice msg ?nxt (?nxt + 10) = Some ?fixed"
    using slice_at [of ?nxt "pre @ put_name [] owner" _ ?fixed "rdata @ post"] by (simp add: msg_def parts(1))
  have reads: "be16 ?fixed 0 = Some kind" "be16 ?fixed 2 = Some CLASS_IN" "ttl ?fixed 4 = Some t"
    "be16 ?fixed 8 = Some (word_of_nat (length rdata))"
    using be16_middle [of 0 "[]" kind] be16_middle [of 2 "u16_bytes kind" CLASS_IN "u32_bytes t @ u16_bytes (word_of_nat (length rdata))"]
      be16_middle [of 8 "u16_bytes kind @ u16_bytes CLASS_IN @ u32_bytes t" "word_of_nat (length rdata)" "[]"]
      slice_at [of 4 "u16_bytes kind @ u16_bytes CLASS_IN" 8 "u32_bytes t" "u16_bytes (word_of_nat (length rdata))"] parts(3)
    by (simp_all add: ttl_def ttl_at_def be32_bytes not_less [symmetric])
  have ul: "unat (word_of_nat (length rdata) :: u16) = length rdata" using parts(4) by (simp add: unat_of_nat)
  have rd: "slice msg (?nxt + 10) (?nxt + 10 + length rdata) = Some rdata"
    using slice_at [of "?nxt + 10" "pre @ put_name [] owner @ ?fixed" _ rdata post] by (simp add: msg_def parts(1) add_ac)
  have "decode_record msg True (length pre) r = Some (Some (?nxt + 10 + length rdata, add_rr r rr))"
    using name fixed reads ul rd r' [of "?nxt + 10"] by (simp add: decode_record_def Let_def)
  then show ?thesis unfolding msg_def [symmetric] by (simp add: parts(1))
qed

lemma decode_records_rrs:
  "\<forall>rr \<in> set rrs. rr_ok rr \<Longrightarrow> i + length rrs \<le> answers \<Longrightarrow>
   decode_records (pre @ concat (map encode_rr rrs)) answers (length pre) [i..<i + length rrs] r =
     Some (Some (foldl add_rr r rrs))"
proof (induction rrs arbitrary: i pre r)
  case (Cons rr rrs)
  have "decode_record (pre @ encode_rr rr @ concat (map encode_rr rrs)) (i < answers) (length pre) r =
      Some (Some (length pre + length (encode_rr rr), add_rr r rr))"
    using decode_record_rr [of rr pre _ r] Cons.prems by simp
  moreover have "[i..<i + length (rr # rrs)] = i # [Suc i..<Suc i + length rrs]"
    by (simp add: upt_conv_Cons del: upt_Suc)
  ultimately show ?case
    using Cons.IH [of "Suc i" "pre @ encode_rr rr" "add_rr r rr"] Cons.prems
    by (simp del: upt_Suc)
qed simp

text \<open>C14: Responses round trip: a response with any answers of addresses and aliases, encoded the way a name
  server does (uncompressed names, one question), is decoded to exactly these records, in order.\<close>

theorem decode_encode:
  assumes n: "name_ok n" and rrs: "\<forall>rr \<in> set rrs. rr_ok rr" and count: "length rrs < 65536" and rcode: "rcode < 16"
  shows "decode (encode_response ident rcode n rrs) = Some (Some (foldl add_rr
    \<lparr>rs_id = ident, rs_truncated = False, rs_rcode = rcode, rs_question = n, rs_cnames = [], rs_addrs = [],
     rs_negative_ttl = None\<rparr> rrs))"
proof -
  let ?flags = "FLAG_QR OR ucast rcode :: u16"
  let ?msg = "encode_response ident rcode n rrs"
  have "unat rcode < 16" using rcode by (simp add: word_less_nat_alt)
  moreover have "list_all (\<lambda>k. (FLAG_QR OR ucast (word_of_nat k :: u8)) AND FLAG_QR \<noteq> 0 \<and>
      (FLAG_QR OR ucast (word_of_nat k :: u8)) AND OPCODE = 0 \<and> (FLAG_QR OR ucast (word_of_nat k :: u8)) AND FLAG_TC = 0 \<and>
      ucast ((FLAG_QR OR ucast (word_of_nat k :: u8)) AND 0x000f) = (word_of_nat k :: u8)) [0..<16]" by code_simp
  ultimately have flags: "?flags AND FLAG_QR \<noteq> 0" "?flags AND OPCODE = 0" "?flags AND FLAG_TC = 0"
    "ucast (?flags AND 0x000f) = rcode"
    using word_list_all [of "\<lambda>w. (FLAG_QR OR ucast w) AND FLAG_QR \<noteq> 0 \<and> (FLAG_QR OR ucast w) AND OPCODE = 0 \<and>
      (FLAG_QR OR ucast w) AND FLAG_TC = 0 \<and> ucast ((FLAG_QR OR ucast w) AND 0x000f) = w" 0 16 rcode] by simp_all
  have len: "\<not> length ?msg < DNS_HEADER" by (simp add: encode_response_def DNS_HEADER_def)
  let ?an = "word_of_nat (length rrs) :: u16"
  let ?rest = "put_name [] n @ [0, 1, 0, 1] @ concat (map encode_rr rrs)"
  have reads: "be16 ?msg 0 = Some ident" "be16 ?msg 2 = Some ?flags" "be16 ?msg 4 = Some 1" "be16 ?msg 6 = Some ?an"
    "be16 ?msg 8 = Some 0"
    using be16_middle [of 0 "[]" ident] be16_middle [of 2 "u16_bytes ident" ?flags]
      be16_middle [of 4 "u16_bytes ident @ u16_bytes ?flags" 1]
      be16_middle [of 6 "u16_bytes ident @ u16_bytes ?flags @ u16_bytes 1" ?an]
      be16_middle [of 8 "u16_bytes ident @ u16_bytes ?flags @ u16_bytes 1 @ u16_bytes ?an" 0]
    by (simp_all add: encode_response_def)
  have an: "unat ?an = length rrs" using count by (simp add: unat_of_nat)
  let ?head = "u16_bytes ident @ u16_bytes ?flags @ u16_bytes 1 @ u16_bytes ?an @ u16_bytes 0 @ u16_bytes 0"
  have name: "read_name ?msg DNS_HEADER = Some (n, DNS_HEADER + length n + 2)"
    using read_name_at [OF n, of DNS_HEADER ?head "[0, 1, 0, 1] @ concat (map encode_rr rrs)"]
    by (simp add: encode_response_def DNS_HEADER_def)
  have kind: "slice ?msg (DNS_HEADER + length n + 2) (DNS_HEADER + length n + 2 + 4) = Some [0, 1, 0, 1]"
    using slice_at [of "DNS_HEADER + length n + 2" "?head @ put_name [] n" _ "[0, 1, 0, 1]" "concat (map encode_rr rrs)"]
    by (simp add: encode_response_def DNS_HEADER_def numeral_eq_Suc)
  have "decode_records ?msg (length rrs) (DNS_HEADER + length n + 2 + 4) [0..<length rrs] r =
      Some (Some (foldl add_rr r rrs))" for r
    using decode_records_rrs [OF rrs, of 0 "length rrs" "?head @ put_name [] n @ [0, 1, 0, 1]" r]
    by (simp add: encode_response_def DNS_HEADER_def numeral_eq_Suc)
  then show ?thesis
    using len reads flags name kind an by (simp add: decode_def Let_def)
qed

lemma sample_name_ok: "name_ok [0x61, dot, 0x62]"
  by (simp add: name_ok_def MAX_NAME_def MAX_LABEL_def to_ascii_lowercase_def)

lemma decode_encode_witness:
  "decode (encode_response 7 0 [0x61, dot, 0x62] [A_rr [0x61, dot, 0x62] 5 60]) = Some (Some
    \<lparr>rs_id = 7, rs_truncated = False, rs_rcode = 0, rs_question = [0x61, dot, 0x62], rs_cnames = [],
     rs_addrs = [([0x61, dot, 0x62], 5, 60)], rs_negative_ttl = None\<rparr>)"
  using decode_encode [of "[0x61, dot, 0x62]" "[A_rr [0x61, dot, 0x62] 5 60]" 0 7] sample_name_ok by simp

text \<open>C15: No response panics or poisons the resolver: decoding any bytes returns, and what it returns has
  names of at most 253 characters and times to live of at most 2^31 - 1 seconds.\<close>

theorem decode_safe:
  "case decode msg of None \<Rightarrow> False
   | Some None \<Rightarrow> True
   | Some (Some r) \<Rightarrow> length (rs_question r) \<le> 253 \<and>
       list_all (\<lambda>(owner, target, t). length owner \<le> 253 \<and> length target \<le> 253 \<and> t \<le> 0x7fffffff) (rs_cnames r) \<and>
       list_all (\<lambda>(owner, a, t). length owner \<le> 253 \<and> t \<le> 0x7fffffff) (rs_addrs r)"
  using decode_ok [of msg] by (auto simp: response_ok_def MAX_NAME_def list_all_iff split: option.splits)

text \<open>A query asks for the host: the name of a host that parses is put on the wire so that a name server
  reads back exactly this name, in lower case and without the final dot, with type A and class IN
  after it.\<close>

theorem query_asks_for_host:
  assumes "parse_name host = Some n"
  shows "\<exists>q. query ident n = Some q \<and> read_name q DNS_HEADER = Some (n, length q - 4) \<and>
    drop (length q - 4) q = [0, 1, 0, 1] \<and>
    n = map to_ascii_lowercase (if last host = dot then butlast host else host)"
proof -
  have ok: "name_ok n" using parse_name_ok [OF assms] by blast
  let ?h = "u16_bytes ident @ u16_bytes FLAG_RD @ u16_bytes 1 @ replicate 6 0"
  let ?t = "u16_bytes TYPE_A @ u16_bytes CLASS_IN"
  have q: "query ident n = Some (?h @ put_name [] n @ ?t)" by (simp add: query_spec)
  have t: "?t = [0, 1, 0, 1]" by (simp add: u16_bytes_def TYPE_A_def CLASS_IN_def)
  have len: "length (?h @ put_name [] n @ ?t) = DNS_HEADER + length n + 6" by (simp add: DNS_HEADER_def)
  have "read_name (?h @ put_name [] n @ ?t) DNS_HEADER = Some (n, DNS_HEADER + length n + 2)"
    by (rule read_name_at [OF ok]) (simp add: DNS_HEADER_def)
  moreover have "n = map to_ascii_lowercase (if last host = dot then butlast host else host)"
    using assms by (auto simp: parse_name_def Let_def split: if_splits)
  moreover have "drop (DNS_HEADER + length n + 2) (?h @ put_name [] n @ ?t) = ?t" by (simp add: DNS_HEADER_def)
  ultimately show ?thesis using q t len by auto
qed

lemma query_asks_for_host_witness:
  "\<exists>q. query 7 [0x61, dot, 0x62] = Some q \<and> read_name q DNS_HEADER = Some ([0x61, dot, 0x62], length q - 4)"
  using query_asks_for_host [of "[0x41, dot, 0x62, dot]" "[0x61, dot, 0x62]" 7]
  by (auto simp: parse_name_def MAX_NAME_def MAX_LABEL_def to_ascii_lowercase_def is_ascii_graphic_def)

end
