(* ===== verification/Dns_Cache.thy ===== *)
theory Dns_Cache
  imports Dns_Message Table Net_Error
begin

text \<open>
  The DNS cache, \<open>libs/devkit_net/src/dns/cache.rs\<close>, and the part of \<open>dns/mod.rs\<close> that decides:
  following aliases through the cache and through a response, and the loop that asks again where an
  alias chain stops. The exchange with the name servers (sockets, timeouts, tasks) is a parameter.
\<close>

section \<open>The cache\<close>

definition DNS_ENTRIES :: nat where "DNS_ENTRIES = 16"
definition MAX_TTL :: u32 where "MAX_TTL = 24 * 3600"
definition MAX_NEGATIVE_TTL :: u32 where "MAX_NEGATIVE_TTL = 300"

datatype dns_record = Addrs "ipv4addr list" | Alias name | Missing

record dns_entry =
  de_name :: name
  de_record :: dns_record
  de_expires :: instant
  de_used :: u32

record dns_cache =
  dc_entries :: "dns_entry list"
  dc_servers :: u32
  dc_clock :: u32

definition dns_cache_new :: dns_cache where
  "dns_cache_new = \<lparr>dc_entries = [], dc_servers = 0, dc_clock = 0\<rparr>"

definition dns_sync :: "dns_cache \<Rightarrow> u32 \<Rightarrow> dns_cache" where
  "dns_sync c servers =
     (if servers \<noteq> dc_servers c then c\<lparr>dc_entries := [], dc_servers := servers\<rparr> else c)"

definition dns_get :: "dns_cache \<Rightarrow> name \<Rightarrow> u32 \<Rightarrow> instant \<Rightarrow> dns_record option \<times> dns_cache" where
  "dns_get c n servers now =
     (let c = dns_sync c servers;
          es = filter (\<lambda>e. now < de_expires e) (dc_entries c);
          clock = dc_clock c + 1;
          c = c\<lparr>dc_entries := es, dc_clock := clock\<rparr>
      in case position (\<lambda>e. de_name e = n) es of
           None \<Rightarrow> (None, c)
         | Some i \<Rightarrow> (Some (de_record (es ! i)), c\<lparr>dc_entries := es[i := (es ! i)\<lparr>de_used := clock\<rparr>]\<rparr>))"

definition dns_make_room :: "dns_entry list \<Rightarrow> dns_entry list" where
  "dns_make_room es =
     (if DNS_ENTRIES \<le> length es then
        (case min_index_by (\<lambda>e. unat (de_used e)) es of None \<Rightarrow> es | Some oldest \<Rightarrow> swap_remove es oldest)
      else es)"

definition dns_put :: "dns_cache \<Rightarrow> name \<Rightarrow> dns_record \<Rightarrow> u32 \<Rightarrow> u32 \<Rightarrow> instant \<Rightarrow> dns_cache" where
  "dns_put c n rec t servers now =
     (let c = dns_sync c servers;
          cap = (if rec = Missing then MAX_NEGATIVE_TTL else MAX_TTL);
          t = min t cap
      in if t = 0 then c
         else
           let es = filter (\<lambda>e. now < de_expires e \<and> de_name e \<noteq> n) (dc_entries c);
               es = dns_make_room es;
               clock = dc_clock c + 1;
               expires = instant_add now (from_secs (unat t))
           in c\<lparr>dc_entries := es @ [\<lparr>de_name = n, de_record = rec, de_expires = expires, de_used = clock\<rparr>],
                dc_clock := clock\<rparr>)"

section \<open>The resolver\<close>

definition MAX_ALIASES :: nat where "MAX_ALIASES = 8"

datatype resolve_step = Done "(net_error, ipv4addr list) res" | Ask name

text \<open>\<open>from_cache\<close>: follows the cached aliases from a name.\<close>

function from_cache :: "dns_cache \<Rightarrow> u32 \<Rightarrow> instant \<Rightarrow> name \<Rightarrow> nat \<Rightarrow> resolve_step \<times> nat \<times> dns_cache" where
  "from_cache c servers now n aliases =
     (if MAX_ALIASES < aliases then (Done (Err NotFound), aliases, c)
      else case dns_get c n servers now of
        (Some (Alias target), c) \<Rightarrow> from_cache c servers now target (aliases + 1)
      | (Some (Addrs addrs), c) \<Rightarrow> (Done (Ok addrs), aliases, c)
      | (Some Missing, c) \<Rightarrow> (Done (Err NotFound), aliases, c)
      | (None, c) \<Rightarrow> (Ask n, aliases, c))"
  by pat_completeness auto
termination
  by (relation "measure (\<lambda>(c, servers, now, n, aliases). MAX_ALIASES + 1 - aliases)") auto

declare from_cache.simps [simp del]

record dns_answer =
  an_aliases :: nat
  an_record :: dns_record

text \<open>\<open>answer\<close>: follows the aliases within a response; the steps are what is cached, in order.\<close>

function follow_answer ::
  "response \<Rightarrow> name \<Rightarrow> nat \<Rightarrow> (name \<times> dns_record \<times> u32) list \<Rightarrow> dns_answer \<times> (name \<times> dns_record \<times> u32) list" where
  "follow_answer r current aliases steps =
     (let addrs = map snd (filter (\<lambda>(owner, _). owner = current) (rs_addrs r)) in
      if addrs \<noteq> [] then
        (let t = Min (snd ` set addrs); rec = Addrs (map fst addrs)
         in (\<lparr>an_aliases = aliases, an_record = rec\<rparr>, steps @ [(current, rec, t)]))
      else
        case (if aliases \<le> MAX_ALIASES then find (\<lambda>(owner, _). owner = current) (rs_cnames r) else None) of
          Some (_, target, t) \<Rightarrow> follow_answer r target (aliases + 1) (steps @ [(current, Alias target, t)])
        | None \<Rightarrow>
            let ends = rs_rcode r = RCODE_NXDOMAIN \<or> aliases = 0 \<or> rs_negative_ttl r \<noteq> None in
            if MAX_ALIASES < aliases \<or> \<not> ends then (\<lparr>an_aliases = aliases, an_record = Alias current\<rparr>, steps)
            else
              let steps = (case rs_negative_ttl r of None \<Rightarrow> steps | Some t \<Rightarrow> steps @ [(current, Missing, t)])
              in (\<lparr>an_aliases = aliases, an_record = Missing\<rparr>, steps))"
  by pat_completeness auto
termination
  by (relation "measure (\<lambda>(r, current, aliases, steps). MAX_ALIASES + 1 - aliases)")
    (auto split: if_splits)

declare follow_answer.simps [simp del]

text \<open>The caching of the steps, unless the name servers changed meanwhile.\<close>

definition dns_answer :: "dns_cache \<Rightarrow> name \<Rightarrow> response \<Rightarrow> u32 \<Rightarrow> u32 \<Rightarrow> instant \<Rightarrow> dns_answer \<times> dns_cache" where
  "dns_answer c n r generation current now =
     (case follow_answer r n 0 [] of (a, steps) \<Rightarrow>
       (a, if current = generation
           then foldl (\<lambda>c (n, rec, t). dns_put c n rec t generation now) c steps else c))"

section \<open>Invariant\<close>

definition dns_wf :: "dns_cache \<Rightarrow> bool" where
  "dns_wf c \<longleftrightarrow> table de_name DNS_ENTRIES (dc_entries c)"

text \<open>What the cache knows of a name at a time, under a generation of name servers.\<close>

definition dns_known :: "dns_cache \<Rightarrow> u32 \<Rightarrow> instant \<Rightarrow> name \<Rightarrow> dns_record option" where
  "dns_known c servers now n =
     (if servers \<noteq> dc_servers c then None
      else case table_find de_name (dc_entries c) n of
        None \<Rightarrow> None | Some e \<Rightarrow> if now < de_expires e then Some (de_record e) else None)"

interpretation dt: keyed_table de_name DNS_ENTRIES "\<lambda>es. Some (dns_make_room es)"
proof
  fix xs :: "dns_entry list"
  show "length xs < DNS_ENTRIES \<Longrightarrow> Some (dns_make_room xs) = Some xs" by (simp add: dns_make_room_def)
  assume l: "length xs = DNS_ENTRIES"
  then have "xs \<noteq> []" by (auto simp: DNS_ENTRIES_def)
  then obtain i where i: "min_index_by (\<lambda>e. unat (de_used e)) xs = Some i"
    using min_index_by_None [of "\<lambda>e. unat (de_used e)" xs] by (cases "min_index_by (\<lambda>e. unat (de_used e)) xs") auto
  show "\<exists>ys. Some (dns_make_room xs) = Some ys \<and> length ys < DNS_ENTRIES \<and> mset ys \<subseteq># mset xs"
    using l i mset_swap_remove_le [OF min_index_by_lt [OF i]] by (simp add: dns_make_room_def DNS_ENTRIES_def)
qed

section \<open>Lemmas on the cache\<close>

lemma dns_sync_wf [simp]: "dns_wf c \<Longrightarrow> dns_wf (dns_sync c servers)"
  by (simp add: dns_wf_def dns_sync_def table_def)

lemma dns_sync_servers [simp]: "dc_servers (dns_sync c servers) = servers"
  by (simp add: dns_sync_def)

lemma dns_sync_known [simp]: "dns_known (dns_sync c servers) servers now n = dns_known c servers now n"
  by (simp add: dns_known_def dns_sync_def table_find_def)

lemma find_filter_expired:
  assumes "distinct (map de_name es)" and "now \<le> now'"
  shows "(case table_find de_name (filter (\<lambda>e. now < de_expires e) es) n of
            None \<Rightarrow> None | Some e \<Rightarrow> if now' < de_expires e then Some (de_record e) else None) =
         (case table_find de_name es n of
            None \<Rightarrow> None | Some e \<Rightarrow> if now' < de_expires e then Some (de_record e) else None)"
proof (cases "table_find de_name es n")
  case None
  then have "table_find de_name (filter (\<lambda>e. now < de_expires e) es) n = None"
    by (auto simp: table_find_None)
  then show ?thesis using None by simp
next
  case (Some e)
  have d: "distinct (map de_name (filter (\<lambda>e. now < de_expires e) es))"
    using assms(1) by (simp add: distinct_map_filter)
  show ?thesis
  proof (cases "now < de_expires e")
    case True
    then have "table_find de_name (filter (\<lambda>e. now < de_expires e) es) n = Some e"
      using Some table_find_Some [OF assms(1)] table_find_Some [OF d] by simp
    then show ?thesis using Some by simp
  next
    case False
    have "table_find de_name (filter (\<lambda>e. now < de_expires e) es) n = None"
    proof (rule ccontr)
      assume "table_find de_name (filter (\<lambda>e. now < de_expires e) es) n \<noteq> None"
      then obtain x where "table_find de_name (filter (\<lambda>e. now < de_expires e) es) n = Some x" by blast
      then have "x \<in> set es" "de_name x = n" "now < de_expires x" using table_find_Some [OF d] by auto
      then have "table_find de_name es n = Some x" using table_find_Some [OF assms(1)] by simp
      then show False using Some False \<open>now < de_expires x\<close> by simp
    qed
    then show ?thesis using Some False assms(2) by simp
  qed
qed

lemma dns_get_spec:
  assumes wf: "dns_wf c"
  shows "fst (dns_get c n servers now) = dns_known c servers now n"
    and "dns_wf (snd (dns_get c n servers now))"
    and "now \<le> now' \<Longrightarrow> dns_known (snd (dns_get c n servers now)) servers now' m = dns_known c servers now' m"
proof -
  let ?es = "filter (\<lambda>e. now < de_expires e) (dc_entries (dns_sync c servers))"
  have d: "table de_name DNS_ENTRIES (dc_entries (dns_sync c servers))"
    using dns_sync_wf [OF wf] by (simp add: dns_wf_def)
  have t: "table de_name DNS_ENTRIES ?es" using d by (rule table_filter)
  have sync: "dns_known c servers k m = (case table_find de_name ?es m of
      None \<Rightarrow> None | Some e \<Rightarrow> if k < de_expires e then Some (de_record e) else None)" if "now \<le> k" for k m
  proof -
    have "dns_known c servers k m = dns_known (dns_sync c servers) servers k m" by simp
    also have "\<dots> = (case table_find de_name (dc_entries (dns_sync c servers)) m of
        None \<Rightarrow> None | Some e \<Rightarrow> if k < de_expires e then Some (de_record e) else None)"
      by (simp add: dns_known_def)
    also have "\<dots> = (case table_find de_name ?es m of
        None \<Rightarrow> None | Some e \<Rightarrow> if k < de_expires e then Some (de_record e) else None)"
      by (rule find_filter_expired [symmetric]) (use d that in \<open>simp_all add: table_def\<close>)
    finally show ?thesis .
  qed
  have all: "fst (dns_get c n servers now) = dns_known c servers now n \<and> dns_wf (snd (dns_get c n servers now)) \<and>
      (\<forall>now' m. now \<le> now' \<longrightarrow> dns_known (snd (dns_get c n servers now)) servers now' m = dns_known c servers now' m)"
  proof (cases "position (\<lambda>e. de_name e = n) ?es")
    case None
    then have "table_find de_name ?es n = None" by (simp add: table_find_position)
    then show ?thesis using None t sync by (auto simp: dns_get_def Let_def dns_wf_def dns_known_def)
  next
    case (Some i)
    then have i: "i < length ?es" "de_name (?es ! i) = n" by (simp_all add: position_Some_iff)
    have f: "table_find de_name ?es n = Some (?es ! i)" using Some by (simp add: table_find_position)
    have live: "now < de_expires (?es ! i)" using nth_mem [OF i(1)] by simp
    define e where "e = (?es ! i)\<lparr>de_used := dc_clock (dns_sync c servers) + 1\<rparr>"
    have e: "de_name e = de_name (?es ! i)" "de_expires e = de_expires (?es ! i)" "de_record e = de_record (?es ! i)"
      by (simp_all add: e_def)
    have get: "dns_get c n servers now = (Some (de_record (?es ! i)), (dns_sync c servers)\<lparr>dc_entries := ?es[i := e],
        dc_clock := dc_clock (dns_sync c servers) + 1\<rparr>)"
      using Some by (simp add: dns_get_def Let_def e_def)
    note upd = table_find_update [OF t i(1) e(1)]
    have "dns_known (snd (dns_get c n servers now)) servers now' m = dns_known c servers now' m" if "now \<le> now'" for now' m
      using sync [OF that] f upd [of m] e i(2) unfolding get by (auto simp: dns_known_def)
    moreover have "dns_wf (snd (dns_get c n servers now))"
      unfolding get using table_update [OF t e(1)] by (simp add: dns_wf_def)
    moreover have "fst (dns_get c n servers now) = dns_known c servers now n"
      unfolding get using sync [of now n] f live by simp
    ultimately show ?thesis by blast
  qed
  then show "fst (dns_get c n servers now) = dns_known c servers now n" "dns_wf (snd (dns_get c n servers now))"
    "now \<le> now' \<Longrightarrow> dns_known (snd (dns_get c n servers now)) servers now' m = dns_known c servers now' m" by blast+
qed

text \<open>The lifetime an answer is kept for.\<close>

definition dns_lifetime :: "dns_record \<Rightarrow> u32 \<Rightarrow> duration" where
  "dns_lifetime rec t = from_secs (unat (min t (if rec = Missing then MAX_NEGATIVE_TTL else MAX_TTL)))"

lemma dns_put_spec:
  assumes wf: "dns_wf c"
  shows "dns_wf (dns_put c n rec t servers now)"
    and "t \<noteq> 0 \<Longrightarrow> dns_known (dns_put c n rec t servers now) servers now' n =
      (if now' < instant_add now (dns_lifetime rec t) then Some rec else None)"
    and "m \<noteq> n \<Longrightarrow> dns_known (dns_put c n rec t servers now) servers now' m = Some r \<Longrightarrow> dns_known c servers now' m = Some r"
    and "t = 0 \<Longrightarrow> dns_known (dns_put c n rec t servers now) servers now' m = dns_known c servers now' m"
proof -
  define cap where "cap = (if rec = Missing then MAX_NEGATIVE_TTL else MAX_TTL)"
  have cap: "cap \<noteq> 0" by (simp add: cap_def MAX_NEGATIVE_TTL_def MAX_TTL_def)
  let ?es = "filter (\<lambda>e. now < de_expires e \<and> de_name e \<noteq> n) (dc_entries (dns_sync c servers))"
  define e where "e = \<lparr>de_name = n, de_record = rec, de_expires = instant_add now (dns_lifetime rec t),
      de_used = dc_clock (dns_sync c servers) + 1\<rparr>"
  have d: "table de_name DNS_ENTRIES (dc_entries (dns_sync c servers))"
    using dns_sync_wf [OF wf] by (simp add: dns_wf_def)
  have tb: "table de_name DNS_ENTRIES ?es" using d by (rule table_filter)
  have new: "de_name e \<notin> de_name ` set ?es" by (auto simp: e_def)
  note push = dt.push_table [OF tb refl new] dt.push_find [OF tb refl new]
  have put: "dns_put c n rec t servers now = (dns_sync c servers)\<lparr>dc_entries := dns_make_room ?es @ [e],
      dc_clock := dc_clock (dns_sync c servers) + 1\<rparr>" if "t \<noteq> 0"
    using that cap by (simp add: dns_put_def Let_def e_def dns_lifetime_def cap_def [symmetric] min_def)
  have nop: "dns_put c n rec t servers now = dns_sync c servers" if "t = 0"
    using that by (simp add: dns_put_def Let_def)
  show "dns_wf (dns_put c n rec t servers now)"
    using push(1) put nop dns_sync_wf [OF wf] by (cases "t = 0") (simp_all add: dns_wf_def)
  show "dns_known (dns_put c n rec t servers now) servers now' n =
      (if now' < instant_add now (dns_lifetime rec t) then Some rec else None)" if "t \<noteq> 0"
    using push(2) unfolding put [OF that] by (simp add: dns_known_def e_def)
  show "t = 0 \<Longrightarrow> dns_known (dns_put c n rec t servers now) servers now' m = dns_known c servers now' m"
    using nop by simp
  show "dns_known c servers now' m = Some r"
    if m: "m \<noteq> n" and k: "dns_known (dns_put c n rec t servers now) servers now' m = Some r"
  proof (cases "t = 0")
    case True
    then show ?thesis using k nop by simp
  next
    case False
    obtain x where x: "table_find de_name (dns_make_room ?es @ [e]) m = Some x" "now' < de_expires x" "r = de_record x"
      using k unfolding put [OF False] by (auto simp: dns_known_def split: option.splits if_splits)
    have "m \<noteq> de_name e" using m by (simp add: e_def)
    then have "table_find de_name ?es m = Some x" using push(3) [of m x] x(1) by auto
    then have "x \<in> set (dc_entries (dns_sync c servers))" "de_name x = m"
      using table_find_Some [of de_name ?es m x] tb by (auto simp: table_def)
    then have "table_find de_name (dc_entries (dns_sync c servers)) m = Some x"
      using table_find_Some [of de_name "dc_entries (dns_sync c servers)" m x] d by (simp add: table_def)
    then have "dns_known (dns_sync c servers) servers now' m = Some r" using x by (simp add: dns_known_def)
    then show ?thesis by simp
  qed
qed

section \<open>The resolver asks a bounded number of times\<close>

lemma follow_answer_bound:
  "follow_answer r current aliases steps = (a, steps') \<Longrightarrow> aliases \<le> MAX_ALIASES + 1 \<Longrightarrow>
   aliases \<le> an_aliases a \<and> an_aliases a \<le> MAX_ALIASES + 1 \<and>
   (\<forall>target. an_record a = Alias target \<longrightarrow> 0 < an_aliases a) \<and>
   (\<forall>addrs. an_record a = Addrs addrs \<longrightarrow> addrs \<noteq> [] \<and> (\<exists>owner. \<forall>x \<in> set addrs. \<exists>t. (owner, x, t) \<in> set (rs_addrs r)))"
proof (induction r current aliases steps rule: follow_answer.induct)
  case (1 r current aliases steps)
  let ?addrs = "map snd (filter (\<lambda>(owner, _). owner = current) (rs_addrs r))"
  show ?case
  proof (cases "?addrs = []")
    case False
    have "a = \<lparr>an_aliases = aliases, an_record = Addrs (map fst ?addrs)\<rparr>"
      using "1.prems"(1) False unfolding follow_answer.simps [of r current aliases steps] Let_def by auto
    moreover have "\<forall>x \<in> set (map fst ?addrs). \<exists>t. (current, x, t) \<in> set (rs_addrs r)" by auto
    ultimately show ?thesis using "1.prems"(2) False by auto
  next
    case True
    show ?thesis
    proof (cases "if aliases \<le> MAX_ALIASES then find (\<lambda>(owner, _). owner = current) (rs_cnames r) else None")
      case None
      then show ?thesis
        using "1.prems" True unfolding follow_answer.simps [of r current aliases steps] Let_def
        by (auto split: if_splits option.splits)
    next
      case (Some x)
      obtain owner target t where x: "x = (owner, target, t)" by (cases x)
      have le: "aliases \<le> MAX_ALIASES" using Some by (auto split: if_splits)
      have rec: "follow_answer r target (aliases + 1) (steps @ [(current, Alias target, t)]) = (a, steps')"
        using "1.prems"(1) True Some x unfolding follow_answer.simps [of r current aliases steps] Let_def by simp
      have "aliases + 1 \<le> an_aliases a \<and> an_aliases a \<le> MAX_ALIASES + 1 \<and>
        (\<forall>target. an_record a = Alias target \<longrightarrow> 0 < an_aliases a) \<and>
        (\<forall>addrs. an_record a = Addrs addrs \<longrightarrow> addrs \<noteq> [] \<and> (\<exists>owner. \<forall>x \<in> set addrs. \<exists>t. (owner, x, t) \<in> set (rs_addrs r)))"
        by (rule "1.IH" [OF refl _ Some [unfolded x] refl refl rec]) (use True le in auto)
      then show ?thesis by simp
    qed
  qed
qed

lemma from_cache_mono:
  "from_cache c servers now n aliases = (step, aliases', c') \<Longrightarrow> aliases \<le> aliases'"
proof (induction c servers now n aliases rule: from_cache.induct)
  case (1 c servers now n aliases)
  show ?case
    using "1.prems" unfolding from_cache.simps [of c servers now n aliases]
    by (auto split: if_splits option.splits dns_record.splits prod.splits dest: "1.IH")
qed

text \<open>One exchange with the name servers: the response, what the stack knew when the query began and
  when the answer was cached, and when the cache is read for the alias it ends in.\<close>

record exchange =
  x_response :: response
  x_generation :: u32
  x_current :: u32
  x_cached_at :: instant
  x_servers :: u32
  x_read_at :: instant

lemma dns_answer_alias:
  "dns_answer c n r g cur now = (a, c') \<Longrightarrow> an_record a = Alias target \<Longrightarrow> 0 < an_aliases a"
  using follow_answer_bound [of r n 0 "[]"] by (auto simp: dns_answer_def split: prod.splits)

text \<open>\<open>resolve\<close>. The parameter \<open>ask\<close> is what the n-th query comes to.\<close>

function resolve ::
  "(nat \<Rightarrow> name \<Rightarrow> (net_error, exchange) res) \<Rightarrow> nat \<Rightarrow> dns_cache \<Rightarrow> resolve_step \<Rightarrow> nat \<Rightarrow>
   (net_error, ipv4addr list) res \<times> nat \<times> nat \<times> dns_cache" where
  "resolve ask i c (Done result) aliases = (result, aliases, i, c)"
| "resolve ask i c (Ask n) aliases =
     (case ask i n of
        Err e \<Rightarrow> (Err e, aliases, i + 1, c)
      | Ok x \<Rightarrow>
          (case dns_answer c n (x_response x) (x_generation x) (x_current x) (x_cached_at x) of (a, c) \<Rightarrow>
            let aliases = aliases + an_aliases a in
            if MAX_ALIASES < aliases then (Err NotFound, aliases, i + 1, c)
            else case an_record a of
              Addrs addrs \<Rightarrow> (Ok addrs, aliases, i + 1, c)
            | Missing \<Rightarrow> (Err NotFound, aliases, i + 1, c)
            | Alias target \<Rightarrow>
                (case from_cache c (x_servers x) (x_read_at x) target aliases of (step, aliases, c) \<Rightarrow>
                  resolve ask (i + 1) c step aliases)))"
  by pat_completeness auto

termination
proof (relation "measures [\<lambda>(ask, i, c, step, aliases). (case step of Done _ \<Rightarrow> 0 | Ask _ \<Rightarrow> MAX_ALIASES + 1 - aliases)]", goal_cases)
  case 1
  then show ?case by simp
next
  case (2 ask i c n aliases x a c' aliases' target step r aliases'' c'')
  have "aliases < aliases'" using dns_answer_alias [OF 2(2) [symmetric] 2(5)] 2(3) by simp
  moreover have "aliases' \<le> aliases''" using from_cache_mono [of c' _ _ target aliases' step aliases'' c''] 2(6,7) by simp
  ultimately show ?case using 2(4) by (auto split: resolve_step.splits)
qed

lemma from_cache_limit:
  "from_cache c servers now n aliases = (step, aliases', c') \<Longrightarrow>
   aliases' \<le> MAX_ALIASES \<or> step = Done (Err NotFound)"
proof (induction c servers now n aliases rule: from_cache.induct)
  case (1 c servers now n aliases)
  show ?case
    using "1.prems" unfolding from_cache.simps [of c servers now n aliases]
    by (auto split: if_splits option.splits dns_record.splits prod.splits dest: "1.IH")
qed

lemma from_cache_wf:
  "from_cache c servers now n aliases = (step, aliases', c') \<Longrightarrow> dns_wf c \<Longrightarrow> dns_wf c'"
proof (induction c servers now n aliases rule: from_cache.induct)
  case (1 c servers now n aliases)
  obtain r d where g: "dns_get c n servers now = (r, d)" by fastforce
  have "dns_wf d" using dns_get_spec(2) [OF "1.prems"(2), of n servers now] g by simp
  then show ?case
    using "1.prems" g "1.IH" unfolding from_cache.simps [of c servers now n aliases]
    by (auto split: if_splits option.splits dns_record.splits)
qed

lemma dns_answer_wf: "dns_wf c \<Longrightarrow> dns_wf (snd (dns_answer c n r g cur now))"
proof -
  assume wf: "dns_wf c"
  obtain a steps where f: "follow_answer r n 0 [] = (a, steps)" by fastforce
  have "dns_wf (foldl (\<lambda>c (n, rec, t). dns_put c n rec t g now) c steps)"
    using wf by (induction steps arbitrary: c) (auto simp: dns_put_spec(1))
  then show ?thesis using wf f by (simp add: dns_answer_def)
qed

lemma resolve_bound:
  "resolve ask i c step aliases = (result, aliases', j, c') \<Longrightarrow> aliases \<le> MAX_ALIASES \<or> step = Done (Err NotFound) \<Longrightarrow>
   j \<le> i + (case step of Done _ \<Rightarrow> 0 | Ask _ \<Rightarrow> MAX_ALIASES + 1 - aliases) \<and>
   (\<forall>addrs. result = Ok addrs \<longrightarrow> aliases' \<le> MAX_ALIASES) \<and> (dns_wf c \<longrightarrow> dns_wf c')"
proof (induction ask i c step aliases rule: resolve.induct)
  case (1 ask i c res aliases)
  then show ?case by auto
next
  case (2 ask i c n aliases)
  have le: "aliases \<le> MAX_ALIASES" using "2.prems"(2) by simp
  show ?case
  proof (cases "ask i n")
    case (Err e)
    then show ?thesis using "2.prems" le by auto
  next
    case (Ok x)
    obtain a d where ans: "dns_answer c n (x_response x) (x_generation x) (x_current x) (x_cached_at x) = (a, d)"
      by fastforce
    have wf: "dns_wf c \<longrightarrow> dns_wf d" using dns_answer_wf ans by (metis snd_conv)
    let ?al = "aliases + an_aliases a"
    show ?thesis
    proof (cases "MAX_ALIASES < ?al \<or> (\<nexists>target. an_record a = Alias target)")
      case True
      then show ?thesis using "2.prems"(1) Ok ans wf le
        by (auto simp: Let_def split: dns_record.splits if_splits)
    next
      case False
      then obtain target where t: "an_record a = Alias target" "\<not> MAX_ALIASES < ?al" by blast
      have pos: "0 < an_aliases a" using dns_answer_alias [OF ans t(1)] .
      obtain step al e where fc: "from_cache d (x_servers x) (x_read_at x) target ?al = (step, al, e)"
        by (metis prod_cases3)
      have rec: "resolve ask (i + 1) e step al = (result, aliases', j, c')"
        using "2.prems"(1) Ok ans t fc by (simp add: Let_def)
      note IH = "2.IH" [OF Ok ans [symmetric] refl t(2) t(1) fc [symmetric] refl rec from_cache_limit [OF fc]]
      have "?al \<le> al" using from_cache_mono [OF fc] .
      then have "(case step of Done _ \<Rightarrow> 0 | Ask _ \<Rightarrow> MAX_ALIASES + 1 - al) + 1 \<le> MAX_ALIASES + 1 - aliases"
        using pos t(2) le by (auto split: resolve_step.splits)
      moreover have "dns_wf c \<longrightarrow> dns_wf e" using wf from_cache_wf [OF fc] by blast
      ultimately show ?thesis using IH by auto
    qed
  qed
qed

section \<open>Properties\<close>

text \<open>The cache answers with what was put last, and no longer than its time to live: after a put with a
  non-zero time to live the name has this record until the capped time to live is over; what the cache
  says of any other name is what it said before or nothing.\<close>

theorem dns_get_after_put:
  assumes wf: "dns_wf c" and t: "t \<noteq> 0"
  shows "fst (dns_get (dns_put c n rec t servers now) n servers now') =
      (if now' < instant_add now (from_secs (unat (min t (if rec = Missing then MAX_NEGATIVE_TTL else MAX_TTL))))
       then Some rec else None) \<and>
    (m \<noteq> n \<longrightarrow> fst (dns_get (dns_put c n rec t servers now) m servers now') \<in> {None, fst (dns_get c m servers now')})"
proof -
  note put = dns_put_spec [OF wf, where n = n and rec = rec and t = t and servers = servers and now = now]
  note known = dns_get_spec(1) [OF put(1)] dns_get_spec(1) [OF wf]
  have "dns_known (dns_put c n rec t servers now) servers now' m \<in> {None, dns_known c servers now' m}" if "m \<noteq> n"
    using put(3) [OF that] by (cases "dns_known (dns_put c n rec t servers now) servers now' m") auto
  then show ?thesis using put(2) [OF t, of now'] by (auto simp: known dns_lifetime_def)
qed

lemma dns_get_after_put_witness:
  "fst (dns_get (dns_put \<lparr>dc_entries = [], dc_servers = 3, dc_clock = 0\<rparr> [0x61] Missing 60 3 10) [0x61] 3 11) = Some Missing"
  using dns_get_after_put [where c = "\<lparr>dc_entries = [], dc_servers = 3, dc_clock = 0\<rparr>" and t = 60 and n = "[0x61]"
      and rec = Missing and servers = 3 and now = 10 and now' = 11]
  by (simp add: dns_wf_def table_def MAX_NEGATIVE_TTL_def from_secs_def instant_add_def)


end
