(* ===== verification/Bit_Stream.thy ===== *)
theory Bit_Stream
  imports Source_Input
begin

text \<open>
  The bits of a byte stream, as the decompressors take them: least or most significant bit of a byte
  first; and the lemmas on bit buffers that \<open>Lzw\<close> and \<open>Huffman\<close> share.
\<close>

definition byte_bits :: "bool \<Rightarrow> u8 \<Rightarrow> bool list" where
  "byte_bits msb b = (if msb then rev (map (bit b) [0..<8]) else map (bit b) [0..<8])"

definition stream_bits :: "bool \<Rightarrow> u8 list \<Rightarrow> bool list" where
  "stream_bits msb bs = concat (map (byte_bits msb) bs)"

lemma length_stream_bits [simp]: "length (stream_bits msb bs) = 8 * length bs"
  by (induction bs) (simp_all add: stream_bits_def byte_bits_def)

lemma bits_append_low:
  fixes buf :: u32 and c :: u8
  assumes "n \<le> 24"
  shows "map (bit (buf OR push_bit n (ucast c))) [0..<n + 8] = map (\<lambda>j. bit buf j) [0..<n] @ map (\<lambda>j. bit buf (n + j) \<or> bit c j) [0..<8]"
  using assms by (intro nth_equalityI) (auto simp: nth_append bit_simps)

lemma bits_append_high:
  fixes buf :: u32 and c :: u8
  assumes "n \<le> 24"
  shows "map (bit (push_bit 8 buf OR ucast c)) [0..<n + 8] = map (bit c) [0..<8] @ map (bit buf) [0..<n]"
proof (rule nth_equalityI)
  fix j assume "j < length (map (bit (push_bit 8 buf OR ucast c)) [0..<n + 8])"
  then show "map (bit (push_bit 8 buf OR ucast c)) [0..<n + 8] ! j = (map (bit c) [0..<8] @ map (bit buf) [0..<n]) ! j"
    using assms bit_imp_le_length [of c j] by (auto simp: nth_append bit_simps)
qed simp

abbreviation input_fine :: "block_source input \<Rightarrow> bool" where
  "input_fine \<equiv> input_ok block_content block_handed"

lemma nat_horner_bits:
  fixes a :: u32
  assumes "n \<le> 32"
  shows "(horner_sum of_bool 2 (map (bit a) [0..<n]) :: nat) = unat (a AND mask n)"
proof -
  have "map (bit a) [0..<n] = map (bit (unat a)) [0..<n]" using assms by (simp add: bit_simps)
  then have "(horner_sum of_bool 2 (map (bit a) [0..<n]) :: nat) = take_bit n (unat a)"
    by (simp only: horner_sum_bit_eq_take_bit)
  then show ?thesis by (simp add: unsigned_take_bit_eq flip: take_bit_eq_mask)
qed

end
