(* ===== verification/Gfx_Format.thy ===== *)
theory Gfx_Format
  imports Bit_Stream Image_Base
begin

text \<open>
  Resource binaries of the graphics library, \<open>libs/devkit_gfx/src/format.rs\<close>: the headers of fonts and
  images, and the levels of glyphs, packed or run-length encoded. The encoders are those of the resource
  generator, the readers those of the firmware; what one writes the other reads back.
\<close>

section \<open>Writing bits\<close>

record bit_writer =
  bw_out :: "u8 list"
  bw_acc :: u32
  bw_bits :: nat

definition bit_writer_new :: bit_writer where
  "bit_writer_new = \<lparr>bw_out = [], bw_acc = 0, bw_bits = 0\<rparr>"

function bit_writer_flush :: "bit_writer \<Rightarrow> bit_writer" where
  "bit_writer_flush w =
     (if 8 \<le> bw_bits w then
        let bits = bw_bits w - 8
        in bit_writer_flush (w\<lparr>bw_bits := bits, bw_out := bw_out w @ [ucast (drop_bit bits (bw_acc w))]\<rparr>)
      else w)"
  by pat_completeness auto
termination by (relation "measure bw_bits") auto

declare bit_writer_flush.simps [simp del]

definition bit_writer_put :: "bit_writer \<Rightarrow> u32 \<Rightarrow> nat \<Rightarrow> bit_writer" where
  "bit_writer_put w value n =
     bit_writer_flush (w\<lparr>bw_acc := push_bit n (bw_acc w) OR value, bw_bits := bw_bits w + n\<rparr>)"

definition bit_writer_finish :: "bit_writer \<Rightarrow> bit_writer" where
  "bit_writer_finish w =
     (if 0 < bw_bits w then w\<lparr>bw_out := bw_out w @ [ucast (push_bit (8 - bw_bits w) (bw_acc w))], bw_bits := 0\<rparr> else w)"

section \<open>Packed and run-length encoded levels\<close>

definition REPEATS_BEFORE_COUNT :: nat where "REPEATS_BEFORE_COUNT = 11"

definition pack_levels :: "u8 list \<Rightarrow> nat \<Rightarrow> u8 list" where
  "pack_levels levels bpp =
     bw_out (bit_writer_finish (foldl (\<lambda>w level. bit_writer_put w (ucast level) bpp) bit_writer_new levels))"

text \<open>From the last level back, each is combined with the one above it.\<close>

definition prefilter_rows :: "u8 list \<Rightarrow> nat \<Rightarrow> u8 list" where
  "prefilter_rows levels width =
     foldl (\<lambda>out i. out[i := out ! i XOR levels ! (i - width)]) levels (rev [width..<length levels])"

lemma drop_Cons_length: "drop k xs = y # ys \<Longrightarrow> length ys < length xs"
  using length_drop [of k xs] by simp

text \<open>The loop of \<open>rle_encode\<close>; \<open>rest\<close> is \<open>levels[index..]\<close>.\<close>

function rle_loop :: "nat \<Rightarrow> u8 list \<Rightarrow> u8 option \<Rightarrow> nat \<Rightarrow> bool \<Rightarrow> bit_writer \<Rightarrow> bit_writer" where
  "rle_loop bpp [] previous repeats repeating w = w"
| "rle_loop bpp (value # rest) previous repeats repeating w =
     (if \<not> repeating then
        rle_loop bpp rest (Some value) 0 (previous = Some value) (bit_writer_put w (ucast value) bpp)
      else if Some value = previous then
        let w = bit_writer_put w 1 1; repeats = repeats + 1 in
        if repeats = REPEATS_BEFORE_COUNT then
          let run = length (takeWhile (\<lambda>v. Some v = previous) rest);
              len = min (run + 1) 63;
              w = bit_writer_put w (word_of_nat len) 6
          in case drop (len - 1) rest of
               [] \<Rightarrow> w
             | v # rest \<Rightarrow> rle_loop bpp rest (Some v) repeats False (bit_writer_put w (ucast v) bpp)
        else rle_loop bpp rest previous repeats True w
      else rle_loop bpp (value # rest) previous repeats False (bit_writer_put w 0 1))"
  by pat_completeness auto
termination
  by (relation "measure (\<lambda>(bpp, rest, previous, repeats, repeating, w). 2 * length rest + of_bool repeating)")
    (auto dest: drop_Cons_length)

definition rle_encode :: "u8 list \<Rightarrow> nat \<Rightarrow> u8 list" where
  "rle_encode levels bpp = bw_out (bit_writer_finish (rle_loop bpp levels None 0 False bit_writer_new))"

section \<open>Reading levels\<close>

datatype rle_state = RleSingle | RleRepeat | RleCount

record level_reader =
  lr_data :: "u8 list"
  lr_position :: nat
  lr_bpp :: nat
  lr_compressed :: bool
  lr_started :: bool
  lr_previous :: u8
  lr_repeats :: nat
  lr_state :: rle_state

definition level_reader_new :: "u8 list \<Rightarrow> nat \<Rightarrow> bool \<Rightarrow> level_reader" where
  "level_reader_new data bpp compressed = \<lparr>lr_data = data, lr_position = 0, lr_bpp = bpp, lr_compressed = compressed, lr_started = False,
     lr_previous = 0, lr_repeats = 0, lr_state = RleSingle\<rparr>"

definition level_bits :: "level_reader \<Rightarrow> nat \<Rightarrow> (u32 \<times> level_reader) option" where
  "level_bits r n = do {
     let byte = lr_position r div 8;
     let offset = lr_position r mod 8;
     b0 \<leftarrow> arr_get (lr_data r) byte;
     b1 \<leftarrow> arr_get (lr_data r) (byte + 1);
     b2 \<leftarrow> arr_get (lr_data r) (byte + 2);
     let window = (push_bit 16 (ucast b0) OR push_bit 8 (ucast b1)) OR ucast b2;
     Some (drop_bit (24 - offset - n) window AND (push_bit n 1 - 1), r\<lparr>lr_position := lr_position r + n\<rparr>)
   }"

definition level_single :: "level_reader \<Rightarrow> (u8 \<times> level_reader) option" where
  "level_single r = do {
     (v, r) \<leftarrow> level_bits r (lr_bpp r);
     let r = r\<lparr>lr_previous := ucast v, lr_state := RleSingle\<rparr>;
     Some (lr_previous r, r)
   }"

text \<open>In the state \<open>RleCount\<close> the count is never zero, so the subtraction of the source does not wrap.\<close>

definition level_next :: "level_reader \<Rightarrow> (u8 \<times> level_reader) option" where
  "level_next r =
     (if \<not> lr_compressed r then do { (v, r) \<leftarrow> level_bits r (lr_bpp r); Some (ucast v, r) }
      else case lr_state r of
        RleSingle \<Rightarrow> do {
          (v, r) \<leftarrow> level_bits r (lr_bpp r);
          let value = ucast v;
          let r = (if lr_started r \<and> value = lr_previous r then r\<lparr>lr_state := RleRepeat, lr_repeats := 0\<rparr> else r);
          Some (value, r\<lparr>lr_started := True, lr_previous := value\<rparr>)
        }
      | RleRepeat \<Rightarrow> do {
          let r = r\<lparr>lr_repeats := lr_repeats r + 1\<rparr>;
          (b, r) \<leftarrow> level_bits r 1;
          if b = 1 then
            (if lr_repeats r \<noteq> REPEATS_BEFORE_COUNT then Some (lr_previous r, r)
             else do {
               (n, r) \<leftarrow> level_bits r 6;
               let r = r\<lparr>lr_repeats := unat n\<rparr>;
               if lr_repeats r \<noteq> 0 then Some (lr_previous r, r\<lparr>lr_state := RleCount\<rparr>) else level_single r
             })
          else level_single r
        }
      | RleCount \<Rightarrow>
          let r = r\<lparr>lr_repeats := lr_repeats r - 1\<rparr>
          in if lr_repeats r \<noteq> 0 then Some (lr_previous r, r) else level_single r)"

fun level_read :: "nat \<Rightarrow> level_reader \<Rightarrow> (u8 list \<times> level_reader) option" where
  "level_read 0 r = Some ([], r)"
| "level_read (Suc n) r = do { (v, r) \<leftarrow> level_next r; (vs, r) \<leftarrow> level_read n r; Some (v # vs, r) }"

section \<open>The bits written\<close>

abbreviation msb_bits :: "nat \<Rightarrow> 'a::semiring_bit_operations \<Rightarrow> bool list" where
  "msb_bits n v \<equiv> rev (map (bit v) [0..<n])"

definition writer_bits :: "bit_writer \<Rightarrow> bool list" where
  "writer_bits w = stream_bits True (bw_out w) @ msb_bits (bw_bits w) (bw_acc w)"

lemma stream_bits_append [simp]: "stream_bits m (xs @ ys) = stream_bits m xs @ stream_bits m ys"
  by (simp add: stream_bits_def)

lemma stream_bits_single: "stream_bits True [b] = msb_bits 8 b"
  by (simp add: stream_bits_def byte_bits_def)

lemma msb_bits_append:
  "msb_bits (a + b) x = msb_bits a (drop_bit b x) @ msb_bits b x"
proof -
  have "[0..<a + b] = [0..<b] @ map (\<lambda>i. b + i) [0..<a]" using upt_add_eq_append [of 0 b a] map_add_upt [of b a] by (simp add: add.commute [of _ b])
  then show ?thesis by (simp add: bit_drop_bit_eq comp_def)
qed

lemma msb_bits_cong: "(\<And>i. i < n \<Longrightarrow> bit x i = bit y i) \<Longrightarrow> msb_bits n x = msb_bits n y"
  by simp

lemma flush_bits: "bw_bits w \<le> 32 \<Longrightarrow> writer_bits (bit_writer_flush w) = writer_bits w \<and> bw_bits (bit_writer_flush w) < 8"
proof (induction w rule: bit_writer_flush.induct)
  case (1 w)
  show ?case
  proof (cases "8 \<le> bw_bits w")
    case False
    then show ?thesis by (simp add: bit_writer_flush.simps)
  next
    case True
    let ?n = "bw_bits w - 8" and ?b = "ucast (drop_bit (bw_bits w - 8) (bw_acc w)) :: u8"
    have "msb_bits 8 ?b = msb_bits 8 (drop_bit ?n (bw_acc w))"
      by (rule msb_bits_cong) (simp add: bit_simps)
    then have "msb_bits (bw_bits w) (bw_acc w) = msb_bits 8 ?b @ msb_bits ?n (bw_acc w)"
      using True msb_bits_append [where a = 8 and b = ?n and x = "bw_acc w"] by simp
    then show ?thesis using 1 True
      by (simp add: bit_writer_flush.simps [of w] writer_bits_def stream_bits_single Let_def)
  qed
qed

lemma put_bits:
  assumes "bw_bits w < 8" "n \<le> 24" "\<And>i. n \<le> i \<Longrightarrow> \<not> bit v i"
  shows "writer_bits (bit_writer_put w v n) = writer_bits w @ msb_bits n v \<and> bw_bits (bit_writer_put w v n) < 8"
proof -
  let ?a = "push_bit n (bw_acc w) OR v"
  have "msb_bits (bw_bits w) (drop_bit n ?a) = msb_bits (bw_bits w) (bw_acc w)"
    using assms by (intro msb_bits_cong) (auto simp: bit_simps)
  moreover have "msb_bits n ?a = msb_bits n v" by (intro msb_bits_cong) (simp add: bit_simps)
  ultimately have "msb_bits (bw_bits w + n) ?a = msb_bits (bw_bits w) (bw_acc w) @ msb_bits n v"
    using msb_bits_append [where a = "bw_bits w" and b = n and x = ?a] by simp
  then show ?thesis using flush_bits [of "w\<lparr>bw_acc := ?a, bw_bits := bw_bits w + n\<rparr>"] assms(1,2)
    by (simp add: bit_writer_put_def writer_bits_def)
qed

lemma finish_bits:
  assumes "bw_bits w < 8"
  shows "\<exists>pad. stream_bits True (bw_out (bit_writer_finish w)) = writer_bits w @ pad"
proof (cases "bw_bits w = 0")
  case True
  then show ?thesis by (simp add: bit_writer_finish_def writer_bits_def)
next
  case False
  let ?p = "8 - bw_bits w" and ?b = "ucast (push_bit (8 - bw_bits w) (bw_acc w)) :: u8"
  have "msb_bits (bw_bits w) (drop_bit ?p ?b) = msb_bits (bw_bits w) (bw_acc w)"
    using assms False by (intro msb_bits_cong) (auto simp: bit_simps)
  then have "msb_bits 8 ?b = msb_bits (bw_bits w) (bw_acc w) @ msb_bits ?p ?b"
    using msb_bits_append [where a = "bw_bits w" and b = ?p and x = ?b] assms by simp
  then show ?thesis using False by (simp add: bit_writer_finish_def writer_bits_def stream_bits_single)
qed

section \<open>The bits read\<close>

lemma nth_msb_bits: "k < n \<Longrightarrow> msb_bits n v ! k = bit v (n - 1 - k)"
  by (simp add: rev_nth)

lemma nth_stream_bits:
  "k < 8 * length bs \<Longrightarrow> stream_bits True bs ! k = bit (bs ! (k div 8)) (7 - k mod 8)"
proof (induction bs arbitrary: k)
  case (Cons b bs)
  have split: "stream_bits True (b # bs) = msb_bits 8 b @ stream_bits True bs"
    using stream_bits_append [of True "[b]" bs] by (simp add: stream_bits_single)
  show ?case
  proof (cases "k < 8")
    case True
    then show ?thesis unfolding split by (simp add: nth_append rev_nth)
  next
    case False
    then have "stream_bits True (b # bs) ! k = stream_bits True bs ! (k - 8)" unfolding split by (simp add: nth_append)
    also have "\<dots> = bit (bs ! ((k - 8) div 8)) (7 - (k - 8) mod 8)" using Cons False by simp
    finally show ?thesis using False by (simp add: le_div_geq le_mod_geq)
  qed
qed simp

text \<open>The bits the reader has before it, with the slack that the window needs.\<close>

definition reads :: "level_reader \<Rightarrow> bool list \<Rightarrow> bool" where
  "reads r bits \<longleftrightarrow> (\<exists>pad. drop (lr_position r) (stream_bits True (lr_data r)) = bits @ pad \<and> 16 \<le> length pad)"

lemma reads_cong: "lr_position r' = lr_position r \<Longrightarrow> lr_data r' = lr_data r \<Longrightarrow> reads r' bits = reads r bits"
  by (simp add: reads_def)

lemma window_bit:
  fixes b0 b1 b2 :: u8
  assumes "i < 24"
  shows "bit ((push_bit 16 (ucast b0) OR push_bit 8 (ucast b1)) OR ucast b2 :: u32) i =
    (if i < 8 then bit b2 i else if i < 16 then bit b1 (i - 8) else bit b0 (i - 16))"
  using assms bit_imp_le_length [of b1 "i - 8"] bit_imp_le_length [of b2 i] by (auto simp: bit_simps)

lemma level_bits_spec:
  assumes "reads r (msb_bits n v @ bits)" "0 < n" "n \<le> 8" "\<And>i. n \<le> i \<Longrightarrow> \<not> bit v i"
  shows "level_bits r n = Some (v, r\<lparr>lr_position := lr_position r + n\<rparr>) \<and> reads (r\<lparr>lr_position := lr_position r + n\<rparr>) bits"
proof -
  let ?p = "lr_position r" and ?d = "lr_data r"
  let ?q = "?p div 8" and ?o = "?p mod 8"
  obtain pad where pad: "drop ?p (stream_bits True ?d) = msb_bits n v @ bits @ pad" "16 \<le> length pad"
    using assms(1) by (auto simp: reads_def)
  have "length (drop ?p (stream_bits True ?d)) = n + length bits + length pad" using pad(1) by simp
  then have room: "?p + n + 16 \<le> 8 * length ?d" using pad(2) by simp
  have p: "?p = 8 * ?q + ?o" "?o < 8" by simp_all
  then have q: "?q + 2 < length ?d" using room assms(2) by linarith
  let ?w = "(push_bit 16 (ucast (?d ! ?q)) OR push_bit 8 (ucast (?d ! (?q + 1)))) OR ucast (?d ! (?q + 2)) :: u32"
  have "drop_bit (24 - ?o - n) ?w AND (push_bit n 1 - 1) = v"
  proof (rule bit_word_eqI)
    fix j assume j: "j < LENGTH(32)"
    show "bit (drop_bit (24 - ?o - n) ?w AND (push_bit n 1 - 1)) j = bit v j"
    proof (cases "j < n")
      case False
      then show ?thesis using assms(4) by (simp add: push_bit_of_1 bit_simps flip: mask_eq_exp_minus_1)
    next
      case True
      let ?i = "24 - ?o - n + j" and ?k = "?p + (n - 1 - j)"
      have i: "?i < 24" "?i + (n - 1 - j) + ?o = 23" using True assms(3) p(2) by linarith+
      have k: "?k < 8 * length ?d" using room True by linarith
      have "bit v j = (msb_bits n v @ bits @ pad) ! (n - 1 - j)" using True by (simp add: nth_append rev_nth)
      also have "\<dots> = stream_bits True ?d ! ?k" using pad(1) k by (metis length_stream_bits less_imp_le_nat add_leD1 nth_drop)
      also have "\<dots> = bit (?d ! (?k div 8)) (7 - ?k mod 8)" by (rule nth_stream_bits [OF k])
      also have "\<dots> = bit ?w ?i"
      proof -
        define i where "i = ?i"
        define q where "q = ?q"
        have sum: "?k = 8 * q + (23 - i)" "i < 24" using p i(2) i(1) unfolding i_def q_def by linarith+
        have parts: "?k div 8 = q + (23 - i) div 8" "?k mod 8 = (23 - i) mod 8" unfolding sum(1) by simp_all
        consider "i < 8" | "8 \<le> i" "i < 16" | "16 \<le> i" by linarith
        then have "bit (?d ! (q + (23 - i) div 8)) (7 - (23 - i) mod 8) = bit ?w i"
        proof cases
          case 1
          then have "23 - i = 7 - i + 2 * 8" "7 - i < 8" "7 - (7 - i) = i" using sum(2) by linarith+
          then have "(23 - i) div 8 = 2" "7 - (23 - i) mod 8 = i" by (simp_all only: div_mult_self1 mod_mult_self1) simp_all
          then show ?thesis using 1 window_bit [OF sum(2)] by (simp add: q_def)
        next
          case 2
          then have "23 - i = 15 - i + 1 * 8" "15 - i < 8" "7 - (15 - i) = i - 8" using sum(2) by linarith+
          then have "(23 - i) div 8 = 1" "7 - (23 - i) mod 8 = i - 8" by (simp_all only: div_mult_self1 mod_mult_self1) simp_all
          then show ?thesis using 2 window_bit [OF sum(2)] by (simp add: q_def)
        next
          case 3
          then have "23 - i = 23 - i + 0 * 8" "23 - i < 8" "7 - (23 - i) = i - 16" using sum(2) by linarith+
          then have "(23 - i) div 8 = 0" "7 - (23 - i) mod 8 = i - 16" by (simp_all only: div_mult_self1 mod_mult_self1) simp_all
          then show ?thesis using 3 window_bit [OF sum(2)] by (simp add: q_def)
        qed
        then show ?thesis unfolding parts i_def .
      qed
      finally show ?thesis using True j by (simp add: push_bit_of_1 bit_simps flip: mask_eq_exp_minus_1)
    qed
  qed
  moreover have "drop (?p + n) (stream_bits True ?d) = bits @ pad"
    using pad(1) by (metis append_eq_conv_conj drop_drop add.commute length_map length_rev length_upt minus_nat.diff_0)
  ultimately show ?thesis using q pad(2) by (simp add: level_bits_def Let_def reads_def)
qed

section \<open>Run-length encoding is undone by the reader\<close>

lemma ucast_byte [simp]: "(ucast (ucast (v :: u8) :: u32) :: u8) = v"
  by (rule bit_word_eqI) (simp add: bit_simps)

lemma high_bits_zero: "unat (v :: u8) < 2 ^ bpp \<Longrightarrow> bpp \<le> i \<Longrightarrow> \<not> bit (ucast v :: u32) i"
proof -
  assume v: "unat v < 2 ^ bpp" "bpp \<le> i"
  then have "unat v < 2 ^ i" by (meson less_le_trans one_le_numeral power_increasing)
  then have "\<not> bit (unat v) i" by (simp add: bit_iff_odd)
  then show ?thesis by (simp add: bit_simps)
qed

lemma level_read_append:
  "level_read m r = Some (xs, r1) \<Longrightarrow> level_read n r1 = Some (ys, r2) \<Longrightarrow> level_read (m + n) r = Some (xs @ ys, r2)"
  by (induction m arbitrary: r xs) (auto simp: bind_eq_Some_conv)

lemma count_run:
  "lr_compressed r \<Longrightarrow> lr_state r = RleCount \<Longrightarrow> lr_repeats r = Suc (m + k) \<Longrightarrow>
   level_read m r = Some (replicate m (lr_previous r), r\<lparr>lr_repeats := Suc k\<rparr>)"
proof (induction m arbitrary: r)
  case (Suc m)
  have "level_next r = Some (lr_previous r, r\<lparr>lr_repeats := Suc (m + k)\<rparr>)" using Suc.prems by (simp add: level_next_def)
  then show ?case using Suc.IH [of "r\<lparr>lr_repeats := Suc (m + k)\<rparr>"] Suc.prems by simp
qed (cases r, simp)

text \<open>How the reader stands when the encoder has \<open>previous\<close>, \<open>repeats\<close> and \<open>repeating\<close>.\<close>

definition matches :: "nat \<Rightarrow> u8 option \<Rightarrow> nat \<Rightarrow> bool \<Rightarrow> level_reader \<Rightarrow> bool" where
  "matches bpp previous repeats repeating r \<longleftrightarrow> lr_compressed r \<and> lr_bpp r = bpp \<and>
     (if repeating then lr_state r = RleRepeat \<and> lr_started r \<and> previous = Some (lr_previous r) \<and> lr_repeats r = repeats
      else lr_state r = RleSingle \<and> previous = (if lr_started r then Some (lr_previous r) else None))"

definition decodes :: "nat \<Rightarrow> u8 list \<Rightarrow> u8 option \<Rightarrow> nat \<Rightarrow> bool \<Rightarrow> bool list \<Rightarrow> bool" where
  "decodes bpp levels previous repeats repeating bits \<longleftrightarrow>
     (\<forall>r tail. matches bpp previous repeats repeating r \<longrightarrow> reads r (bits @ tail) \<longrightarrow>
        (\<exists>r'. level_read (length levels) r = Some (levels, r')))"

lemma level_bits_value:
  assumes "reads r (msb_bits bpp (ucast v :: u32) @ bits)" "unat (v :: u8) < 2 ^ bpp" "0 < bpp" "bpp \<le> 8"
  shows "level_bits r bpp = Some (ucast v, r\<lparr>lr_position := lr_position r + bpp\<rparr>) \<and> reads (r\<lparr>lr_position := lr_position r + bpp\<rparr>) bits"
  using level_bits_spec [OF assms(1,3,4)] high_bits_zero [OF assms(2)] by blast

lemma level_bits_one:
  assumes "reads r (b # bits)"
  shows "level_bits r 1 = Some (of_bool b, r\<lparr>lr_position := lr_position r + 1\<rparr>) \<and> reads (r\<lparr>lr_position := lr_position r + 1\<rparr>) bits"
proof -
  have "reads r (msb_bits 1 (of_bool b :: u32) @ bits)" using assms by (cases b) simp_all
  moreover have "\<not> bit (of_bool b :: u32) i" if "1 \<le> i" for i using that by (cases b) (simp_all add: bit_simps)
  ultimately show ?thesis by (intro level_bits_spec) simp_all
qed

lemma decodes_single:
  assumes "decodes bpp levels (Some v) 0 (previous = Some v) bits" "unat v < 2 ^ bpp" "0 < bpp" "bpp \<le> 8"
  shows "decodes bpp (v # levels) previous repeats False (msb_bits bpp (ucast v :: u32) @ bits)"
  unfolding decodes_def
proof (intro allI impI)
  fix r tail assume m: "matches bpp previous repeats False r" and r: "reads r ((msb_bits bpp (ucast v :: u32) @ bits) @ tail)"
  let ?r = "r\<lparr>lr_position := lr_position r + bpp\<rparr>"
  have bits: "level_bits r bpp = Some (ucast v, ?r)" "reads ?r (bits @ tail)"
    using level_bits_value [OF _ assms(2-4), of r "bits @ tail"] r by simp_all
  let ?r1 = "(if lr_started r \<and> v = lr_previous r then ?r\<lparr>lr_state := RleRepeat, lr_repeats := 0\<rparr> else ?r)\<lparr>lr_started := True, lr_previous := v\<rparr>"
  have step: "level_next r = Some (v, ?r1)" using m bits(1) by (simp add: matches_def level_next_def)
  have "matches bpp (Some v) 0 (previous = Some v) ?r1" using m by (auto simp: matches_def)
  moreover have "reads ?r1 (bits @ tail)" using bits(2) by (subst reads_cong [of ?r1 ?r]) auto
  ultimately obtain r' where "level_read (length levels) ?r1 = Some (levels, r')" using assms(1) unfolding decodes_def by blast
  then show "\<exists>r'. level_read (length (v # levels)) r = Some (v # levels, r')" using step by simp
qed

lemma level_bits_cong:
  "level_bits r n = Some (w, r1) \<Longrightarrow> lr_data r' = lr_data r \<Longrightarrow> lr_position r' = lr_position r \<Longrightarrow>
   level_bits r' n = Some (w, r'\<lparr>lr_position := lr_position r + n\<rparr>)"
  by (auto simp: level_bits_def Let_def bind_eq_Some_conv)

text \<open>A repeat, up to the eleventh.\<close>

lemma decodes_repeat:
  assumes "decodes bpp levels (Some v) (repeats + 1) True bits" "repeats + 1 \<noteq> REPEATS_BEFORE_COUNT"
  shows "decodes bpp (v # levels) (Some v) repeats True (True # bits)"
  unfolding decodes_def
proof (intro allI impI)
  fix r tail assume m: "matches bpp (Some v) repeats True r" and r: "reads r ((True # bits) @ tail)"
  let ?r = "r\<lparr>lr_repeats := repeats + 1\<rparr>" and ?r1 = "r\<lparr>lr_repeats := repeats + 1, lr_position := lr_position r + 1\<rparr>"
  have bits: "level_bits ?r 1 = Some (1, ?r1)" "reads ?r1 (bits @ tail)"
    using level_bits_one [of ?r True "bits @ tail"] r by (simp_all add: reads_def)
  have "level_next r = Some (v, ?r1)" using m bits(1) assms(2) by (simp add: matches_def level_next_def)
  moreover have "matches bpp (Some v) (repeats + 1) True ?r1" using m by (simp add: matches_def)
  ultimately show "\<exists>r'. level_read (length (v # levels)) r = Some (v # levels, r')"
    using assms(1) bits(2) unfolding decodes_def by fastforce
qed

text \<open>The end of a run: the level after it is read without a new repeat.\<close>

lemma decodes_run_end:
  assumes "decodes bpp (v # levels) (Some p) repeats False bits" "v \<noteq> p"
  shows "decodes bpp (v # levels) (Some p) repeats True (False # bits)"
  unfolding decodes_def
proof (intro allI impI)
  fix r tail assume m: "matches bpp (Some p) repeats True r" and r: "reads r ((False # bits) @ tail)"
  let ?r = "r\<lparr>lr_repeats := repeats + 1\<rparr>" and ?r1 = "r\<lparr>lr_repeats := repeats + 1, lr_position := lr_position r + 1\<rparr>"
  let ?s = "?r1\<lparr>lr_state := RleSingle\<rparr>"
  have bits: "level_bits ?r 1 = Some (0, ?r1)" "reads ?r1 (bits @ tail)"
    using level_bits_one [of ?r False "bits @ tail"] r by (simp_all add: reads_def)
  have "matches bpp (Some p) repeats False ?s" using m by (simp add: matches_def)
  moreover have "reads ?s (bits @ tail)" using bits(2) by (simp add: reads_def)
  ultimately obtain r' where "level_read (length (v # levels)) ?s = Some (v # levels, r')" using assms(1) unfolding decodes_def by blast
  then obtain s2 where s2: "level_next ?s = Some (v, s2)" "level_read (length levels) s2 = Some (levels, r')"
    by (auto simp: bind_eq_Some_conv)
  have st: "lr_compressed r" "lr_bpp r = bpp" "lr_started r" "lr_previous r = p" "lr_state r = RleRepeat" "lr_repeats r = repeats"
    using m by (simp_all add: matches_def)
  obtain w where w: "level_bits ?s bpp = Some (w, ?s\<lparr>lr_position := lr_position r + 1 + bpp\<rparr>)" "ucast w = v"
    using s2(1) st by (auto simp: level_next_def bind_eq_Some_conv level_bits_def Let_def split: if_splits)
  have "level_bits ?r1 bpp = Some (w, ?r1\<lparr>lr_position := lr_position r + 1 + bpp\<rparr>)"
    using level_bits_cong [OF w(1), of ?r1] by simp
  then have "level_next r = Some (v, ?r1\<lparr>lr_position := lr_position r + 1 + bpp, lr_previous := v, lr_state := RleSingle\<rparr>)"
    using st bits(1) w(2) by (simp add: level_next_def level_single_def)
  moreover have "s2 = ?r1\<lparr>lr_position := lr_position r + 1 + bpp, lr_previous := v, lr_state := RleSingle\<rparr>"
    using s2(1) w st assms(2) by (cases r) (simp add: level_next_def)
  ultimately show "\<exists>r'. level_read (length (v # levels)) r = Some (v # levels, r')" using s2(2) by simp
qed

text \<open>The eleventh repeat and the count after it.\<close>

lemma decodes_count:
  assumes "length run = len - 1" "run = replicate (len - 1) p" "0 < len" "len \<le> 63" "repeats + 1 = REPEATS_BEFORE_COUNT"
    and "levels = [] \<or> (\<exists>v rest bits'. levels = v # rest \<and> bits = msb_bits bpp (ucast v :: u32) @ bits' \<and> unat v < 2 ^ bpp \<and>
      decodes bpp rest (Some v) (repeats + 1) False bits')"
    and "0 < bpp" "bpp \<le> 8"
  shows "decodes bpp (p # run @ levels) (Some p) repeats True (True # msb_bits 6 (word_of_nat len :: u32) @ bits)"
  unfolding decodes_def
proof (intro allI impI)
  fix r tail assume m: "matches bpp (Some p) repeats True r" and r: "reads r ((True # msb_bits 6 (word_of_nat len :: u32) @ bits) @ tail)"
  have st: "lr_compressed r" "lr_bpp r = bpp" "lr_started r" "lr_previous r = p" "lr_state r = RleRepeat" "lr_repeats r = repeats"
    using m by (simp_all add: matches_def)
  let ?r = "r\<lparr>lr_repeats := repeats + 1\<rparr>" and ?r1 = "r\<lparr>lr_repeats := repeats + 1, lr_position := lr_position r + 1\<rparr>"
  have one: "level_bits ?r 1 = Some (1, ?r1)" "reads ?r1 (msb_bits 6 (word_of_nat len :: u32) @ bits @ tail)"
    using level_bits_one [of ?r True "msb_bits 6 (word_of_nat len :: u32) @ bits @ tail"] r by (simp_all add: reads_def)
  have "len < 2 ^ i" if "6 \<le> i" for i
  proof -
    have "(2 :: nat) ^ 6 \<le> 2 ^ i" using that by (rule power_increasing) simp
    then show ?thesis using assms(4) by simp
  qed
  then have "\<not> bit len i" if "6 \<le> i" for i using that by (simp add: bit_iff_odd)
  then have high: "\<not> bit (word_of_nat len :: u32) i" if "6 \<le> i" for i using that by (simp add: bit_of_nat_iff)
  let ?r2 = "?r1\<lparr>lr_position := lr_position r + 1 + 6\<rparr>"
  have six: "level_bits ?r1 6 = Some (word_of_nat len, ?r2)" "reads ?r2 (bits @ tail)"
    using level_bits_spec [OF one(2) _ _ high] by simp_all
  let ?r3 = "?r2\<lparr>lr_repeats := len, lr_state := RleCount\<rparr>"
  have "unat (word_of_nat len :: u32) = len" using assms(4) by (simp add: unat_of_nat)
  then have first: "level_next r = Some (p, ?r3)" using st one(1) six(1) assms(3,5) by (simp add: level_next_def Let_def)
  have run: "level_read (len - 1) ?r3 = Some (run, ?r3\<lparr>lr_repeats := 1\<rparr>)"
    using count_run [of ?r3 "len - 1" 0] st assms(1-3) by simp
  show "\<exists>r'. level_read (length (p # run @ levels)) r = Some (p # run @ levels, r')"
    using assms(6)
  proof (elim disjE exE conjE)
    assume "levels = []"
    then show ?thesis using first run assms(1) by simp
  next
    fix v rest bits' assume l: "levels = v # rest" "bits = msb_bits bpp (ucast v :: u32) @ bits'" "unat v < 2 ^ bpp"
      "decodes bpp rest (Some v) (repeats + 1) False bits'"
    let ?r4 = "?r3\<lparr>lr_repeats := 0\<rparr>"
    have "reads ?r4 (msb_bits bpp (ucast v :: u32) @ bits' @ tail)" using six(2) l(2) by (simp add: reads_def)
    from level_bits_value [OF this l(3) assms(7,8)]
    have v: "level_bits ?r4 bpp = Some (ucast v, ?r4\<lparr>lr_position := lr_position ?r4 + bpp\<rparr>)"
      "reads (?r4\<lparr>lr_position := lr_position ?r4 + bpp\<rparr>) (bits' @ tail)" by simp_all
    let ?r5 = "?r4\<lparr>lr_position := lr_position ?r4 + bpp, lr_previous := v, lr_state := RleSingle\<rparr>"
    have last: "level_next (?r3\<lparr>lr_repeats := 1\<rparr>) = Some (v, ?r5)" using st v(1) by (simp add: level_next_def level_single_def)
    have "matches bpp (Some v) (repeats + 1) False ?r5" "reads ?r5 (bits' @ tail)" using st v(2) by (simp_all add: matches_def reads_def)
    then obtain r' where "level_read (length rest) ?r5 = Some (rest, r')" using l(4) unfolding decodes_def by blast
    then have "level_read (length levels) (?r3\<lparr>lr_repeats := 1\<rparr>) = Some (levels, r')" using last l(1) by simp
    from level_read_append [OF run this] show ?thesis using first assms(1) by simp
  qed
qed

lemma rle_loop_decodes:
  assumes "0 < bpp" "bpp \<le> 8"
  shows "bw_bits w < 8 \<Longrightarrow> \<forall>v \<in> set levels. unat v < 2 ^ bpp \<Longrightarrow> (repeating \<longrightarrow> previous \<noteq> None \<and> repeats < REPEATS_BEFORE_COUNT) \<Longrightarrow>
    \<exists>bits. writer_bits (rle_loop bpp levels previous repeats repeating w) = writer_bits w @ bits \<and>
      bw_bits (rle_loop bpp levels previous repeats repeating w) < 8 \<and> decodes bpp levels previous repeats repeating bits"
  using assms
proof (induction bpp levels previous repeats repeating w rule: rle_loop.induct)
  case (1 bpp previous repeats repeating w)
  then show ?case by (simp add: decodes_def)
next
  case (2 bpp v rest previous repeats repeating w)
  have v: "unat v < 2 ^ bpp" and rest: "\<forall>v \<in> set rest. unat v < 2 ^ bpp" using "2.prems" by simp_all
  have put: "writer_bits (bit_writer_put w' (ucast x) bpp) = writer_bits w' @ msb_bits bpp (ucast x :: u32) \<and> bw_bits (bit_writer_put w' (ucast x) bpp) < 8"
    if "bw_bits w' < 8" "unat (x :: u8) < 2 ^ bpp" for w' x
    using put_bits [OF that(1) _ high_bits_zero [OF that(2)]] "2.prems"(5) by simp
  have put1: "writer_bits (bit_writer_put w' (of_bool b) 1) = writer_bits w' @ [b] \<and> bw_bits (bit_writer_put w' (of_bool b) 1) < 8"
    if "bw_bits w' < 8" for w' b
    using put_bits [OF that, of 1 "of_bool b"] by (cases b) (simp_all add: bit_simps)
  consider (one) "\<not> repeating" | (stop) "repeating" "Some v \<noteq> previous"
    | (again) "repeating" "Some v = previous" "repeats + 1 \<noteq> REPEATS_BEFORE_COUNT"
    | (count) "repeating" "Some v = previous" "repeats + 1 = REPEATS_BEFORE_COUNT" by blast
  then show ?case
  proof cases
    case one
    have p: "writer_bits (bit_writer_put w (ucast v) bpp) = writer_bits w @ msb_bits bpp (ucast v :: u32)" "bw_bits (bit_writer_put w (ucast v) bpp) < 8"
      using put [OF "2.prems"(1) v] by simp_all
    obtain bits where "writer_bits (rle_loop bpp rest (Some v) 0 (previous = Some v) (bit_writer_put w (ucast v) bpp)) =
          writer_bits (bit_writer_put w (ucast v) bpp) @ bits"
        "bw_bits (rle_loop bpp rest (Some v) 0 (previous = Some v) (bit_writer_put w (ucast v) bpp)) < 8"
        "decodes bpp rest (Some v) 0 (previous = Some v) bits"
      using "2.IH"(1) [OF one p(2) rest] "2.prems"(4,5) by (auto simp: REPEATS_BEFORE_COUNT_def)
    then show ?thesis using one p decodes_single [OF _ v "2.prems"(4,5)] by auto
  next
    case stop
    have p: "writer_bits (bit_writer_put w 0 1) = writer_bits w @ [False]" "bw_bits (bit_writer_put w 0 1) < 8"
      using put1 [OF "2.prems"(1), of False] by simp_all
    obtain bits where b: "writer_bits (rle_loop bpp (v # rest) previous repeats False (bit_writer_put w 0 1)) = writer_bits (bit_writer_put w 0 1) @ bits"
        "bw_bits (rle_loop bpp (v # rest) previous repeats False (bit_writer_put w 0 1)) < 8" "decodes bpp (v # rest) previous repeats False bits"
      using "2.IH"(4) [OF _ stop(2) p(2) "2.prems"(2)] stop(1) "2.prems"(4,5) by auto
    obtain q where q: "previous = Some q" "v \<noteq> q" using "2.prems"(3) stop by auto
    have "decodes bpp (v # rest) previous repeats True (False # bits)" using decodes_run_end b(3) q by simp
    then show ?thesis using stop b p by (intro exI [of _ "False # bits"]) simp
  next
    case again
    have p: "writer_bits (bit_writer_put w 1 1) = writer_bits w @ [True]" "bw_bits (bit_writer_put w 1 1) < 8"
      using put1 [OF "2.prems"(1), of True] by simp_all
    have less: "repeats + 1 < REPEATS_BEFORE_COUNT" using "2.prems"(3) again by simp
    obtain bits where b: "writer_bits (rle_loop bpp rest previous (repeats + 1) True (bit_writer_put w 1 1)) = writer_bits (bit_writer_put w 1 1) @ bits"
        "bw_bits (rle_loop bpp rest previous (repeats + 1) True (bit_writer_put w 1 1)) < 8" "decodes bpp rest previous (repeats + 1) True bits"
      using "2.IH"(3) [OF _ again(2) refl refl again(3) p(2) rest] again(1,2) less "2.prems"(4,5) by auto
    have "decodes bpp (v # rest) previous repeats True (True # bits)"
      using decodes_repeat [of bpp rest v repeats bits] b(3) again by simp
    then show ?thesis using again b p by (intro exI [of _ "True # bits"]) (simp add: Let_def)
  next
    case count
    let ?run = "length (takeWhile (\<lambda>x. Some x = previous) rest)"
    define len where "len = min (?run + 1) 63"
    have len: "0 < len" "len \<le> 63" "len - 1 \<le> ?run" by (simp_all add: len_def)
    let ?w1 = "bit_writer_put w 1 1"
    let ?w2 = "bit_writer_put ?w1 (word_of_nat len) 6"
    have p1: "writer_bits ?w1 = writer_bits w @ [True]" "bw_bits ?w1 < 8" using put1 [OF "2.prems"(1), of True] by simp_all
    have eq: "rle_loop bpp (v # rest) previous repeats repeating w =
        (case drop (len - 1) rest of [] \<Rightarrow> ?w2 | x # xs \<Rightarrow> rle_loop bpp xs (Some x) (repeats + 1) False (bit_writer_put ?w2 (ucast x) bpp))"
      by (subst rle_loop.simps(2)) (simp only: Let_def len_def count simp_thms if_False if_True)
    have "\<not> bit len i" if "6 \<le> i" for i
    proof -
      have "(2 :: nat) ^ 6 \<le> 2 ^ i" using that by (rule power_increasing) simp
      then have "len < 2 ^ i" using len(2) by simp
      then show ?thesis by (simp add: bit_iff_odd)
    qed
    then have p2: "writer_bits ?w2 = writer_bits w @ True # msb_bits 6 (word_of_nat len :: u32)" "bw_bits ?w2 < 8"
      using put_bits [OF p1(2), of 6 "word_of_nat len"] p1(1) by (simp_all add: bit_of_nat_iff)
    have run: "take (len - 1) rest = replicate (len - 1) v" "length (take (len - 1) rest) = len - 1"
    proof -
      have pre: "take (len - 1) rest = take (len - 1) (takeWhile (\<lambda>x. Some x = previous) rest)"
        using len(3) by (metis min.absorb1 take_take takeWhile_eq_take)
      have all: "x = v" if "x \<in> set (take (len - 1) rest)" for x
        using that count(2) set_takeWhileD [of x "\<lambda>x. Some x = previous" rest] unfolding pre by (auto dest: in_set_takeD)
      show n: "length (take (len - 1) rest) = len - 1" using len(3) length_takeWhile_le [of "\<lambda>x. Some x = previous" rest] by simp
      show "take (len - 1) rest = replicate (len - 1) v" using all n by (metis replicate_length_same)
    qed
    show ?thesis
    proof (cases "drop (len - 1) rest")
      case Nil
      have "decodes bpp (v # take (len - 1) rest @ []) (Some v) repeats True (True # msb_bits 6 (word_of_nat len :: u32) @ [])"
        using run count(3) len "2.prems"(4,5) by (intro decodes_count) simp_all
      moreover have "take (len - 1) rest = rest" using Nil by (metis append_Nil2 append_take_drop_id)
      ultimately show ?thesis using count p2 Nil unfolding eq by (intro exI [of _ "True # msb_bits 6 (word_of_nat len :: u32)"]) simp
    next
      case (Cons x xs)
      have x: "unat x < 2 ^ bpp" "\<forall>v \<in> set xs. unat v < 2 ^ bpp"
        using rest Cons set_drop_subset [of "len - 1" rest] by auto
      let ?w3 = "bit_writer_put ?w2 (ucast x) bpp"
      have p3: "writer_bits ?w3 = writer_bits ?w2 @ msb_bits bpp (ucast x :: u32)" "bw_bits ?w3 < 8" using put [OF p2(2) x(1)] by simp_all
      obtain bits where b: "writer_bits (rle_loop bpp xs (Some x) (repeats + 1) False ?w3) = writer_bits ?w3 @ bits"
          "bw_bits (rle_loop bpp xs (Some x) (repeats + 1) False ?w3) < 8" "decodes bpp xs (Some x) (repeats + 1) False bits"
        using "2.IH"(2) [OF _ count(2) refl refl count(3) refl len_def refl Cons p3(2) x(2)] count(1) "2.prems"(4,5) by auto
      have "decodes bpp (v # take (len - 1) rest @ (x # xs)) (Some v) repeats True
          (True # msb_bits 6 (word_of_nat len :: u32) @ msb_bits bpp (ucast x :: u32) @ bits)"
        using run count(3) len "2.prems"(4,5) x(1) b(3) by (intro decodes_count) auto
      moreover have "take (len - 1) rest @ (x # xs) = rest" using Cons by (metis append_take_drop_id)
      ultimately show ?thesis using count p2 p3 b Cons unfolding eq
        by (intro exI [of _ "True # msb_bits 6 (word_of_nat len :: u32) @ msb_bits bpp (ucast x :: u32) @ bits"]) simp
    qed
  qed
qed

section \<open>Packed levels\<close>

lemma put_levels_bits:
  assumes "0 < bpp" "bpp \<le> 8"
  shows "bw_bits w < 8 \<Longrightarrow> \<forall>v \<in> set (levels :: u8 list). unat v < 2 ^ bpp \<Longrightarrow>
    writer_bits (foldl (\<lambda>w level. bit_writer_put w (ucast level) bpp) w levels) =
      writer_bits w @ concat (map (\<lambda>v. msb_bits bpp (ucast v :: u32)) levels) \<and>
    bw_bits (foldl (\<lambda>w level. bit_writer_put w (ucast level) bpp) w levels) < 8"
proof (induction levels arbitrary: w)
  case (Cons v levels)
  have "writer_bits (bit_writer_put w (ucast v) bpp) = writer_bits w @ msb_bits bpp (ucast v :: u32) \<and> bw_bits (bit_writer_put w (ucast v) bpp) < 8"
    using put_bits [OF Cons.prems(1), of bpp "ucast v"] high_bits_zero [of v bpp] Cons.prems(2) assms by simp
  then show ?case using Cons by simp
qed simp

lemma packed_read:
  assumes "0 < bpp" "bpp \<le> 8"
  shows "\<not> lr_compressed r \<Longrightarrow> lr_bpp r = bpp \<Longrightarrow> \<forall>v \<in> set levels. unat v < 2 ^ bpp \<Longrightarrow>
    reads r (concat (map (\<lambda>v. msb_bits bpp (ucast v :: u32)) levels) @ tail) \<Longrightarrow>
    \<exists>r'. level_read (length levels) r = Some (levels, r')"
proof (induction levels arbitrary: r)
  case (Cons v levels)
  let ?r = "r\<lparr>lr_position := lr_position r + bpp\<rparr>"
  have "level_bits r bpp = Some (ucast v, ?r)" "reads ?r (concat (map (\<lambda>v. msb_bits bpp (ucast v :: u32)) levels) @ tail)"
    using level_bits_value [OF _ _ assms, of r v] Cons.prems(3,4) by simp_all
  then show ?case using Cons.IH [of ?r] Cons.prems by (auto simp: level_next_def)
qed simp

lemma prefilter_nth:
  assumes "i < length levels"
  shows "prefilter_rows levels width ! i = (if i < width then levels ! i else levels ! i XOR levels ! (i - width))"
proof -
  have "distinct is \<Longrightarrow> i < length out \<Longrightarrow>
      foldl (\<lambda>out i. out[i := out ! i XOR levels ! (i - width)]) out is ! i = (if i \<in> set is then out ! i XOR levels ! (i - width) else out ! i)"
    for out :: "u8 list" and "is"
  proof (induction "is" arbitrary: out)
    case (Cons k ks)
    then show ?case by (cases "k = i") simp_all
  qed simp
  then show ?thesis using assms by (auto simp: prefilter_rows_def)
qed

section \<open>Headers\<close>

definition FORMAT_VERSION :: u16 where "FORMAT_VERSION = 1"
definition FONT_MAGIC :: "u8 list" where "FONT_MAGIC = [0x44, 0x4b, 0x46, 0x4e]"
definition IMAGE_MAGIC :: "u8 list" where "IMAGE_MAGIC = [0x44, 0x4b, 0x49, 0x4d]"
definition FONT_HEADER_SIZE :: nat where "FONT_HEADER_SIZE = 40"
definition IMAGE_HEADER_SIZE :: nat where "IMAGE_HEADER_SIZE = 20"
definition GLYPH_SIZE :: nat where "GLYPH_SIZE = 12"

text \<open>Signed fields are kept as the words of their bits.\<close>

record font_header =
  fh_bpp :: u8
  fh_flags :: u8
  fh_px :: u16
  fh_line_height :: u16
  fh_base_line :: u16
  fh_max_ascent :: u16
  fh_max_descent :: u16
  fh_underline_position :: u8
  fh_underline_thickness :: u8
  fh_glyph_count :: u32
  fh_codepoints :: u32
  fh_glyphs :: u32
  fh_data :: u32
  fh_data_len :: u32

record glyph_record =
  gr_bitmap :: u32
  gr_advance :: u16
  gr_width :: u8
  gr_height :: u8
  gr_ofs_x :: u8
  gr_ofs_y :: u8

record image_header =
  ih_format :: image_format
  ih_width :: u16
  ih_height :: u16
  ih_stride :: u32
  ih_data_len :: u32

definition font_header_read :: "u8 list \<Rightarrow> font_header option" where
  "font_header_read d =
     (if length d < FONT_HEADER_SIZE \<or> take 4 d \<noteq> FONT_MAGIC \<or> le16_at d 4 \<noteq> FORMAT_VERSION then None
      else Some \<lparr>fh_bpp = d ! 6, fh_flags = d ! 7, fh_px = le16_at d 8, fh_line_height = le16_at d 10, fh_base_line = le16_at d 12,
        fh_max_ascent = le16_at d 14, fh_max_descent = le16_at d 16, fh_underline_position = d ! 18, fh_underline_thickness = d ! 19,
        fh_glyph_count = le32_at d 20, fh_codepoints = le32_at d 24, fh_glyphs = le32_at d 28, fh_data = le32_at d 32,
        fh_data_len = le32_at d 36\<rparr>)"

definition font_header_write :: "font_header \<Rightarrow> u8 list" where
  "font_header_write h = FONT_MAGIC @ u16_le FORMAT_VERSION @ [fh_bpp h, fh_flags h] @ u16_le (fh_px h) @
     concat (map u16_le [fh_line_height h, fh_base_line h, fh_max_ascent h, fh_max_descent h]) @
     [fh_underline_position h, fh_underline_thickness h] @
     concat (map u32_le [fh_glyph_count h, fh_codepoints h, fh_glyphs h, fh_data h, fh_data_len h])"

text \<open>A record cut short panics.\<close>

definition glyph_record_read :: "u8 list \<Rightarrow> glyph_record option" where
  "glyph_record_read d =
     (if length d < 10 then None
      else Some \<lparr>gr_bitmap = le32_at d 0, gr_advance = le16_at d 4, gr_width = d ! 6, gr_height = d ! 7, gr_ofs_x = d ! 8, gr_ofs_y = d ! 9\<rparr>)"

definition glyph_record_write :: "glyph_record \<Rightarrow> u8 list" where
  "glyph_record_write g = u32_le (gr_bitmap g) @ u16_le (gr_advance g) @ [gr_width g, gr_height g, gr_ofs_x g, gr_ofs_y g, 0, 0]"

definition image_header_read :: "u8 list \<Rightarrow> image_header option" where
  "image_header_read d =
     (if length d < IMAGE_HEADER_SIZE \<or> take 4 d \<noteq> IMAGE_MAGIC \<or> le16_at d 4 \<noteq> FORMAT_VERSION then None
      else case format_from_raw (d ! 6) of None \<Rightarrow> None
        | Some f \<Rightarrow> Some \<lparr>ih_format = f, ih_width = le16_at d 8, ih_height = le16_at d 10, ih_stride = le32_at d 12, ih_data_len = le32_at d 16\<rparr>)"

definition image_header_write :: "image_header \<Rightarrow> u8 list" where
  "image_header_write h = IMAGE_MAGIC @ u16_le FORMAT_VERSION @ [format_raw (ih_format h), 0] @ u16_le (ih_width h) @ u16_le (ih_height h) @
     u32_le (ih_stride h) @ u32_le (ih_data_len h)"

section \<open>Properties\<close>

text \<open>C28: What the resource generator encodes of a glyph, packed or run-length encoded, the firmware reads back: with
  the two bytes of slack behind it, the reader gives exactly the levels, of up to eight bits each, in
  order, and never reads outside the data.\<close>

theorem glyph_levels_roundtrip:
  assumes "0 < bpp" "bpp \<le> 8" "\<forall>v \<in> set levels. unat v < 2 ^ bpp"
  shows "\<exists>r. level_read (length levels)
      (level_reader_new ((if compressed then rle_encode levels bpp else pack_levels levels bpp) @ [0, 0]) bpp compressed) = Some (levels, r)"
proof -
  have new: "writer_bits bit_writer_new = []" "bw_bits bit_writer_new < 8"
    by (simp_all add: writer_bits_def bit_writer_new_def stream_bits_def)
  have slack: "16 \<le> length (pad @ stream_bits True [0, 0])" for pad by simp
  show ?thesis
  proof (cases compressed)
    case True
    let ?w = "rle_loop bpp levels None 0 False bit_writer_new"
    obtain bits where w: "writer_bits ?w = bits" "bw_bits ?w < 8" "decodes bpp levels None 0 False bits"
      using rle_loop_decodes [OF assms(1,2) new(2) assms(3), of False None 0] new(1) by auto
    obtain pad where "stream_bits True (rle_encode levels bpp) = bits @ pad" using finish_bits [OF w(2)] w(1) by (auto simp: rle_encode_def)
    then have "reads (level_reader_new (rle_encode levels bpp @ [0, 0]) bpp True) (bits @ [])"
      using slack by (auto simp: reads_def level_reader_new_def)
    moreover have "matches bpp None 0 False (level_reader_new (rle_encode levels bpp @ [0, 0]) bpp True)"
      by (simp add: matches_def level_reader_new_def)
    ultimately obtain r where "level_read (length levels) (level_reader_new (rle_encode levels bpp @ [0, 0]) bpp True) = Some (levels, r)"
      using w(3) unfolding decodes_def by blast
    then show ?thesis using True by simp
  next
    case False
    let ?w = "foldl (\<lambda>w level. bit_writer_put w (ucast level) bpp) bit_writer_new levels"
    let ?bits = "concat (map (\<lambda>v. msb_bits bpp (ucast v :: u32)) levels)"
    have w: "writer_bits ?w = ?bits" "bw_bits ?w < 8" using put_levels_bits [OF assms(1,2) new(2) assms(3)] new(1) by simp_all
    obtain pad where "stream_bits True (pack_levels levels bpp) = ?bits @ pad" using finish_bits [OF w(2)] w(1) by (auto simp: pack_levels_def)
    then have "reads (level_reader_new (pack_levels levels bpp @ [0, 0]) bpp False) (?bits @ [])"
      using slack by (auto simp: reads_def level_reader_new_def)
    then obtain r where "level_read (length levels) (level_reader_new (pack_levels levels bpp @ [0, 0]) bpp False) = Some (levels, r)"
      using packed_read [OF assms(1,2) _ _ assms(3)] by (metis level_reader_new_def level_reader.select_convs(3,4))
    then show ?thesis using False by simp
  qed
qed

lemma glyph_levels_roundtrip_witness:
  "\<exists>r. level_read (length (replicate 100 3 @ [1, 1, 2])) (level_reader_new (rle_encode (replicate 100 3 @ [1, 1, 2]) 2 @ [0, 0]) 2 True)
    = Some (replicate 100 3 @ [1, 1, 2], r)"
  using glyph_levels_roundtrip [of 2 "replicate 100 3 @ [1, 1, 2]" True] by simp

text \<open>The headers of the resource binaries read back: a font header, an image header and a glyph record are what
  was written, whatever follows them.\<close>

theorem resource_headers_roundtrip:
  "font_header_read (font_header_write f @ rest) = Some f \<and> image_header_read (image_header_write i @ rest) = Some i \<and>
   glyph_record_read (glyph_record_write g @ rest) = Some g \<and> length (font_header_write f) = FONT_HEADER_SIZE \<and>
   length (image_header_write i) = IMAGE_HEADER_SIZE \<and> length (glyph_record_write g) = GLYPH_SIZE"
proof -
  note defs = FONT_MAGIC_def IMAGE_MAGIC_def u16_le_def u32_le_def le16_at_def le32_at_def FORMAT_VERSION_def FONT_HEADER_SIZE_def
    IMAGE_HEADER_SIZE_def GLYPH_SIZE_def le16_roundtrip le32_roundtrip
  show ?thesis
    by (intro conjI; cases f; cases i; cases g)
      (simp_all add: font_header_read_def font_header_write_def image_header_read_def image_header_write_def glyph_record_read_def
        glyph_record_write_def defs)
qed

end
