(* ===== verification/Lzw.thy ===== *)
theory Lzw
  imports Bit_Stream
begin

text \<open>
  Streaming LZW with codes of up to 12 bits (devkit_compression/src/lzw.rs), in the variants of GIF and
  TIFF. The tables are the prefix and suffix arrays of the work area, a decoded string waits on the stack
  in reverse. \<open>lzw_text\<close> is the textbook decoder on a list of bits with a dictionary of strings; the
  refinement shows that reads of any sizes give its output. A read in the model returns the bytes it wrote
  to \<open>out\<close> from the start; \<open>n\<close> is the length of \<open>out\<close>.
\<close>

section \<open>State and operations\<close>

definition MAX_CODES :: nat where "MAX_CODES = 4096"
definition NO_CODE :: nat where "NO_CODE = 0xffff"

record lzw_options =
  lo_literal_bits :: nat
  lo_msb_first :: bool
  lo_early_change :: bool

record lzw_work =
  wk_prefix :: "nat list"
  wk_suffix :: "u8 list"
  wk_stack :: "u8 list"

record lzw =
  lz_bitbuf :: u32
  lz_bitcnt :: nat
  lz_stack_len :: nat
  lz_clear :: nat
  lz_next :: nat
  lz_prev :: nat
  lz_prev_first :: u8
  lz_width :: nat
  lz_literal_bits :: nat
  lz_msb_first :: bool
  lz_early_change :: bool
  lz_started :: bool
  lz_ended :: bool
  lz_failed :: "codec_error option"

definition lzw_new :: lzw where
  "lzw_new = \<lparr>lz_bitbuf = 0, lz_bitcnt = 0, lz_stack_len = 0, lz_clear = 0, lz_next = 0, lz_prev = 0, lz_prev_first = 0,
     lz_width = 0, lz_literal_bits = 0, lz_msb_first = False, lz_early_change = False, lz_started = False,
     lz_ended = False, lz_failed = None\<rparr>"

definition lzw_restart_table :: "lzw \<Rightarrow> lzw" where
  "lzw_restart_table z = z\<lparr>lz_width := lz_literal_bits z + 1, lz_next := lz_clear z + 2, lz_prev := NO_CODE\<rparr>"

definition lzw_start :: "lzw_options \<Rightarrow> lzw_work \<Rightarrow> ((codec_error, unit) res \<times> lzw \<times> lzw_work) option" where
  "lzw_start opts w =
     (if \<not> (2 \<le> lo_literal_bits opts \<and> lo_literal_bits opts \<le> 8) then Some (Err Corrupt, lzw_new, w)
      else do {
        let clear = 2 ^ lo_literal_bits opts;
        let z = lzw_new\<lparr>lz_literal_bits := lo_literal_bits opts, lz_msb_first := lo_msb_first opts,
                        lz_early_change := lo_early_change opts, lz_clear := clear\<rparr>;
        suffix \<leftarrow> copy_at (wk_suffix w) 0 (map word_of_nat [0..<clear]);
        Some (Ok (), (lzw_restart_table z)\<lparr>lz_started := True\<rparr>, w\<lparr>wk_suffix := suffix\<rparr>)
      })"

text \<open>The loop of \<open>next_code\<close> that fills the bit buffer; false when the input ended.\<close>

definition lzw_add_byte :: "lzw \<Rightarrow> u8 \<Rightarrow> lzw" where
  "lzw_add_byte z c =
     z\<lparr>lz_bitbuf := (if lz_msb_first z then push_bit 8 (lz_bitbuf z) OR ucast c
                    else lz_bitbuf z OR push_bit (lz_bitcnt z) (ucast c)),
       lz_bitcnt := lz_bitcnt z + 8\<rparr>"

function lzw_fill ::
  "lzw \<Rightarrow> block_source input \<Rightarrow> ((codec_error, bool) res \<times> lzw \<times> block_source input) option" where
  "lzw_fill z i =
     (if lz_bitcnt z < lz_width z then
        on_ok (input_byte block_ops i)
          (\<lambda>c i. case c of None \<Rightarrow> Some (Ok False, z, i) | Some c \<Rightarrow> lzw_fill (lzw_add_byte z c) i)
          (\<lambda>e i. (z, i))
      else Some (Ok True, z, i))"
  by pat_completeness auto
termination
  by (relation "measure (\<lambda>(z, i). lz_width z - lz_bitcnt z)") (auto simp: lzw_add_byte_def)

declare lzw_fill.simps [simp del]

definition lzw_next_code ::
  "lzw \<Rightarrow> block_source input \<Rightarrow> ((codec_error, nat option) res \<times> lzw \<times> block_source input) option" where
  "lzw_next_code z i = and_then (lzw_fill z i) (\<lambda>ok (z, i).
     if \<not> ok then Some (Ok None, z, i)
     else
       let cnt = lz_bitcnt z - lz_width z in
       if lz_msb_first z then
         Some (Ok (Some (unat (drop_bit cnt (lz_bitbuf z) AND mask (lz_width z)))),
               z\<lparr>lz_bitcnt := cnt, lz_bitbuf := lz_bitbuf z AND mask cnt\<rparr>, i)
       else
         Some (Ok (Some (unat (lz_bitbuf z AND mask (lz_width z)))),
               z\<lparr>lz_bitcnt := cnt, lz_bitbuf := drop_bit (lz_width z) (lz_bitbuf z)\<rparr>, i))"

text \<open>The bytes popped off the stack at the head of the loop.\<close>

fun lzw_pop :: "nat \<Rightarrow> lzw \<Rightarrow> lzw_work \<Rightarrow> (u8 list \<times> lzw) option" where
  "lzw_pop 0 z w = Some ([], z)"
| "lzw_pop (Suc k) z w = do {
     let z = z\<lparr>lz_stack_len := lz_stack_len z - 1\<rparr>;
     b \<leftarrow> arr_get (wk_stack w) (lz_stack_len z mod MAX_CODES);
     (bs, z) \<leftarrow> lzw_pop k z w;
     Some (b # bs, z)
   }"

text \<open>The walk from a code to its first byte, which puts the suffixes on the stack.\<close>

function lzw_chain :: "lzw_work \<Rightarrow> nat \<Rightarrow> nat \<Rightarrow> nat \<Rightarrow> (lzw_work \<times> nat \<times> nat) option" where
  "lzw_chain w clear c len =
     (if clear < c then do {
        b \<leftarrow> arr_get (wk_suffix w) c;
        stack \<leftarrow> arr_set (wk_stack w) len b;
        c \<leftarrow> arr_get (wk_prefix w) c;
        lzw_chain (w\<lparr>wk_stack := stack\<rparr>) clear c (len + 1)
      }
      else Some (w, c, len))"
  by pat_completeness auto
termination
  by (relation "measure (\<lambda>(w, clear, c, len). length (wk_stack w) - len)")
    (auto simp: arr_set_def split: if_splits)

declare lzw_chain.simps [simp del]

text \<open>Where the walk of a code starts: at the code, or for the next free code at the previous one, with
  its first byte already on the stack.\<close>

definition lzw_walk_start :: "lzw \<Rightarrow> lzw_work \<Rightarrow> nat \<Rightarrow> (codec_error, lzw_work \<times> nat \<times> nat) res option" where
  "lzw_walk_start z w code =
     (if code < lz_next z then Some (Ok (w, code, 0))
      else if code = lz_next z \<and> lz_next z < MAX_CODES then do {
        stack \<leftarrow> arr_set (wk_stack w) 0 (lz_prev_first z);
        Some (Ok (w\<lparr>wk_stack := stack\<rparr>, lz_prev z, 1))
      }
      else Some (Err Corrupt))"

text \<open>The new entry, and the wider codes it may bring.\<close>

definition lzw_add_entry :: "lzw \<Rightarrow> lzw_work \<Rightarrow> u8 \<Rightarrow> (lzw \<times> lzw_work) option" where
  "lzw_add_entry z w first =
     (if lz_next z < MAX_CODES then do {
        prefix \<leftarrow> arr_set (wk_prefix w) (lz_next z) (lz_prev z mod 65536);
        suffix \<leftarrow> arr_set (wk_suffix w) (lz_next z) first;
        let z = z\<lparr>lz_next := lz_next z + 1\<rparr>;
        let z = (if lz_width z < 12 \<and> 2 ^ lz_width z \<le> lz_next z + of_bool (lz_early_change z)
                 then z\<lparr>lz_width := lz_width z + 1\<rparr> else z);
        Some (z, w\<lparr>wk_prefix := prefix, wk_suffix := suffix\<rparr>)
      }
      else Some (z, w))"

definition lzw_step :: "lzw \<Rightarrow> lzw_work \<Rightarrow> nat \<Rightarrow> ((codec_error, unit) res \<times> lzw \<times> lzw_work) option" where
  "lzw_step z w code =
     (if code = lz_clear z then Some (Ok (), lzw_restart_table z, w)
      else if lz_prev z = NO_CODE then
        (if lz_clear z < code then Some (Err Corrupt, z, w)
         else do {
           stack \<leftarrow> arr_set (wk_stack w) 0 (word_of_nat code);
           Some (Ok (), z\<lparr>lz_stack_len := 1, lz_prev := code, lz_prev_first := word_of_nat code\<rparr>, w\<lparr>wk_stack := stack\<rparr>)
         })
      else do {
        r \<leftarrow> lzw_walk_start z w code;
        (case r of
           Err e \<Rightarrow> Some (Err e, z, w)
         | Ok (w, c, len) \<Rightarrow> do {
             (w, c, len) \<leftarrow> lzw_chain w (lz_clear z) c len;
             let first = word_of_nat c;
             stack \<leftarrow> arr_set (wk_stack w) len first;
             (z, w) \<leftarrow> lzw_add_entry (z\<lparr>lz_stack_len := len + 1\<rparr>) (w\<lparr>wk_stack := stack\<rparr>) first;
             Some (Ok (), z\<lparr>lz_prev := code, lz_prev_first := first\<rparr>, w)
           })
      })"

text \<open>The loop of \<open>run\<close>. Every iteration but the last takes a code of at least three bits, so the bits that
  are left bound the iterations.\<close>

fun lzw_run ::
  "nat \<Rightarrow> lzw \<Rightarrow> lzw_work \<Rightarrow> block_source input \<Rightarrow> nat \<Rightarrow> u8 list \<Rightarrow>
   ((codec_error, u8 list) res \<times> lzw \<times> lzw_work \<times> block_source input) option" where
  "lzw_run 0 z w i n out = None"
| "lzw_run (Suc fuel) z w i n out = do {
     (popped, z) \<leftarrow> lzw_pop (min (lz_stack_len z) (n - length out)) z w;
     let out = out @ popped;
     if length out = n \<or> lz_ended z then Some (Ok out, z, w, i)
     else on_ok (lzw_next_code z i) (\<lambda>code (z, i).
       case code of
         None \<Rightarrow> Some (Ok out, z\<lparr>lz_ended := True\<rparr>, w, i)
       | Some code \<Rightarrow>
           if code = lz_clear z + 1 then Some (Ok out, z\<lparr>lz_ended := True\<rparr>, w, i)
           else on_ok (lzw_step z w code) (\<lambda>_ (z, w). lzw_run fuel z w i n out) (\<lambda>e (z, w). (z, w, i)))
       (\<lambda>e (z, i). (z, w, i))
   }"

definition lzw_read ::
  "lzw \<Rightarrow> lzw_work \<Rightarrow> block_source \<Rightarrow> nat \<Rightarrow> ((codec_error, u8 list) res \<times> lzw \<times> lzw_work \<times> block_source) option" where
  "lzw_read z w src n =
     (if \<not> lz_started z then Some (Err NotStarted, z, w, src)
      else case lz_failed z of
        Some e \<Rightarrow> Some (Err e, z, w, src)
      | None \<Rightarrow> do {
          (result, z, w, i) \<leftarrow> lzw_run (lz_bitcnt z + 8 * length (block_content src) + 1) z w (input_new src 0) n [];
          let z = (case result of Err e \<Rightarrow> z\<lparr>lz_failed := Some e\<rparr> | Ok _ \<Rightarrow> z);
          src \<leftarrow> input_drop block_ops i;
          Some (result, z, w, src)
        })"

section \<open>The textbook decoder\<close>

text \<open>The value of a code, whose bits come as the stream has them.\<close>

definition code_value :: "bool \<Rightarrow> bool list \<Rightarrow> nat" where
  "code_value msb bs = horner_sum of_bool 2 (if msb then rev bs else bs)"

text \<open>The width of a code when the dictionary has \<open>k\<close> strings of its own.\<close>

fun lzw_width :: "lzw_options \<Rightarrow> nat \<Rightarrow> nat" where
  "lzw_width opts 0 = lo_literal_bits opts + 1"
| "lzw_width opts (Suc k) =
     (let w = lzw_width opts k in
      if w < 12 \<and> 2 ^ w \<le> 2 ^ lo_literal_bits opts + 2 + Suc k + of_bool (lo_early_change opts) then w + 1 else w)"

text \<open>The string of a code under the dictionary \<open>d\<close> after the string \<open>p\<close>.\<close>

definition lzw_string :: "lzw_options \<Rightarrow> u8 list list \<Rightarrow> u8 list option \<Rightarrow> nat \<Rightarrow> u8 list option" where
  "lzw_string opts d p code =
     (let clear = 2 ^ lo_literal_bits opts; k = code - (clear + 2) in
      if code < clear then Some [word_of_nat code]
      else case p of
        None \<Rightarrow> None
      | Some q \<Rightarrow>
          if k < length d then Some (d ! k)
          else if k = length d \<and> code < MAX_CODES then Some (q @ [hd q])
          else None)"

definition lzw_learn :: "lzw_options \<Rightarrow> u8 list list \<Rightarrow> u8 list option \<Rightarrow> u8 list \<Rightarrow> u8 list list" where
  "lzw_learn opts d p s =
     (case p of
        None \<Rightarrow> d
      | Some q \<Rightarrow> if 2 ^ lo_literal_bits opts + 2 + length d < MAX_CODES then d @ [q @ [hd s]] else d)"

datatype lzw_end = Information_end | Input_end | Bad_code

lemma lzw_width_pos: "0 < lzw_width opts k"
  by (induction k) (auto simp: Let_def)

definition take_code :: "lzw_options \<Rightarrow> nat \<Rightarrow> bool list \<Rightarrow> (nat \<times> bool list) option" where
  "take_code opts width bits =
     (if length bits < width then None
      else Some (code_value (lo_msb_first opts) (take width bits), drop width bits))"

function lzw_text ::
  "lzw_options \<Rightarrow> u8 list list \<Rightarrow> u8 list option \<Rightarrow> bool list \<Rightarrow> u8 list \<times> lzw_end" where
  "lzw_text opts d p bits =
     (case take_code opts (lzw_width opts (length d)) bits of
        None \<Rightarrow> ([], Input_end)
      | Some (code, rest) \<Rightarrow>
          if code = 2 ^ lo_literal_bits opts + 1 then ([], Information_end)
          else if code = 2 ^ lo_literal_bits opts then lzw_text opts [] None rest
          else case lzw_string opts d p code of
            None \<Rightarrow> ([], Bad_code)
          | Some s \<Rightarrow> map_prod ((@) s) id (lzw_text opts (lzw_learn opts d p s) (Some s) rest))"
  by pat_completeness auto
termination
  by (relation "measure (\<lambda>(opts, d, p, bits). length bits)")
    (use lzw_width_pos in \<open>auto simp: take_code_def not_less split: if_splits intro!: diff_less\<close>,
      (metis lzw_width_pos leD length_0_conv list.size(3) not_gr_zero)+)

declare lzw_text.simps [simp del]

section \<open>The bits\<close>

definition lzw_buf_bits :: "lzw \<Rightarrow> bool list" where
  "lzw_buf_bits z =
     (if lz_msb_first z then rev (map (bit (lz_bitbuf z)) [0..<lz_bitcnt z]) else map (bit (lz_bitbuf z)) [0..<lz_bitcnt z])"

definition lzw_bits :: "lzw \<Rightarrow> block_source input \<Rightarrow> bool list" where
  "lzw_bits z i = lzw_buf_bits z @ stream_bits (lz_msb_first z) (input_left block_content i)"

definition lzw_bits_ok :: "lzw \<Rightarrow> bool" where
  "lzw_bits_ok z \<longleftrightarrow> lz_bitcnt z \<le> 19 \<and> (\<forall>j \<ge> lz_bitcnt z. \<not> bit (lz_bitbuf z) j)"

lemma length_lzw_buf_bits [simp]: "length (lzw_buf_bits z) = lz_bitcnt z"
  by (simp add: lzw_buf_bits_def)

lemma lzw_add_byte_bits:
  assumes "lzw_bits_ok z" and "lz_bitcnt z < 12"
  shows "lzw_bits_ok (lzw_add_byte z c)" and "lzw_buf_bits (lzw_add_byte z c) = lzw_buf_bits z @ byte_bits (lz_msb_first z) c"
proof -
  have cnt: "lz_bitcnt z \<le> 24" and hi: "\<And>j. lz_bitcnt z \<le> j \<Longrightarrow> \<not> bit (lz_bitbuf z) j"
    using assms by (auto simp: lzw_bits_ok_def)
  have c: "\<not> bit c j" if "8 \<le> j" for j using that bit_imp_le_length [of c j] by auto
  have "\<not> bit (lz_bitbuf (lzw_add_byte z c)) j" if "lz_bitcnt z + 8 \<le> j" for j
    using that hi [of j] hi [of "j - 8"] c [of j] c [of "j - lz_bitcnt z"] by (auto simp: lzw_add_byte_def bit_simps)
  then show "lzw_bits_ok (lzw_add_byte z c)" using assms by (auto simp: lzw_bits_ok_def lzw_add_byte_def)
  show "lzw_buf_bits (lzw_add_byte z c) = lzw_buf_bits z @ byte_bits (lz_msb_first z) c"
    using bits_append_low [OF cnt, of "lz_bitbuf z" c] bits_append_high [OF cnt, of "lz_bitbuf z" c] hi
    by (simp add: lzw_buf_bits_def lzw_add_byte_def byte_bits_def)
qed

text \<open>Only the bit buffer differs.\<close>

definition same_but_bits :: "lzw \<Rightarrow> lzw \<Rightarrow> bool" where
  "same_but_bits z z' \<longleftrightarrow> z' = z\<lparr>lz_bitbuf := lz_bitbuf z', lz_bitcnt := lz_bitcnt z'\<rparr>"

lemma same_but_bits_refl [simp]: "same_but_bits z z"
  by (simp add: same_but_bits_def)

lemma same_but_bits_upd [simp]: "same_but_bits z (z\<lparr>lz_bitcnt := n, lz_bitbuf := b\<rparr>)" "same_but_bits z (lzw_add_byte z c)"
  by (simp_all add: same_but_bits_def lzw_add_byte_def)

lemma same_but_bits_trans: "same_but_bits x y \<Longrightarrow> same_but_bits y z \<Longrightarrow> same_but_bits x z"
  by (cases x; cases y; cases z) (simp add: same_but_bits_def)

lemma same_but_bits_sel:
  "same_but_bits z z' \<Longrightarrow> lz_msb_first z' = lz_msb_first z \<and> lz_width z' = lz_width z \<and> lz_clear z' = lz_clear z \<and>
     lz_next z' = lz_next z \<and> lz_prev z' = lz_prev z \<and> lz_prev_first z' = lz_prev_first z \<and>
     lz_stack_len z' = lz_stack_len z \<and> lz_literal_bits z' = lz_literal_bits z \<and>
     lz_early_change z' = lz_early_change z \<and> lz_started z' = lz_started z \<and> lz_ended z' = lz_ended z \<and>
     lz_failed z' = lz_failed z"
  by (cases z; cases z') (simp add: same_but_bits_def)

lemma lzw_fill_spec:
  assumes "lzw_bits_ok z" and "lz_width z \<le> 12" and "input_fine i"
  shows "\<exists>r z' i'. lzw_fill z i = Some (r, z', i') \<and> input_fine i' \<and> sr_end (in_src i') = sr_end (in_src i) \<and> lzw_bits_ok z' \<and>
    same_but_bits z z' \<and> lzw_bits z' i' = lzw_bits z i \<and>
    (case r of
       Ok ok \<Rightarrow> if ok then lz_width z \<le> lz_bitcnt z' else length (lzw_bits z i) < lz_width z \<and> sr_end (in_src i) = None
     | Err e \<Rightarrow> length (lzw_bits z i) < lz_width z \<and> sr_end (in_src i) = Some e)"
  using assms
proof (induction z i rule: lzw_fill.induct)
  case (1 z i)
  show ?case
  proof (cases "lz_bitcnt z < lz_width z")
    case False
    then show ?thesis using "1.prems" by (simp add: lzw_fill.simps [of z i])
  next
    case True
    obtain r j where b: "input_byte block_ops i = Some (r, j)" "input_fine j" "sr_end (in_src j) = sr_end (in_src i)"
      "case input_left block_content i of
         [] \<Rightarrow> input_left block_content j = [] \<and> r = (case sr_end (in_src i) of None \<Rightarrow> Ok None | Some e \<Rightarrow> Err e)
       | b # bs \<Rightarrow> input_left block_content j = bs \<and> r = Ok (Some b)"
      using bl.byte_ok [OF "1.prems"(3)] by blast
    show ?thesis
    proof (cases "input_left block_content i")
      case Nil
      then show ?thesis using b True "1.prems"
        by (auto simp: lzw_fill.simps [of z i] lzw_bits_def stream_bits_def split: option.splits)
    next
      case (Cons c cs)
      let ?z = "lzw_add_byte z c"
      note add = lzw_add_byte_bits [OF "1.prems"(1), of c]
      have small: "lz_bitcnt z < 12" "lz_width ?z \<le> 12" using True "1.prems"(2) by (simp_all add: lzw_add_byte_def)
      have fields: "lz_width ?z = lz_width z" "lz_msb_first ?z = lz_msb_first z" by (simp_all add: lzw_add_byte_def)
      have bits: "lzw_bits ?z j = lzw_bits z i"
        using Cons b add(2) [OF small(1)] fields by (simp add: lzw_bits_def stream_bits_def)
      have byte: "input_byte block_ops i = Some (Ok (Some c), j)" using b Cons by simp
      have frame: "same_but_bits z z'" if "same_but_bits ?z z'" for z'
        using same_but_bits_trans [OF _ that] by simp
      have "lzw_fill z i = lzw_fill ?z j" using byte True by (simp add: lzw_fill.simps [of z i])
      moreover note "1.IH" [OF True byte refl add(1) [OF small(1)] small(2) b(2), unfolded bits fields b(3)]
      ultimately show ?thesis using frame by fastforce
    qed
  qed
qed

lemma lzw_next_code_spec:
  assumes "lzw_bits_ok z" and w: "lz_width z \<le> 12" and "input_fine i"
  shows "\<exists>r z' i'. lzw_next_code z i = Some (r, z', i') \<and> input_fine i' \<and> sr_end (in_src i') = sr_end (in_src i) \<and>
    same_but_bits z z' \<and> lzw_bits_ok z' \<and>
    (case r of
       Ok (Some code) \<Rightarrow> lz_width z \<le> length (lzw_bits z i) \<and>
         code = code_value (lz_msb_first z) (take (lz_width z) (lzw_bits z i)) \<and>
         lzw_bits z' i' = drop (lz_width z) (lzw_bits z i)
     | Ok None \<Rightarrow> length (lzw_bits z i) < lz_width z \<and> sr_end (in_src i) = None
     | Err e \<Rightarrow> length (lzw_bits z i) < lz_width z \<and> sr_end (in_src i) = Some e)"
proof -
  obtain r y j where f: "lzw_fill z i = Some (r, y, j)" "input_fine j" "sr_end (in_src j) = sr_end (in_src i)" "lzw_bits_ok y"
    "same_but_bits z y" "lzw_bits y j = lzw_bits z i"
    "case r of
       Ok ok \<Rightarrow> if ok then lz_width z \<le> lz_bitcnt y else length (lzw_bits z i) < lz_width z \<and> sr_end (in_src i) = None
     | Err e \<Rightarrow> length (lzw_bits z i) < lz_width z \<and> sr_end (in_src i) = Some e"
    using lzw_fill_spec [OF assms] by blast
  define buf cnt where "buf = lz_bitbuf y" and "cnt = lz_bitcnt y"
  have y: "y = z\<lparr>lz_bitbuf := buf, lz_bitcnt := cnt\<rparr>" using f(5) by (simp add: same_but_bits_def buf_def cnt_def)
  show ?thesis
  proof (cases "r = Ok True")
    case False
    show ?thesis
    proof (cases r)
      case (Err e)
      then show ?thesis using f by (simp add: lzw_next_code_def)
    next
      case (Ok ok)
      then show ?thesis using f False by (simp add: lzw_next_code_def)
    qed
  next
    case True
    let ?w = "lz_width z"
    let ?buf' = "if lz_msb_first z then buf AND mask (cnt - ?w) else drop_bit ?w buf"
    let ?z' = "z\<lparr>lz_bitcnt := cnt - ?w, lz_bitbuf := ?buf'\<rparr>"
    let ?code = "if lz_msb_first z then unat (drop_bit (cnt - ?w) buf AND mask ?w) else unat (buf AND mask ?w)"
    have cnt: "?w \<le> cnt" "cnt \<le> 19" and hi: "\<And>k. cnt \<le> k \<Longrightarrow> \<not> bit buf k"
      using f(4,7) True y by (auto simp: lzw_bits_ok_def)
    have taken: "lzw_next_code z i = Some (Ok (Some ?code), ?z', j)"
      using f(1) True y by (simp add: lzw_next_code_def Let_def)
    have ok: "lzw_bits_ok ?z'" using cnt hi by (auto simp: lzw_bits_ok_def bit_simps)
    have m: "map (bit (buf AND mask (cnt - ?w))) [0..<cnt - ?w] = map (bit buf) [0..<cnt - ?w]"
      "map (bit (drop_bit ?w buf)) [0..<cnt - ?w] = map (bit buf) [?w..<cnt]"
      "map (bit (drop_bit (cnt - ?w) buf)) [0..<?w] = map (bit buf) [cnt - ?w..<cnt]"
      using cnt by (auto intro!: nth_equalityI simp: bit_simps)
    have split: "[0..<cnt] = [0..<?w] @ [?w..<cnt]" "[0..<cnt] = [0..<cnt - ?w] @ [cnt - ?w..<cnt]"
      using cnt by (metis upt_add_eq_append le0 le_add_diff_inverse, metis upt_add_eq_append le0 le_add_diff_inverse2 diff_le_self le_add_diff_inverse)
    have buf: "lzw_buf_bits y = (if lz_msb_first z then rev (map (bit buf) [cnt - ?w..<cnt]) @ rev (map (bit buf) [0..<cnt - ?w])
        else map (bit buf) [0..<?w] @ map (bit buf) [?w..<cnt])"
      using y split by (simp add: lzw_buf_bits_def flip: map_append rev_append)
    have buf': "lzw_buf_bits ?z' = drop ?w (lzw_buf_bits y)"
      using buf m cnt by (simp add: lzw_buf_bits_def)
    have code: "?code = code_value (lz_msb_first z) (take ?w (lzw_buf_bits y))"
      using buf cnt nat_horner_bits [of ?w "drop_bit (cnt - ?w) buf"] nat_horner_bits [of ?w buf]
      by (simp add: code_value_def m(3))
    have msb: "lz_msb_first y = lz_msb_first z" "lz_msb_first ?z' = lz_msb_first z" "lz_bitcnt y = cnt" using y by simp_all
    have bits: "lzw_bits z i = lzw_buf_bits y @ stream_bits (lz_msb_first z) (input_left block_content j)"
      using f(6) msb by (simp add: lzw_bits_def)
    have "take ?w (lzw_bits z i) = take ?w (lzw_buf_bits y)" "drop ?w (lzw_bits z i) = lzw_bits ?z' j" "?w \<le> length (lzw_bits z i)"
      using bits cnt msb buf' by (simp_all add: lzw_bits_def)
    then show ?thesis using taken ok code f(2,3) by auto
  qed
qed

section \<open>The dictionary\<close>

text \<open>The string of a code of the dictionary, and the tables that represent the dictionary \<open>d\<close>.\<close>

definition lzw_str :: "nat \<Rightarrow> u8 list list \<Rightarrow> nat \<Rightarrow> u8 list" where
  "lzw_str clear d c = (if c < clear then [word_of_nat c] else d ! (c - (clear + 2)))"

definition code_in :: "nat \<Rightarrow> nat \<Rightarrow> nat \<Rightarrow> bool" where
  "code_in clear k c \<longleftrightarrow> c < clear \<or> clear + 2 \<le> c \<and> c < clear + 2 + k"

definition lzw_tables :: "nat \<Rightarrow> u8 list list \<Rightarrow> nat list \<Rightarrow> u8 list \<Rightarrow> bool" where
  "lzw_tables clear d prefix suffix \<longleftrightarrow> length prefix = MAX_CODES \<and> length suffix = MAX_CODES \<and>
     clear + 2 + length d \<le> MAX_CODES \<and>
     (\<forall>k < length d. code_in clear k (prefix ! (clear + 2 + k)) \<and>
        d ! k = lzw_str clear d (prefix ! (clear + 2 + k)) @ [suffix ! (clear + 2 + k)])"

lemma lzw_str_append [simp]: "code_in clear (length d) c \<Longrightarrow> lzw_str clear (d @ e) c = lzw_str clear d c"
  by (auto simp: lzw_str_def code_in_def nth_append)

lemma lzw_str_length:
  assumes t: "lzw_tables clear d prefix suffix" and "code_in clear (length d) c"
  shows "lzw_str clear d c \<noteq> [] \<and> length (lzw_str clear d c) \<le> c - clear + 1"
  using assms(2)
proof (induction c rule: less_induct)
  case (less c)
  show ?case
  proof (cases "c < clear")
    case True
    then show ?thesis by (simp add: lzw_str_def)
  next
    case False
    define k where "k = c - (clear + 2)"
    have k: "c = clear + 2 + k" "k < length d" using less.prems False by (auto simp: code_in_def k_def)
    let ?p = "prefix ! (clear + 2 + k)"
    have entry: "code_in clear k ?p" "d ! k = lzw_str clear d ?p @ [suffix ! (clear + 2 + k)]"
      using t k by (auto simp: lzw_tables_def)
    have "?p < c" "code_in clear (length d) ?p" using entry(1) k by (auto simp: code_in_def)
    then have "length (lzw_str clear d ?p) \<le> ?p - clear + 1" using less.IH by blast
    moreover have "?p - clear + 1 < c - clear + 1" using \<open>?p < c\<close> k by simp
    moreover have "lzw_str clear d c = lzw_str clear d ?p @ [suffix ! (clear + 2 + k)]"
      using entry(2) k by (simp add: lzw_str_def)
    ultimately show ?thesis by simp
  qed
qed

lemma lzw_chain_spec:
  assumes t: "lzw_tables clear d (wk_prefix w) (wk_suffix w)" and "code_in clear (length d) c"
    and "len + length (lzw_str clear d c) \<le> length (wk_stack w)"
  shows "\<exists>st c0. lzw_chain w clear c len = Some (w\<lparr>wk_stack := st\<rparr>, c0, len + length (lzw_str clear d c) - 1) \<and>
    c0 < clear \<and> word_of_nat c0 = hd (lzw_str clear d c) \<and> length st = length (wk_stack w) \<and>
    take (len + length (lzw_str clear d c) - 1) st = take len (wk_stack w) @ rev (tl (lzw_str clear d c))"
  using assms
proof (induction c arbitrary: w len rule: less_induct)
  case (less c)
  show ?case
  proof (cases "c < clear")
    case True
    then show ?thesis by (intro exI [of _ "wk_stack w"] exI [of _ c]) (simp add: lzw_chain.simps [of w] lzw_str_def)
  next
    case False
    define k where "k = c - (clear + 2)"
    have k: "c = clear + 2 + k" "k < length d" using less.prems(2) False by (auto simp: code_in_def k_def)
    let ?p = "wk_prefix w ! (clear + 2 + k)" and ?b = "wk_suffix w ! (clear + 2 + k)"
    have entry: "code_in clear k ?p" "d ! k = lzw_str clear d ?p @ [?b]"
      and size: "length (wk_prefix w) = MAX_CODES" "length (wk_suffix w) = MAX_CODES" "c < MAX_CODES"
      using less.prems(1) k by (auto simp: lzw_tables_def)
    have p: "?p < c" "code_in clear (length d) ?p" using entry(1) k by (auto simp: code_in_def)
    have str: "lzw_str clear d c = lzw_str clear d ?p @ [?b]" using entry(2) k by (simp add: lzw_str_def)
    have ne: "lzw_str clear d ?p \<noteq> []" using lzw_str_length [OF less.prems(1) p(2)] by simp
    let ?w = "w\<lparr>wk_stack := (wk_stack w)[len := ?b]\<rparr>"
    have len: "len < length (wk_stack w)" using less.prems(3) str by simp
    have step: "lzw_chain w clear c len = lzw_chain ?w clear ?p (len + 1)"
      using size len k by (simp add: lzw_chain.simps [of w])
    have "lzw_tables clear d (wk_prefix ?w) (wk_suffix ?w)" "len + 1 + length (lzw_str clear d ?p) \<le> length (wk_stack ?w)"
      using less.prems(1,3) str by simp_all
    from less.IH [OF p(1) this(1) p(2) this(2)] obtain st c0 where IH:
        "lzw_chain ?w clear ?p (len + 1) = Some (?w\<lparr>wk_stack := st\<rparr>, c0, len + 1 + length (lzw_str clear d ?p) - 1)"
        "c0 < clear" "word_of_nat c0 = hd (lzw_str clear d ?p)" "length st = length (wk_stack ?w)"
        "take (len + 1 + length (lzw_str clear d ?p) - 1) st = take (len + 1) (wk_stack ?w) @ rev (tl (lzw_str clear d ?p))"
      by blast
    have "take (len + 1) (wk_stack ?w) = take len (wk_stack w) @ [?b]" using len by (simp add: take_Suc_conv_app_nth)
    then show ?thesis using IH step ne unfolding str by (intro exI [of _ st] exI [of _ c0]) simp
  qed
qed

section \<open>The refinement\<close>

definition clear_of :: "lzw_options \<Rightarrow> nat" where
  "clear_of opts = 2 ^ lo_literal_bits opts"

definition lzw_rep :: "lzw_options \<Rightarrow> lzw \<Rightarrow> lzw_work \<Rightarrow> u8 list list \<Rightarrow> u8 list option \<Rightarrow> u8 list \<Rightarrow> bool" where
  "lzw_rep opts z w d p pending \<longleftrightarrow>
     2 \<le> lo_literal_bits opts \<and> lo_literal_bits opts \<le> 8 \<and> lz_literal_bits z = lo_literal_bits opts \<and>
     lz_msb_first z = lo_msb_first opts \<and> lz_early_change z = lo_early_change opts \<and>
     lz_clear z = clear_of opts \<and> lz_next z = clear_of opts + 2 + length d \<and>
     lz_width z = lzw_width opts (length d) \<and> lzw_tables (clear_of opts) d (wk_prefix w) (wk_suffix w) \<and>
     (case p of
        None \<Rightarrow> lz_prev z = NO_CODE \<and> d = []
      | Some q \<Rightarrow> code_in (clear_of opts) (length d) (lz_prev z) \<and> q = lzw_str (clear_of opts) d (lz_prev z) \<and> lz_prev_first z = hd q) \<and>
     length (wk_stack w) = MAX_CODES \<and> lz_stack_len z = length pending \<and> length pending \<le> MAX_CODES \<and>
     take (length pending) (wk_stack w) = rev pending"

lemma lzw_width_le: "lo_literal_bits opts \<le> 8 \<Longrightarrow> lzw_width opts k \<le> 12"
  by (induction k) (auto simp: Let_def)

lemma literals_small: "lb \<le> 8 \<Longrightarrow> 2 ^ lb \<le> (256 :: nat)"
  using power_increasing [of lb 8 "2 :: nat"] by simp

lemma lzw_pop_spec:
  assumes "lz_stack_len z = length pending" and "length pending \<le> MAX_CODES" and "length (wk_stack w) = MAX_CODES"
    and "take (length pending) (wk_stack w) = rev pending" and "k \<le> length pending"
  shows "lzw_pop k z w = Some (take k pending, z\<lparr>lz_stack_len := length pending - k\<rparr>)"
  using assms
proof (induction k arbitrary: z pending)
  case (Suc k)
  obtain b bs where p: "pending = b # bs" using Suc.prems(5) by (cases pending) auto
  have "take (length pending) (wk_stack w) ! length bs = b" unfolding Suc.prems(4) by (simp add: p nth_append)
  then have top: "wk_stack w ! length bs = b" by (simp add: p)
  have rest: "take (length bs) (wk_stack w) = rev bs"
    using arg_cong [OF Suc.prems(4), of "take (length bs)"] p by (simp add: min_def)
  have "length bs < MAX_CODES" using Suc.prems(2) p by simp
  then show ?case
    using Suc.IH [of "z\<lparr>lz_stack_len := length bs\<rparr>" bs] Suc.prems p top rest by simp
qed simp

lemma lzw_rep_pop:
  assumes rep: "lzw_rep opts z w d p pending" and k: "k \<le> length pending"
  shows "lzw_rep opts (z\<lparr>lz_stack_len := length pending - k\<rparr>) w d p (drop k pending)"
proof -
  have "take (length pending - k) (wk_stack w) = take (length pending - k) (take (length pending) (wk_stack w))"
    by (simp add: min_def)
  also have "\<dots> = rev (drop k pending)" using rep by (simp add: lzw_rep_def rev_drop)
  finally show ?thesis using rep by (cases p) (auto simp: lzw_rep_def)
qed

lemma lzw_rep_bits:
  assumes "lzw_rep opts z w d p pending" and "same_but_bits z z'"
  shows "lzw_rep opts z' w d p pending"
proof -
  obtain a b where "z' = z\<lparr>lz_bitbuf := a, lz_bitcnt := b\<rparr>" using assms(2) unfolding same_but_bits_def by blast
  then show ?thesis using assms(1) by (cases p) (auto simp: lzw_rep_def)
qed

text \<open>The entry that a code adds.\<close>

lemma lzw_add_entry_spec:
  assumes rep: "lzw_rep opts z w d (Some q) []"
  shows "\<exists>z' w'. lzw_add_entry (z\<lparr>lz_stack_len := len\<rparr>) (w\<lparr>wk_stack := st\<rparr>) (hd s) = Some (z', w') \<and>
    wk_stack w' = st \<and> lz_stack_len z' = len \<and> lz_literal_bits z' = lz_literal_bits z \<and> lz_msb_first z' = lz_msb_first z \<and>
    lz_early_change z' = lz_early_change z \<and> lz_clear z' = lz_clear z \<and> lz_ended z' = lz_ended z \<and>
    lz_bitbuf z' = lz_bitbuf z \<and> lz_bitcnt z' = lz_bitcnt z \<and>
    lz_next z' = clear_of opts + 2 + length (lzw_learn opts d (Some q) s) \<and>
    lz_width z' = lzw_width opts (length (lzw_learn opts d (Some q) s)) \<and>
    lzw_tables (clear_of opts) (lzw_learn opts d (Some q) s) (wk_prefix w') (wk_suffix w') \<and>
    (lz_next z < MAX_CODES \<longrightarrow> lzw_learn opts d (Some q) s = d @ [q @ [hd s]]) \<and>
    (\<not> lz_next z < MAX_CODES \<longrightarrow> lzw_learn opts d (Some q) s = d)"
proof (cases "lz_next z < MAX_CODES")
  case False
  then show ?thesis using rep by (simp add: lzw_add_entry_def lzw_rep_def lzw_learn_def clear_of_def)
next
  case True
  let ?d = "d @ [q @ [hd s]]"
  let ?prefix = "(wk_prefix w)[lz_next z := lz_prev z mod 65536]" and ?suffix = "(wk_suffix w)[lz_next z := hd s]"
  have t: "lzw_tables (clear_of opts) d (wk_prefix w) (wk_suffix w)" and nxt: "lz_next z = clear_of opts + 2 + length d"
    and prev: "code_in (clear_of opts) (length d) (lz_prev z)" "q = lzw_str (clear_of opts) d (lz_prev z)"
    using rep by (simp_all add: lzw_rep_def)
  have small: "lz_prev z mod 65536 = lz_prev z" using prev(1) nxt True by (auto simp: code_in_def MAX_CODES_def)
  have learn: "lzw_learn opts d (Some q) s = ?d" using rep True by (simp add: lzw_learn_def lzw_rep_def clear_of_def)
  have "code_in (clear_of opts) k (?prefix ! (clear_of opts + 2 + k)) \<and>
      ?d ! k = lzw_str (clear_of opts) ?d (?prefix ! (clear_of opts + 2 + k)) @ [?suffix ! (clear_of opts + 2 + k)]" if "k < length ?d" for k
  proof (cases "k < length d")
    case True
    then have e: "code_in (clear_of opts) k (wk_prefix w ! (clear_of opts + 2 + k))"
        "d ! k = lzw_str (clear_of opts) d (wk_prefix w ! (clear_of opts + 2 + k)) @ [wk_suffix w ! (clear_of opts + 2 + k)]"
      using t by (auto simp: lzw_tables_def)
    then have "code_in (clear_of opts) (length d) (wk_prefix w ! (clear_of opts + 2 + k))" using True by (auto simp: code_in_def)
    then show ?thesis using e True nxt by (simp add: nth_append)
  next
    case False
    then have "k = length d" using that by simp
    then show ?thesis using prev nxt t True small by (simp add: nth_append lzw_tables_def)
  qed
  then have tables: "lzw_tables (clear_of opts) ?d ?prefix ?suffix"
    using t nxt True by (simp add: lzw_tables_def)
  show ?thesis using True t nxt learn tables rep by (simp add: lzw_add_entry_def lzw_tables_def lzw_rep_def Let_def clear_of_def)
qed

lemma lzw_rep_restart:
  "lzw_rep opts z w d p pending \<Longrightarrow> lz_stack_len z = 0 \<Longrightarrow> lzw_rep opts (lzw_restart_table z) w [] None []"
  by (auto simp: lzw_rep_def lzw_restart_table_def lzw_tables_def)

text \<open>The string the walk of a code leaves on the stack.\<close>

lemma lzw_walk_spec:
  assumes rep: "lzw_rep opts z w d (Some q) []" and code: "code \<noteq> clear_of opts" "code \<noteq> clear_of opts + 1"
  shows "case lzw_string opts d (Some q) code of
      None \<Rightarrow> lzw_walk_start z w code = Some (Err Corrupt)
    | Some s \<Rightarrow> s \<noteq> [] \<and> length s \<le> MAX_CODES \<and>
        s = lzw_str (clear_of opts) (lzw_learn opts d (Some q) s) code \<and>
        code_in (clear_of opts) (length (lzw_learn opts d (Some q) s)) code \<and>
        (\<exists>w1 c len st c0. lzw_walk_start z w code = Some (Ok (w1, c, len)) \<and>
          lzw_chain w1 (lz_clear z) c len = Some (w\<lparr>wk_stack := st\<rparr>, c0, length s - 1) \<and> word_of_nat c0 = hd s \<and>
          length st = MAX_CODES \<and> take (length s - 1) st = rev (tl s))"
proof -
  let ?cl = "clear_of opts"
  have t: "lzw_tables ?cl d (wk_prefix w) (wk_suffix w)" and nxt: "lz_next z = ?cl + 2 + length d" "lz_clear z = ?cl"
    and prev: "code_in ?cl (length d) (lz_prev z)" "q = lzw_str ?cl d (lz_prev z)" "lz_prev_first z = hd q"
    and st: "length (wk_stack w) = MAX_CODES"
    using rep by (simp_all add: lzw_rep_def)
  have max: "?cl + 2 + length d \<le> MAX_CODES" using t by (simp add: lzw_tables_def)
  have q: "q \<noteq> []" "length q \<le> length d + 2"
    using lzw_str_length [OF t prev(1)] prev(1,2) by (auto simp: code_in_def)
  have cl: "4 \<le> ?cl" using rep power_increasing [of 2 "lo_literal_bits opts" "2 :: nat"] by (simp add: lzw_rep_def clear_of_def)
  consider (old) "code_in ?cl (length d) code" | (new) "code = lz_next z" "lz_next z < MAX_CODES"
    | (bad) "lz_next z \<le> code" "\<not> (code = lz_next z \<and> lz_next z < MAX_CODES)"
    using code nxt by (fastforce simp: code_in_def)
  then show ?thesis
  proof cases
    case old
    let ?s = "lzw_str ?cl d code"
    have str: "lzw_string opts d (Some q) code = Some ?s"
      using old by (auto simp: lzw_string_def lzw_str_def code_in_def clear_of_def Let_def)
    have len: "?s \<noteq> []" "length ?s \<le> MAX_CODES"
      using lzw_str_length [OF t old] old max cl by (auto simp: code_in_def)
    have start: "lzw_walk_start z w code = Some (Ok (w, code, 0))"
      using old nxt by (auto simp: lzw_walk_start_def code_in_def)
    have "\<exists>e. lzw_learn opts d (Some q) ?s = d @ e" by (simp add: lzw_learn_def)
    then obtain e where e: "lzw_learn opts d (Some q) ?s = d @ e" by blast
    have "code_in ?cl (length (d @ e)) code" using old by (auto simp: code_in_def)
    then show ?thesis
      using lzw_chain_spec [OF t old, of 0] len start st old nxt unfolding str option.case e by (auto simp: e)
  next
    case new
    let ?s = "q @ [hd q]"
    have str: "lzw_string opts d (Some q) code = Some ?s"
      using new nxt cl by (simp add: lzw_string_def clear_of_def)
    have learn: "lzw_learn opts d (Some q) ?s = d @ [?s]"
      using new nxt q(1) by (simp add: lzw_learn_def clear_of_def)
    have len: "length ?s \<le> MAX_CODES" using q(2) max cl by simp
    let ?st = "(wk_stack w)[0 := hd q]" and ?w = "w\<lparr>wk_stack := (wk_stack w)[0 := hd q]\<rparr>"
    have pos: "0 < length (wk_stack w)" using st by (simp add: MAX_CODES_def)
    have start: "lzw_walk_start z w code = Some (Ok (?w, lz_prev z, 1))"
      using new pos prev(3) by (simp add: lzw_walk_start_def)
    have "lzw_tables ?cl d (wk_prefix ?w) (wk_suffix ?w)" "1 + length (lzw_str ?cl d (lz_prev z)) \<le> length (wk_stack ?w)"
      using t len st prev(2) by simp_all
    from lzw_chain_spec [OF this(1) prev(1) this(2)] obtain s' c0 where
      c: "lzw_chain ?w ?cl (lz_prev z) 1 = Some (w\<lparr>wk_stack := s'\<rparr>, c0, length q)" "word_of_nat c0 = hd q" "length s' = MAX_CODES"
        "take (length q) s' = take 1 ?st @ rev (tl q)"
      unfolding prev(2) [symmetric] using st by auto
    have "take 1 ?st = [hd q]" using pos by (cases "wk_stack w") simp_all
    then have "take (length q) s' = rev (tl ?s)" using c(4) q(1) by (cases q) simp_all
    moreover have "lzw_str ?cl (d @ [?s]) code = ?s" "code_in ?cl (length (d @ [?s])) code"
      using new nxt by (simp_all add: lzw_str_def code_in_def)
    ultimately show ?thesis unfolding str option.case learn using start c len nxt q(1) by auto
  next
    case bad
    then have "lzw_string opts d (Some q) code = None"
      using nxt by (auto simp: lzw_string_def clear_of_def Let_def)
    then show ?thesis using bad by (auto simp: lzw_walk_start_def)
  qed
qed

lemma lzw_step_spec:
  assumes rep: "lzw_rep opts z w d p []" and code: "code \<noteq> lz_clear z + 1"
  shows "if code = lz_clear z
    then \<exists>z'. lzw_step z w code = Some (Ok (), z', w) \<and> lzw_rep opts z' w [] None [] \<and>
           lz_bitbuf z' = lz_bitbuf z \<and> lz_bitcnt z' = lz_bitcnt z \<and> lz_ended z' = lz_ended z
    else case lzw_string opts d p code of
        None \<Rightarrow> \<exists>z' w'. lzw_step z w code = Some (Err Corrupt, z', w')
      | Some s \<Rightarrow> \<exists>z' w'. lzw_step z w code = Some (Ok (), z', w') \<and> lzw_rep opts z' w' (lzw_learn opts d p s) (Some s) s \<and>
           lz_bitbuf z' = lz_bitbuf z \<and> lz_bitcnt z' = lz_bitcnt z \<and> lz_ended z' = lz_ended z"
proof (cases "code = lz_clear z")
  case True
  then show ?thesis using lzw_rep_restart [OF rep] rep
    by (simp add: lzw_step_def) (simp add: lzw_restart_table_def lzw_rep_def)
next
  case other: False
  have cl: "lz_clear z = clear_of opts" using rep by (simp add: lzw_rep_def)
  show ?thesis
  proof (cases p)
    case None
    have prev: "lz_prev z = NO_CODE" "d = []" "0 < length (wk_stack w)" using rep None by (auto simp: lzw_rep_def MAX_CODES_def)
    show ?thesis
    proof (cases "code < lz_clear z")
      case True
      let ?z = "z\<lparr>lz_stack_len := 1, lz_prev := code, lz_prev_first := word_of_nat code\<rparr>"
      let ?w = "w\<lparr>wk_stack := (wk_stack w)[0 := word_of_nat code]\<rparr>"
      have "lzw_step z w code = Some (Ok (), ?z, ?w)" using other True prev by (simp add: lzw_step_def)
      moreover have "lzw_string opts d p code = Some [word_of_nat code]"
        using True cl by (simp add: lzw_string_def clear_of_def)
      moreover have "take 1 ((wk_stack w)[0 := word_of_nat code]) = [word_of_nat code]"
        using prev(3) by (cases "wk_stack w") simp_all
      then have "lzw_rep opts ?z ?w (lzw_learn opts d p [word_of_nat code]) (Some [word_of_nat code]) [word_of_nat code]"
        using rep None True cl by (auto simp: lzw_rep_def lzw_learn_def code_in_def lzw_str_def MAX_CODES_def)
      ultimately show ?thesis using other by simp
    next
      case False
      then have "lzw_string opts d p code = None" using None cl by (simp add: lzw_string_def clear_of_def)
      then show ?thesis using False other prev by (simp add: lzw_step_def)
    qed
  next
    case (Some q)
    have rep': "lzw_rep opts z w d (Some q) []" using rep Some by simp
    have prev: "lz_prev z \<noteq> NO_CODE"
      using rep' by (auto simp: lzw_rep_def lzw_tables_def code_in_def MAX_CODES_def NO_CODE_def)
    note walk = lzw_walk_spec [OF rep', of code]
    show ?thesis
    proof (cases "lzw_string opts d (Some q) code")
      case None
      then show ?thesis using walk other code cl prev Some by (simp add: lzw_step_def)
    next
      case (Some s)
      let ?d = "lzw_learn opts d (Some q) s"
      obtain w1 c len st c0 where W: "s \<noteq> []" "length s \<le> MAX_CODES" "s = lzw_str (clear_of opts) ?d code"
          "code_in (clear_of opts) (length ?d) code" "lzw_walk_start z w code = Some (Ok (w1, c, len))"
          "lzw_chain w1 (lz_clear z) c len = Some (w\<lparr>wk_stack := st\<rparr>, c0, length s - 1)" "word_of_nat c0 = hd s"
          "length st = MAX_CODES" "take (length s - 1) st = rev (tl s)"
        using walk Some other code cl by auto
      let ?st = "st[length s - 1 := hd s]"
      have set: "arr_set st (length s - 1) (word_of_nat c0) = Some ?st" using W by (cases s) simp_all
      have stack: "take (length s) ?st = rev s"
        using W(1,2,8,9) by (cases s) (simp_all add: take_Suc_conv_app_nth)
      obtain z' w' where A: "lzw_add_entry (z\<lparr>lz_stack_len := length s\<rparr>) (w\<lparr>wk_stack := ?st\<rparr>) (hd s) = Some (z', w')"
          "wk_stack w' = ?st" "lz_stack_len z' = length s" "lz_literal_bits z' = lz_literal_bits z"
          "lz_msb_first z' = lz_msb_first z" "lz_early_change z' = lz_early_change z" "lz_clear z' = lz_clear z"
          "lz_ended z' = lz_ended z" "lz_bitbuf z' = lz_bitbuf z" "lz_bitcnt z' = lz_bitcnt z"
          "lz_next z' = clear_of opts + 2 + length ?d" "lz_width z' = lzw_width opts (length ?d)"
          "lzw_tables (clear_of opts) ?d (wk_prefix w') (wk_suffix w')"
        using lzw_add_entry_spec [OF rep', of "length s" ?st s] by blast
      have len: "length s - 1 + 1 = length s" using W(1) by (cases s) simp_all
      have "lzw_step z w code = Some (Ok (), z'\<lparr>lz_prev := code, lz_prev_first := hd s\<rparr>, w')"
        using W(5,6) set A(1) other prev W(7) len by (simp add: lzw_step_def Let_def)
      moreover have "lzw_rep opts (z'\<lparr>lz_prev := code, lz_prev_first := hd s\<rparr>) w' ?d (Some s) s"
        using rep' A W(2,4,8) stack W(3) [symmetric] by (simp add: lzw_rep_def)
      ultimately show ?thesis using Some \<open>p = Some q\<close> other A(8,9,10) by simp
    qed
  qed
qed

section \<open>Reads\<close>

text \<open>What is to come: the bytes, and how the stream ends after them. The result of a read of \<open>n\<close> bytes.\<close>

definition lzw_future :: "lzw_options \<Rightarrow> lzw \<Rightarrow> u8 list list \<Rightarrow> u8 list option \<Rightarrow> u8 list \<Rightarrow> bool list \<Rightarrow> u8 list \<times> lzw_end" where
  "lzw_future opts z d p pending bits =
     (if lz_ended z then (pending, Information_end) else map_prod ((@) pending) id (lzw_text opts d p bits))"

fun read_result :: "nat \<Rightarrow> u8 list \<times> lzw_end \<Rightarrow> codec_error option \<Rightarrow> (codec_error, u8 list) res" where
  "read_result n (bytes, fin) failure =
     (if n \<le> length bytes then Ok (take n bytes)
      else case fin of
        Bad_code \<Rightarrow> Err Corrupt
      | Information_end \<Rightarrow> Ok bytes
      | Input_end \<Rightarrow> (case failure of None \<Rightarrow> Ok bytes | Some e \<Rightarrow> Err e))"

definition lzw_inv ::
  "lzw_options \<Rightarrow> lzw \<Rightarrow> lzw_work \<Rightarrow> block_source input \<Rightarrow> u8 list \<times> lzw_end \<Rightarrow> bool" where
  "lzw_inv opts z w i future \<longleftrightarrow> (\<exists>d p pending. lzw_rep opts z w d p pending \<and> lzw_bits_ok z \<and> input_fine i \<and>
     future = lzw_future opts z d p pending (lzw_bits z i))"

text \<open>The future after \<open>n\<close> bytes were read; a stream that ended stays ended.\<close>

definition future_drop :: "nat \<Rightarrow> u8 list \<times> lzw_end \<Rightarrow> u8 list \<times> lzw_end" where
  "future_drop n future = (drop n (fst future), if n \<le> length (fst future) then snd future else Information_end)"

lemma lzw_rep_ended [simp]: "lzw_rep opts (z\<lparr>lz_ended := b\<rparr>) w d p pending = lzw_rep opts z w d p pending"
  by (cases p) (simp_all add: lzw_rep_def)

lemma lzw_bits_ok_cong: "lz_bitbuf z' = lz_bitbuf z \<Longrightarrow> lz_bitcnt z' = lz_bitcnt z \<Longrightarrow> lzw_bits_ok z \<Longrightarrow> lzw_bits_ok z'"
  by (simp add: lzw_bits_ok_def)

lemma lzw_bits_cong:
  "lz_bitbuf z' = lz_bitbuf z \<Longrightarrow> lz_bitcnt z' = lz_bitcnt z \<Longrightarrow> lz_msb_first z' = lz_msb_first z \<Longrightarrow> lzw_bits z' i = lzw_bits z i"
  by (simp add: lzw_bits_def lzw_buf_bits_def)

lemma lzw_rep_clear: "lzw_rep opts z w d p pending \<Longrightarrow> lz_clear z = 2 ^ lo_literal_bits opts"
  by (simp add: lzw_rep_def clear_of_def)

lemma lzw_run_spec:
  assumes "lzw_rep opts z w d p pending" and "lzw_bits_ok z" and "input_fine i" and "length out \<le> n"
    and "length (lzw_bits z i) < fuel"
  defines "future \<equiv> lzw_future opts z d p pending (lzw_bits z i)"
  shows "\<exists>r z' w' i'. lzw_run fuel z w i n out = Some (r, z', w', i') \<and> input_fine i' \<and>
    sr_end (in_src i') = sr_end (in_src i) \<and>
    r = map_res ((@) out) (read_result (n - length out) future (sr_end (in_src i))) \<and>
    (\<forall>x. r = Ok x \<longrightarrow> lzw_inv opts z' w' i' (future_drop (n - length out) future))"
  using assms(1-5) unfolding future_def
proof (induction fuel arbitrary: z w d p pending i out)
  case (Suc fuel)
  let ?k = "min (length pending) (n - length out)"
  let ?z = "z\<lparr>lz_stack_len := length pending - ?k\<rparr>" and ?out = "out @ take ?k pending" and ?bits = "lzw_bits z i"
  let ?f = "lzw_future opts z d p pending ?bits"
  have len: "lz_stack_len z = length pending" using Suc.prems(1) by (simp add: lzw_rep_def)
  have pop: "lzw_pop (min (lz_stack_len z) (n - length out)) z w = Some (take ?k pending, ?z)"
    unfolding len using Suc.prems(1) by (intro lzw_pop_spec) (simp_all add: lzw_rep_def)
  have rep: "lzw_rep opts ?z w d p (drop ?k pending)" by (rule lzw_rep_pop [OF Suc.prems(1)]) simp
  have zb: "lzw_bits ?z i = ?bits" "lzw_bits_ok ?z" "lz_ended ?z = lz_ended z"
    using Suc.prems(2) by (simp_all add: lzw_bits_def lzw_buf_bits_def lzw_bits_ok_def)
  have outlen: "length ?out = n \<longleftrightarrow> n - length out \<le> length pending" using Suc.prems(4) by auto
  show ?case
  proof (cases "length ?out = n \<or> lz_ended z")
    case True
    have run: "lzw_run (Suc fuel) z w i n out = Some (Ok ?out, ?z, w, i)" using pop True by (simp add: Let_def)
    have "fst ?f = pending @ fst (if lz_ended z then ([], Information_end) else lzw_text opts d p ?bits)"
      by (simp add: lzw_future_def)
    then have res: "read_result (n - length out) ?f (sr_end (in_src i)) = Ok (take ?k pending)"
      using True outlen by (cases "lz_ended z"; cases "lzw_text opts d p ?bits") (auto simp: lzw_future_def min_def)
    have "future_drop (n - length out) ?f = lzw_future opts ?z d p (drop ?k pending) ?bits"
      using True outlen
      by (cases "lz_ended z"; cases "lzw_text opts d p ?bits") (auto simp: lzw_future_def future_drop_def min_def)
    then have "lzw_inv opts ?z w i (future_drop (n - length out) ?f)"
      unfolding lzw_inv_def using rep zb Suc.prems(3) by metis
    then show ?thesis using run res Suc.prems(3) by simp
  next
    case False
    have k: "?k = length pending" "drop ?k pending = []" using False outlen by auto
    have rep0: "lzw_rep opts ?z w d p []" using rep k by simp
    have width: "lz_width ?z = lzw_width opts (length d)" "lz_width ?z \<le> 12" "lz_msb_first ?z = lo_msb_first opts"
      using rep0 lzw_width_le [of opts "length d"] by (simp_all add: lzw_rep_def)
    obtain r y j where nc: "lzw_next_code ?z i = Some (r, y, j)" "input_fine j" "sr_end (in_src j) = sr_end (in_src i)"
        "same_but_bits ?z y" "lzw_bits_ok y"
        "case r of
           Ok (Some code) \<Rightarrow> lz_width ?z \<le> length ?bits \<and> code = code_value (lz_msb_first ?z) (take (lz_width ?z) ?bits) \<and>
             lzw_bits y j = drop (lz_width ?z) ?bits
         | Ok None \<Rightarrow> length ?bits < lz_width ?z \<and> sr_end (in_src i) = None
         | Err e \<Rightarrow> length ?bits < lz_width ?z \<and> sr_end (in_src i) = Some e"
      using lzw_next_code_spec [OF zb(2) width(2) Suc.prems(3)] unfolding zb(1) by blast
    have repy: "lzw_rep opts y w d p []" by (rule lzw_rep_bits [OF rep0 nc(4)])
    have ye: "lz_ended y = lz_ended z" using same_but_bits_sel [OF nc(4)] by simp
    have fut: "?f = map_prod ((@) pending) id (lzw_text opts d p ?bits)" using False by (simp add: lzw_future_def)
    let ?m = "n - length out"
    have m: "length pending < ?m" "n - length (out @ pending) = ?m - length pending" using False outlen by auto
    have head: "lzw_run (Suc fuel) z w i n out = on_ok (lzw_next_code ?z i) (\<lambda>code (z, i).
       case code of
         None \<Rightarrow> Some (Ok (out @ pending), z\<lparr>lz_ended := True\<rparr>, w, i)
       | Some code \<Rightarrow>
           if code = lz_clear z + 1 then Some (Ok (out @ pending), z\<lparr>lz_ended := True\<rparr>, w, i)
           else on_ok (lzw_step z w code) (\<lambda>_ (z, w). lzw_run fuel z w i n (out @ pending)) (\<lambda>e (z, w). (z, w, i)))
       (\<lambda>e (z, i). (z, w, i))"
      using pop False k by (simp add: Let_def)
    have ends: "lzw_inv opts (y\<lparr>lz_ended := True\<rparr>) w j ([], Information_end)"
      unfolding lzw_inv_def using repy nc(2,5)
      by (intro exI [of _ d] exI [of _ p] exI [of _ "[]"]) (simp add: lzw_future_def lzw_bits_ok_def)
    show ?thesis
    proof (cases "take_code opts (lz_width ?z) ?bits")
      case None
      then have short: "length ?bits < lz_width ?z" by (simp add: take_code_def split: if_splits)
      have tex: "lzw_text opts d p ?bits = ([], Input_end)"
        using None width(1) by (simp add: lzw_text.simps [of opts d])
      show ?thesis
        using nc short head m ends by (cases r) (auto simp: fut tex future_drop_def split: option.splits)
    next
      case (Some cr)
      obtain code rest where cr: "take_code opts (lz_width ?z) ?bits = Some (code, rest)" using Some by (cases cr) simp
      then have code: "lz_width ?z \<le> length ?bits" "code = code_value (lz_msb_first ?z) (take (lz_width ?z) ?bits)"
          "rest = drop (lz_width ?z) ?bits"
        using width(3) by (auto simp: take_code_def split: if_splits)
      have r: "r = Ok (Some code)" "lzw_bits y j = rest" using nc(6) code by (auto split: res.splits option.splits)
      have clear: "lz_clear y = 2 ^ lo_literal_bits opts" by (rule lzw_rep_clear [OF repy])
      have tex: "lzw_text opts d p ?bits =
          (if code = lz_clear y + 1 then ([], Information_end)
           else if code = lz_clear y then lzw_text opts [] None rest
           else case lzw_string opts d p code of
             None \<Rightarrow> ([], Bad_code)
           | Some s \<Rightarrow> map_prod ((@) s) id (lzw_text opts (lzw_learn opts d p s) (Some s) rest))"
        using cr width(1) clear by (simp add: lzw_text.simps [of opts d p ?bits])
      have fuel: "length (lzw_bits y j) < fuel"
        using Suc.prems(5) r(2) code lzw_width_pos [of opts "length d"] width(1) by simp
      show ?thesis
      proof (cases "code = lz_clear y + 1")
        case True
        then show ?thesis using head nc r m ends by (auto simp: fut tex future_drop_def)
      next
        case ne: False
        note step = lzw_step_spec [OF repy ne]
        show ?thesis
        proof (cases "code \<noteq> lz_clear y \<and> lzw_string opts d p code = None")
          case True
          then show ?thesis using head nc r m ne step by (auto simp: fut tex)
        next
          case False
          obtain z' w' d' p' s where st: "lzw_step y w code = Some (Ok (), z', w')" "lzw_rep opts z' w' d' p' s"
              "lz_bitbuf z' = lz_bitbuf y" "lz_bitcnt z' = lz_bitcnt y" "lz_ended z' = lz_ended y"
              "lzw_text opts d p ?bits = map_prod ((@) s) id (lzw_text opts d' p' rest)"
          proof (cases "code = lz_clear y")
            case True
            then obtain z' where "lzw_step y w code = Some (Ok (), z', w)" "lzw_rep opts z' w [] None []"
                "lz_bitbuf z' = lz_bitbuf y" "lz_bitcnt z' = lz_bitcnt y" "lz_ended z' = lz_ended y"
              using step by auto
            then show thesis using that [of z' w "[]" None "[]"] True tex by (simp add: map_prod_def split: prod.splits)
          next
            case other: False
            then obtain s where s: "lzw_string opts d p code = Some s" using False by auto
            then obtain z' w' where "lzw_step y w code = Some (Ok (), z', w')"
                "lzw_rep opts z' w' (lzw_learn opts d p s) (Some s) s"
                "lz_bitbuf z' = lz_bitbuf y" "lz_bitcnt z' = lz_bitcnt y" "lz_ended z' = lz_ended y"
              using step other by auto
            then show thesis using that [of z' w' "lzw_learn opts d p s" "Some s" s] other ne tex s by simp
          qed
          have msb: "lz_msb_first z' = lz_msb_first y" using st(2) repy by (simp add: lzw_rep_def)
          have bits': "lzw_bits z' j = rest" "lzw_bits_ok z'"
            using lzw_bits_cong [OF st(3,4) msb, of j] lzw_bits_ok_cong [OF st(3,4) nc(5)] r(2) by simp_all
          have fuel': "length (lzw_bits z' j) < fuel" "length (out @ pending) \<le> n"
            using fuel bits' r(2) m by simp_all
          have run: "lzw_run (Suc fuel) z w i n out = lzw_run fuel z' w' j n (out @ pending)"
            using head nc(1) r(1) ne st(1) by simp
          obtain bs fin where bf: "lzw_text opts d' p' rest = (bs, fin)" by fastforce
          have f': "lzw_future opts z' d' p' s (lzw_bits z' j) = (s @ bs, fin)" "?f = (pending @ s @ bs, fin)"
            using st(5,6) ye False \<open>\<not> (length ?out = n \<or> lz_ended z)\<close> bf bits'(1) by (simp_all add: lzw_future_def)
          from Suc.IH [OF st(2) bits'(2) nc(2) fuel'(2,1)] obtain r2 z2 w2 i2 where IH:
              "lzw_run fuel z' w' j n (out @ pending) = Some (r2, z2, w2, i2)" "input_fine i2"
              "sr_end (in_src i2) = sr_end (in_src j)"
              "r2 = map_res ((@) (out @ pending)) (read_result (?m - length pending) (s @ bs, fin) (sr_end (in_src j)))"
              "\<forall>x. r2 = Ok x \<longrightarrow> lzw_inv opts z2 w2 i2 (future_drop (?m - length pending) (s @ bs, fin))"
            unfolding f'(1) m(2) by blast
          have "map_res ((@) (out @ pending)) (read_result (?m - length pending) (s @ bs, fin) e) =
              map_res ((@) out) (read_result ?m (pending @ s @ bs, fin) e)" for e
            using m(1) by (auto split: lzw_end.splits option.splits)
          moreover have "future_drop (?m - length pending) (s @ bs, fin) = future_drop ?m (pending @ s @ bs, fin)"
            using m(1) by (auto simp: future_drop_def)
          ultimately show ?thesis using run IH nc(3) unfolding f'(2) by simp
        qed
      qed
    qed
  qed
qed simp

text \<open>Between reads: a stream that was started and did not fail.\<close>

definition lzw_ready :: "lzw_options \<Rightarrow> lzw \<Rightarrow> lzw_work \<Rightarrow> block_source \<Rightarrow> u8 list \<times> lzw_end \<Rightarrow> bool" where
  "lzw_ready opts z w src future \<longleftrightarrow> lz_started z \<and> lz_failed z = None \<and> lzw_inv opts z w (input_new src 0) future"

text \<open>Whether a stream is started or failed is not the business of the loop.\<close>

lemma lzw_add_entry_flags:
  "lzw_add_entry z w b = Some (z', w') \<Longrightarrow> lz_started z' = lz_started z \<and> lz_failed z' = lz_failed z"
  by (auto simp: lzw_add_entry_def Let_def bind_eq_Some_conv split: if_splits)

lemma lzw_step_flags:
  "lzw_step z w code = Some (r, z', w') \<Longrightarrow> lz_started z' = lz_started z \<and> lz_failed z' = lz_failed z"
proof (cases "lzw_walk_start z w code")
  case None
  then show "lzw_step z w code = Some (r, z', w') \<Longrightarrow> ?thesis"
    by (auto simp: lzw_step_def lzw_restart_table_def bind_eq_Some_conv split: if_splits)
next
  case (Some x)
  then show "lzw_step z w code = Some (r, z', w') \<Longrightarrow> ?thesis"
    by (cases x) (auto simp: lzw_step_def lzw_restart_table_def Let_def bind_eq_Some_conv
        split: if_splits dest!: lzw_add_entry_flags)
qed

lemma lzw_pop_flags: "lzw_pop k z w = Some (bs, z') \<Longrightarrow> lz_started z' = lz_started z \<and> lz_failed z' = lz_failed z"
  by (induction k arbitrary: z bs z') (auto simp: Let_def bind_eq_Some_conv)

lemma lzw_fill_flags:
  "lzw_fill z i = Some (r, z', i') \<Longrightarrow> lz_started z' = lz_started z \<and> lz_failed z' = lz_failed z"
proof (induction z i arbitrary: r z' i' rule: lzw_fill.induct)
  case (1 z i)
  show ?case
  proof (cases "lz_bitcnt z < lz_width z")
    case False
    then show ?thesis using "1.prems" by (simp add: lzw_fill.simps [of z i])
  next
    case True
    then show ?thesis using "1.prems" "1.IH" [OF True]
      by (auto simp: lzw_fill.simps [of z i] on_ok_def lzw_add_byte_def split: option.splits res.splits)
  qed
qed

lemma lzw_next_code_flags:
  "lzw_next_code z i = Some (r, z', i') \<Longrightarrow> lz_started z' = lz_started z \<and> lz_failed z' = lz_failed z"
  by (auto simp: lzw_next_code_def on_ok_def Let_def split: option.splits res.splits if_splits dest!: lzw_fill_flags)

lemma lzw_run_flags:
  "lzw_run fuel z w i n out = Some (r, z', w', i') \<Longrightarrow> lz_started z' = lz_started z \<and> lz_failed z' = lz_failed z"
proof (induction fuel arbitrary: z w i out)
  case (Suc fuel)
  then show ?case
    by (auto simp: bind_eq_Some_conv Let_def on_ok_def split: option.splits res.splits if_splits
        dest!: lzw_pop_flags lzw_next_code_flags lzw_step_flags)
qed simp

lemma lzw_inv_move:
  assumes "lzw_inv opts z w i future" and "input_left block_content i' = input_left block_content i" and "input_fine i'"
  shows "lzw_inv opts z w i' future"
  using assms by (auto simp: lzw_inv_def lzw_bits_def)

lemma lzw_inv_failed [simp]: "lzw_inv opts (z\<lparr>lz_failed := x\<rparr>) w i future = lzw_inv opts z w i future"
proof -
  have "lzw_rep opts (z\<lparr>lz_failed := x\<rparr>) w d p pending = lzw_rep opts z w d p pending" for d p pending
    by (cases p) (simp_all add: lzw_rep_def)
  then show ?thesis by (simp add: lzw_inv_def lzw_bits_ok_def lzw_bits_def lzw_buf_bits_def lzw_future_def)
qed

lemma lzw_read_spec:
  assumes "lzw_ready opts z w src future"
  shows "\<exists>z' w' src'. lzw_read z w src n = Some (read_result n future (sr_end src), z', w', src') \<and> sr_end src' = sr_end src \<and>
    (case read_result n future (sr_end src) of
       Ok x \<Rightarrow> lzw_ready opts z' w' src' (future_drop n future)
     | Err e \<Rightarrow> lz_started z' \<and> lz_failed z' = Some e)"
proof -
  let ?i = "input_new src 0"
  obtain d p pending where inv: "lzw_rep opts z w d p pending" "lzw_bits_ok z" "input_fine ?i"
      "future = lzw_future opts z d p pending (lzw_bits z ?i)"
    using assms by (auto simp: lzw_ready_def lzw_inv_def)
  have started: "lz_started z" "lz_failed z = None" using assms by (simp_all add: lzw_ready_def)
  have left: "input_left block_content ?i = block_content src" "in_src ?i = src" by (simp_all add: input_new_def input_left_def)
  let ?fuel = "lz_bitcnt z + 8 * length (block_content src) + 1"
  have fuel: "length (lzw_bits z ?i) < ?fuel" by (simp add: lzw_bits_def left)
  have idm: "map_res ((@) []) r = r" for r :: "(codec_error, u8 list) res" by (cases r) simp_all
  obtain z1 w1 i1 where run: "lzw_run ?fuel z w ?i n [] = Some (read_result n future (sr_end src), z1, w1, i1)"
      "input_fine i1" "sr_end (in_src i1) = sr_end src"
      "\<forall>x. read_result n future (sr_end src) = Ok x \<longrightarrow> lzw_inv opts z1 w1 i1 (future_drop n future)"
    using lzw_run_spec [OF inv(1-3), of "[]" n ?fuel] fuel unfolding idm inv(4) [symmetric] left(2) by auto
  obtain src' where drop: "input_drop block_ops i1 = Some src'" "block_content src' = input_left block_content i1"
      "sr_end src' = sr_end src"
    using bl.drop_ok [OF run(2)] run(3) by auto
  have fl: "lz_started z1" "lz_failed z1 = None" using lzw_run_flags [OF run(1)] started by simp_all
  have new: "input_fine (input_new src' 0)" "input_left block_content (input_new src' 0) = input_left block_content i1"
    using bl.new_ok [OF block_handed_le, of src' 0] drop(2) by simp_all
  show ?thesis
    using run drop started fl lzw_inv_move [OF _ new(2,1)]
    by (cases "read_result n future (sr_end src)") (auto simp: lzw_read_def lzw_ready_def)
qed

lemma lzw_start_ready:
  assumes "2 \<le> lo_literal_bits opts" and "lo_literal_bits opts \<le> 8" and "length (wk_prefix w) = MAX_CODES"
    and "length (wk_suffix w) = MAX_CODES" and "length (wk_stack w) = MAX_CODES"
  shows "\<exists>z w'. lzw_start opts w = Some (Ok (), z, w') \<and>
    lzw_ready opts z w' src (lzw_text opts [] None (stream_bits (lo_msb_first opts) (block_content src)))"
proof -
  let ?cl = "2 ^ lo_literal_bits opts :: nat"
  have cl: "?cl \<le> 256" using literals_small [OF assms(2)] .
  obtain suffix where s: "copy_at (wk_suffix w) 0 (map word_of_nat [0..<?cl]) = Some suffix" "length suffix = MAX_CODES"
    using copy_at_in_range [of 0 "map word_of_nat [0..<?cl]" "wk_suffix w"] length_copy_at [of "wk_suffix w"] cl assms(4)
    by (fastforce simp: MAX_CODES_def)
  let ?z = "(lzw_restart_table (lzw_new\<lparr>lz_literal_bits := lo_literal_bits opts, lz_msb_first := lo_msb_first opts,
      lz_early_change := lo_early_change opts, lz_clear := ?cl\<rparr>))\<lparr>lz_started := True\<rparr>"
  let ?w = "w\<lparr>wk_suffix := suffix\<rparr>"
  have start: "lzw_start opts w = Some (Ok (), ?z, ?w)" using assms(1,2) s by (simp add: lzw_start_def Let_def)
  have rep: "lzw_rep opts ?z ?w [] None []"
    using assms cl s(2) by (simp add: lzw_rep_def lzw_restart_table_def lzw_new_def clear_of_def lzw_tables_def MAX_CODES_def)
  have z: "lzw_bits_ok ?z" "lz_ended ?z = False" "lz_started ?z" "lz_failed ?z = None"
      "lzw_bits ?z (input_new src 0) = stream_bits (lo_msb_first opts) (block_content src)"
    by (simp_all add: lzw_restart_table_def lzw_new_def lzw_bits_ok_def lzw_bits_def lzw_buf_bits_def input_new_def input_left_def)
  have "lzw_future opts ?z [] None [] bits = lzw_text opts [] None bits" for bits
    using z(2) by (simp add: lzw_future_def map_prod_def split: prod.splits)
  then have "lzw_inv opts ?z ?w (input_new src 0) (lzw_text opts [] None (stream_bits (lo_msb_first opts) (block_content src)))"
    unfolding lzw_inv_def using rep z bl.new_ok [OF block_handed_le, of src 0] by metis
  then show ?thesis using start z by (simp add: lzw_ready_def)
qed

text \<open>A sequence of reads of the given sizes, up to the first that fails.\<close>

fun lzw_reads ::
  "lzw \<Rightarrow> lzw_work \<Rightarrow> block_source \<Rightarrow> nat list \<Rightarrow> ((codec_error, u8 list) res \<times> lzw \<times> lzw_work \<times> block_source) option" where
  "lzw_reads z w src [] = Some (Ok [], z, w, src)"
| "lzw_reads z w src (n # ns) = and_then (lzw_read z w src n) (\<lambda>bytes (z, w, src).
     and_then (lzw_reads z w src ns) (\<lambda>more s. Some (Ok (bytes @ more), s)))"

lemma read_result_split:
  "read_result (n + m) f e =
     (case read_result n f e of Err x \<Rightarrow> Err x | Ok a \<Rightarrow> map_res ((@) a) (read_result m (future_drop n f) e))"
  by (cases f) (auto simp: future_drop_def take_add split: lzw_end.splits option.splits)

lemma lzw_reads_spec:
  "lzw_ready opts z w src future \<Longrightarrow> \<exists>s. lzw_reads z w src ns = Some (read_result (sum_list ns) future (sr_end src), s)"
proof (induction ns arbitrary: z w src future)
  case (Cons n ns)
  obtain z' w' src' where r: "lzw_read z w src n = Some (read_result n future (sr_end src), z', w', src')"
      "sr_end src' = sr_end src" "case read_result n future (sr_end src) of
       Ok x \<Rightarrow> lzw_ready opts z' w' src' (future_drop n future) | Err e \<Rightarrow> lz_started z' \<and> lz_failed z' = Some e"
    using lzw_read_spec [OF Cons.prems, of n] by blast
  show ?case
  proof (cases "read_result n future (sr_end src)")
    case (Err e)
    then show ?thesis using r by (simp add: read_result_split del: read_result.simps)
  next
    case (Ok a)
    then obtain s where s: "lzw_reads z' w' src' ns = Some (read_result (sum_list ns) (future_drop n future) (sr_end src), s)"
      using Cons.IH [of z' w' src' "future_drop n future"] r by auto
    show ?thesis
      using r Ok s by (cases s; cases "read_result (sum_list ns) (future_drop n future) (sr_end src)")
        (simp_all add: read_result_split del: read_result.simps)
  qed
next
  case Nil
  then show ?case by (cases future) simp
qed

section \<open>Properties\<close>

definition lzw_work_zero :: lzw_work where
  "lzw_work_zero = \<lparr>wk_prefix = replicate 4096 0, wk_suffix = replicate 4096 0, wk_stack = replicate 4096 0\<rparr>"

text \<open>C19: LZW is the textbook decoder. Whatever the input is, however its source cuts it into blocks and in
  whatever pieces the output is read, no access is out of bounds, and the bytes read are those of the decoder
  with a dictionary of strings on the list of bits, in the variants of GIF and TIFF; a bad code or a failure
  of the source is reported by the read that needs what comes after it, and the end of the input ends the
  stream.\<close>

theorem lzw_is_textbook:
  assumes "2 \<le> lo_literal_bits opts" and "lo_literal_bits opts \<le> 8" and "length (wk_prefix w) = 4096"
    and "length (wk_suffix w) = 4096" and "length (wk_stack w) = 4096"
  shows "\<exists>z w' s. lzw_start opts w = Some (Ok (), z, w') \<and>
    lzw_reads z w' src ns = Some (read_result (sum_list ns)
      (lzw_text opts [] None (stream_bits (lo_msb_first opts) (concat (sr_blocks src)))) (sr_end src), s)"
proof -
  obtain z w' where "lzw_start opts w = Some (Ok (), z, w')"
      "lzw_ready opts z w' src (lzw_text opts [] None (stream_bits (lo_msb_first opts) (block_content src)))"
    using lzw_start_ready [of opts w src] assms by (auto simp: MAX_CODES_def)
  then show ?thesis using lzw_reads_spec [of opts z w' src _ ns] unfolding block_content_def by blast
qed

lemma lzw_is_textbook_witness:
  "\<exists>z w' s. lzw_start \<lparr>lo_literal_bits = 2, lo_msb_first = False, lo_early_change = False\<rparr> lzw_work_zero = Some (Ok (), z, w') \<and>
    lzw_reads z w' \<lparr>sr_blocks = [[0x0c], [0x0a]], sr_end = None\<rparr> [1, 3] = Some (Ok [1, 0], s)"
proof -
  let ?o = "\<lparr>lo_literal_bits = 2, lo_msb_first = False, lo_early_change = False\<rparr>"
  have bits: "stream_bits False [0x0c, 0x0a] = [False, False, True, True, False, False, False, False] @
      [False, True, False, True, False, False, False, False]"
    by (simp add: stream_bits_def byte_bits_def upt_conv_Cons bit_iff_odd)
  have "lzw_text ?o [] None (stream_bits False [0x0c, 0x0a]) = ([1, 0], Information_end)"
    unfolding bits by (simp add: lzw_text.simps take_code_def code_value_def lzw_string_def lzw_learn_def MAX_CODES_def Let_def)
  then show ?thesis
    using lzw_is_textbook [of ?o lzw_work_zero "\<lparr>sr_blocks = [[0x0c], [0x0a]], sr_end = None\<rparr>" "[1, 3]"]
    by (simp add: lzw_work_zero_def)
qed

text \<open>An LZW error stays: after a read failed, every later read fails with the same error, until the
  next start; a stream that was not started does not read.\<close>

theorem lzw_error_stays:
  "case lzw_read z w src n of
     Some (Err e, z', w', src') \<Rightarrow> lzw_read z' w' src'' m = Some (Err e, z', w', src'')
   | _ \<Rightarrow> True"
  by (auto simp: lzw_read_def bind_eq_Some_conv simp del: lzw_run.simps split: option.splits res.splits if_splits
      dest: lzw_run_flags)

end
