(* ===== verification/Gif_Decoder.thy ===== *)
theory Gif_Decoder
  imports Image_Open Lzw
begin

text \<open>
  The first frame of a GIF, \<open>libs/devkit_image/src/gif.rs\<close>: opening a stream (the screen, the extensions before
  the frame with its transparent colour, the frame and its palette), reading the rows of indices from the
  LZW decoder in the order they are stored, and drawing them on a white canvas. The \<open>BlockSource\<close> over the
  reader is held as the blocks that it hands out, as in \<open>Png_Decoder\<close>. The lines of an interlaced frame
  are shown to be each read into its place, once.
\<close>

section \<open>The decoder\<close>

text \<open>Palette entries are three bytes, of which the first \<open>gf_bytes\<close> hold the colour in the row format.\<close>

record gif =
  gf_src :: block_source
  gf_lzw :: lzw
  gf_work :: lzw_work
  gf_palette :: "u8 list list"
  gf_palette_count :: nat
  gf_transparent :: "u8 option"
  gf_format :: image_format
  gf_bytes :: nat
  gf_white :: "u8 list"
  gf_width :: nat
  gf_height :: nat
  gf_left :: nat
  gf_top :: nat
  gf_frame_w :: nat
  gf_frame_h :: nat
  gf_interlaced :: bool
  gf_row :: nat
  gf_indices :: "u8 list option"

subsection \<open>Opening\<close>

function skip_blocks :: "reader \<Rightarrow> bool \<times> reader" where
  "skip_blocks r =
     (case reader_byte r of
        (None, r) \<Rightarrow> (False, r)
      | (Some len, r1) \<Rightarrow>
          if len = 0 then (True, r1)
          else case reader_skip r1 (unat len) of (ok, r2) \<Rightarrow> if \<not> ok then (False, r2) else skip_blocks r2)"
  by pat_completeness auto
termination
proof (relation "measure reader_left")
  fix r x b r1 len y ok r2
  assume "(b, r1) = reader_byte r" "b = Some len" "(ok, r2) = reader_skip r1 (unat len)"
  then show "(r2, r) \<in> measure reader_left"
    using reader_byte_left [of r len r1] skip_left [of r1 "unat len" ok r2] by simp
qed simp

declare skip_blocks.simps [simp del]

definition le16 :: "u8 list \<Rightarrow> nat \<Rightarrow> nat" where
  "le16 p i = unat (le16_at p i)"

text \<open>\<open>read_palette\<close>: the entries replace the first ones; their number follows from the flags.\<close>

definition read_palette :: "reader \<Rightarrow> u8 list list \<Rightarrow> u8 \<Rightarrow> (image_error, u8 list list \<times> nat \<times> reader) res" where
  "read_palette r palette flags =
     (let entries = 2 * 2 ^ unat (flags AND 7) in
      bind_res (read_entries r entries) (\<lambda>(es, r). Ok (es @ drop entries palette, entries, r)))"

lemma skip_blocks_left: "skip_blocks r = (ok, r') \<Longrightarrow> ok \<Longrightarrow> reader_left r' \<le> reader_left r"
proof (induction r arbitrary: ok r' rule: skip_blocks.induct)
  case (1 r)
  obtain b r1 where b: "reader_byte r = (b, r1)" by fastforce
  show ?case
  proof (cases b)
    case None
    then show ?thesis using "1.prems" b by (simp add: skip_blocks.simps [of r])
  next
    case (Some len)
    obtain o2 r2 where s: "reader_skip r1 (unat len) = (o2, r2)" by fastforce
    have less: "reader_left r1 < reader_left r" "reader_left r2 \<le> reader_left r1"
      using b Some reader_byte_left skip_left [OF s] by blast+
    show ?thesis
    proof (cases "len = 0 \<or> \<not> o2")
      case True
      then have "skip_blocks r = (len = 0, if len = 0 then r1 else r2)" using b Some s True by (subst skip_blocks.simps) auto
      then show ?thesis using "1.prems" less True by (simp split: if_splits)
    next
      case False
      then have "skip_blocks r = skip_blocks r2" using b Some s by (subst skip_blocks.simps) simp
      then have "skip_blocks r2 = (ok, r')" using "1.prems"(1) by simp
      then have "reader_left r' \<le> reader_left r2" using "1.IH" [OF b [symmetric] Some _ s [symmetric]] False "1.prems"(2) by blast
      then show ?thesis using less by simp
    qed
  qed
qed

text \<open>One extension, after its tag; and the loop over them up to the frame.\<close>

definition gif_transparent_of :: "u8 option \<Rightarrow> u8 \<Rightarrow> reader \<Rightarrow> (image_error, u8 option \<times> reader) res" where
  "gif_transparent_of transparent label r =
     (if label = 0xF9 then
        bind_res (byte_or r) (\<lambda>(len, r). bind_res (read_or r (unat len)) (\<lambda>(gce, r).
          Ok (if 4 \<le> len \<and> gce ! 0 AND 1 \<noteq> 0 then Some (gce ! 3) else None, r)))
      else Ok (transparent, r))"

definition gif_extension :: "u8 option \<Rightarrow> reader \<Rightarrow> (image_error, u8 option \<times> reader) res" where
  "gif_extension transparent r =
     bind_res (byte_or r) (\<lambda>(label, r).
     bind_res (gif_transparent_of transparent label r) (\<lambda>(transparent, r).
     case skip_blocks r of (ok, r) \<Rightarrow> if ok then Ok (transparent, r) else Err ImgTruncated))"

lemma gif_transparent_left: "gif_transparent_of t label r = Ok (t', r') \<Longrightarrow> reader_left r' \<le> reader_left r"
proof (cases "label = 0xF9")
  case True
  assume "gif_transparent_of t label r = Ok (t', r')"
  then obtain len r1 gce where "byte_or r = Ok (len, r1)" "read_or r1 (unat len) = Ok (gce, r')"
    using True by (auto simp: gif_transparent_of_def bind_res_Ok)
  then show ?thesis using byte_or_left [of r len r1] read_or_left [of r1 "unat len" gce r'] by simp
qed (simp add: gif_transparent_of_def)

lemma gif_extension_left:
  assumes "gif_extension t r = Ok (t', r')"
  shows "reader_left r' \<le> reader_left r"
proof -
  obtain label r1 t2 r2 where r: "byte_or r = Ok (label, r1)" "gif_transparent_of t label r1 = Ok (t2, r2)"
      "(case skip_blocks r2 of (ok, r) \<Rightarrow> if ok then Ok (t2, r) else Err ImgTruncated) = Ok (t', r')"
    using assms unfolding gif_extension_def by (elim bind_res_OkE) (auto elim!: bind_res_OkE)
  obtain ok r3 where s: "skip_blocks r2 = (ok, r3)" by fastforce
  then have "ok" "r3 = r'" using r(3) by (auto split: if_splits)
  then show ?thesis using skip_blocks_left [OF s] byte_or_left [OF r(1)] gif_transparent_left [OF r(2)] by simp
qed

function gif_extensions :: "u8 option \<Rightarrow> reader \<Rightarrow> (image_error, u8 option \<times> reader) res" where
  "gif_extensions transparent r =
     bind_res (byte_or r) (\<lambda>(tag, r).
     if tag = 0x2C then Ok (transparent, r)
     else if tag \<noteq> 0x21 then Err ImgDecode
     else bind_res (gif_extension transparent r) (\<lambda>(transparent, r). gif_extensions transparent r))"
  by pat_completeness auto
termination by (relation "measure (\<lambda>(t, r). reader_left r)") (auto dest!: byte_or_left gif_extension_left)

declare gif_extensions.simps [simp del]

definition gif_gray :: "u8 list list" where
  "gif_gray = map (\<lambda>i. [word_of_nat i, word_of_nat i, word_of_nat i]) [0..<256]"

definition gif_screen :: "(nat \<Rightarrow> bool) \<Rightarrow> reader \<Rightarrow> (image_error, nat \<times> nat \<times> u8 list list \<times> nat \<times> reader) res" where
  "gif_screen mem r =
     bind_res (read_or r 13) (\<lambda>(hdr, r).
     if take 6 hdr \<noteq> [0x47, 0x49, 0x46, 0x38, 0x37, 0x61] \<and> take 6 hdr \<noteq> [0x47, 0x49, 0x46, 0x38, 0x39, 0x61] then Err ImgDecode
     else bind_res (alloc mem 2) (\<lambda>_. bind_res (if hdr ! 10 AND 0x80 \<noteq> 0 then read_palette r (replicate 256 [0, 0, 0]) (hdr ! 10)
                    else Ok (replicate 256 [0, 0, 0], 0, r)) (\<lambda>(palette, entries, r).
     Ok (le16 hdr 6, le16 hdr 8, palette, entries, r))))"

text \<open>The record of the frame, its palette and the width of the literals.\<close>

definition gif_frame ::
  "u8 list list \<Rightarrow> nat \<Rightarrow> reader \<Rightarrow> (image_error, u8 list \<times> u8 list list \<times> nat \<times> reader) res" where
  "gif_frame palette entries r =
     bind_res (read_or r 9) (\<lambda>(desc, r).
     bind_res (if desc ! 8 AND 0x80 \<noteq> 0 then read_palette r palette (desc ! 8) else Ok (palette, entries, r)) (\<lambda>(palette, entries, r).
     Ok (if entries = 0 then (desc, gif_gray, 256, r) else (desc, palette, entries, r))))"

text \<open>The palette in the row format.\<close>

definition gif_colours :: "image_format \<Rightarrow> nat \<Rightarrow> u8 list list \<Rightarrow> u8 list list" where
  "gif_colours f n palette = map (\<lambda>e. store_rgb f (e ! 0) (e ! 1) (e ! 2) @ drop n e) palette"

text \<open>The decoder of a canvas of \<open>w\<close> by \<open>h\<close>, once the width of the literals is read.\<close>

definition gif_build ::
  "(nat \<Rightarrow> bool) \<Rightarrow> decode_options \<Rightarrow> nat \<Rightarrow> nat \<Rightarrow> u8 option \<Rightarrow> u8 list \<Rightarrow> u8 list list \<Rightarrow> nat \<Rightarrow> u8 \<Rightarrow> reader \<Rightarrow> (image_error, gif) res option" where
  "gif_build mem options w h transparent desc palette entries min_bits r =
     on_res (out_format Rgb888 (do_format options)) (\<lambda>f. do {
       n \<leftarrow> store_bytes f;
       let white = store_rgb f 255 255 255 @ drop n [0, 0, 0];
       on_res (alloc mem 3) (\<lambda>_. on_res (alloc mem 4) (\<lambda>_. do {
         (result, z, work) \<leftarrow> lzw_start \<lparr>lo_literal_bits = unat min_bits, lo_msb_first = False, lo_early_change = False\<rparr> lzw_work_zero;
         (case result of
            Err _ \<Rightarrow> Some (Err ImgDecode)
          | Ok _ \<Rightarrow> on_res (alloc mem 5) (\<lambda>_. on_res (alloc mem 6) (\<lambda>_. Some (Ok
              \<lparr>gf_src = as_blocks gif_pull (\<lambda>s. reader_left (gb_r s)) (buffered_new \<lparr>gb_r = r, gb_done = False\<rparr>),
               gf_lzw = z, gf_work = work, gf_palette = gif_colours f n palette, gf_palette_count = entries,
               gf_transparent = transparent, gf_format = f, gf_bytes = format_row_bytes f 1, gf_white = white,
               gf_width = w, gf_height = h, gf_left = le16 desc 0, gf_top = le16 desc 2, gf_frame_w = le16 desc 4,
               gf_frame_h = le16 desc 6, gf_interlaced = (desc ! 8 AND 0x40 \<noteq> 0), gf_row = 0, gf_indices = None\<rparr>))))
       }))
     })"

definition gif_start ::
  "(nat \<Rightarrow> bool) \<Rightarrow> decode_options \<Rightarrow> nat \<Rightarrow> nat \<Rightarrow> u8 option \<Rightarrow> u8 list \<Rightarrow> u8 list list \<Rightarrow> nat \<Rightarrow> reader \<Rightarrow> (image_error, gif) res option" where
  "gif_start mem options w h transparent desc palette entries r =
     (let w = max w (le16 desc 0 + le16 desc 4); h = max h (le16 desc 2 + le16 desc 6) in
      if w = 0 \<or> h = 0 then Some (Err ImgDecode)
      else if 0xFFFF < w \<or> 0xFFFF < h then Some (Err ImgTooLarge)
      else on_res (byte_or r) (\<lambda>(min_bits, r).
        if \<not> (2 \<le> min_bits \<and> min_bits \<le> 8) then Some (Err ImgDecode)
        else gif_build mem options w h transparent desc palette entries min_bits r))"

definition gif_open :: "(nat \<Rightarrow> bool) \<Rightarrow> stream \<Rightarrow> decode_options \<Rightarrow> (image_error, gif) res option" where
  "gif_open mem src options =
     on_res (alloc mem 0) (\<lambda>_. on_res (alloc mem 1) (\<lambda>_.
     on_res (gif_screen mem (reader_new src)) (\<lambda>(w, h, palette, entries, r).
     on_res (gif_extensions None r) (\<lambda>(transparent, r).
     on_res (gif_frame palette entries r) (\<lambda>(desc, palette, entries, r).
     gif_start mem options w h transparent desc palette entries r)))))"

subsection \<open>Rows\<close>

definition gif_lzw_error :: "codec_error \<Rightarrow> image_error" where
  "gif_lzw_error e = (if e = Corrupt then ImgDecode else ImgTruncated)"

text \<open>\<open>read_frame_row\<close>: one line of \<open>n\<close> indices.\<close>

definition gif_line :: "gif \<Rightarrow> nat \<Rightarrow> ((image_error, u8 list) res \<times> gif) option" where
  "gif_line d n = do {
     (result, z, work, src) \<leftarrow> lzw_read (gf_lzw d) (gf_work d) (gf_src d) n;
     let d = d\<lparr>gf_lzw := z, gf_work := work, gf_src := src\<rparr>;
     Some (case result of
         Err e \<Rightarrow> Err (gif_lzw_error e)
       | Ok line \<Rightarrow> if length line = n then Ok line else Err ImgTruncated, d)
   }"

text \<open>\<open>(start..h).step_by(step)\<close>, and the lines of an interlaced frame in the order they are stored.\<close>

definition step_by :: "nat \<Rightarrow> nat \<Rightarrow> nat \<Rightarrow> nat list" where
  "step_by start h step = map (\<lambda>k. start + k * step) [0..<div_ceil (h - start) step]"

definition interlace_order :: "nat \<Rightarrow> nat list" where
  "interlace_order h = concat (map (\<lambda>(start, step). step_by start h step) [(0, 8), (4, 8), (2, 4), (1, 2)])"

fun gif_lines :: "nat \<Rightarrow> nat list \<Rightarrow> gif \<Rightarrow> u8 list \<Rightarrow> ((image_error, u8 list) res \<times> gif) option" where
  "gif_lines w [] d indices = Some (Ok indices, d)"
| "gif_lines w (y # ys) d indices =
     and_then (gif_line d w) (\<lambda>line d. do {
       indices \<leftarrow> copy_at indices (y * w) line;
       gif_lines w ys d indices
     })"

definition expand_interlaced :: "bool \<Rightarrow> gif \<Rightarrow> ((image_error, unit) res \<times> gif) option" where
  "expand_interlaced room d =
     (if \<not> room then Some (Err ImgOutOfMemory, d)
      else and_then (gif_lines (gf_frame_w d) (interlace_order (gf_frame_h d)) d (replicate (gf_frame_w d * gf_frame_h d) 0))
        (\<lambda>indices d. Some (Ok (), d\<lparr>gf_indices := Some indices\<rparr>)))"

text \<open>The line of the frame that row \<open>y\<close> shows.\<close>

definition gif_row_line :: "bool \<Rightarrow> gif \<Rightarrow> nat \<Rightarrow> ((image_error, u8 list) res \<times> gif) option" where
  "gif_row_line room d fy =
     (let w = gf_frame_w d in
      if gf_interlaced d then
        and_then (if gf_indices d = None then expand_interlaced room d else Some (Ok (), d)) (\<lambda>_ d. do {
          indices \<leftarrow> gf_indices d;
          line \<leftarrow> slice indices (fy * w) ((fy + 1) * w);
          Some (Ok line, d)
        })
      else gif_line d w)"

definition gif_pixel :: "gif \<Rightarrow> u8 list \<Rightarrow> u8 \<Rightarrow> u8 list" where
  "gif_pixel d old i =
     (if Some i = gf_transparent d then old
      else take (gf_bytes d) (gf_palette d ! (if gf_palette_count d \<le> unat i then 0 else unat i)))"

definition gif_draw :: "gif \<Rightarrow> u8 list \<Rightarrow> u8 list \<Rightarrow> u8 list option" where
  "gif_draw d dst line = do {
     let n = gf_bytes d;
     part \<leftarrow> slice dst (gf_left d * n) (length dst);
     copy_at dst (gf_left d * n) (put_chunks n part (map2 (gif_pixel d) (chunks_exact n part) line))
   }"

definition gif_next_row :: "bool \<Rightarrow> gif \<Rightarrow> u8 list \<Rightarrow> ((image_error, bool) res \<times> u8 list \<times> gif) option" where
  "gif_next_row room d dst =
     (if length dst < format_row_bytes (gf_format d) (gf_width d) then Some (Err ImgInvalidArgument, dst, d)
      else if gf_height d \<le> gf_row d then Some (Ok False, dst, d)
      else do {
        let y = gf_row d;
        let n = gf_bytes d;
        row \<leftarrow> slice dst 0 (gf_width d * n);
        dst \<leftarrow> copy_at dst 0 (put_chunks n row (map (\<lambda>_. take n (gf_white d)) (chunks_exact n row)));
        (if gf_top d \<le> y \<and> y < gf_top d + gf_frame_h d then do {
           (result, d) \<leftarrow> gif_row_line room d (y - gf_top d);
           (case result of
              Err e \<Rightarrow> Some (Err e, dst, d)
            | Ok line \<Rightarrow> do { dst \<leftarrow> gif_draw d dst line; Some (Ok True, dst, d\<lparr>gf_row := gf_row d + 1\<rparr>) })
         }
         else Some (Ok True, dst, d\<lparr>gf_row := gf_row d + 1\<rparr>))
      })"

section \<open>The order of an interlaced frame\<close>

lemma less_div_ceil:
  assumes "0 < k"
  shows "i < div_ceil n k \<longleftrightarrow> i * k < n"
proof -
  have "i < div_ceil n k \<longleftrightarrow> Suc i \<le> (n + k - 1) div k" by (simp add: div_ceil_def Suc_le_eq)
  also have "\<dots> \<longleftrightarrow> Suc i * k \<le> n + k - 1" by (rule less_eq_div_iff_mult_less_eq) (rule assms)
  also have "\<dots> \<longleftrightarrow> i * k + k \<le> n + k - 1" by (simp add: add.commute)
  also have "\<dots> \<longleftrightarrow> i * k < n" using assms by linarith
  finally show ?thesis .
qed

lemma set_step_by:
  assumes "0 < k"
  shows "y \<in> set (step_by start h k) \<longleftrightarrow> (\<exists>i. y = start + i * k) \<and> y < h"
proof -
  have "i < div_ceil (h - start) k \<longleftrightarrow> start + i * k < h" for i using less_div_ceil [OF assms, of i "h - start"] by linarith
  then show ?thesis unfolding step_by_def set_map set_upt image_iff by (metis atLeastLessThan_iff le0)
qed

lemma distinct_step_by: "0 < k \<Longrightarrow> distinct (step_by start h k)"
  by (simp add: step_by_def distinct_map inj_on_def)

lemma step_by_mod: "a < k \<Longrightarrow> set (step_by a h k) = {y. y < h \<and> y mod k = a}"
proof (rule set_eqI)
  fix y assume a: "a < k"
  have "(\<exists>i. y = a + i * k) \<longleftrightarrow> y mod k = a"
  proof
    assume "y mod k = a"
    then show "\<exists>i. y = a + i * k" using div_mult_mod_eq [of y k] by (intro exI [of _ "y div k"]) simp
  qed (use a in auto)
  then show "y \<in> set (step_by a h k) \<longleftrightarrow> y \<in> {y. y < h \<and> y mod k = a}" using a by (simp add: set_step_by conj_commute)
qed

lemma interlace_order_all: "distinct (interlace_order h) \<and> set (interlace_order h) = {..<h}"
proof -
  have s: "set (step_by 0 h 8) = {y. y < h \<and> y mod 8 = 0}" "set (step_by 4 h 8) = {y. y < h \<and> y mod 8 = 4}"
    "set (step_by 2 h 4) = {y. y < h \<and> y mod 4 = 2}" "set (step_by 1 h 2) = {y. y < h \<and> y mod 2 = 1}"
    using step_by_mod [of 1 2 h] by (simp_all add: step_by_mod)
  have eq: "interlace_order h = step_by 0 h 8 @ step_by 4 h 8 @ step_by 2 h 4 @ step_by 1 h 2"
    by (simp add: interlace_order_def)
  have apart: "\<not> (y mod 8 = 0 \<and> y mod 8 = (4::nat))" "\<not> (y mod 8 = 0 \<and> y mod 4 = (2::nat))" "\<not> (y mod 8 = 4 \<and> y mod 4 = (2::nat))"
    "\<not> (y mod 8 = 0 \<and> y mod 2 = (1::nat))" "\<not> (y mod 8 = 4 \<and> y mod 2 = (1::nat))" "\<not> (y mod 4 = 2 \<and> y mod 2 = (1::nat))" for y :: nat
    by presburger+
  have "distinct (interlace_order h)" unfolding eq distinct_append set_append s
    using distinct_step_by [of 8 0 h] distinct_step_by [of 8 4 h] distinct_step_by [of 4 2 h] distinct_step_by [of 2 1 h] apart
    by (auto simp: disjoint_iff)
  moreover have "y mod 8 = 0 \<or> y mod 8 = 4 \<or> y mod 4 = 2 \<or> y mod 2 = 1" for y :: nat by presburger
  then have "y \<in> set (interlace_order h) \<longleftrightarrow> y < h" for y unfolding eq set_append s by blast
  ultimately show ?thesis by auto
qed

lemma length_interlace_order [simp]: "length (interlace_order h) = h"
  using distinct_card [of "interlace_order h"] interlace_order_all [of h] by simp

section \<open>Lines\<close>

text \<open>A decoder of lines that is ready to give the text, or failed.\<close>

definition lines_ok :: "gif \<Rightarrow> bool" where
  "lines_ok d \<longleftrightarrow> lz_started (gf_lzw d) \<and> (lz_failed (gf_lzw d) \<noteq> None \<or> (\<exists>opts future. lzw_ready opts (gf_lzw d) (gf_work d) (gf_src d) future))"

text \<open>What a call of the row functions may change.\<close>

definition same_gif :: "gif \<Rightarrow> gif \<Rightarrow> bool" where
  "same_gif d d' \<longleftrightarrow> (\<exists>z w s i. d' = d\<lparr>gf_lzw := z, gf_work := w, gf_src := s, gf_indices := i\<rparr>)"

lemma same_gif_refl [simp]: "same_gif d d"
  unfolding same_gif_def by (intro exI [of _ "gf_lzw d"] exI [of _ "gf_work d"] exI [of _ "gf_src d"] exI [of _ "gf_indices d"]) simp

lemma same_gif_trans: "same_gif a b \<Longrightarrow> same_gif b c \<Longrightarrow> same_gif a c"
  unfolding same_gif_def by (elim exE) (intro exI, simp)

lemma gif_line_total:
  assumes "lines_ok d"
  shows "\<exists>r d'. gif_line d n = Some (r, d') \<and> lines_ok d' \<and> same_gif d d' \<and> gf_indices d' = gf_indices d \<and> (\<forall>l. r = Ok l \<longrightarrow> length l = n)"
proof -
  have same: "same_gif d (d\<lparr>gf_lzw := z, gf_work := w, gf_src := s\<rparr>)" for z w s
    unfolding same_gif_def by (intro exI [of _ z] exI [of _ w] exI [of _ s] exI [of _ "gf_indices d"]) simp
  show ?thesis
  proof (cases "lz_failed (gf_lzw d)")
    case (Some e)
    then have "lzw_read (gf_lzw d) (gf_work d) (gf_src d) n = Some (Err e, gf_lzw d, gf_work d, gf_src d)"
      using assms by (simp add: lzw_read_def lines_ok_def)
    then show ?thesis using assms by (simp add: gif_line_def)
  next
    case None
    then obtain opts future where "lzw_ready opts (gf_lzw d) (gf_work d) (gf_src d) future" using assms by (auto simp: lines_ok_def)
    from lzw_read_spec [OF this, of n] obtain r z w s where
        step: "lzw_read (gf_lzw d) (gf_work d) (gf_src d) n = Some (r, z, w, s)"
        "case r of Ok x \<Rightarrow> lzw_ready opts z w s (future_drop n future) | Err e \<Rightarrow> lz_started z \<and> lz_failed z = Some e" by blast
    show ?thesis
    proof (cases r)
      case (Ok x)
      then have "lzw_ready opts z w s (future_drop n future)" using step(2) by simp
      moreover from this have "lz_started z" by (simp add: lzw_ready_def)
      ultimately have "lines_ok (d\<lparr>gf_lzw := z, gf_work := w, gf_src := s\<rparr>)" unfolding lines_ok_def by (cases "future_drop n future") auto
      then show ?thesis using step(1) Ok same by (simp add: gif_line_def Let_def)
    next
      case (Err e)
      then have "lines_ok (d\<lparr>gf_lzw := z, gf_work := w, gf_src := s\<rparr>)" using step(2) unfolding lines_ok_def by simp
      then show ?thesis using step(1) Err same by (simp add: gif_line_def Let_def)
    qed
  qed
qed

text \<open>A line is the next \<open>n\<close> bytes of the text.\<close>

lemma gif_line_text:
  assumes "lzw_ready opts (gf_lzw d) (gf_work d) (gf_src d) (out, fin)" "n \<le> length out"
  shows "\<exists>d'. gif_line d n = Some (Ok (take n out), d') \<and> lzw_ready opts (gf_lzw d') (gf_work d') (gf_src d') (drop n out, fin) \<and> same_gif d d'"
proof -
  from lzw_read_spec [OF assms(1), of n] assms(2) obtain z w s where
      "lzw_read (gf_lzw d) (gf_work d) (gf_src d) n = Some (Ok (take n out), z, w, s)" "lzw_ready opts z w s (drop n out, fin)"
    by (auto simp: future_drop_def)
  moreover have "same_gif d (d\<lparr>gf_lzw := z, gf_work := w, gf_src := s\<rparr>)"
    unfolding same_gif_def by (intro exI [of _ z] exI [of _ w] exI [of _ s] exI [of _ "gf_indices d"]) simp
  ultimately show ?thesis using assms(2) by (simp add: gif_line_def Let_def min_def)
qed

lemma gif_lines_total:
  "lines_ok d \<Longrightarrow> length indices = w * h \<Longrightarrow> \<forall>y \<in> set ys. y < h \<Longrightarrow>
   \<exists>r d'. gif_lines w ys d indices = Some (r, d') \<and> lines_ok d' \<and> same_gif d d' \<and> gf_indices d' = gf_indices d \<and>
     (\<forall>l. r = Ok l \<longrightarrow> length l = w * h)"
proof (induction ys arbitrary: d indices)
  case (Cons y ys)
  obtain r d1 where r: "gif_line d w = Some (r, d1)" "lines_ok d1" "same_gif d d1" "gf_indices d1 = gf_indices d" "\<forall>l. r = Ok l \<longrightarrow> length l = w"
    using gif_line_total [OF Cons.prems(1)] by blast
  show ?case
  proof (cases r)
    case (Err e)
    then show ?thesis using r by simp
  next
    case (Ok line)
    have "Suc y * w \<le> h * w" using Cons.prems(3) by (intro mult_le_mono1) (simp add: Suc_le_eq)
    then have fits: "y * w + length line \<le> length indices" using Ok r(5) Cons.prems(2) by (simp add: mult.commute)
    obtain idx where idx: "copy_at indices (y * w) line = Some idx" using copy_at_in_range [OF fits] by blast
    then have "length idx = w * h" using length_copy_at [OF idx] Cons.prems(2) by simp
    then obtain q d2 where "gif_lines w ys d1 idx = Some (q, d2)" "lines_ok d2" "same_gif d1 d2" "gf_indices d2 = gf_indices d1"
        "\<forall>l. q = Ok l \<longrightarrow> length l = w * h"
      using Cons.IH [OF r(2), of idx] Cons.prems(3) by auto
    then show ?thesis using r Ok idx same_gif_trans [of d d1 d2] by simp
  qed
qed simp

abbreviation row_of :: "nat \<Rightarrow> 'a list \<Rightarrow> nat \<Rightarrow> 'a list" where
  "row_of w xs y \<equiv> take w (drop (y * w) xs)"

lemma row_of_copy:
  assumes "length xs = w * h" "y < h" "z < h" "length line = w" "copy_at xs (y * w) line = Some ys"
  shows "row_of w ys z = (if z = y then line else row_of w xs z)"
proof -
  have ys: "ys = take (y * w) xs @ line @ drop (y * w + w) xs" using assms(4,5) by (auto simp: copy_at_def split: if_splits)
  have "Suc y * w \<le> h * w" using assms(2) by (intro mult_le_mono1) simp
  then have len: "y * w + w \<le> length xs" using assms(1) by (simp add: mult.commute)
  consider "z = y" | "z < y" | "y < z" by linarith
  then show ?thesis
  proof cases
    case 1
    then show ?thesis using ys len assms(4) by simp
  next
    case 2
    then have "Suc z * w \<le> y * w" by (intro mult_le_mono1) simp
    then have "z * w + w \<le> y * w" by simp
    moreover have "row_of w (take (y * w) xs @ line @ drop (y * w + w) xs) z = row_of w (take (y * w) xs) z"
      using calculation len by simp
    ultimately show ?thesis using 2 ys len by (simp add: drop_take min_absorb1)
  next
    case 3
    then have "Suc y * w \<le> z * w" by (intro mult_le_mono1) simp
    then have "y * w + w \<le> z * w" by simp
    then obtain k where "z * w = y * w + w + k" using le_Suc_ex by blast
    then show ?thesis using 3 ys len assms(4) by (simp add: add_ac)
  qed
qed

lemma gif_lines_text:
  "lzw_ready opts (gf_lzw d) (gf_work d) (gf_src d) (out, fin) \<Longrightarrow> length indices = w * h \<Longrightarrow> \<forall>y \<in> set ys. y < h \<Longrightarrow> distinct ys \<Longrightarrow>
   length ys * w \<le> length out \<Longrightarrow>
   \<exists>idx d'. gif_lines w ys d indices = Some (Ok idx, d') \<and> same_gif d d' \<and> length idx = w * h \<and>
     (\<forall>i < length ys. row_of w idx (ys ! i) = row_of w out i) \<and> (\<forall>y < h. y \<notin> set ys \<longrightarrow> row_of w idx y = row_of w indices y)"
proof (induction ys arbitrary: d indices out)
  case (Cons y ys)
  have y: "y < h" "y \<notin> set ys" "w \<le> length out" "\<forall>y \<in> set ys. y < h" "distinct ys" using Cons.prems(3,4,5) by simp_all
  obtain d1 where d1: "gif_line d w = Some (Ok (take w out), d1)" "lzw_ready opts (gf_lzw d1) (gf_work d1) (gf_src d1) (drop w out, fin)"
      "same_gif d d1"
    using gif_line_text [OF Cons.prems(1) y(3)] by blast
  have "Suc y * w \<le> h * w" using y(1) by (intro mult_le_mono1) simp
  then have "y * w + length (take w out) \<le> length indices" using Cons.prems(2) by (simp add: mult.commute)
  then obtain mid where mid: "copy_at indices (y * w) (take w out) = Some mid" using copy_at_in_range by blast
  have len: "length mid = w * h" using length_copy_at [OF mid] Cons.prems(2) by simp
  have row: "row_of w mid z = (if z = y then take w out else row_of w indices z)" if "z < h" for z
    by (rule row_of_copy [OF Cons.prems(2) y(1) that _ mid]) (use y(3) in simp)
  have "length ys * w \<le> length (drop w out)" using Cons.prems(5) by simp
  then obtain idx d2 where d2: "gif_lines w ys d1 mid = Some (Ok idx, d2)" "same_gif d1 d2" "length idx = w * h"
      "\<forall>i < length ys. row_of w idx (ys ! i) = row_of w (drop w out) i" "\<forall>z < h. z \<notin> set ys \<longrightarrow> row_of w idx z = row_of w mid z"
    using Cons.IH [OF d1(2) len y(4,5)] by blast
  have "row_of w idx ((y # ys) ! i) = row_of w out i" if "i < length (y # ys)" for i
    using that d2(4,5) row y by (cases i) (simp_all add: add.commute)
  moreover have "row_of w idx z = row_of w indices z" if "z < h" "z \<notin> set (y # ys)" for z
    using that d2(5) row by simp
  ultimately show ?case using d1(1,3) mid d2(1,2,3) same_gif_trans [of d d1 d2] by auto
qed simp

text \<open>Where the line that row \<open>y\<close> shows is stored.\<close>

definition stored_at :: "nat \<Rightarrow> nat \<Rightarrow> nat" where
  "stored_at h y =
     (if y mod 8 = 0 then y div 8
      else if y mod 8 = 4 then div_ceil h 8 + y div 8
      else if y mod 4 = 2 then div_ceil h 8 + div_ceil (h - 4) 8 + y div 4
      else div_ceil h 8 + div_ceil (h - 4) 8 + div_ceil (h - 2) 4 + y div 2)"

lemma length_step_by [simp]: "length (step_by a h k) = div_ceil (h - a) k"
  by (simp add: step_by_def)

lemma nth_step_by: "a < k \<Longrightarrow> y < h \<Longrightarrow> y mod k = a \<Longrightarrow> y div k < div_ceil (h - a) k \<and> step_by a h k ! (y div k) = y"
proof -
  assume y: "a < k" "y < h" "y mod k = a"
  have split: "a + y div k * k = y" using y(3) by (metis add.commute div_mult_mod_eq)
  then have "y div k * k < h - a" using y(2) by linarith
  then have "y div k < div_ceil (h - a) k" using less_div_ceil [of k "y div k" "h - a"] y(1) by simp
  then show ?thesis using split by (simp add: step_by_def)
qed

lemma nth_interlace_order:
  assumes "y < h"
  shows "stored_at h y < h" "interlace_order h ! stored_at h y = y"
proof -
  have eq: "interlace_order h = step_by 0 h 8 @ step_by 4 h 8 @ step_by 2 h 4 @ step_by 1 h 2"
    by (simp add: interlace_order_def)
  have sum: "div_ceil h 8 + (div_ceil (h - 4) 8 + (div_ceil (h - 2) 4 + div_ceil (h - 1) 2)) = h"
    using length_interlace_order [of h] unfolding eq by simp
  have "y mod 8 = 0 \<or> y mod 8 = 4 \<or> y mod 4 = 2 \<or> y mod 2 = 1" by presburger
  then consider "y mod 8 = 0" | "y mod 8 = 4" | "y mod 4 = 2" "y mod 8 \<noteq> 0" "y mod 8 \<noteq> 4" | "y mod 2 = 1" "y mod 8 \<noteq> 0" "y mod 8 \<noteq> 4" "y mod 4 \<noteq> 2"
    by metis
  then have "stored_at h y < h \<and> interlace_order h ! stored_at h y = y"
  proof cases
    case 1
    then show ?thesis using nth_step_by [of 0 8 y h] assms sum by (simp add: stored_at_def eq nth_append)
  next
    case 2
    then show ?thesis using nth_step_by [of 4 8 y h] assms sum by (simp add: stored_at_def eq nth_append)
  next
    case 3
    then show ?thesis using nth_step_by [of 2 4 y h] assms sum by (simp add: stored_at_def eq nth_append add.assoc)
  next
    case 4
    then show ?thesis using nth_step_by [of 1 2 y h] assms sum by (simp add: stored_at_def eq nth_append add.assoc)
  qed
  then show "stored_at h y < h" "interlace_order h ! stored_at h y = y" by simp_all
qed

text \<open>Expanding an interlaced frame puts each stored line into its row.\<close>

lemma expand_interlaced_text:
  assumes "lzw_ready opts (gf_lzw d) (gf_work d) (gf_src d) (out, fin)" "gf_frame_w d * gf_frame_h d \<le> length out"
  shows "\<exists>idx d'. expand_interlaced True d = Some (Ok (), d'\<lparr>gf_indices := Some idx\<rparr>) \<and> same_gif d d' \<and>
    length idx = gf_frame_w d * gf_frame_h d \<and>
    (\<forall>y < gf_frame_h d. row_of (gf_frame_w d) idx y = row_of (gf_frame_w d) out (stored_at (gf_frame_h d) y))"
proof -
  let ?w = "gf_frame_w d" and ?h = "gf_frame_h d"
  have "\<forall>y \<in> set (interlace_order ?h). y < ?h" "distinct (interlace_order ?h)" "length (interlace_order ?h) * ?w \<le> length out"
    using interlace_order_all [of ?h] assms(2) by (simp_all add: mult.commute)
  then obtain idx d' where idx: "gif_lines ?w (interlace_order ?h) d (replicate (?w * ?h) 0) = Some (Ok idx, d')" "same_gif d d'"
      "length idx = ?w * ?h" "\<forall>i < ?h. row_of ?w idx (interlace_order ?h ! i) = row_of ?w out i"
    using gif_lines_text [OF assms(1), of "replicate (?w * ?h) 0" ?w ?h "interlace_order ?h"] by auto
  have "row_of ?w idx y = row_of ?w out (stored_at ?h y)" if "y < ?h" for y
    using idx(4) nth_interlace_order [OF that] by metis
  then show ?thesis using idx by (intro exI [of _ idx] exI [of _ d']) (simp add: expand_interlaced_def)
qed

section \<open>Drawing\<close>

definition gif_ok :: "gif \<Rightarrow> bool" where
  "gif_ok d \<longleftrightarrow> store_bytes (gf_format d) = Some (gf_bytes d) \<and> gf_bytes d \<le> length (gf_white d) \<and>
     length (gf_palette d) = 256 \<and> (\<forall>e \<in> set (gf_palette d). gf_bytes d \<le> length e) \<and> gf_left d + gf_frame_w d \<le> gf_width d"

lemma gif_ok_same: "same_gif d d' \<Longrightarrow> gif_ok d' \<longleftrightarrow> gif_ok d"
  by (auto simp: same_gif_def gif_ok_def)

lemma length_gif_pixel:
  assumes "gif_ok d" "length old = gf_bytes d"
  shows "length (gif_pixel d old i) = gf_bytes d"
proof -
  have "unat i < 256" by (rule unsigned_less [of i, simplified])
  then have "(if gf_palette_count d \<le> unat i then 0 else unat i) < length (gf_palette d)" using assms(1) by (simp add: gif_ok_def)
  then have "gf_bytes d \<le> length (gf_palette d ! (if gf_palette_count d \<le> unat i then 0 else unat i))"
    using assms(1) nth_mem unfolding gif_ok_def by blast
  then show ?thesis using assms(2) by (simp add: gif_pixel_def)
qed

text \<open>A row of the canvas: white, with the colours of the line of the frame that it shows.\<close>

definition gif_shown :: "gif \<Rightarrow> u8 list option \<Rightarrow> u8 list" where
  "gif_shown d line =
     (let white = take (gf_bytes d) (gf_white d) in
      concat (case line of
        None \<Rightarrow> replicate (gf_width d) white
      | Some l \<Rightarrow> replicate (gf_left d) white @ map (gif_pixel d white) l @ replicate (gf_width d - gf_left d - gf_frame_w d) white))"

lemma chunks_append_all: "all_length n cs \<Longrightarrow> 0 < n \<Longrightarrow> chunks_exact n (concat cs @ xs) = cs @ chunks_exact n xs"
  by (induction cs) (simp_all add: chunks_append)

lemma map2_replicate: "length ys \<le> k \<Longrightarrow> map2 f (replicate k x @ zs) ys = map (f x) ys"
proof (induction ys arbitrary: k)
  case (Cons y ys)
  then show ?case by (cases k) simp_all
qed simp

lemma all_length_replicate [simp]: "all_length n (replicate k c) \<longleftrightarrow> k = 0 \<or> length c = n"
  by (auto simp: all_length_def)

lemma gif_draw_shown:
  assumes "gif_ok d" "length line = gf_frame_w d"
  shows "gif_draw d (concat (replicate (gf_width d) (take (gf_bytes d) (gf_white d))) @ rest) line = Some (gif_shown d (Some line) @ rest)"
proof -
  let ?n = "gf_bytes d" and ?white = "take (gf_bytes d) (gf_white d)"
  define left where "left = gf_left d"
  define fw where "fw = gf_frame_w d"
  define gap where "gap = gf_width d - left - fw"
  have n: "0 < ?n" "length ?white = ?n" using assms(1) store_bytes_pos by (auto simp: gif_ok_def)
  have w: "gf_width d = left + (fw + gap)" "length line = fw" using assms by (simp_all add: gif_ok_def left_def fw_def gap_def)
  let ?pre = "concat (replicate left ?white)" and ?mid = "concat (replicate fw ?white)" and ?post = "concat (replicate gap ?white) @ rest"
  have dst: "concat (replicate (gf_width d) ?white) @ rest = ?pre @ ?mid @ ?post" unfolding w(1) replicate_add by simp
  have len: "length ?pre = left * ?n" "length ?mid = fw * ?n"
    using length_concat_all [of ?n "replicate left ?white"] length_concat_all [of ?n "replicate fw ?white"] n by (simp_all add: mult.commute)
  let ?part = "?mid @ ?post"
  have part: "slice (?pre @ ?part) (left * ?n) (length (?pre @ ?part)) = Some ?part" using len by (simp add: slice_def)
  let ?cs = "map (gif_pixel d ?white) line"
  have cs: "map2 (gif_pixel d) (chunks_exact ?n ?part) line = ?cs"
    using chunks_append_all [of ?n "replicate fw ?white" ?post] map2_replicate [of line fw "gif_pixel d" ?white] n w(2) by simp
  have all: "all_length ?n ?cs" using length_gif_pixel [OF assms(1)] n by simp
  then have clen: "length (concat ?cs) = fw * ?n" using length_concat_all [OF all] w(2) by (simp add: mult.commute)
  have "fw \<le> length ?part div ?n" using n len by (simp add: less_eq_div_iff_mult_less_eq)
  then have put: "put_chunks ?n ?part ?cs = concat ?cs @ ?post" using clen len w(2) by (simp add: put_chunks_def)
  have "copy_at (?pre @ ?part) (left * ?n) (concat ?cs @ ?post) = Some (?pre @ concat ?cs @ ?post)" using clen len by (simp add: copy_at_def)
  then show ?thesis
    unfolding gif_draw_def dst left_def [symmetric] Let_def using part cs put by (simp add: gif_shown_def Let_def gap_def left_def [symmetric] fw_def [symmetric])
qed

text \<open>Every row begins white.\<close>

lemma gif_white_row:
  assumes "gif_ok d" "gf_width d * gf_bytes d \<le> length dst"
  shows "\<exists>row. slice dst 0 (gf_width d * gf_bytes d) = Some row \<and>
    copy_at dst 0 (put_chunks (gf_bytes d) row (map (\<lambda>_. take (gf_bytes d) (gf_white d)) (chunks_exact (gf_bytes d) row))) =
      Some (concat (replicate (gf_width d) (take (gf_bytes d) (gf_white d))) @ drop (gf_width d * gf_bytes d) dst)"
proof -
  let ?n = "gf_bytes d" and ?w = "gf_width d" and ?white = "take (gf_bytes d) (gf_white d)"
  let ?row = "take (?w * ?n) dst" and ?cs = "replicate ?w ?white"
  have n: "0 < ?n" "length ?white = ?n" using assms(1) store_bytes_pos by (auto simp: gif_ok_def)
  have len: "length ?row = ?w * ?n" "length (concat ?cs) = ?w * ?n"
    using assms(2) length_concat_all [of ?n ?cs] n by (simp_all add: mult.commute)
  have "map (\<lambda>_. ?white) (chunks_exact ?n ?row) = ?cs" using n len(1) by (simp add: map_replicate_const)
  moreover have "put_chunks ?n ?row ?cs = concat ?cs" using put_chunks_full [of ?n ?cs ?row ?w] n len(1) by simp
  ultimately show ?thesis using assms(2) len by (simp add: slice_def copy_at_def)
qed

section \<open>Rows are drawn\<close>

text \<open>The line that row \<open>y\<close> of the image shows, of a frame with the text \<open>out\<close>.\<close>

definition gif_line_of :: "gif \<Rightarrow> u8 list \<Rightarrow> nat \<Rightarrow> u8 list option" where
  "gif_line_of d out y =
     (if gf_top d \<le> y \<and> y < gf_top d + gf_frame_h d
      then Some (row_of (gf_frame_w d) out (if gf_interlaced d then stored_at (gf_frame_h d) (y - gf_top d) else y - gf_top d))
      else None)"

text \<open>A decoder of a frame with the text \<open>out\<close>, before its row \<open>gf_row\<close>: the text is still to be read, or is in the
  rows of the expanded frame, or its lines above the row are read.\<close>

definition gif_shows :: "u8 list \<Rightarrow> lzw_end \<Rightarrow> gif \<Rightarrow> bool" where
  "gif_shows out fin d \<longleftrightarrow> gif_ok d \<and> gf_frame_w d * gf_frame_h d \<le> length out \<and>
     (if gf_interlaced d then
        (case gf_indices d of
           None \<Rightarrow> \<exists>opts. lzw_ready opts (gf_lzw d) (gf_work d) (gf_src d) (out, fin)
         | Some idx \<Rightarrow> length idx = gf_frame_w d * gf_frame_h d \<and>
             (\<forall>y < gf_frame_h d. row_of (gf_frame_w d) idx y = row_of (gf_frame_w d) out (stored_at (gf_frame_h d) y)))
      else \<exists>opts. lzw_ready opts (gf_lzw d) (gf_work d) (gf_src d) (drop (min (gf_frame_h d) (gf_row d - gf_top d) * gf_frame_w d) out, fin))"

lemma same_gif_fields:
  assumes "same_gif d d'"
  shows "gf_frame_w d' = gf_frame_w d" "gf_frame_h d' = gf_frame_h d" "gf_top d' = gf_top d" "gf_left d' = gf_left d"
    "gf_width d' = gf_width d" "gf_height d' = gf_height d" "gf_row d' = gf_row d" "gf_interlaced d' = gf_interlaced d"
    "gf_bytes d' = gf_bytes d" "gf_white d' = gf_white d" "gf_format d' = gf_format d" "gf_palette d' = gf_palette d"
    "gf_transparent d' = gf_transparent d" "gf_palette_count d' = gf_palette_count d"
  using assms by (auto simp: same_gif_def)

lemma same_gif_pixel: "same_gif d d' \<Longrightarrow> gif_pixel d' = gif_pixel d"
  by (intro ext) (simp add: gif_pixel_def same_gif_fields)

lemma same_gif_shown: "same_gif d d' \<Longrightarrow> gif_shown d' = gif_shown d"
  by (intro ext) (simp only: gif_shown_def same_gif_pixel same_gif_fields)

lemma same_gif_draw: "same_gif d d' \<Longrightarrow> gif_draw d' = gif_draw d"
  by (intro ext) (simp only: gif_draw_def same_gif_pixel same_gif_fields)

lemma length_row_of: "y < h \<Longrightarrow> w * h \<le> length xs \<Longrightarrow> length (row_of w xs y) = w"
proof -
  assume y: "y < h" "w * h \<le> length xs"
  have "Suc y * w \<le> h * w" using y(1) by (intro mult_le_mono1) simp
  then show ?thesis using y(2) by (simp add: mult.commute)
qed

text \<open>The line of the frame for its row \<open>y\<close>.\<close>

lemma gif_row_line_shows:
  assumes "gif_shows out fin d" "gf_top d \<le> gf_row d" "gf_row d < gf_top d + gf_frame_h d"
  shows "\<exists>line d'. gif_row_line True d (gf_row d - gf_top d) = Some (Ok line, d') \<and> gif_line_of d out (gf_row d) = Some line \<and>
    length line = gf_frame_w d \<and> same_gif d d' \<and> gif_shows out fin (d'\<lparr>gf_row := gf_row d + 1\<rparr>)"
proof -
  define y where "y = gf_row d - gf_top d"
  let ?w = "gf_frame_w d" and ?h = "gf_frame_h d"
  have y: "y < ?h" "Suc (gf_row d) - gf_top d = Suc y" using assms(2,3) by (simp_all add: y_def)
  have ok: "gif_ok d" "?w * ?h \<le> length out" using assms(1) by (simp_all add: gif_shows_def)
  have yw: "Suc y * ?w \<le> ?h * ?w" using y(1) by (intro mult_le_mono1) simp
  show ?thesis
  proof (cases "gf_interlaced d")
    case False
    obtain opts where ready: "lzw_ready opts (gf_lzw d) (gf_work d) (gf_src d) (drop (y * ?w) out, fin)"
      using assms(1) False y by (auto simp: gif_shows_def y_def [symmetric] min_def)
    have "?w \<le> length (drop (y * ?w) out)" using yw ok(2) by (simp add: mult.commute)
    from gif_line_text [OF ready this] obtain d' where d': "gif_line d ?w = Some (Ok (row_of ?w out y), d')"
        "lzw_ready opts (gf_lzw d') (gf_work d') (gf_src d') (drop (Suc y * ?w) out, fin)" "same_gif d d'"
      by (auto simp: add.commute)
    have "min ?h (Suc y) = Suc y" using y(1) by simp
    then have "gif_shows out fin (d'\<lparr>gf_row := gf_row d + 1\<rparr>)"
      using d'(2) ok False y gif_ok_same [OF d'(3)] by (auto simp: gif_shows_def same_gif_fields [OF d'(3)] gif_ok_def)
    then show ?thesis using d' False assms(2,3) length_row_of [OF y(1) ok(2)]
      by (simp add: gif_row_line_def y_def gif_line_of_def)
  next
    case True
    have whole: "\<exists>idx d'. (if gf_indices d = None then expand_interlaced True d else Some (Ok (), d)) = Some (Ok (), d') \<and> same_gif d d' \<and>
        gf_indices d' = Some idx \<and> length idx = ?w * ?h \<and> (\<forall>y < ?h. row_of ?w idx y = row_of ?w out (stored_at ?h y))"
    proof (cases "gf_indices d")
      case None
      then obtain opts where "lzw_ready opts (gf_lzw d) (gf_work d) (gf_src d) (out, fin)" using assms(1) True by (auto simp: gif_shows_def)
      from expand_interlaced_text [OF this ok(2)] obtain idx d' where i: "expand_interlaced True d = Some (Ok (), d'\<lparr>gf_indices := Some idx\<rparr>)"
          "same_gif d d'" "length idx = ?w * ?h" "\<forall>y < ?h. row_of ?w idx y = row_of ?w out (stored_at ?h y)" by blast
      have "same_gif d (d'\<lparr>gf_indices := Some idx\<rparr>)" using i(2) unfolding same_gif_def by (elim exE) (intro exI, simp)
      then show ?thesis using i None by (intro exI [of _ idx] exI [of _ "d'\<lparr>gf_indices := Some idx\<rparr>"]) simp
    next
      case (Some idx)
      then show ?thesis using assms(1) True by (simp add: gif_shows_def)
    qed
    then obtain idx d' where i: "(if gf_indices d = None then expand_interlaced True d else Some (Ok (), d)) = Some (Ok (), d')" "same_gif d d'"
        "gf_indices d' = Some idx" "length idx = ?w * ?h" "\<forall>y < ?h. row_of ?w idx y = row_of ?w out (stored_at ?h y)" by blast
    have line: "slice idx (y * ?w) ((y + 1) * ?w) = Some (row_of ?w out (stored_at ?h y))"
      using yw i(4,5) y(1) by (simp add: slice_def mult.commute)
    have "gif_shows out fin (d'\<lparr>gf_row := gf_row d + 1\<rparr>)"
      using i True ok by (simp add: gif_shows_def same_gif_fields [OF i(2)] gif_ok_def)
    moreover have "gif_row_line True d y = Some (Ok (row_of ?w out (stored_at ?h y)), d')"
      unfolding gif_row_line_def using i line True by (simp add: Let_def)
    ultimately show ?thesis using i(2) True assms(2,3) length_row_of [OF nth_interlace_order(1) [OF y(1)] ok(2)]
      by (simp add: y_def [symmetric] gif_line_of_def)
  qed
qed

lemma gif_next_row_draws:
  assumes "gif_shows out fin d" "gf_row d < gf_height d" "gf_width d * gf_bytes d \<le> length dst"
  shows "\<exists>d'. gif_next_row True d dst =
      Some (Ok True, gif_shown d (gif_line_of d out (gf_row d)) @ drop (gf_width d * gf_bytes d) dst, d'\<lparr>gf_row := gf_row d + 1\<rparr>) \<and>
    same_gif d d' \<and> gif_shows out fin (d'\<lparr>gf_row := gf_row d + 1\<rparr>)"
proof -
  let ?n = "gf_bytes d" and ?w = "gf_width d" and ?white = "take (gf_bytes d) (gf_white d)"
  have ok: "gif_ok d" using assms(1) by (simp add: gif_shows_def)
  have enough: "\<not> length dst < format_row_bytes (gf_format d) ?w"
    using assms(3) ok row_bytes_store [of "gf_format d" ?n ?w] by (simp add: gif_ok_def)
  obtain row where row: "slice dst 0 (?w * ?n) = Some row"
    "copy_at dst 0 (put_chunks ?n row (map (\<lambda>_. ?white) (chunks_exact ?n row))) = Some (concat (replicate ?w ?white) @ drop (?w * ?n) dst)"
    using gif_white_row [OF ok assms(3)] by blast
  show ?thesis
  proof (cases "gf_top d \<le> gf_row d \<and> gf_row d < gf_top d + gf_frame_h d")
    case True
    then obtain line d' where l: "gif_row_line True d (gf_row d - gf_top d) = Some (Ok line, d')" "gif_line_of d out (gf_row d) = Some line"
        "length line = gf_frame_w d" "same_gif d d'" "gif_shows out fin (d'\<lparr>gf_row := gf_row d + 1\<rparr>)"
      using gif_row_line_shows [OF assms(1)] by blast
    have "gif_draw d' (concat (replicate ?w ?white) @ drop (?w * ?n) dst) line = Some (gif_shown d (Some line) @ drop (?w * ?n) dst)"
      unfolding same_gif_draw [OF l(4)] by (rule gif_draw_shown [OF ok l(3)])
    then show ?thesis using True enough assms(2) row l
      by (intro exI [of _ d']) (simp add: gif_next_row_def Let_def same_gif_fields [OF l(4)])
  next
    case False
    then have "gif_line_of d out (gf_row d) = None" by (auto simp: gif_line_of_def)
    moreover have "min (gf_frame_h d) (Suc (gf_row d) - gf_top d) = min (gf_frame_h d) (gf_row d - gf_top d)" using False by auto
    then have "gif_shows out fin (d\<lparr>gf_row := gf_row d + 1\<rparr>)"
      using assms(1) by (cases "gf_interlaced d"; cases "gf_indices d") (simp_all add: gif_shows_def gif_ok_def)
    ultimately show ?thesis using False enough assms(2) row
      by (intro exI [of _ d]) (auto simp: gif_next_row_def Let_def gif_shown_def)
  qed
qed

subsection \<open>Opening leaves a decoder that is ready\<close>

text \<open>The codes of the frame, in the variant of GIF.\<close>

definition gif_codes :: "gif \<Rightarrow> lzw_options" where
  "gif_codes d = \<lparr>lo_literal_bits = lz_literal_bits (gf_lzw d), lo_msb_first = False, lo_early_change = False\<rparr>"

definition gif_text :: "gif \<Rightarrow> u8 list \<times> lzw_end" where
  "gif_text d = lzw_text (gif_codes d) [] None (stream_bits False (block_content (gf_src d)))"

definition gif_fresh :: "gif \<Rightarrow> bool" where
  "gif_fresh d \<longleftrightarrow> gif_ok d \<and> gf_row d = 0 \<and> gf_indices d = None \<and> lzw_ready (gif_codes d) (gf_lzw d) (gf_work d) (gf_src d) (gif_text d)"

definition palette_ok :: "u8 list list \<Rightarrow> bool" where
  "palette_ok p \<longleftrightarrow> length p = 256 \<and> all_length 3 p"

lemma read_palette_ok:
  assumes "read_palette r p flags = Ok (p', n, r')" "palette_ok p"
  shows "palette_ok p'"
proof -
  let ?n = "2 * 2 ^ unat (flags AND 7) :: nat"
  obtain es r1 where "read_entries r ?n = Ok (es, r1)" "p' = es @ drop ?n p"
    using assms(1) by (auto simp: read_palette_def Let_def bind_res_Ok)
  moreover have "flags AND 7 \<le> 7" by (rule word_and_le1)
  then have "unat (flags AND 7) \<le> 7" by (simp add: word_le_nat_alt)
  then have "?n \<le> 256" using power_increasing [of "unat (flags AND 7)" 7 "2 :: nat"] by simp
  ultimately show ?thesis
    using assms(2) read_entries_length [of r ?n es r1] all_length_drop [of 3 p ?n]
    by (auto simp: palette_ok_def all_length_def)
qed

lemma gif_screen_palette:
  assumes "gif_screen mem r = Ok (w, h, p, n, r')"
  shows "palette_ok p"
proof -
  have "palette_ok (replicate 256 [0, 0, 0])" by (simp add: palette_ok_def)
  then show ?thesis using assms read_palette_ok
    by (auto simp: gif_screen_def bind_res_Ok split: if_splits)
qed

lemma gif_frame_palette:
  assumes "gif_frame p n r = Ok (desc, p', n', r')" "palette_ok p"
  shows "palette_ok p'"
proof -
  have "palette_ok gif_gray" by (simp add: palette_ok_def gif_gray_def)
  then show ?thesis using assms read_palette_ok
    by (auto simp: gif_frame_def bind_res_Ok split: if_splits)
qed

lemma gif_colours_ok:
  assumes "palette_ok p" "store_bytes f = Some n"
  shows "length (gif_colours f n p) = 256" "\<forall>e \<in> set (gif_colours f n p). n \<le> length e"
  using assms length_store_rgb [OF assms(2)] by (auto simp: gif_colours_def palette_ok_def)

lemma lzw_start_literals: "lzw_start opts w = Some (Ok (), z, w') \<Longrightarrow> lz_literal_bits z = lo_literal_bits opts"
  by (auto simp: lzw_start_def Let_def lzw_restart_table_def bind_eq_Some_conv split: if_splits)

lemma gif_codes_start:
  assumes "2 \<le> b" "b \<le> (8 :: u8)"
  defines "opts \<equiv> \<lparr>lo_literal_bits = unat b, lo_msb_first = False, lo_early_change = False\<rparr>"
  shows "\<exists>z w'. lzw_start opts lzw_work_zero = Some (Ok (), z, w') \<and> lz_literal_bits z = unat b \<and>
    (\<forall>src. lzw_ready opts z w' src (lzw_text opts [] None (stream_bits False (block_content src))))"
proof -
  have work: "length (wk_prefix lzw_work_zero) = MAX_CODES" "length (wk_suffix lzw_work_zero) = MAX_CODES" "length (wk_stack lzw_work_zero) = MAX_CODES"
    by (simp_all add: lzw_work_zero_def MAX_CODES_def)
  have b: "2 \<le> lo_literal_bits opts" "lo_literal_bits opts \<le> 8" "lo_msb_first opts = False"
    using assms(1,2) by (simp_all add: opts_def word_le_nat_alt)
  have each: "\<exists>z w'. lzw_start opts lzw_work_zero = Some (Ok (), z, w') \<and>
      lzw_ready opts z w' src (lzw_text opts [] None (stream_bits False (block_content src)))" for src
    using lzw_start_ready [OF b(1,2) work, of src] b(3) by simp
  then obtain z w' where z: "lzw_start opts lzw_work_zero = Some (Ok (), z, w')" by blast
  then have "lzw_ready opts z w' src (lzw_text opts [] None (stream_bits False (block_content src)))" for src using each [of src] by auto
  then show ?thesis using z lzw_start_literals [OF z] by (auto simp: opts_def)
qed

lemma gif_format:
  assumes "out_format Rgb888 wanted = Ok f"
  shows "\<exists>n. store_bytes f = Some n \<and> format_row_bytes f 1 = n \<and> n \<le> 3"
proof -
  obtain n where "store_bytes f = Some n" using row_format_bytes [OF out_format_ok [OF assms]] by blast
  then show ?thesis using row_bytes_store [of f n 1] by (cases f) auto
qed

lemma gif_build_total:
  assumes "palette_ok p" "2 \<le> b" "b \<le> 8" "le16 desc 0 + le16 desc 4 \<le> w"
  shows "\<exists>res. gif_build mem options w h transparent desc p entries b r = Some res \<and> (\<forall>d. res = Ok d \<longrightarrow> gif_fresh d)"
proof -
  let ?opts = "\<lparr>lo_literal_bits = unat b, lo_msb_first = False, lo_early_change = False\<rparr>"
  obtain z w' where z: "lzw_start ?opts lzw_work_zero = Some (Ok (), z, w')" "lz_literal_bits z = unat b"
      "\<And>src. lzw_ready ?opts z w' src (lzw_text ?opts [] None (stream_bits False (block_content src)))"
    using gif_codes_start [OF assms(2,3)] by blast
  have rest: "\<exists>res. on_res (alloc mem i) (\<lambda>_. on_res (alloc mem j) (\<lambda>_. Some (Ok d))) = Some res \<and> (\<forall>d. res = Ok d \<longrightarrow> gif_fresh d)"
    if "gif_fresh d" for i j d using that by (intro on_res_total) auto
  have fresh: "gif_fresh \<lparr>gf_src = src, gf_lzw = z, gf_work = w', gf_palette = gif_colours f n p, gf_palette_count = entries,
      gf_transparent = transparent, gf_format = f, gf_bytes = n, gf_white = store_rgb f 255 255 255 @ drop n [0, 0, 0],
      gf_width = w, gf_height = h, gf_left = le16 desc 0, gf_top = le16 desc 2, gf_frame_w = le16 desc 4,
      gf_frame_h = le16 desc 6, gf_interlaced = i, gf_row = 0, gf_indices = None\<rparr>" if "store_bytes f = Some n" for f n src i
    using z(2,3) that gif_colours_ok [OF assms(1) that] assms(4) length_store_rgb [OF that, of 255 255 255]
    by (simp add: gif_fresh_def gif_ok_def gif_codes_def gif_text_def)
  have "\<exists>res. (do {
       n \<leftarrow> store_bytes f;
       let white = store_rgb f 255 255 255 @ drop n [0, 0, 0];
       on_res (alloc mem 3) (\<lambda>_. on_res (alloc mem 4) (\<lambda>_. do {
         (result, z, work) \<leftarrow> lzw_start ?opts lzw_work_zero;
         (case result of
            Err _ \<Rightarrow> Some (Err ImgDecode)
          | Ok _ \<Rightarrow> on_res (alloc mem 5) (\<lambda>_. on_res (alloc mem 6) (\<lambda>_. Some (Ok
              \<lparr>gf_src = as_blocks gif_pull (\<lambda>s. reader_left (gb_r s)) (buffered_new \<lparr>gb_r = r, gb_done = False\<rparr>),
               gf_lzw = z, gf_work = work, gf_palette = gif_colours f n p, gf_palette_count = entries,
               gf_transparent = transparent, gf_format = f, gf_bytes = format_row_bytes f 1, gf_white = white,
               gf_width = w, gf_height = h, gf_left = le16 desc 0, gf_top = le16 desc 2, gf_frame_w = le16 desc 4,
               gf_frame_h = le16 desc 6, gf_interlaced = (desc ! 8 AND 0x40 \<noteq> 0), gf_row = 0, gf_indices = None\<rparr>))))
       }))
     }) = Some res \<and> (\<forall>d. res = Ok d \<longrightarrow> gif_fresh d)" if format: "out_format Rgb888 (do_format options) = Ok f" for f
  proof -
    obtain n where n: "store_bytes f = Some n" "format_row_bytes f 1 = n" using gif_format [OF format] by blast
    show ?thesis unfolding n z(1) bind.bind_lunit Let_def prod.case res.case
      by (intro on_res_total rest fresh n) simp_all
  qed
  then show ?thesis unfolding gif_build_def by (intro on_res_total) simp_all
qed

lemma gif_open_total: "\<exists>res. gif_open mem src options = Some res \<and> (\<forall>d. res = Ok d \<longrightarrow> gif_fresh d)"
proof -
  have start: "\<exists>res. gif_start mem options w h transparent desc p entries r = Some res \<and> (\<forall>d. res = Ok d \<longrightarrow> gif_fresh d)"
    if "palette_ok p" for w h transparent desc p entries r
    unfolding gif_start_def Let_def by (auto intro!: on_res_total gif_build_total that)
  show ?thesis unfolding gif_open_def
    by (auto intro!: on_res_total start dest!: gif_screen_palette gif_frame_palette)
qed

subsection \<open>The decoder never panics\<close>

definition gif_safe :: "gif \<Rightarrow> bool" where
  "gif_safe d \<longleftrightarrow> gif_ok d \<and> lines_ok d \<and> (\<forall>idx. gf_indices d = Some idx \<longrightarrow> length idx = gf_frame_w d * gf_frame_h d)"

lemma fresh_safe: "gif_fresh d \<Longrightarrow> gif_safe d"
  unfolding gif_fresh_def gif_safe_def lines_ok_def by (cases "gif_text d") (auto simp: lzw_ready_def)

lemma expand_interlaced_total:
  assumes "gif_safe d"
  shows "\<exists>r d'. expand_interlaced room d = Some (r, d') \<and> gif_safe d' \<and> same_gif d d' \<and> (r = Ok () \<longrightarrow> gf_indices d' \<noteq> None)"
proof (cases room)
  case True
  let ?w = "gf_frame_w d" and ?h = "gf_frame_h d"
  obtain r d1 where r: "gif_lines ?w (interlace_order ?h) d (replicate (?w * ?h) 0) = Some (r, d1)" "lines_ok d1" "same_gif d d1"
      "gf_indices d1 = gf_indices d" "\<forall>l. r = Ok l \<longrightarrow> length l = ?w * ?h"
    using gif_lines_total [of d "replicate (?w * ?h) 0" ?w ?h "interlace_order ?h"] assms interlace_order_all [of ?h]
    by (auto simp: gif_safe_def)
  have ok: "gif_ok d1" using assms gif_ok_same [OF r(3)] by (simp add: gif_safe_def)
  have same: "same_gif d (d1\<lparr>gf_indices := i\<rparr>)" for i using r(3) unfolding same_gif_def by (elim exE) (intro exI, simp)
  show ?thesis
  proof (cases r)
    case (Ok idx)
    have "gif_safe (d1\<lparr>gf_indices := Some idx\<rparr>)"
      using ok r(2,5) Ok same_gif_fields [OF r(3)] by (simp add: gif_safe_def gif_ok_def lines_ok_def)
    then show ?thesis using r(1) Ok True same by (simp add: expand_interlaced_def)
  next
    case (Err e)
    have "gif_safe d1" using ok r(2,4) assms same_gif_fields [OF r(3)] by (simp add: gif_safe_def)
    then show ?thesis using r(1,3) Err True by (simp add: expand_interlaced_def)
  qed
qed (use assms in \<open>simp add: expand_interlaced_def\<close>)

lemma gif_row_line_total:
  assumes "gif_safe d" "y < gf_frame_h d"
  shows "\<exists>r d'. gif_row_line room d y = Some (r, d') \<and> gif_safe d' \<and> same_gif d d' \<and> (\<forall>l. r = Ok l \<longrightarrow> length l = gf_frame_w d)"
proof (cases "gf_interlaced d")
  case False
  obtain r d' where d': "gif_line d (gf_frame_w d) = Some (r, d')" "lines_ok d'" "same_gif d d'" "gf_indices d' = gf_indices d"
      "\<forall>l. r = Ok l \<longrightarrow> length l = gf_frame_w d"
    using gif_line_total [of d "gf_frame_w d"] assms(1) by (auto simp: gif_safe_def)
  then have "gif_safe d'" using assms(1) gif_ok_same [OF d'(3)] same_gif_fields [OF d'(3)] by (simp add: gif_safe_def)
  then show ?thesis using d' False by (simp add: gif_row_line_def)
next
  case True
  let ?w = "gf_frame_w d"
  obtain r d' where d': "(if gf_indices d = None then expand_interlaced room d else Some (Ok (), d)) = Some (r, d')" "gif_safe d'" "same_gif d d'"
      "r = Ok () \<longrightarrow> gf_indices d' \<noteq> None"
    using expand_interlaced_total [OF assms(1), of room] assms(1) by (cases "gf_indices d") auto
  show ?thesis
  proof (cases r)
    case (Ok u)
    then obtain idx where idx: "gf_indices d' = Some idx" using d'(4) by auto
    then have "length idx = ?w * gf_frame_h d" using d'(2) same_gif_fields [OF d'(3)] by (simp add: gif_safe_def)
    moreover have "Suc y * ?w \<le> gf_frame_h d * ?w" using assms(2) by (intro mult_le_mono1) simp
    ultimately have "slice idx (y * ?w) ((y + 1) * ?w) = Some (row_of ?w idx y)" "length (row_of ?w idx y) = ?w"
      by (simp_all add: slice_def mult.commute)
    then show ?thesis using d' True Ok idx by (simp add: gif_row_line_def Let_def)
  next
    case (Err e)
    then show ?thesis using d' True by (simp add: gif_row_line_def Let_def)
  qed
qed

lemma length_gif_shown:
  assumes "gif_ok d" "\<forall>l. line = Some l \<longrightarrow> length l = gf_frame_w d"
  shows "length (gif_shown d line) = gf_width d * gf_bytes d"
proof -
  let ?n = "gf_bytes d" and ?white = "take (gf_bytes d) (gf_white d)"
  have white: "length ?white = ?n" using assms(1) by (simp add: gif_ok_def)
  define cs where "cs = (case line of None \<Rightarrow> replicate (gf_width d) ?white
    | Some l \<Rightarrow> replicate (gf_left d) ?white @ map (gif_pixel d ?white) l @ replicate (gf_width d - gf_left d - gf_frame_w d) ?white)"
  have "all_length ?n cs" using length_gif_pixel [OF assms(1) white] white by (auto simp: cs_def all_length_def split: option.splits)
  moreover have "length cs = gf_width d" using assms by (auto simp: cs_def gif_ok_def split: option.splits)
  moreover have "gif_shown d line = concat cs" by (simp add: gif_shown_def Let_def cs_def)
  ultimately show ?thesis using length_concat_all [of ?n cs] by simp
qed

lemma gif_next_row_total:
  assumes "gif_safe d"
  shows "\<exists>r dst' d'. gif_next_row room d dst = Some (r, dst', d') \<and> gif_safe d' \<and> length dst' = length dst"
proof -
  let ?n = "gf_bytes d" and ?w = "gf_width d" and ?white = "take (gf_bytes d) (gf_white d)"
  have ok: "gif_ok d" using assms(1) by (simp add: gif_safe_def)
  have bytes: "format_row_bytes (gf_format d) ?w = ?w * ?n"
    using ok row_bytes_store [of "gf_format d" ?n ?w] by (simp add: gif_ok_def)
  have step: "gif_safe d \<Longrightarrow> gif_safe (d\<lparr>gf_row := k\<rparr>)" for d k by (simp add: gif_safe_def gif_ok_def lines_ok_def)
  consider "length dst < ?w * ?n" | "?w * ?n \<le> length dst" "gf_height d \<le> gf_row d" | "?w * ?n \<le> length dst" "gf_row d < gf_height d"
    by linarith
  then show ?thesis
  proof cases
    case 3
    obtain row where row: "slice dst 0 (?w * ?n) = Some row"
      "copy_at dst 0 (put_chunks ?n row (map (\<lambda>_. ?white) (chunks_exact ?n row))) = Some (concat (replicate ?w ?white) @ drop (?w * ?n) dst)"
      using gif_white_row [OF ok 3(1)] by blast
    note len = length_copy_at [OF row(2)]
    show ?thesis
    proof (cases "gf_top d \<le> gf_row d \<and> gf_row d < gf_top d + gf_frame_h d")
      case True
      then obtain r d' where r: "gif_row_line room d (gf_row d - gf_top d) = Some (r, d')" "gif_safe d'" "same_gif d d'"
          "\<forall>l. r = Ok l \<longrightarrow> length l = gf_frame_w d"
        using gif_row_line_total [OF assms, of "gf_row d - gf_top d" room] less_diff_conv2 by (fastforce simp: add.commute)
      show ?thesis
      proof (cases r)
        case (Ok line)
        then have l: "length line = gf_frame_w d" using r(4) by simp
        have "gif_draw d' (concat (replicate ?w ?white) @ drop (?w * ?n) dst) line = Some (gif_shown d (Some line) @ drop (?w * ?n) dst)"
          unfolding same_gif_draw [OF r(3)] by (rule gif_draw_shown [OF ok l])
        then show ?thesis using 3 bytes row r Ok True l step length_gif_shown [OF ok, of "Some line"] by (simp add: gif_next_row_def Let_def)
      next
        case (Err e)
        then show ?thesis using 3 bytes row r True len by (simp add: gif_next_row_def Let_def)
      qed
    next
      case False
      then show ?thesis using 3 bytes row len assms step by (auto simp: gif_next_row_def Let_def)
    qed
  qed (use assms bytes in \<open>simp_all add: gif_next_row_def\<close>)
qed

text \<open>Rows into the given buffers; \<open>room\<close> is whether there is memory for the rows of an interlaced frame.\<close>

fun gif_rows :: "gif \<Rightarrow> (bool \<times> u8 list) list \<Rightarrow> (((image_error, bool) res \<times> u8 list) list \<times> gif) option" where
  "gif_rows d [] = Some ([], d)"
| "gif_rows d ((room, dst) # dsts) = do {
     (r, out, d) \<leftarrow> gif_next_row room d dst;
     (outs, d) \<leftarrow> gif_rows d dsts;
     Some ((r, out) # outs, d)
   }"

lemma gif_rows_total:
  "gif_safe d \<Longrightarrow> \<exists>outs d'. gif_rows d dsts = Some (outs, d') \<and> gif_safe d' \<and> map (\<lambda>x. length (snd x)) outs = map (\<lambda>x. length (snd x)) dsts"
proof (induction dsts arbitrary: d)
  case (Cons x dsts)
  obtain room dst where x: "x = (room, dst)" by fastforce
  obtain r out d1 where "gif_next_row room d dst = Some (r, out, d1)" "gif_safe d1" "length out = length dst"
    using gif_next_row_total [OF Cons.prems] by blast
  then show ?case using Cons.IH [of d1] x by auto
qed simp

lemma gif_row_set [simp]: "gif_pixel (d\<lparr>gf_row := k\<rparr>) = gif_pixel d" "gif_shown (d\<lparr>gf_row := k\<rparr>) = gif_shown d"
  "gif_line_of (d\<lparr>gf_row := k\<rparr>) = gif_line_of d"
proof -
  show pixel: "gif_pixel (d\<lparr>gf_row := k\<rparr>) = gif_pixel d" by (intro ext) (simp add: gif_pixel_def)
  show "gif_shown (d\<lparr>gf_row := k\<rparr>) = gif_shown d" by (intro ext) (simp add: gif_shown_def Let_def pixel split: option.split)
  show "gif_line_of (d\<lparr>gf_row := k\<rparr>) = gif_line_of d" by (intro ext) (simp add: gif_line_of_def)
qed

lemma gif_rows_show:
  "gif_shows out fin d \<Longrightarrow> gf_row d + length dsts \<le> gf_height d \<Longrightarrow> \<forall>(room, dst) \<in> set dsts. room \<and> gf_width d * gf_bytes d \<le> length dst \<Longrightarrow>
   \<exists>d'. gif_rows d dsts = Some (map2 (\<lambda>y (room, dst). (Ok True, gif_shown d (gif_line_of d out y) @ drop (gf_width d * gf_bytes d) dst))
     [gf_row d..<gf_row d + length dsts] dsts, d')"
proof (induction dsts arbitrary: d)
  case (Cons x dsts)
  obtain dst where x: "x = (True, dst)" "gf_width d * gf_bytes d \<le> length dst" using Cons.prems(3) by (cases x) auto
  obtain d1 where d1: "gif_next_row True d dst =
      Some (Ok True, gif_shown d (gif_line_of d out (gf_row d)) @ drop (gf_width d * gf_bytes d) dst, d1\<lparr>gf_row := gf_row d + 1\<rparr>)"
      "same_gif d d1" "gif_shows out fin (d1\<lparr>gf_row := gf_row d + 1\<rparr>)"
    using gif_next_row_draws [OF Cons.prems(1) _ x(2)] Cons.prems(2) by auto
  note f = same_gif_fields [OF d1(2)]
  have "gif_line_of d1 = gif_line_of d" by (intro ext) (simp add: gif_line_of_def f)
  moreover have upt: "[gf_row d..<gf_row d + length (x # dsts)] = gf_row d # [gf_row d + 1..<gf_row d + 1 + length dsts]"
    by (simp add: upt_conv_Cons del: upt_Suc)
  ultimately have "\<exists>d'. gif_rows (d1\<lparr>gf_row := gf_row d + 1\<rparr>) dsts = Some (map2 (\<lambda>y (room, dst).
      (Ok True, gif_shown d (gif_line_of d out y) @ drop (gf_width d * gf_bytes d) dst)) [gf_row d + 1..<gf_row d + 1 + length dsts] dsts, d')"
    using Cons.IH [OF d1(3)] Cons.prems(2,3) f same_gif_shown [OF d1(2)] by (simp del: upt_Suc)
  then obtain d2 where "gif_rows (d1\<lparr>gf_row := gf_row d + 1\<rparr>) dsts = Some (map2 (\<lambda>y (room, dst).
      (Ok True, gif_shown d (gif_line_of d out y) @ drop (gf_width d * gf_bytes d) dst)) [gf_row d + 1..<gf_row d + 1 + length dsts] dsts, d2)"
    by blast
  then show ?case unfolding upt unfolding x(1) by (simp add: d1(1) del: upt_Suc)
qed simp

section \<open>The data of a frame\<close>

text \<open>Sub-blocks as the format has them, each after its length.\<close>

definition sub_blocks :: "u8 list list \<Rightarrow> u8 list" where
  "sub_blocks bs = concat (map (\<lambda>b. word_of_nat (length b) # b) bs) @ [0]"

lemma sub_blocks_content:
  "cursor_ok r \<Longrightarrow> reader_rest r = sub_blocks bs @ tail \<Longrightarrow> \<forall>b \<in> set bs. b \<noteq> [] \<and> length b < 256 \<Longrightarrow>
   concat (pull_blocks gif_pull (Suc (reader_left r)) \<lparr>gb_r = r, gb_done = False\<rparr>) = concat bs"
proof (induction bs arbitrary: r)
  case Nil
  obtain r' where "reader_byte r = (Some 0, r')" using reader_byte_rest [OF Nil.prems(1)] Nil.prems(2) by (auto simp: sub_blocks_def)
  then show ?case by (simp add: gif_pull_def)
next
  case (Cons b bs)
  have b: "b \<noteq> []" "length b < 256" "unat (word_of_nat (length b) :: u8) = length b"
    using Cons.prems(3) by (simp_all add: unat_of_nat take_bit_nat_eq_self)
  then have nonzero: "(word_of_nat (length b) :: u8) \<noteq> 0" by (metis length_0_conv unat_0)
  obtain r1 where r1: "reader_byte r = (Some (word_of_nat (length b)), r1)" "cursor_ok r1" "reader_rest r1 = b @ sub_blocks bs @ tail"
    using reader_byte_rest [OF Cons.prems(1)] Cons.prems(2) by (auto simp: sub_blocks_def)
  obtain r2 where r2: "reader_read r1 (length b) = (b, r2)" "cursor_ok r2" "reader_rest r2 = sub_blocks bs @ tail"
    using reader_read_rest [OF r1(2), of "length b"] r1(3) by auto
  have pull: "gif_pull \<lparr>gb_r = r, gb_done = False\<rparr> = (b, \<lparr>gb_r = r2, gb_done = False\<rparr>)"
    using r1(1) r2(1) b(3) nonzero by (simp add: gif_pull_def)
  have "concat (pull_blocks gif_pull (Suc (reader_left r2)) \<lparr>gb_r = r2, gb_done = False\<rparr>) = concat bs"
    by (rule Cons.IH [OF r2(2,3)]) (use Cons.prems(3) in simp)
  then show ?case using gif.blocks_next [OF pull] by simp
qed

lemma gif_source_content:
  assumes "cursor_ok r" "reader_rest r = sub_blocks bs @ tail" "\<forall>b \<in> set bs. b \<noteq> [] \<and> length b < 256"
  shows "block_content (as_blocks gif_pull (\<lambda>s. reader_left (gb_r s)) (buffered_new \<lparr>gb_r = r, gb_done = False\<rparr>)) = concat bs"
  using sub_blocks_content [OF assms] by (simp add: as_blocks_content buffered_content_def buffered_new_def del: pull_blocks.simps)

section \<open>Properties\<close>

text \<open>C35: A GIF is drawn as the format says. When opening succeeds and the text of the frame (the bytes of the
  textbook LZW decoder on the data of its sub-blocks) has a byte for every pixel, reading the rows gives
  for each row of the canvas white pixels, over which the pixels of the frame are drawn at its place, each
  in the colour that the palette gives its byte, except the transparent ones; row \<open>y\<close> of the frame shows
  line \<open>y\<close> of the text or, when it is interlaced, the line at which the four passes store that row. The
  bytes after a row are left as they were.\<close>

theorem gif_draws_frame:
  assumes "gif_open mem src options = Some (Ok d)" "gif_text d = (out, fin)" "gf_frame_w d * gf_frame_h d \<le> length out"
    and "length dsts = gf_height d" "\<forall>(room, dst) \<in> set dsts. room \<and> gf_width d * gf_bytes d \<le> length dst"
  shows "\<exists>d'. gif_rows d dsts = Some (map2 (\<lambda>y (room, dst).
     (Ok True, gif_shown d (gif_line_of d out y) @ drop (gf_width d * gf_bytes d) dst)) [0..<gf_height d] dsts, d')"
proof -
  have "gif_fresh d" using gif_open_total [of mem src options] assms(1) by auto
  then have "gif_shows out fin d" "gf_row d = 0"
    using assms(2,3) by (auto simp: gif_fresh_def gif_shows_def)
  then show ?thesis using gif_rows_show [of out fin d dsts] assms(4,5) by simp
qed

text \<open>A canvas of three by one with two pixels of the default gray palette from the second on.\<close>

lemma gif_draws_frame_witness:
  "\<exists>d outs d'. gif_open (\<lambda>_. True) (slice_stream [0x47, 0x49, 0x46, 0x38, 0x39, 0x61, 3, 0, 1, 0, 0, 0, 0,
       0x2C, 1, 0, 0, 0, 2, 0, 1, 0, 0, 2, 2, 0x0C, 0x0A, 0]) \<lparr>do_format = Some L8\<rparr> = Some (Ok d) \<and>
     gif_rows d [(True, [7, 7, 7, 7])] = Some ([(Ok True, [255, 1, 0, 7])], d')"
proof -
  let ?head = "[0x47, 0x49, 0x46, 0x38, 0x39, 0x61, 3, 0, 1, 0, 0, 0, 0] :: u8 list" and ?desc = "[1, 0, 0, 0, 2, 0, 1, 0, 0] :: u8 list"
  let ?bytes = "?head @ 0x2C # ?desc @ 2 # sub_blocks [[0x0C, 0x0A]]"
  have start: "cursor_ok (reader_new (slice_stream ?bytes))" "reader_rest (reader_new (slice_stream ?bytes)) = ?bytes"
    by (simp_all add: slice_stream_def reader_rest_def)
  obtain r1 where r1: "read_or (reader_new (slice_stream ?bytes)) 13 = Ok (?head, r1)" "cursor_ok r1"
      "reader_rest r1 = 0x2C # ?desc @ 2 # sub_blocks [[0x0C, 0x0A]]"
    by (rule read_or_rest [OF start, of 13]) simp_all
  obtain r2 where r2: "byte_or r1 = Ok (0x2C, r2)" "cursor_ok r2" "reader_rest r2 = ?desc @ 2 # sub_blocks [[0x0C, 0x0A]]"
    by (rule byte_or_rest [OF r1(2,3)])
  obtain r3 where r3: "read_or r2 9 = Ok (?desc, r3)" "cursor_ok r3" "reader_rest r3 = 2 # sub_blocks [[0x0C, 0x0A]]"
    by (rule read_or_rest [OF r2(2,3), of 9]) simp_all
  obtain r4 where r4: "byte_or r3 = Ok (2, r4)" "cursor_ok r4" "reader_rest r4 = sub_blocks [[0x0C, 0x0A]] @ []"
    by (rule byte_or_rest [OF r3(2,3)]) simp
  let ?src = "as_blocks gif_pull (\<lambda>s. reader_left (gb_r s)) (buffered_new \<lparr>gb_r = r4, gb_done = False\<rparr>)"
  let ?o = "\<lparr>lo_literal_bits = 2, lo_msb_first = False, lo_early_change = False\<rparr>"
  have content: "block_content ?src = [0x0C, 0x0A]" using gif_source_content [OF r4(2,3)] by simp
  obtain z w' where z: "lzw_start ?o lzw_work_zero = Some (Ok (), z, w')" "lz_literal_bits z = 2"
    using gif_codes_start [of 2] by auto
  define d where "d = \<lparr>gf_src = ?src, gf_lzw = z, gf_work = w', gf_palette = gif_colours L8 1 gif_gray, gf_palette_count = 256,
    gf_transparent = None, gf_format = L8, gf_bytes = 1, gf_white = [255, 0, 0], gf_width = 3, gf_height = 1, gf_left = 1, gf_top = 0,
    gf_frame_w = 2, gf_frame_h = 1, gf_interlaced = False, gf_row = 0, gf_indices = None\<rparr>"
  have le: "le16 ?head 6 = 3" "le16 ?head 8 = 1" "le16 ?desc 0 = 1" "le16 ?desc 2 = 0" "le16 ?desc 4 = 2" "le16 ?desc 6 = 1"
    by (simp_all add: le16_def le16_at_def)
  have luma: "luma 255 255 255 = 255" "luma 1 1 1 = 1" "luma 0 0 0 = 0" by (simp_all add: luma_def clamp8_def drop_bit_eq_div)
  have row: "format_row_bytes L8 1 = 1" by (simp add: format_row_bytes_def div_ceil_def)
  have "gif_open (\<lambda>_. True) (slice_stream ?bytes) \<lparr>do_format = Some L8\<rparr> = Some (Ok d)"
    using r1(1) r2(1) r3(1) r4(1) z le luma row
    by (simp add: gif_open_def gif_screen_def gif_extensions.simps gif_frame_def gif_start_def gif_build_def alloc_def out_format_def
        is_row_format_def d_def)
  moreover have bits: "stream_bits False [0x0c, 0x0a] = [False, False, True, True, False, False, False, False] @
      [False, True, False, True, False, False, False, False]"
    by (simp add: stream_bits_def byte_bits_def upt_conv_Cons bit_iff_odd)
  have "gif_text d = ([1, 0], Information_end)"
    using z(2) content unfolding gif_text_def gif_codes_def
    by (simp add: d_def bits lzw_text.simps take_code_def code_value_def lzw_string_def lzw_learn_def MAX_CODES_def Let_def)
  ultimately have "\<exists>d'. gif_rows d [(True, [7, 7, 7, 7])] = Some (map2 (\<lambda>y (room, dst).
     (Ok True, gif_shown d (gif_line_of d [1, 0] y) @ drop (gf_width d * gf_bytes d) dst)) [0..<gf_height d] [(True, [7, 7, 7, 7])], d')"
    by (intro gif_draws_frame) (simp_all add: d_def)
  moreover have "gif_shown d (gif_line_of d [1, 0] 0) = [255, 1, 0]"
    using luma by (simp add: gif_shown_def gif_line_of_def gif_pixel_def d_def gif_colours_def gif_gray_def Let_def)
  ultimately show ?thesis using \<open>gif_open _ _ _ = Some (Ok d)\<close> by (auto simp: d_def sub_blocks_def)
qed

text \<open>C36: No stream makes the GIF decoder panic: whatever the bytes are and whichever allocation fails, opening
  returns an error or a decoder, and every later call of \<open>next_row\<close>, with buffers of any lengths and
  memory for the rows of an interlaced frame or not, returns and keeps the length of the buffer.\<close>

theorem gif_never_panics:
  "\<exists>res. gif_open mem src options = Some res \<and>
     (\<forall>d. res = Ok d \<longrightarrow> (\<exists>outs d'. gif_rows d dsts = Some (outs, d') \<and> map (\<lambda>x. length (snd x)) outs = map (\<lambda>x. length (snd x)) dsts))"
  using gif_open_total [of mem src options] gif_rows_total [of _ dsts] fresh_safe by blast

lemma gif_never_panics_witness:
  "\<exists>res. gif_open (\<lambda>k. k \<noteq> 3) (slice_stream [0x47, 0x49]) \<lparr>do_format = None\<rparr> = Some res \<and>
     (\<forall>d. res = Ok d \<longrightarrow> (\<exists>outs d'. gif_rows d [(False, []), (True, [1, 2, 3])] = Some (outs, d') \<and>
        map (\<lambda>x. length (snd x)) outs = map (\<lambda>x. length (snd x)) [(False, []), (True, [1, 2, 3 :: u8])]))"
  by (rule gif_never_panics)

end
