(* ===== verification/Huffman.thy ===== *)
theory Huffman
  imports Bit_Stream
begin

text \<open>
  The Huffman tables and the bit buffer of devkit_compression/src/inflate.rs. The tables are modelled as
  the code builds them: the counts per length, the symbols in canonical order, and the fast table that is
  indexed with the next nine bits. The counts, offsets and codes stay far below the width of their types,
  since at most 316 lengths are given, and are natural numbers; the bit buffer is a 32-bit word. A symbol
  is shown to be the one whose canonical code (RFC 1951, 3.2.2) the next bits start with, by the fast table
  and by the slow loop alike.
\<close>

definition FAST_BITS :: nat where "FAST_BITS = 9"
definition FAST_SIZE :: nat where "FAST_SIZE = 512"

section \<open>The tables\<close>

record huffman =
  hf_count :: "nat list"
  hf_symbol :: "nat list"
  hf_fast :: "nat list"

definition huffman_new :: huffman where
  "huffman_new = \<lparr>hf_count = replicate 16 0, hf_symbol = replicate 288 0, hf_fast = replicate FAST_SIZE 0\<rparr>"

fun count_lengths :: "nat list \<Rightarrow> nat list \<Rightarrow> nat list option" where
  "count_lengths [] counts = Some counts"
| "count_lengths (len # lengths) counts = do {
     c \<leftarrow> arr_get counts len;
     counts \<leftarrow> arr_set counts len (c + 1);
     count_lengths lengths counts
   }"

text \<open>The code space that is left, negative as soon as the code is over-subscribed; the argument is the
  counts of the lengths 1 to 15.\<close>

fun code_space :: "nat list \<Rightarrow> int \<Rightarrow> int" where
  "code_space [] left = left"
| "code_space (c # cs) left = (let left = 2 * left - int c in if left < 0 then left else code_space cs left)"

definition code_offsets :: "nat list \<Rightarrow> nat list" where
  "code_offsets counts = fold (\<lambda>len offs. offs[len + 1 := offs ! len + counts ! len]) [1..<15] (replicate 16 0)"

fun place_symbols :: "(nat \<times> nat) list \<Rightarrow> nat list \<Rightarrow> nat list \<Rightarrow> nat list option" where
  "place_symbols [] offs symbol = Some symbol"
| "place_symbols ((s, len) # rest) offs symbol =
     (if len \<noteq> 0 then do {
        off \<leftarrow> arr_get offs len;
        symbol \<leftarrow> arr_set symbol off s;
        place_symbols rest (offs[len := off + 1]) symbol
      }
      else place_symbols rest offs symbol)"

definition first_codes :: "nat list \<Rightarrow> nat list" where
  "first_codes counts =
     snd (fold (\<lambda>len (code, codes). (2 * (code + counts ! len), codes[len := code mod 65536])) [1..<16] (0, replicate 16 0))"

definition reverse_bits :: "'a::len word \<Rightarrow> 'a word" where
  "reverse_bits w = horner_sum of_bool 2 (rev (map (bit w) [0..<LENGTH('a)]))"

text \<open>The slots \<open>(start..FAST_SIZE).step_by(step)\<close> of the fast table.\<close>

definition fast_slots :: "nat \<Rightarrow> nat \<Rightarrow> nat list" where
  "fast_slots start step = filter (\<lambda>j. start \<le> j \<and> (j - start) mod step = 0) [0..<FAST_SIZE]"

definition reversed_code :: "nat \<Rightarrow> nat \<Rightarrow> nat" where
  "reversed_code c len = unat (drop_bit (16 - len) (reverse_bits (word_of_nat c :: u16)))"

fun fill_fast :: "(nat \<times> nat) list \<Rightarrow> nat list \<Rightarrow> nat list \<Rightarrow> nat list option" where
  "fill_fast [] codes fast = Some fast"
| "fill_fast ((s, len) # rest) codes fast =
     (if len = 0 then fill_fast rest codes fast
      else do {
        c \<leftarrow> arr_get codes len;
        let codes = codes[len := c + 1];
        let fast = (if len \<le> FAST_BITS
                    then fold (\<lambda>j fast. fast[j := push_bit 9 len OR s]) (fast_slots (reversed_code c len) (2 ^ len)) fast
                    else fast);
        fill_fast rest codes fast
      })"

definition construct :: "huffman \<Rightarrow> nat list \<Rightarrow> (int \<times> huffman) option" where
  "construct h lengths = do {
     counts \<leftarrow> count_lengths lengths (replicate 16 0);
     let h = h\<lparr>hf_count := counts, hf_fast := replicate FAST_SIZE 0\<rparr>;
     if counts ! 0 = length lengths then Some (0, h)
     else
       let left = code_space (drop 1 counts) 1 in
       if left < 0 then Some (left, h)
       else do {
         symbol \<leftarrow> place_symbols (enumerate 0 lengths) (code_offsets counts) (hf_symbol h);
         fast \<leftarrow> fill_fast (enumerate 0 lengths) (first_codes counts) (hf_fast h);
         Some (left, h\<lparr>hf_symbol := symbol, hf_fast := fast\<rparr>)
       }
   }"

section \<open>The bit buffer\<close>

record bitreader =
  br_input :: "block_source input"
  br_buf :: u32
  br_cnt :: nat

text \<open>The loop at the head of \<open>take\<close> and \<open>symbol\<close>.\<close>

function fill_bits :: "nat \<Rightarrow> bitreader \<Rightarrow> ((codec_error, unit) res \<times> bitreader) option" where
  "fill_bits need b =
     (if br_cnt b < need then
        on_ok (input_byte_or_zero block_ops (br_input b))
          (\<lambda>v i. fill_bits need (b\<lparr>br_input := i, br_buf := br_buf b OR push_bit (br_cnt b) v, br_cnt := br_cnt b + 8\<rparr>))
          (\<lambda>e i. b\<lparr>br_input := i\<rparr>)
      else Some (Ok (), b))"
  by pat_completeness auto
termination
  by (relation "measure (\<lambda>(need, b). need - br_cnt b)") auto

declare fill_bits.simps [simp del]

definition bits_take :: "nat \<Rightarrow> bitreader \<Rightarrow> ((codec_error, nat) res \<times> bitreader) option" where
  "bits_take need b = and_then (fill_bits need b) (\<lambda>_ b.
     Some (Ok (unat (br_buf b AND mask need)), b\<lparr>br_buf := drop_bit need (br_buf b), br_cnt := br_cnt b - need\<rparr>))"

text \<open>\<open>symbol_slow\<close>: the lengths that are left, the code read so far, and the first code and index of the
  length.\<close>

fun slow_symbol ::
  "huffman \<Rightarrow> nat list \<Rightarrow> int \<Rightarrow> int \<Rightarrow> int \<Rightarrow> bitreader \<Rightarrow> ((codec_error, nat) res \<times> bitreader) option" where
  "slow_symbol h [] code first index b = Some (Err Corrupt, b)"
| "slow_symbol h (len # lens) code first index b = and_then (bits_take 1 b) (\<lambda>v b. do {
     let code = code OR int v;
     count \<leftarrow> arr_get (hf_count h) len;
     if code - first < int count then
       (if index + code - first < 0 then None
        else do { s \<leftarrow> arr_get (hf_symbol h) (nat (index + code - first)); Some (Ok s, b) })
     else slow_symbol h lens (2 * code) (2 * (first + int count)) (index + int count) b
   })"

definition bits_symbol :: "huffman \<Rightarrow> bitreader \<Rightarrow> ((codec_error, nat) res \<times> bitreader) option" where
  "bits_symbol h b = and_then (fill_bits FAST_BITS b) (\<lambda>_ b. do {
     e \<leftarrow> arr_get (hf_fast h) (unat (br_buf b AND mask FAST_BITS));
     if e = 0 then slow_symbol h [1..<16] 0 0 0 b
     else
       let len = drop_bit 9 e in
       if br_cnt b < len then None
       else Some (Ok (e AND 0x1ff), b\<lparr>br_buf := drop_bit len (br_buf b), br_cnt := br_cnt b - len\<rparr>)
   })"

section \<open>The bits of a reader\<close>

text \<open>The bits a reader has still to give: the buffer, the input, and at its end the zero bytes that serve
  as lookahead. What a read past them fails with.\<close>

definition reader_end :: "bitreader \<Rightarrow> codec_error option" where
  "reader_end b = sr_end (in_src (br_input b))"

definition reader_bits :: "bitreader \<Rightarrow> bool list" where
  "reader_bits b = map (bit (br_buf b)) [0..<br_cnt b] @ stream_bits False (input_left block_content (br_input b)) @
     (if reader_end b = None then replicate (8 * (MAX_PADDING - in_padding (br_input b))) False else [])"

definition reader_ok :: "bitreader \<Rightarrow> bool" where
  "reader_ok b \<longleftrightarrow> br_cnt b \<le> 24 \<and> (\<forall>j \<ge> br_cnt b. \<not> bit (br_buf b) j) \<and> input_fine (br_input b) \<and>
     in_padding (br_input b) \<le> MAX_PADDING"

definition short_error :: "bitreader \<Rightarrow> codec_error" where
  "short_error b = (case reader_end b of None \<Rightarrow> Truncated | Some e \<Rightarrow> e)"

text \<open>What an operation on a reader promises: \<open>P\<close> of the value, the bits before and the bits after when it
  succeeds; an error otherwise. It never panics, and the input can be dropped in any case.\<close>

definition reads ::
  "((codec_error, 'a) res \<times> bitreader) option \<Rightarrow> bitreader \<Rightarrow> ('a \<Rightarrow> bool list \<Rightarrow> bool) \<Rightarrow> (codec_error \<Rightarrow> bool) \<Rightarrow> bool" where
  "reads m b P Q \<longleftrightarrow> (\<exists>r b'. m = Some (r, b') \<and> input_fine (br_input b') \<and> reader_end b' = reader_end b \<and>
     (case r of Ok x \<Rightarrow> reader_ok b' \<and> P x (reader_bits b') | Err e \<Rightarrow> Q e))"

lemma reads_and_then:
  assumes m: "reads m b P Q"
    and f: "\<And>x b'. reader_ok b' \<Longrightarrow> reader_end b' = reader_end b \<Longrightarrow> P x (reader_bits b') \<Longrightarrow> reads (f x b') b' P' Q'"
    and Q: "\<And>e. Q e \<Longrightarrow> Q' e"
  shows "reads (and_then m f) b P' Q'"
proof -
  obtain r c where c: "m = Some (r, c)" "input_fine (br_input c)" "reader_end c = reader_end b"
      "case r of Ok x \<Rightarrow> reader_ok c \<and> P x (reader_bits c) | Err e \<Rightarrow> Q e"
    using m by (auto simp: reads_def)
  show ?thesis
  proof (cases r)
    case (Err e)
    then show ?thesis using c Q by (simp add: reads_def)
  next
    case (Ok x)
    then show ?thesis using c f [of c x] by (auto simp: reads_def)
  qed
qed

lemma reads_mono:
  "reads m b P Q \<Longrightarrow> (\<And>x bs. P x bs \<Longrightarrow> P' x bs) \<Longrightarrow> (\<And>e. Q e \<Longrightarrow> Q' e) \<Longrightarrow> reads m b P' Q'"
  unfolding reads_def by (fastforce split: res.splits)

lemma reads_from: "reads m c P Q \<Longrightarrow> reader_end c = reader_end b \<Longrightarrow> reads m b P Q"
  by (simp add: reads_def)

lemma reads_return: "reader_ok b \<Longrightarrow> P x (reader_bits b) \<Longrightarrow> reads (Some (Ok x, b)) b P Q"
  by (auto simp: reads_def reader_ok_def)

lemma reads_fail: "reader_ok b \<Longrightarrow> Q e \<Longrightarrow> reads (Some (Err e, b)) b P Q"
  by (auto simp: reads_def reader_ok_def)

lemma reader_fed:
  fixes c :: u8
  assumes "reader_ok b" and "br_cnt b < 16" and "input_fine i" and "sr_end (in_src i) = reader_end b" and "in_padding i \<le> MAX_PADDING"
  defines "b' \<equiv> b\<lparr>br_input := i, br_buf := br_buf b OR push_bit (br_cnt b) (ucast c), br_cnt := br_cnt b + 8\<rparr>"
  shows "reader_ok b'" and "reader_end b' = reader_end b"
    and "map (bit (br_buf b')) [0..<br_cnt b'] = map (bit (br_buf b)) [0..<br_cnt b] @ byte_bits False c"
proof -
  have hi: "\<And>j. br_cnt b \<le> j \<Longrightarrow> \<not> bit (br_buf b) j" and cnt: "br_cnt b \<le> 24" using assms(1,2) by (auto simp: reader_ok_def)
  have c: "\<not> bit c j" if "8 \<le> j" for j using that bit_imp_le_length [of c j] by auto
  have "\<not> bit (br_buf b') j" if "br_cnt b' \<le> j" for j
    using that hi [of j] c [of "j - br_cnt b"] by (auto simp: b'_def bit_simps)
  then show "reader_ok b'" using assms by (auto simp: reader_ok_def b'_def)
  show "reader_end b' = reader_end b" using assms by (simp add: reader_end_def b'_def)
  show "map (bit (br_buf b')) [0..<br_cnt b'] = map (bit (br_buf b)) [0..<br_cnt b] @ byte_bits False c"
    using bits_append_low [OF cnt, of "br_buf b" c] hi by (simp add: b'_def byte_bits_def)
qed

text \<open>One byte of the input or of its padding.\<close>

lemma byte_or_zero_spec:
  assumes ok: "reader_ok b"
  shows "\<exists>r i. input_byte_or_zero block_ops (br_input b) = Some (r, i) \<and> input_fine i \<and> sr_end (in_src i) = reader_end b \<and>
    (case r of
       Ok v \<Rightarrow> in_padding i \<le> MAX_PADDING \<and> (\<exists>c :: u8. v = ucast c \<and>
         reader_bits b = map (bit (br_buf b)) [0..<br_cnt b] @ byte_bits False c @ stream_bits False (input_left block_content i) @
           (if reader_end b = None then replicate (8 * (MAX_PADDING - in_padding i)) False else []))
     | Err e \<Rightarrow> reader_bits b = map (bit (br_buf b)) [0..<br_cnt b] \<and> e = short_error b)"
proof -
  let ?i = "br_input b"
  obtain r j where B: "input_byte block_ops ?i = Some (r, j)" "input_fine j" "in_padding j = in_padding ?i"
      "sr_end (in_src j) = sr_end (in_src ?i)"
      "case input_left block_content ?i of
         [] \<Rightarrow> input_left block_content j = [] \<and> r = (case sr_end (in_src ?i) of None \<Rightarrow> Ok None | Some e \<Rightarrow> Err e)
       | b # bs \<Rightarrow> input_left block_content j = bs \<and> r = Ok (Some b)"
    using bl.byte_ok [of ?i] ok by (auto simp: reader_ok_def)
  have fine: "input_fine (j\<lparr>in_padding := n\<rparr>)" "input_left block_content (j\<lparr>in_padding := n\<rparr>) = input_left block_content j" for n
    using B(2) by (simp_all add: input_ok_def input_left_def)
  show ?thesis
  proof (cases "input_left block_content ?i")
    case (Cons c cs)
    then show ?thesis using B ok
      by (auto simp: input_byte_or_zero_def reader_bits_def reader_end_def reader_ok_def stream_bits_def intro!: exI [of _ c])
  next
    case Nil
    show ?thesis
    proof (cases "sr_end (in_src ?i)")
      case (Some e)
      then show ?thesis using B Nil
        by (simp add: input_byte_or_zero_def reader_bits_def reader_end_def short_error_def stream_bits_def)
    next
      case None
      have byte: "input_byte block_ops ?i = Some (Ok None, j)" using B Nil None by simp
      show ?thesis
      proof (cases "MAX_PADDING < in_padding ?i + 1")
        case True
        then show ?thesis using byte B(2-5) None Nil fine ok
          by (simp add: input_byte_or_zero_def input_pad_def Let_def reader_bits_def reader_end_def short_error_def
              stream_bits_def reader_ok_def)
      next
        case False
        have "8 * (MAX_PADDING - in_padding ?i) = 8 + 8 * (MAX_PADDING - Suc (in_padding ?i))" using False by simp
        then have pad: "replicate (8 * (MAX_PADDING - in_padding ?i)) False =
            byte_bits False 0 @ replicate (8 * (MAX_PADDING - Suc (in_padding ?i))) False"
          by (simp only: replicate_add) (simp add: byte_bits_def upt_conv_Cons numeral_eq_Suc)
        show ?thesis using byte B(2-5) None Nil fine False pad
          by (auto simp: input_byte_or_zero_def input_pad_def Let_def reader_bits_def reader_end_def stream_bits_def
              intro!: exI [of _ 0])
      qed
    qed
  qed
qed

lemma fill_bits_spec:
  assumes "reader_ok b" and "need \<le> 16"
  shows "reads (fill_bits need b) b (\<lambda>_ bs. bs = reader_bits b \<and> need \<le> length (reader_bits b))
      (\<lambda>e. length (reader_bits b) < need \<and> e = short_error b) \<and>
    (\<forall>x b'. fill_bits need b = Some (Ok x, b') \<longrightarrow> need \<le> br_cnt b')"
  using assms
proof (induction need b rule: fill_bits.induct)
  case (1 need b)
  show ?case
  proof (cases "br_cnt b < need")
    case False
    then show ?thesis using "1.prems"
      by (auto simp: fill_bits.simps [of need b] reader_bits_def intro!: reads_return)
  next
    case True
    obtain r i where B: "input_byte_or_zero block_ops (br_input b) = Some (r, i)" "input_fine i" "sr_end (in_src i) = reader_end b"
      "case r of
         Ok v \<Rightarrow> in_padding i \<le> MAX_PADDING \<and> (\<exists>c :: u8. v = ucast c \<and>
           reader_bits b = map (bit (br_buf b)) [0..<br_cnt b] @ byte_bits False c @ stream_bits False (input_left block_content i) @
             (if reader_end b = None then replicate (8 * (MAX_PADDING - in_padding i)) False else []))
       | Err e \<Rightarrow> reader_bits b = map (bit (br_buf b)) [0..<br_cnt b] \<and> e = short_error b"
      using byte_or_zero_spec [OF "1.prems"(1)] by blast
    show ?thesis
    proof (cases r)
      case (Err e)
      then show ?thesis using B True by (simp add: fill_bits.simps [of need b] reads_def reader_end_def)
    next
      case (Ok v)
      then obtain c :: u8 where c: "v = ucast c" "in_padding i \<le> MAX_PADDING"
          "reader_bits b = map (bit (br_buf b)) [0..<br_cnt b] @ byte_bits False c @ stream_bits False (input_left block_content i) @
             (if reader_end b = None then replicate (8 * (MAX_PADDING - in_padding i)) False else [])"
        using B(4) by auto
      let ?b = "b\<lparr>br_input := i, br_buf := br_buf b OR push_bit (br_cnt b) v, br_cnt := br_cnt b + 8\<rparr>"
      have "br_cnt b < 16" using True "1.prems"(2) by simp
      note fed = reader_fed [OF "1.prems"(1) this B(2,3) c(2), of c, folded c(1)]
      have bits: "reader_bits ?b = reader_bits b"
        unfolding c(3) reader_bits_def [of ?b] using fed by simp
      have "fill_bits need b = fill_bits need ?b" using B(1) Ok True by (simp add: fill_bits.simps [of need b])
      moreover have "short_error ?b = short_error b" using fed(2) by (simp add: short_error_def)
      moreover note "1.IH" [OF True B(1) [unfolded Ok] fed(1) "1.prems"(2), unfolded bits]
      moreover have "reads m ?b P Q = reads m b P Q" for m :: "((codec_error, unit) res \<times> bitreader) option" and P Q
        using fed(2) by (simp add: reads_def)
      ultimately show ?thesis by simp
    qed
  qed
qed

lemma reader_skip:
  assumes "reader_ok b" and "n \<le> br_cnt b"
  defines "b' \<equiv> b\<lparr>br_buf := drop_bit n (br_buf b), br_cnt := br_cnt b - n\<rparr>"
  shows "reader_ok b'" and "reader_bits b' = drop n (reader_bits b)" and "reader_end b' = reader_end b"
proof -
  show "reader_ok b'" using assms by (auto simp: reader_ok_def b'_def bit_simps)
  show e: "reader_end b' = reader_end b" by (simp add: b'_def reader_end_def)
  have "map (bit (drop_bit n (br_buf b))) [0..<br_cnt b - n] = drop n (map (bit (br_buf b)) [0..<br_cnt b])"
    using assms(2) by (intro nth_equalityI) (auto simp: bit_simps)
  then show "reader_bits b' = drop n (reader_bits b)"
    using assms(2) e by (simp add: reader_bits_def b'_def)
qed

lemma bits_take_spec:
  assumes "reader_ok b" and need: "need \<le> 16"
  shows "reads (bits_take need b) b
    (\<lambda>v bs. need \<le> length (reader_bits b) \<and> v = horner_sum of_bool 2 (take need (reader_bits b)) \<and> bs = drop need (reader_bits b))
    (\<lambda>e. length (reader_bits b) < need \<and> e = short_error b)"
proof -
  note fill = fill_bits_spec [OF assms]
  obtain r c where c: "fill_bits need b = Some (r, c)" "input_fine (br_input c)" "reader_end c = reader_end b"
      "case r of Ok x \<Rightarrow> reader_ok c \<and> reader_bits c = reader_bits b \<and> need \<le> length (reader_bits b)
       | Err e \<Rightarrow> length (reader_bits b) < need \<and> e = short_error b"
    using fill by (auto simp: reads_def)
  show ?thesis
  proof (cases r)
    case (Err e)
    then show ?thesis using c by (simp add: bits_take_def reads_def)
  next
    case (Ok x)
    have n: "need \<le> br_cnt c" and rc: "reader_ok c" "reader_bits c = reader_bits b" "need \<le> length (reader_bits b)"
      using fill c Ok by auto
    have "take need (map (bit (br_buf c)) [0..<br_cnt c]) = map (bit (br_buf c)) [0..<need]"
      using n by (intro nth_equalityI) auto
    then have "take need (reader_bits b) = map (bit (br_buf c)) [0..<need]"
      unfolding rc(2) [symmetric] using n by (simp add: reader_bits_def)
    then have v: "unat (br_buf c AND mask need) = horner_sum of_bool 2 (take need (reader_bits b))"
      using nat_horner_bits [of need "br_buf c"] need by simp
    note skip = reader_skip [OF rc(1) n]
    show ?thesis
      using c Ok v skip rc by (simp add: bits_take_def reads_def reader_ok_def)
  qed
qed

section \<open>Canonical codes\<close>

text \<open>RFC 1951, 3.2.2: the first code of a length, the position of a symbol among those of its length, its
  code, and the bits of a code, which go out most significant first.\<close>

fun canon_first :: "nat list \<Rightarrow> nat \<Rightarrow> nat" where
  "canon_first L 0 = 0"
| "canon_first L (Suc k) = 2 * (canon_first L k + (if k = 0 then 0 else count_list L k))"

definition canon_rank :: "nat list \<Rightarrow> nat \<Rightarrow> nat" where
  "canon_rank L s = count_list (take s L) (L ! s)"

definition canon_code :: "nat list \<Rightarrow> nat \<Rightarrow> nat" where
  "canon_code L s = canon_first L (L ! s) + canon_rank L s"

definition code_bits :: "nat \<Rightarrow> nat \<Rightarrow> bool list" where
  "code_bits c len = map (\<lambda>i. bit c (len - 1 - i)) [0..<len]"

definition canon_offset :: "nat list \<Rightarrow> nat \<Rightarrow> nat" where
  "canon_offset L k = (\<Sum>i \<leftarrow> [1..<k]. count_list L i)"

text \<open>The lengths leave no code out of the code space.\<close>

definition kraft :: "nat list \<Rightarrow> bool" where
  "kraft L \<longleftrightarrow> (\<forall>k \<in> {1..15}. canon_first L k + count_list L k \<le> 2 ^ k)"

lemma length_code_bits [simp]: "length (code_bits c len) = len"
  by (simp add: code_bits_def)

lemma code_space_kraft:
  "0 \<le> code_space (map (count_list L) [k..<k + n]) left \<Longrightarrow> left + int a = 2 ^ (k - 1) \<Longrightarrow> canon_first L k = 2 * a \<Longrightarrow> 1 \<le> k \<Longrightarrow>
   i \<in> {k..<k + n} \<Longrightarrow> canon_first L i + count_list L i \<le> 2 ^ i"
proof (induction n arbitrary: k left a)
  case (Suc n)
  let ?left = "2 * left - int (count_list L k)"
  have list: "[k..<k + Suc n] = k # [Suc k..<Suc k + n]" by (simp add: upt_conv_Cons del: upt_Suc)
  have nonneg: "0 \<le> ?left" "0 \<le> code_space (map (count_list L) [Suc k..<Suc k + n]) ?left"
    using Suc.prems(1) unfolding list by (auto simp: Let_def simp del: upt_Suc split: if_splits)
  have pow: "(2 :: int) ^ k = 2 * 2 ^ (k - 1)" using Suc.prems(4) by (cases k) simp_all
  then have sum: "?left + int (canon_first L k + count_list L k) = 2 ^ k" using Suc.prems(2,3) by simp
  show ?case
  proof (cases "i = k")
    case True
    have "int (canon_first L k + count_list L k) \<le> int (2 ^ k)" using sum nonneg(1) by simp
    then show ?thesis using True by (simp only: of_nat_le_iff)
  next
    case False
    have "canon_first L (Suc k) = 2 * (canon_first L k + count_list L k)" using Suc.prems(4) by simp
    then show ?thesis
      using Suc.IH [OF nonneg(2), of "canon_first L k + count_list L k"] sum Suc.prems(5) False by auto
  qed
qed simp

lemma canon_first_mono:
  "1 \<le> k \<Longrightarrow> k < l \<Longrightarrow> 2 ^ (l - k) * (canon_first L k + count_list L k) \<le> canon_first L l"
proof (induction l)
  case (Suc l)
  show ?case
  proof (cases "k = l")
    case True
    then show ?thesis using Suc.prems by simp
  next
    case False
    then have "2 ^ (l - k) * (canon_first L k + count_list L k) \<le> canon_first L l" "Suc l - k = Suc (l - k)"
      using Suc by auto
    then show ?thesis using Suc.prems by simp
  qed
qed simp

lemma canon_rank_less: "s < length L \<Longrightarrow> canon_rank L s < count_list L (L ! s)"
proof -
  assume "s < length L"
  then have "L = take s L @ L ! s # drop (Suc s) L" by (rule id_take_nth_drop)
  then have "count_list L (L ! s) = count_list (take s L) (L ! s) + Suc (count_list (drop (Suc s) L) (L ! s))"
    by (metis count_list_append count_list.simps(2) Suc_eq_plus1)
  then show ?thesis by (simp add: canon_rank_def)
qed

section \<open>The walk of the slow loop\<close>

fun canon_walk :: "huffman \<Rightarrow> nat list \<Rightarrow> int \<Rightarrow> int \<Rightarrow> int \<Rightarrow> bool list \<Rightarrow> (nat \<times> bool list) option" where
  "canon_walk h [] code first index bits = None"
| "canon_walk h (len # lens) code first index bits =
     (case bits of
        [] \<Rightarrow> None
      | v # bits \<Rightarrow>
          let code = code + of_bool v; count = int (hf_count h ! len) in
          if code - first < count then Some (hf_symbol h ! nat (index + code - first), bits)
          else canon_walk h lens (2 * code) (2 * (first + count)) (index + count) bits)"

abbreviation canon_decode :: "huffman \<Rightarrow> bool list \<Rightarrow> (nat \<times> bool list) option" where
  "canon_decode h bits \<equiv> canon_walk h [1..<16] 0 0 0 bits"

lemma canon_walk_append:
  "canon_walk h lens code first index bits = Some (s, rest) \<Longrightarrow>
   canon_walk h lens code first index (bits @ bs) = Some (s, rest @ bs)"
  by (induction h lens code first index bits rule: canon_walk.induct) (auto simp: Let_def split: list.splits if_splits)

text \<open>Tables that represent the lengths \<open>L\<close>.\<close>

definition represents :: "huffman \<Rightarrow> nat list \<Rightarrow> bool" where
  "represents h L \<longleftrightarrow> (\<forall>l \<in> set L. l \<le> 15) \<and> kraft L \<and> (\<forall>k \<in> {1..15}. hf_count h ! k = count_list L k) \<and>
     (\<forall>s < length L. L ! s \<noteq> 0 \<longrightarrow> hf_symbol h ! (canon_offset L (L ! s) + canon_rank L s) = s)"

lemma code_bits_drop:
  "k < len \<Longrightarrow> drop k (code_bits c len) = bit c (len - 1 - k) # drop (Suc k) (code_bits c len)"
  by (subst Cons_nth_drop_Suc [symmetric]) (simp_all add: code_bits_def)

lemma canon_walk_finds:
  assumes h: "represents h L" and s: "s < length L" "1 \<le> k" "k \<le> L ! s"
  shows "canon_walk h [k..<16] (2 * int (canon_code L s div 2 ^ (Suc (L ! s) - k))) (int (canon_first L k)) (int (canon_offset L k))
    (drop (k - 1) (code_bits (canon_code L s) (L ! s)) @ rest) = Some (s, rest)"
  using s(2,3)
proof (induction "L ! s - k" arbitrary: k)
  case 0
  let ?len = "L ! s" and ?c = "canon_code L s"
  have k: "k = ?len" using 0 by simp
  have le: "?len \<le> 15" using h s(1) by (auto simp: represents_def)
  have bits: "drop (k - 1) (code_bits ?c ?len) = [odd ?c]"
    using code_bits_drop [of "?len - 1" ?len ?c] 0(2) k by (simp add: bit_0)
  have one: "Suc ?len - k = 1" using k by simp
  have val: "2 * int (?c div 2 ^ (Suc ?len - k)) + of_bool (odd ?c) = int ?c"
    unfolding one by (cases "even ?c") (auto elim: oddE)
  have list: "[k..<16] = k # [Suc k..<16]" using k le by (simp add: upt_conv_Cons)
  have "int ?c - int (canon_first L k) = int (canon_rank L s)" using k by (simp add: canon_code_def)
  moreover have "canon_rank L s < count_list L ?len" by (rule canon_rank_less [OF s(1)])
  moreover have "hf_count h ! k = count_list L ?len" "hf_symbol h ! (canon_offset L k + canon_rank L s) = s"
    using h s(1) 0(2) le k by (auto simp: represents_def)
  ultimately show ?case using val unfolding list bits by (simp add: nat_add_distrib Let_def add_diff_eq [symmetric])
next
  case (Suc n)
  let ?len = "L ! s" and ?c = "canon_code L s"
  have k: "k < ?len" "?len \<le> 15" using Suc(2) h s(1) by (auto simp: represents_def)
  define p where "p = ?c div 2 ^ (?len - k)"
  have list: "[k..<16] = k # [Suc k..<16]" using k by (simp add: upt_conv_Cons)
  have d: "Suc ?len - k = Suc (?len - k)" "Suc ?len - Suc k = ?len - k" using k by simp_all
  have half: "?c div 2 ^ (Suc ?len - k) = p div 2" unfolding d p_def by (metis div_mult2_eq mult.commute power_Suc)
  have bits: "drop (k - 1) (code_bits ?c ?len) = odd p # drop k (code_bits ?c ?len)"
    using code_bits_drop [of "k - 1" ?len ?c] k Suc.prems(1) by (simp add: bit_iff_odd p_def)
  have val: "2 * int (p div 2) + of_bool (odd p) = int p" by (cases "even p") (auto elim: oddE)
  have "2 ^ (?len - k) * (canon_first L k + count_list L k) \<le> ?c"
    using canon_first_mono [OF Suc.prems(1) k(1), of L] by (simp add: canon_code_def)
  then have "canon_first L k + count_list L k \<le> p" unfolding p_def by (metis div_le_mono nonzero_mult_div_cancel_left power_not_zero zero_neq_numeral)
  then have no: "\<not> int p - int (canon_first L k) < int (count_list L k)" by linarith
  have "canon_first L (Suc k) = 2 * (canon_first L k + count_list L k)" using Suc.prems(1) by simp
  moreover have "canon_offset L (Suc k) = canon_offset L k + count_list L k"
    using Suc.prems(1) by (simp add: canon_offset_def)
  moreover have "hf_count h ! k = count_list L k" using h k Suc.prems(1) by (simp add: represents_def)
  moreover note Suc(1) [of "Suc k"]
  ultimately show ?case
    using Suc(2) Suc.prems k no bits val unfolding list half by (simp add: Let_def d p_def [symmetric])
qed

lemma canon_decode_code:
  "represents h L \<Longrightarrow> s < length L \<Longrightarrow> L ! s \<noteq> 0 \<Longrightarrow> canon_decode h (code_bits (canon_code L s) (L ! s) @ rest) = Some (s, rest)"
proof -
  assume a: "represents h L" "s < length L" "L ! s \<noteq> 0"
  have "canon_rank L s < count_list L (L ! s)" "canon_first L (L ! s) + count_list L (L ! s) \<le> 2 ^ (L ! s)"
    using a canon_rank_less by (auto simp: represents_def kraft_def)
  then have "canon_code L s < 2 ^ (L ! s)" by (simp add: canon_code_def)
  then have "canon_code L s div 2 ^ (Suc (L ! s) - 1) = 0" by simp
  then show ?thesis using canon_walk_finds [of h L s 1 rest] a by (simp add: canon_offset_def)
qed

section \<open>The construction\<close>

lemma count_lengths_spec:
  "\<forall>l \<in> set L. l < length counts \<Longrightarrow>
   \<exists>cs. count_lengths L counts = Some cs \<and> length cs = length counts \<and> (\<forall>k < length counts. cs ! k = counts ! k + count_list L k)"
proof (induction L arbitrary: counts)
  case (Cons l L)
  then show ?case using Cons.IH [of "counts[l := Suc (counts ! l)]"] by (auto simp: nth_list_update)
qed simp

lemma code_offsets_spec:
  assumes "\<forall>k < 16. counts ! k = (if k = 0 then z else count_list L k)"
  shows "length (code_offsets counts) = 16 \<and> (\<forall>k \<in> {1..15}. code_offsets counts ! k = canon_offset L k)"
proof -
  let ?f = "\<lambda>len offs. offs[len + 1 := offs ! len + counts ! len]"
  have "length (fold ?f [1..<1 + n] (replicate 16 0)) = 16 \<and>
      (\<forall>k \<in> {1..n + 1}. fold ?f [1..<1 + n] (replicate 16 0) ! k = canon_offset L k)" if "n \<le> 14" for n
    using that
  proof (induction n)
    case 0
    then show ?case by (simp add: canon_offset_def)
  next
    case (Suc n)
    have "canon_offset L (Suc (Suc n)) = canon_offset L (Suc n) + count_list L (Suc n)" by (simp add: canon_offset_def)
    then show ?case using Suc assms by (auto simp: nth_list_update)
  qed
  from this [of 14] show ?thesis by (simp add: code_offsets_def)
qed

lemma first_codes_spec:
  assumes "\<forall>k < 16. counts ! k = (if k = 0 then z else count_list L k)" and kraft: "kraft L"
  shows "length (first_codes counts) = 16 \<and> (\<forall>k \<in> {1..15}. first_codes counts ! k = canon_first L k)"
proof -
  let ?f = "\<lambda>len (code, codes). (2 * (code + counts ! len), codes[len := code mod 65536])"
  have small: "canon_first L k < 65536" if "k \<in> {1..15}" for k
  proof -
    have "canon_first L k + count_list L k \<le> 2 ^ k" using kraft that unfolding kraft_def by blast
    moreover have "(2 :: nat) ^ k \<le> 2 ^ 15" using that by (intro power_increasing) auto
    ultimately show ?thesis by simp
  qed
  have "fst (fold ?f [1..<1 + n] (0, replicate 16 0)) = canon_first L (Suc n) \<and> length (snd (fold ?f [1..<1 + n] (0, replicate 16 0))) = 16 \<and>
      (\<forall>k \<in> {1..n}. snd (fold ?f [1..<1 + n] (0, replicate 16 0)) ! k = canon_first L k)" if "n \<le> 15" for n
    using that
  proof (induction n)
    case (Suc n)
    then show ?case using assms(1) small [of "Suc n"] by (auto simp: nth_list_update split: prod.splits)
  qed simp
  from this [of 15] show ?thesis by (simp add: first_codes_def)
qed

lemma canon_offset_mono: "1 \<le> k \<Longrightarrow> k < l \<Longrightarrow> canon_offset L k + count_list L k \<le> canon_offset L l"
proof (induction l)
  case (Suc l)
  then show ?case by (cases "k = l") (auto simp: canon_offset_def)
qed simp

lemma place_symbols_spec:
  assumes "\<forall>l \<in> set L. l \<le> 15" and "length offs = 16" and "length symbol = N"
    and "\<And>k. k \<in> {1..15} \<Longrightarrow> lo k \<le> offs ! k \<and> offs ! k + count_list L k \<le> hi k \<and> hi k \<le> N"
    and "\<And>k k'. 1 \<le> k \<Longrightarrow> k < k' \<Longrightarrow> k' \<le> 15 \<Longrightarrow> hi k \<le> lo k'"
  shows "\<exists>sym. place_symbols (enumerate n L) offs symbol = Some sym \<and> length sym = N \<and>
    (\<forall>i < length L. L ! i \<noteq> 0 \<longrightarrow> sym ! (offs ! (L ! i) + canon_rank L i) = n + i) \<and>
    (\<forall>p < N. (\<forall>k \<in> {1..15}. \<not> (offs ! k \<le> p \<and> p < hi k)) \<longrightarrow> sym ! p = symbol ! p)"
  using assms
proof (induction L arbitrary: n offs symbol)
  case (Cons l L)
  show ?case
  proof (cases "l = 0")
    case True
    have "\<exists>sym. place_symbols (enumerate (Suc n) L) offs symbol = Some sym \<and> length sym = N \<and>
      (\<forall>i < length L. L ! i \<noteq> 0 \<longrightarrow> sym ! (offs ! (L ! i) + canon_rank L i) = Suc n + i) \<and>
      (\<forall>p < N. (\<forall>k \<in> {1..15}. \<not> (offs ! k \<le> p \<and> p < hi k)) \<longrightarrow> sym ! p = symbol ! p)"
      using Cons.prems True by (intro Cons.IH) (fastforce+)
    then show ?thesis using True by (auto simp: nth_Cons canon_rank_def split: nat.splits)
  next
    case False
    let ?p = "offs ! l" and ?offs = "offs[l := Suc (offs ! l)]"
    have l: "l \<in> {1..15}" "l < 16" using Cons.prems(1) False by auto
    have p: "?p < hi l" "hi l \<le> N" "lo l \<le> ?p" using Cons.prems(4) [OF l(1)] by simp_all
    have pre: "lo k \<le> ?offs ! k \<and> ?offs ! k + count_list L k \<le> hi k \<and> hi k \<le> N" if "k \<in> {1..15}" for k
      using Cons.prems(4) [OF that] that Cons.prems(2) by (auto simp: nth_list_update split: if_splits)
    obtain sym where sym: "place_symbols (enumerate (Suc n) L) ?offs (symbol[?p := n]) = Some sym" "length sym = N"
      "\<forall>i < length L. L ! i \<noteq> 0 \<longrightarrow> sym ! (?offs ! (L ! i) + canon_rank L i) = Suc n + i"
      "\<forall>q < N. (\<forall>k \<in> {1..15}. \<not> (?offs ! k \<le> q \<and> q < hi k)) \<longrightarrow> sym ! q = symbol[?p := n] ! q"
      using Cons.IH [of ?offs "symbol[?p := n]" "Suc n"] Cons.prems(1-3,5) pre by auto
    have run: "place_symbols (enumerate n (l # L)) offs symbol = Some sym"
      using sym(1) False l p Cons.prems(2,3) by simp
    have "\<not> (?offs ! k \<le> ?p \<and> ?p < hi k)" if "k \<in> {1..15}" for k
      using Cons.prems(4) [OF that] Cons.prems(5) [of k l] Cons.prems(5) [of l k] l p that Cons.prems(2)
      by (cases k l rule: linorder_cases) (auto simp: nth_list_update)
    then have "sym ! ?p = n" using sym(4) p Cons.prems(3) by auto
    moreover have "sym ! (offs ! (L ! i) + canon_rank (l # L) (Suc i)) = Suc n + i" if "i < length L" "L ! i \<noteq> 0" for i
      using sym(3) that l Cons.prems(1,2) by (auto simp: canon_rank_def nth_list_update split: if_splits)
    moreover have "sym ! q = symbol ! q" if "q < N" "\<forall>k \<in> {1..15}. \<not> (offs ! k \<le> q \<and> q < hi k)" for q
    proof -
      have "\<not> (?offs ! k \<le> q \<and> q < hi k)" if "k \<in> {1..15}" for k
        using \<open>\<forall>k \<in> {1..15}. \<not> (offs ! k \<le> q \<and> q < hi k)\<close> that Cons.prems(2)
        by (cases "k = l") (auto simp: nth_list_update dest: Suc_leD)
      moreover have "q \<noteq> ?p" using that(2) l(1) p(1) by auto
      ultimately show ?thesis using sym(4) that(1) by simp
    qed
    ultimately show ?thesis using run sym(2) by (auto simp: nth_Cons canon_rank_def split: nat.splits)
  qed
qed simp

subsection \<open>The fast table\<close>

lemma horner_code_bits_less: "(horner_sum of_bool 2 (code_bits c len) :: nat) < 2 ^ len"
  using horner_sum_of_bool_2_less [of "code_bits c len"] by simp

lemma reversed_code_bits:
  assumes "len \<le> 16"
  shows "reversed_code c len = horner_sum of_bool 2 (code_bits c len)"
proof (rule bit_eqI)
  fix i
  show "bit (reversed_code c len) i = bit (horner_sum of_bool 2 (code_bits c len) :: nat) i"
    using assms
    by (auto simp: reversed_code_def reverse_bits_def bit_simps bit_horner_sum_bit_iff code_bits_def rev_nth
        bit_horner_sum_bit_word_iff)
qed

lemma fast_slots_bits:
  assumes "j \<in> set (fast_slots (reversed_code c len) (2 ^ len))" and "len \<le> 9"
  shows "map (bit j) [0..<len] = code_bits c len"
proof -
  let ?r = "horner_sum of_bool 2 (code_bits c len) :: nat"
  have r: "reversed_code c len = ?r" using reversed_code_bits [of len c] assms(2) by simp
  have "?r \<le> j" "(j - ?r) mod 2 ^ len = 0" using assms(1) by (auto simp: fast_slots_def r)
  then obtain q where "j = ?r + 2 ^ len * q" by (metis le_add_diff_inverse mod_0_imp_dvd dvdE)
  then have "take_bit len j = ?r" using horner_code_bits_less [of c len] by (simp add: take_bit_eq_mod)
  then have "bit j i = bit ?r i" if "i < len" for i using that by (metis bit_take_bit_iff)
  then show ?thesis by (intro nth_equalityI) (auto simp: bit_horner_sum_bit_iff)
qed

lemma fold_update_nth:
  "i < length f \<Longrightarrow> fold (\<lambda>j f. f[j := v]) js f ! i = (if i \<in> set js then v else f ! i) \<and>
   length (fold (\<lambda>j f. f[j := v]) js f) = length f"
  by (induction js arbitrary: f) (auto simp: nth_list_update)

lemma length_fold_update: "length (fold (\<lambda>j f. f[j := v]) js f) = length f"
  by (induction js arbitrary: f) auto

text \<open>An entry of the fast table is empty, or of a symbol whose code its index starts with.\<close>

definition fast_entry :: "nat list \<Rightarrow> nat \<Rightarrow> nat \<Rightarrow> bool" where
  "fast_entry L j e \<longleftrightarrow> e = 0 \<or> (\<exists>s < length L. L ! s \<noteq> 0 \<and> L ! s \<le> 9 \<and> e = push_bit 9 (L ! s) OR s \<and>
     map (bit j) [0..<L ! s] = code_bits (canon_code L s) (L ! s))"

lemma fill_fast_spec:
  assumes "\<forall>l \<in> set L. l \<le> 15" and "L = L0 @ L1" and "length codes = 16"
    and "\<forall>k \<in> {1..15}. codes ! k = canon_first L k + count_list L0 k" and "length fast = 512"
    and "\<forall>j < 512. fast_entry L j (fast ! j)"
  shows "\<exists>f. fill_fast (enumerate (length L0) L1) codes fast = Some f \<and> length f = 512 \<and> (\<forall>j < 512. fast_entry L j (f ! j))"
  using assms(2-)
proof (induction L1 arbitrary: L0 codes fast)
  case (Cons l L1)
  have L: "L = (L0 @ [l]) @ L1" using Cons.prems(1) by simp
  show ?case
  proof (cases "l = 0")
    case True
    then show ?thesis using Cons.IH [OF L Cons.prems(2) _ Cons.prems(4,5)] Cons.prems(3) by auto
  next
    case False
    have l: "l \<in> {1..15}" "l < 16" using assms(1) Cons.prems(1) False by auto
    let ?c = "codes ! l" and ?s = "length L0" and ?codes = "codes[l := Suc (codes ! l)]"
    let ?fast = "if l \<le> FAST_BITS
        then fold (\<lambda>j fast. fast[j := push_bit 9 l OR ?s]) (fast_slots (reversed_code ?c l) (2 ^ l)) fast else fast"
    have s: "L ! ?s = l" "?s < length L" "canon_code L ?s = ?c"
      using Cons.prems(1,3) l by (simp_all add: canon_code_def canon_rank_def)
    have codes: "\<forall>k \<in> {1..15}. ?codes ! k = canon_first L k + count_list (L0 @ [l]) k"
      using Cons.prems(2,3) by (auto simp: nth_list_update)
    have "fast_entry L j (?fast ! j)" if "j < 512" for j
    proof (cases "l \<le> 9 \<and> j \<in> set (fast_slots (reversed_code ?c l) (2 ^ l))")
      case True
      then have "?fast ! j = push_bit 9 l OR ?s" using that Cons.prems(4) by (simp add: fold_update_nth FAST_BITS_def)
      moreover have "map (bit j) [0..<l] = code_bits ?c l" using fast_slots_bits True by blast
      ultimately show ?thesis using s False True unfolding fast_entry_def by (metis (no_types))
    next
      case False
      then have "?fast ! j = fast ! j" using that Cons.prems(4) by (auto simp: fold_update_nth FAST_BITS_def)
      then show ?thesis using Cons.prems(5) that by simp
    qed
    moreover have "length ?fast = 512" using Cons.prems(4) by (simp add: length_fold_update)
    ultimately obtain f where f: "fill_fast (enumerate (length (L0 @ [l])) L1) ?codes ?fast = Some f" "length f = 512"
        "\<forall>j < 512. fast_entry L j (f ! j)"
      using Cons.IH [OF L _ codes, of ?fast] Cons.prems(2) by auto
    have "fill_fast (enumerate (length L0) (l # L1)) codes fast = Some f"
      using f(1) False l Cons.prems(2) by (simp add: Let_def)
    then show ?thesis using f by blast
  qed
qed simp

definition huffman_ok :: "huffman \<Rightarrow> nat list \<Rightarrow> bool" where
  "huffman_ok h L \<longleftrightarrow> represents h L \<and> length (hf_count h) = 16 \<and> length (hf_symbol h) = 288 \<and> length (hf_fast h) = 512 \<and>
     (\<forall>j < 512. fast_entry L j (hf_fast h ! j)) \<and> length L \<le> 288"

lemma canon_offset_le: "canon_offset L k \<le> length L"
proof -
  have "canon_offset L k = length (filter (\<lambda>l. 1 \<le> l \<and> l < k) L)"
  proof (induction k)
    case (Suc k)
    have "length (filter (\<lambda>l. 1 \<le> l \<and> l < Suc k) L) =
        length (filter (\<lambda>l. 1 \<le> l \<and> l < k) L) + (if 1 \<le> k then count_list L k else 0)"
      by (induction L) auto
    then show ?case using Suc by (cases k) (auto simp: canon_offset_def)
  qed (simp add: canon_offset_def)
  then show ?thesis by simp
qed

lemma count_list_all: "count_list xs x = length xs \<Longrightarrow> \<forall>y \<in> set xs. y = x"
proof (induction xs)
  case (Cons y xs)
  then show ?case using count_le_length [of xs x] by (auto split: if_splits)
qed simp

text \<open>Constructing from up to 288 lengths never panics; when the code is not over-subscribed, the tables
  represent the lengths.\<close>

lemma construct_spec:
  assumes L: "\<forall>l \<in> set L. l \<le> 15" "length L \<le> 288" and sym: "length (hf_symbol h) = 288"
  shows "\<exists>left h'. construct h L = Some (left, h') \<and> length (hf_symbol h') = 288 \<and> length (hf_fast h') = 512 \<and>
     length (hf_count h') = 16 \<and> (0 \<le> left \<longrightarrow> huffman_ok h' L)"
proof -
  obtain cs where cs: "count_lengths L (replicate 16 0) = Some cs" "length cs = 16" "\<forall>k < 16. cs ! k = count_list L k"
    using count_lengths_spec [of L "replicate 16 0"] L(1) by fastforce
  let ?h = "h\<lparr>hf_count := cs, hf_fast := replicate FAST_SIZE 0\<rparr>"
  have off: "canon_offset L 16 \<le> 288" using canon_offset_le [of L 16] L(2) by simp
  have counts: "\<forall>k < 16. cs ! k = (if k = 0 then count_list L 0 else count_list L k)" using cs(3) by simp
  have drop1: "drop 1 cs = map (count_list L) [1..<1 + 15]" using cs(2,3) by (intro nth_equalityI) auto
  show ?thesis
  proof (cases "cs ! 0 = length L")
    case True
    then have zero: "\<forall>l \<in> set L. l = 0" using cs(3) by (simp add: count_list_all)
    have none: "count_list L k = 0" if "1 \<le> k" for k using zero that by (auto simp: count_list_0_iff)
    have "canon_first L k = 0" for k using none by (induction k) auto
    then have "kraft L" using none by (simp add: kraft_def)
    then have "huffman_ok ?h L"
      using zero cs none sym L by (auto simp: huffman_ok_def represents_def FAST_SIZE_def fast_entry_def)
    then show ?thesis using True cs sym by (auto simp: construct_def FAST_SIZE_def)
  next
    case False
    show ?thesis
    proof (cases "code_space (drop 1 cs) 1 < 0")
      case True
      then show ?thesis using False cs sym by (auto simp: construct_def Let_def FAST_SIZE_def)
    next
      case nonneg: False
      have kraft: "kraft L"
        unfolding kraft_def using code_space_kraft [of L 1 15 1 0] nonneg unfolding drop1 by auto
      note offs = code_offsets_spec [OF counts] and codes = first_codes_spec [OF counts kraft]
      let ?offs = "code_offsets cs"
      have "lo k \<le> ?offs ! k \<and> ?offs ! k + count_list L k \<le> hi k \<and> hi k \<le> 288"
        if "k \<in> {1..15}" "lo = canon_offset L" "hi = (\<lambda>k. canon_offset L k + count_list L k)" for k lo hi
        using that offs canon_offset_mono [of k 16 L] off by auto
      then obtain symbol where symbol: "place_symbols (enumerate 0 L) ?offs (hf_symbol h) = Some symbol" "length symbol = 288"
          "\<forall>i < length L. L ! i \<noteq> 0 \<longrightarrow> symbol ! (?offs ! (L ! i) + canon_rank L i) = i"
        using place_symbols_spec [of L ?offs "hf_symbol h" 288 "canon_offset L" "\<lambda>k. canon_offset L k + count_list L k" 0]
          L(1) offs sym canon_offset_mono [of _ _ L] by auto
      have "\<forall>j < 512. fast_entry L j (replicate FAST_SIZE 0 ! j)" by (simp add: fast_entry_def FAST_SIZE_def)
      then obtain fast where fast: "fill_fast (enumerate 0 L) (first_codes cs) (replicate FAST_SIZE 0) = Some fast"
          "length fast = 512" "\<forall>j < 512. fast_entry L j (fast ! j)"
        using fill_fast_spec [OF L(1), of "[]" L "first_codes cs" "replicate FAST_SIZE 0"] codes by (auto simp: FAST_SIZE_def)
      let ?h' = "?h\<lparr>hf_symbol := symbol, hf_fast := fast\<rparr>"
      have "construct h L = Some (code_space (drop 1 cs) 1, ?h')"
        using cs False nonneg symbol(1) fast(1) by (simp add: construct_def Let_def)
      moreover have "L ! s \<in> {1..15}" if "s < length L" "L ! s \<noteq> 0" for s using L(1) that by auto
      then have "represents ?h' L"
        using L(1) kraft cs(3) symbol(3) offs by (auto simp: represents_def)
      then have "huffman_ok ?h' L" using fast symbol(2) cs(2) L(2) by (simp add: huffman_ok_def)
      ultimately show ?thesis using cs(2) symbol(2) fast(2) by auto
    qed
  qed
qed

section \<open>Decoding a symbol\<close>

lemma count_list_rank:
  "r < count_list L k \<Longrightarrow> \<exists>s < length L. L ! s = k \<and> canon_rank L s = r"
proof (induction L arbitrary: r)
  case (Cons l L)
  show ?case
  proof (cases "l = k")
    case True
    show ?thesis
    proof (cases r)
      case 0
      then show ?thesis using True by (intro exI [of _ 0]) (simp add: canon_rank_def)
    next
      case (Suc r')
      then obtain s where "s < length L" "L ! s = k" "canon_rank L s = r'" using Cons True by auto
      then show ?thesis using Suc True by (intro exI [of _ "Suc s"]) (simp add: canon_rank_def)
    qed
  next
    case False
    then obtain s where "s < length L" "L ! s = k" "canon_rank L s = r" using Cons by auto
    then show ?thesis using False by (intro exI [of _ "Suc s"]) (simp add: canon_rank_def)
  qed
qed simp

text \<open>What the walk finds is a symbol whose code the bits start with.\<close>

lemma canon_walk_sound:
  assumes h: "represents h L"
  shows "1 \<le> k \<Longrightarrow> k \<le> 16 \<Longrightarrow> canon_first L k \<le> 2 * x \<Longrightarrow>
    canon_walk h [k..<16] (2 * int x) (int (canon_first L k)) (int (canon_offset L k)) bits = Some (s, rest) \<Longrightarrow>
    \<exists>bs. bits = bs @ rest \<and> s < length L \<and> k \<le> L ! s \<and> length bs = Suc (L ! s) - k \<and>
      canon_code L s = 2 ^ length bs * x + horner_sum of_bool 2 (rev bs)"
proof (induction "16 - k" arbitrary: k x bits)
  case (Suc n)
  have list: "[k..<16] = k # [Suc k..<16]" using Suc(2) by (simp add: upt_conv_Cons)
  have count: "hf_count h ! k = count_list L k" using h Suc(2) Suc.prems(1) by (simp add: represents_def)
  obtain v bits' where bits: "bits = v # bits'" using Suc.prems(4) unfolding list by (cases bits) auto
  let ?x = "2 * x + of_bool v"
  have int_x: "2 * int x + of_bool v = int ?x" by simp
  show ?case
  proof (cases "?x < canon_first L k + count_list L k")
    case True
    have found: "s = hf_symbol h ! (canon_offset L k + (?x - canon_first L k))" "rest = bits'"
      using Suc.prems(3,4) True unfolding list bits canon_walk.simps list.case int_x Let_def count
      by (cases v; auto simp: nat_diff_distrib nat_add_distrib nat_mult_distrib split: if_splits)+
    have "?x - canon_first L k < count_list L k" using True Suc.prems(3) by simp
    then obtain t where t: "t < length L" "L ! t = k" "canon_rank L t = ?x - canon_first L k"
      using count_list_rank by blast
    then have "t = s" using h found(1) Suc.prems(1) by (force simp: represents_def)
    then show ?thesis using t bits found(2) Suc.prems(1,3) by (intro exI [of _ "[v]"]) (simp add: canon_code_def)
  next
    case False
    have firsts: "canon_first L (Suc k) = 2 * (canon_first L k + count_list L k)"
        "canon_offset L (Suc k) = canon_offset L k + count_list L k"
      using Suc.prems(1) by (simp_all add: canon_offset_def)
    have "canon_walk h [Suc k..<16] (2 * int ?x) (int (canon_first L (Suc k))) (int (canon_offset L (Suc k))) bits' = Some (s, rest)"
      using Suc.prems(4) False unfolding list bits canon_walk.simps list.case int_x Let_def count firsts
      by (auto split: if_splits)
    moreover have "canon_first L (Suc k) \<le> 2 * ?x" using False unfolding firsts by simp
    moreover have step: "n = 16 - Suc k" "1 \<le> Suc k" "Suc k \<le> 16" using Suc(2) by simp_all
    ultimately obtain bs where bs: "bits' = bs @ rest" "s < length L" "Suc k \<le> L ! s" "length bs = Suc (L ! s) - Suc k"
        "canon_code L s = 2 ^ length bs * ?x + horner_sum of_bool 2 (rev bs)"
      using Suc(1) [OF step(1-3) _ , of ?x bits'] by blast
    have "canon_code L s = 2 ^ Suc (length bs) * x + horner_sum of_bool 2 (rev (v # bs))"
      using bs(5) by (simp add: horner_sum_append algebra_simps)
    then show ?thesis using bs bits Suc.prems(1) by (intro exI [of _ "v # bs"]) auto
  qed
qed simp

lemma code_bits_horner: "code_bits (horner_sum of_bool 2 (rev bs)) (length bs) = bs"
  by (rule nth_equalityI) (auto simp: code_bits_def bit_horner_sum_bit_iff rev_nth)

definition has_code :: "nat list \<Rightarrow> nat \<Rightarrow> bool list \<Rightarrow> bool list \<Rightarrow> bool" where
  "has_code L s bits rest \<longleftrightarrow> s < length L \<and> L ! s \<noteq> 0 \<and> bits = code_bits (canon_code L s) (L ! s) @ rest"

lemma canon_decode_iff:
  assumes "represents h L"
  shows "canon_decode h bits = Some (s, rest) \<longleftrightarrow> has_code L s bits rest"
proof
  assume "canon_decode h bits = Some (s, rest)"
  then obtain bs where bs: "bits = bs @ rest" "s < length L" "1 \<le> L ! s" "length bs = L ! s"
      "canon_code L s = horner_sum of_bool 2 (rev bs)"
    using canon_walk_sound [OF assms, of 1 0 bits s rest] by (auto simp: canon_offset_def)
  then have "code_bits (canon_code L s) (L ! s) = bs" using code_bits_horner [of bs] by simp
  then show "has_code L s bits rest" using bs by (auto simp: has_code_def)
next
  assume "has_code L s bits rest"
  then show "canon_decode h bits = Some (s, rest)" using canon_decode_code [OF assms] by (auto simp: has_code_def)
qed

definition table_safe :: "huffman \<Rightarrow> bool" where
  "table_safe h \<longleftrightarrow> length (hf_count h) = 16 \<and> length (hf_symbol h) = 288 \<and> (\<Sum>k \<leftarrow> [1..<16]. hf_count h ! k) \<le> 288"

lemma double_or_bit: "2 * c OR int (of_bool v) = 2 * c + of_bool v" for c :: int
  by (cases v) (simp_all add: or_one_eq)

lemma slow_symbol_spec:
  assumes h: "table_safe h"
  shows "reader_ok b \<Longrightarrow> 0 \<le> first \<Longrightarrow> first \<le> 2 * x \<Longrightarrow> 0 \<le> index \<Longrightarrow> set lens \<subseteq> {..<16} \<Longrightarrow>
    index + int (\<Sum>k \<leftarrow> lens. hf_count h ! k) \<le> 288 \<Longrightarrow>
    reads (slow_symbol h lens (2 * x) first index b) b
      (\<lambda>s bs. canon_walk h lens (2 * x) first index (reader_bits b) = Some (s, bs))
      (\<lambda>e. canon_walk h lens (2 * x) first index (reader_bits b) = None \<and> (e = Corrupt \<or> e = short_error b))"
proof (induction lens arbitrary: x first index b)
  case Nil
  then show ?case by (auto intro!: reads_fail)
next
  case (Cons len lens)
  have len: "len < 16" "arr_get (hf_count h) len = Some (hf_count h ! len)"
    using Cons.prems(5) h by (auto simp: arr_get_def table_safe_def)
  let ?count = "int (hf_count h ! len)"
  show ?case unfolding slow_symbol.simps
  proof (rule reads_and_then [OF bits_take_spec])
    fix v :: nat and b' :: bitreader
    assume b': "reader_ok b'" "reader_end b' = reader_end b"
      and P: "1 \<le> length (reader_bits b) \<and> v = horner_sum of_bool 2 (take 1 (reader_bits b)) \<and> reader_bits b' = drop 1 (reader_bits b)"
    obtain w ws where bits: "reader_bits b = w # ws" using P by (cases "reader_bits b") auto
    have v: "int v = int (of_bool w)" "reader_bits b' = ws" using P bits by auto
    let ?c = "2 * x + of_bool w"
    have c: "2 * x OR int v = ?c" unfolding v(1) by (rule double_or_bit)
    have se: "short_error b' = short_error b" using b'(2) by (simp add: short_error_def)
    show "reads (do { let code = 2 * x OR int v; count \<leftarrow> arr_get (hf_count h) len;
         if code - first < int count then
           (if index + code - first < 0 then None
            else do { s \<leftarrow> arr_get (hf_symbol h) (nat (index + code - first)); Some (Ok s, b') })
         else slow_symbol h lens (2 * code) (2 * (first + int count)) (index + int count) b' }) b'
        (\<lambda>s bs. canon_walk h (len # lens) (2 * x) first index (reader_bits b) = Some (s, bs))
        (\<lambda>e. canon_walk h (len # lens) (2 * x) first index (reader_bits b) = None \<and> (e = Corrupt \<or> e = short_error b))"
    proof (cases "?c - first < ?count")
      case True
      have "nat (index + ?c - first) < 288" "\<not> index + ?c - first < 0"
        using True Cons.prems(3,4,6) by (auto simp: of_bool_def split: if_splits)
      then show ?thesis using True b' v(2) bits h
        by (auto simp: c len Let_def arr_get_def table_safe_def intro!: reads_return)
    next
      case False
      have IH: "reads (slow_symbol h lens (2 * ?c) (2 * (first + ?count)) (index + ?count) b') b'
          (\<lambda>s bs. canon_walk h lens (2 * ?c) (2 * (first + ?count)) (index + ?count) (reader_bits b') = Some (s, bs))
          (\<lambda>e. canon_walk h lens (2 * ?c) (2 * (first + ?count)) (index + ?count) (reader_bits b') = None \<and>
             (e = Corrupt \<or> e = short_error b'))"
        using False Cons.prems b'(1) by (intro Cons.IH) (auto simp: algebra_simps)
      then show ?thesis using False v(2) bits by (auto simp: c len Let_def se elim!: reads_mono)
    qed
  next
    fix e assume "length (reader_bits b) < 1 \<and> e = short_error b"
    then show "canon_walk h (len # lens) (2 * x) first index (reader_bits b) = None \<and> (e = Corrupt \<or> e = short_error b)"
      by auto
  qed (use Cons.prems in auto)
qed

lemma huffman_ok_safe: "huffman_ok h L \<Longrightarrow> table_safe h"
proof -
  assume h: "huffman_ok h L"
  have "(\<Sum>k \<leftarrow> [1..<16]. hf_count h ! k) = canon_offset L 16"
    unfolding canon_offset_def using h
    by (intro arg_cong [where f = sum_list] map_cong) (auto simp: huffman_ok_def represents_def)
  then show ?thesis using h canon_offset_le [of L 16] by (auto simp: table_safe_def huffman_ok_def)
qed

lemma fast_value:
  fixes s len :: nat
  assumes "s < 512"
  shows "drop_bit 9 (push_bit 9 len OR s) = len" and "(push_bit 9 len OR s) AND 0x1ff = s"
proof -
  have "take_bit 9 s = s" using assms by (simp add: take_bit_nat_eq_self)
  then have high: "\<not> bit s j" if "9 \<le> j" for j using that by (metis bit_take_bit_iff not_less)
  show "drop_bit 9 (push_bit 9 len OR s) = len" using high by (auto simp: bit_eq_iff bit_simps)
  have "(0x1ff :: nat) = mask 9" by (simp add: mask_eq_exp_minus_1)
  then show "(push_bit 9 len OR s) AND 0x1ff = s" using high by (auto simp: bit_eq_iff bit_simps)
qed

text \<open>The fast table and the slow loop decode the same: the symbol whose code the bits start with.\<close>

lemma bits_symbol_spec:
  assumes h: "huffman_ok h L" and b: "reader_ok b"
  shows "reads (bits_symbol h b) b (\<lambda>s bs. has_code L s (reader_bits b) bs)
    (\<lambda>e. (length (reader_bits b) < 9 \<and> e = short_error b) \<or>
      (\<nexists>s rest. has_code L s (reader_bits b) rest) \<and> (e = Corrupt \<or> e = short_error b))"
proof -
  note fill = fill_bits_spec [OF b, of 9]
  have rep: "represents h L" using h by (simp add: huffman_ok_def)
  obtain r c where c: "fill_bits FAST_BITS b = Some (r, c)" "input_fine (br_input c)" "reader_end c = reader_end b"
      "case r of Ok x \<Rightarrow> reader_ok c \<and> reader_bits c = reader_bits b \<and> 9 \<le> length (reader_bits b)
       | Err e \<Rightarrow> length (reader_bits b) < 9 \<and> e = short_error b"
    using fill by (auto simp: reads_def FAST_BITS_def)
  show ?thesis
  proof (cases r)
    case (Err e)
    then show ?thesis using c by (simp add: bits_symbol_def reads_def)
  next
    case (Ok u)
    let ?j = "unat (br_buf c AND mask 9)"
    have n: "9 \<le> br_cnt c" and rc: "reader_ok c" "reader_bits c = reader_bits b"
      using fill c Ok by (auto simp: FAST_BITS_def)
    have j: "?j < 512"
      using horner_sum_of_bool_2_less [where ?'a = nat, of "map (bit (br_buf c)) [0..<9]"] nat_horner_bits [of 9 "br_buf c"] by simp
    then have e: "arr_get (hf_fast h) ?j = Some (hf_fast h ! ?j)" "fast_entry L ?j (hf_fast h ! ?j)"
      using h by (simp_all add: arr_get_def huffman_ok_def)
    show ?thesis
    proof (cases "hf_fast h ! ?j = 0")
      case True
      have sub: "set [1..<16] \<subseteq> {..<16}" by auto
      have slow: "reads (slow_symbol h [1..<16] 0 0 0 c) c
          (\<lambda>s bs. canon_decode h (reader_bits c) = Some (s, bs))
          (\<lambda>e. canon_decode h (reader_bits c) = None \<and> (e = Corrupt \<or> e = short_error c))"
        using slow_symbol_spec [OF huffman_ok_safe [OF h] rc(1) _ _ _ sub, of 0 0 0] huffman_ok_safe [OF h]
        by (auto simp: table_safe_def)
      have se: "short_error c = short_error b" using c(3) by (simp add: short_error_def)
      have none: "(\<nexists>s rest. has_code L s (reader_bits b) rest) \<longleftrightarrow> canon_decode h (reader_bits b) = None"
        unfolding canon_decode_iff [OF rep, symmetric] by (cases "canon_decode h (reader_bits b)") auto
      have same: "bits_symbol h b = slow_symbol h [1..<16] 0 0 0 c"
        using c(1) Ok True e(1) by (simp add: bits_symbol_def FAST_BITS_def)
      show ?thesis unfolding same
        by (rule reads_mono [OF reads_from [OF slow c(3)]]) (use se none rc(2) canon_decode_iff [OF rep] in auto)
    next
      case False
      then obtain s where s: "s < length L" "L ! s \<noteq> 0" "L ! s \<le> 9" "hf_fast h ! ?j = push_bit 9 (L ! s) OR s"
          "map (bit ?j) [0..<L ! s] = code_bits (canon_code L s) (L ! s)"
        using e(2) by (auto simp: fast_entry_def)
      have "s < 512" using s(1) h by (simp add: huffman_ok_def)
      note val = fast_value [OF this, of "L ! s", folded s(4)]
      have len: "L ! s \<le> br_cnt c" using s(3) n by simp
      note skip = reader_skip [OF rc(1) len]
      have "map (bit ?j) [0..<L ! s] = take (L ! s) (reader_bits c)"
        using s(3) n by (intro nth_equalityI) (auto simp: reader_bits_def nth_append bit_simps)
      then have "reader_bits c = code_bits (canon_code L s) (L ! s) @ drop (L ! s) (reader_bits c)"
        unfolding s(5) by simp
      then have "has_code L s (reader_bits b) (drop (L ! s) (reader_bits c))" using s rc(2) by (simp add: has_code_def)
      then show ?thesis using c Ok False e(1) val len skip
        by (auto simp: bits_symbol_def FAST_BITS_def reads_def reader_ok_def Let_def)
    qed
  qed
qed

lemma count_list_replicate: "count_list (replicate n x) y = (if x = y then n else 0)"
  by (induction n) auto

lemma construct_left:
  assumes "\<forall>l \<in> set L. l \<le> 15" "construct h L = Some (left, h')"
  shows "left = (if count_list L 0 = length L then 0 else code_space (map (count_list L) [1..<16]) 1)"
proof -
  obtain cs where cs: "count_lengths L (replicate 16 0) = Some cs" "length cs = 16" "\<forall>k < 16. cs ! k = count_list L k"
    using count_lengths_spec [of L "replicate 16 0"] assms(1) by fastforce
  have "drop 1 cs = map (count_list L) [1..<16]" using cs(2,3) by (intro nth_equalityI) auto
  then show ?thesis using assms(2) cs by (auto simp: construct_def Let_def bind_eq_Some_conv split: if_splits)
qed

section \<open>Properties\<close>

text \<open>C20: A symbol is decoded as RFC 1951, 3.2.2, has it: from the tables that are built of the code lengths,
  the fast table and the slow loop together find the one symbol whose canonical code the next bits start
  with, and take exactly its bits. When no code fits, or the input ends within the look-ahead, the
  symbol fails; the tables are never indexed out of range.\<close>

theorem symbol_decodes_canonical_code:
  assumes "\<forall>l \<in> set L. l \<le> 15" "length L \<le> 288" "length (hf_symbol h0) = 288"
    and "construct h0 L = Some (left, h)" "0 \<le> left" "reader_ok b"
  shows "\<exists>r b'. bits_symbol h b = Some (r, b') \<and>
    (case r of
       Ok s \<Rightarrow> reader_ok b' \<and> has_code L s (reader_bits b) (reader_bits b') \<and> (\<forall>t rest. has_code L t (reader_bits b) rest \<longrightarrow> t = s)
     | Err e \<Rightarrow> length (reader_bits b) < 9 \<and> e = short_error b \<or>
         (\<nexists>s rest. has_code L s (reader_bits b) rest) \<and> (e = Corrupt \<or> e = short_error b))"
proof -
  have h: "huffman_ok h L" using construct_spec [OF assms(1-3)] assms(4,5) by auto
  then have "represents h L" by (simp add: huffman_ok_def)
  then have "has_code L s bits r \<Longrightarrow> has_code L t bits q \<Longrightarrow> t = s" for s t bits r q
    using canon_decode_iff [of h L bits] by (metis option.inject prod.inject)
  then show ?thesis using bits_symbol_spec [OF h assms(6)] unfolding reads_def by (fastforce split: res.splits)
qed

lemma symbol_decodes_canonical_code_witness:
  defines "b \<equiv> \<lparr>br_input = input_new \<lparr>sr_blocks = [[0x06, 0xff]], sr_end = None\<rparr> 0, br_buf = 0, br_cnt = 0\<rparr>"
  shows "\<exists>left h. construct huffman_new [1, 2, 2] = Some (left, h) \<and> (\<exists>r b'. bits_symbol h b = Some (r, b') \<and>
    (case r of
       Ok s \<Rightarrow> reader_ok b' \<and> has_code [1, 2, 2] s (reader_bits b) (reader_bits b') \<and> (\<forall>t rest. has_code [1, 2, 2] t (reader_bits b) rest \<longrightarrow> t = s)
     | Err e \<Rightarrow> length (reader_bits b) < 9 \<and> e = short_error b \<or>
         (\<nexists>s rest. has_code [1, 2, 2] s (reader_bits b) rest) \<and> (e = Corrupt \<or> e = short_error b)))"
proof -
  have L: "\<forall>l \<in> set [1, 2, 2]. l \<le> (15 :: nat)" "length [1, 2, 2 :: nat] \<le> 288" "length (hf_symbol huffman_new) = 288"
    by (simp_all add: huffman_new_def)
  obtain left h where c: "construct huffman_new [1, 2, 2] = Some (left, h)" using construct_spec [OF L] by blast
  have "left = 0" using construct_left [OF L(1) c] by (simp add: upt_conv_Cons Let_def)
  then have left: "0 \<le> left" by simp
  have "reader_ok b"
    using bl.new_ok [OF block_handed_le, of "\<lparr>sr_blocks = [[0x06, 0xff]], sr_end = None\<rparr>" 0]
    by (simp add: reader_ok_def b_def) (simp add: input_new_def)
  from symbol_decodes_canonical_code [OF L c left this] c show ?thesis by blast
qed

end
