(* ===== verification/Inflate.thy ===== *)
theory Inflate
  imports Huffman
begin

text \<open>
  Streaming DEFLATE in a zlib wrapper (devkit_compression/src/inflate.rs); the Huffman tables and the bit
  buffer are in \<open>Huffman\<close>. A read in the model returns the bytes it wrote to \<open>out\<close> from the start; \<open>n\<close> is the length of \<open>out\<close>.
\<close>

section \<open>Constants\<close>

definition WINDOW_BYTES :: nat where "WINDOW_BYTES = 32768"

definition LEN_BASE :: "nat list" where
  "LEN_BASE = [3, 4, 5, 6, 7, 8, 9, 10, 11, 13, 15, 17, 19, 23, 27, 31, 35, 43, 51, 59, 67, 83, 99, 115, 131, 163, 195, 227, 258]"

definition LEN_EXTRA :: "nat list" where
  "LEN_EXTRA = [0, 0, 0, 0, 0, 0, 0, 0, 1, 1, 1, 1, 2, 2, 2, 2, 3, 3, 3, 3, 4, 4, 4, 4, 5, 5, 5, 5, 0]"

definition DIST_BASE :: "nat list" where
  "DIST_BASE = [1, 2, 3, 4, 5, 7, 9, 13, 17, 25, 33, 49, 65, 97, 129, 193, 257, 385, 513, 769, 1025, 1537, 2049, 3073, 4097,
     6145, 8193, 12289, 16385, 24577]"

definition DIST_EXTRA :: "nat list" where
  "DIST_EXTRA = [0, 0, 0, 0, 1, 1, 2, 2, 3, 3, 4, 4, 5, 5, 6, 6, 7, 7, 8, 8, 9, 9, 10, 10, 11, 11, 12, 12, 13, 13]"

definition CL_ORDER :: "nat list" where
  "CL_ORDER = [16, 17, 18, 0, 8, 7, 9, 6, 10, 5, 11, 4, 12, 3, 13, 2, 14, 1, 15]"

section \<open>The decompressor\<close>

record inflate =
  if_lit :: huffman
  if_dist :: huffman
  if_bitbuf :: u32
  if_bitcnt :: nat
  if_wpos :: nat
  if_stored_rem :: nat
  if_copy_rem :: nat
  if_copy_dist :: nat
  if_padding :: nat
  if_started :: bool
  if_block_active :: bool
  if_block_final :: bool
  if_stored :: bool
  if_ended :: bool
  if_failed :: "codec_error option"

definition inflate_new :: inflate where
  "inflate_new = \<lparr>if_lit = huffman_new, if_dist = huffman_new, if_bitbuf = 0, if_bitcnt = 0, if_wpos = 0, if_stored_rem = 0,
     if_copy_rem = 0, if_copy_dist = 0, if_padding = 0, if_started = False, if_block_active = False, if_block_final = False,
     if_stored = False, if_ended = False, if_failed = None\<rparr>"

definition inflate_reset :: "inflate \<Rightarrow> inflate" where
  "inflate_reset z = inflate_new\<lparr>if_lit := if_lit z, if_dist := if_dist z\<rparr>"

definition zlib_header_ok :: "u8 \<Rightarrow> u8 \<Rightarrow> bool" where
  "zlib_header_ok cmf flg \<longleftrightarrow>
     \<not> (unat cmf mod 16 \<noteq> 8 \<or> (256 * unat cmf + unat flg) mod 31 \<noteq> 0 \<or> flg AND 0x20 \<noteq> 0)"

definition inflate_header :: "block_source input \<Rightarrow> ((codec_error, unit) res \<times> block_source input) option" where
  "inflate_header i = and_then (input_byte block_ops i) (\<lambda>cmf i. and_then (input_byte block_ops i) (\<lambda>flg i.
     case (cmf, flg) of
       (Some cmf, Some flg) \<Rightarrow> Some (if zlib_header_ok cmf flg then Ok () else Err Corrupt, i)
     | _ \<Rightarrow> Some (Err Truncated, i)))"

definition inflate_start :: "inflate \<Rightarrow> block_source \<Rightarrow> ((codec_error, unit) res \<times> inflate \<times> block_source) option" where
  "inflate_start z src = do {
     let z = inflate_reset z;
     (r, i) \<leftarrow> inflate_header (input_new src 0);
     src \<leftarrow> input_drop block_ops i;
     Some (r, if r = Ok () then z\<lparr>if_started := True\<rparr> else z, src)
   }"

subsection \<open>Stored blocks\<close>

text \<open>The loop of \<open>copy_stored\<close>; \<open>room\<close> is what \<open>out\<close> has left.\<close>

fun stored_loop ::
  "nat \<Rightarrow> nat \<Rightarrow> u8 list \<Rightarrow> inflate \<Rightarrow> bitreader \<Rightarrow>
   ((codec_error, u8 list \<times> nat) res \<times> u8 list \<times> inflate \<times> bitreader) option" where
  "stored_loop 0 wpos window z b = Some (Ok ([], wpos), window, z, b)"
| "stored_loop (Suc room) wpos window z b =
     (if if_stored_rem z = 0 then Some (Ok ([], wpos), window, z, b)
      else on_ok (input_byte block_ops (br_input b))
        (\<lambda>c i. case c of
           None \<Rightarrow> Some (Err Truncated, window, z, b\<lparr>br_input := i\<rparr>)
         | Some c \<Rightarrow> do {
             window \<leftarrow> arr_set window wpos c;
             and_then (stored_loop room ((wpos + 1) mod WINDOW_BYTES) window
                 (z\<lparr>if_stored_rem := if_stored_rem z - 1\<rparr>) (b\<lparr>br_input := i\<rparr>))
               (\<lambda>(bytes, wpos) s. Some (Ok (c # bytes, wpos), s))
           })
        (\<lambda>e i. (window, z, b\<lparr>br_input := i\<rparr>)))"

definition copy_stored ::
  "inflate \<Rightarrow> bitreader \<Rightarrow> u8 list \<Rightarrow> nat \<Rightarrow> ((codec_error, u8 list) res \<times> u8 list \<times> inflate \<times> bitreader) option" where
  "copy_stored z b window n = and_then (stored_loop n (if_wpos z) window z b) (\<lambda>(bytes, wpos) (window, z, b).
     let z = z\<lparr>if_wpos := wpos\<rparr>;
         z = (if if_stored_rem z = 0 then z\<lparr>if_block_active := False, if_ended := if_block_final z\<rparr> else z)
     in Some (Ok bytes, window, z, b))"

subsection \<open>Compressed blocks\<close>

text \<open>\<open>wpos.wrapping_sub(copy_dist) & WINDOW_MASK\<close>; the bytes of a copy, one by one.\<close>

definition window_back :: "nat \<Rightarrow> nat \<Rightarrow> nat" where
  "window_back wpos dist = nat ((int wpos - int dist) mod int WINDOW_BYTES)"

fun copy_run :: "nat \<Rightarrow> nat \<Rightarrow> nat \<Rightarrow> u8 list \<Rightarrow> (u8 list \<times> nat \<times> u8 list) option" where
  "copy_run 0 dist wpos window = Some ([], wpos, window)"
| "copy_run (Suc k) dist wpos window = do {
     c \<leftarrow> arr_get window (window_back wpos dist);
     window \<leftarrow> arr_set window wpos c;
     (bytes, wpos, window) \<leftarrow> copy_run k dist ((wpos + 1) mod WINDOW_BYTES) window;
     Some (c # bytes, wpos, window)
   }"

lemma length_copy_run: "copy_run k dist wpos window = Some (bytes, wpos', window') \<Longrightarrow> length bytes = k"
  by (induction k arbitrary: wpos window bytes) (auto simp: bind_eq_Some_conv)

definition decode_match :: "huffman \<Rightarrow> nat \<Rightarrow> bitreader \<Rightarrow> ((codec_error, nat \<times> nat) res \<times> bitreader) option" where
  "decode_match dist symb b = do {
     len_extra \<leftarrow> arr_get LEN_EXTRA symb;
     and_then (bits_take len_extra b) (\<lambda>extra b. and_then (bits_symbol dist b) (\<lambda>ds b.
       if length DIST_BASE \<le> ds then Some (Err Corrupt, b)
       else do {
         dist_extra \<leftarrow> arr_get DIST_EXTRA ds;
         dist_base \<leftarrow> arr_get DIST_BASE ds;
         len_base \<leftarrow> arr_get LEN_BASE symb;
         and_then (bits_take dist_extra b) (\<lambda>d b. Some (Ok (len_base + extra, dist_base + d), b))
       }))
   }"

lemma decode_match_len: "decode_match dist symb b = Some (Ok (len, d), b') \<Longrightarrow> 0 < len"
proof -
  have "\<forall>x \<in> set LEN_BASE. 0 < x" by (simp add: LEN_BASE_def)
  then have "arr_get LEN_BASE symb = Some x \<Longrightarrow> 0 < x" for x
    by (auto simp: arr_get_def split: if_splits dest: nth_mem)
  then show "decode_match dist symb b = Some (Ok (len, d), b') \<Longrightarrow> 0 < len"
    by (auto simp: decode_match_def on_ok_Ok bind_eq_Some_conv split: if_splits)
qed

text \<open>The loop of \<open>decode\<close>; \<open>room\<close> is what \<open>out\<close> has left. What is left to copy is part of the state.\<close>

function decode_loop ::
  "nat \<Rightarrow> inflate \<Rightarrow> u8 list \<Rightarrow> bitreader \<Rightarrow> u8 list \<Rightarrow>
   ((codec_error, u8 list) res \<times> u8 list \<times> inflate \<times> bitreader) option" where
  "decode_loop n z window b out = do {
     let run = min (if_copy_rem z) (n - length out);
     (bytes, wpos, window) \<leftarrow> copy_run run (if_copy_dist z) (if_wpos z) window;
     let z = z\<lparr>if_wpos := wpos, if_copy_rem := if_copy_rem z - run\<rparr>;
     let out' = out @ bytes;
     if n \<le> length out' then Some (Ok out', window, z, b)
     else on_ok (bits_symbol (if_lit z) b) (\<lambda>sym b.
       if sym < 256 then do {
         window \<leftarrow> arr_set window (if_wpos z) (word_of_nat sym);
         decode_loop n (z\<lparr>if_wpos := (if_wpos z + 1) mod WINDOW_BYTES\<rparr>) window b (out' @ [word_of_nat sym])
       }
       else if sym = 256 then Some (Ok out', window, z\<lparr>if_block_active := False, if_ended := if_block_final z\<rparr>, b)
       else if length LEN_BASE \<le> sym - 257 then Some (Err Corrupt, window, z, b)
       else on_ok (decode_match (if_dist z) (sym - 257) b) (\<lambda>(len, d) b.
         if len = 0 then None
         else decode_loop n (z\<lparr>if_copy_rem := len, if_copy_dist := d\<rparr>) window b out')
         (\<lambda>e b. (window, z, b)))
       (\<lambda>e b. (window, z, b))
   }"
  by pat_completeness auto
termination
  by (relation "measures [\<lambda>(n, z, window, b, out). n - length out, \<lambda>(n, z, window, b, out). if if_copy_rem z = 0 then 1 else 0]")
    (auto simp: length_copy_run min_def split: if_splits)

declare decode_loop.simps [simp del]

subsection \<open>Blocks\<close>

definition build_fixed :: "inflate \<Rightarrow> inflate option" where
  "build_fixed z = do {
     (_, lit) \<leftarrow> construct (if_lit z) (replicate 144 8 @ replicate 112 9 @ replicate 24 7 @ replicate 8 8);
     (_, dist) \<leftarrow> construct (if_dist z) (replicate 30 5);
     Some (z\<lparr>if_lit := lit, if_dist := dist\<rparr>)
   }"

fun read_code_lengths :: "nat list \<Rightarrow> nat list \<Rightarrow> bitreader \<Rightarrow> ((codec_error, nat list) res \<times> bitreader) option" where
  "read_code_lengths [] lengths b = Some (Ok lengths, b)"
| "read_code_lengths (order # orders) lengths b = and_then (bits_take 3 b) (\<lambda>v b. do {
     lengths \<leftarrow> arr_set lengths order v;
     read_code_lengths orders lengths b
   })"

text \<open>The value and the number of repeats that a symbol of the code-length code stands for.\<close>

definition length_symbol :: "nat \<Rightarrow> nat \<Rightarrow> nat list \<Rightarrow> bitreader \<Rightarrow> ((codec_error, nat \<times> nat) res \<times> bitreader) option" where
  "length_symbol symb idx lengths b =
     (if symb \<le> 15 then Some (Ok (symb, 1), b)
      else if symb = 16 \<and> idx = 0 then Some (Err Corrupt, b)
      else if symb = 16 then do {
        v \<leftarrow> arr_get lengths (idx - 1);
        and_then (bits_take 2 b) (\<lambda>rep b. Some (Ok (v, 3 + rep), b))
      }
      else if symb = 17 then and_then (bits_take 3 b) (\<lambda>rep b. Some (Ok (0, 3 + rep), b))
      else and_then (bits_take 7 b) (\<lambda>rep b. Some (Ok (0, 11 + rep), b)))"

lemma length_symbol_rep: "length_symbol symb idx lengths b = Some (Ok (v, rep), b') \<Longrightarrow> 0 < rep"
  by (auto simp: length_symbol_def on_ok_Ok bind_eq_Some_conv split: if_splits)

function read_lengths ::
  "huffman \<Rightarrow> nat \<Rightarrow> nat \<Rightarrow> nat list \<Rightarrow> bitreader \<Rightarrow> ((codec_error, nat list) res \<times> bitreader) option" where
  "read_lengths h n idx lengths b =
     (if idx < n then
        and_then (bits_symbol h b) (\<lambda>sym b. and_then (length_symbol sym idx lengths b) (\<lambda>(v, rep) b.
          let stop = min (idx + rep) n in
          if rep = 0 then None
          else do {
            lengths \<leftarrow> copy_at lengths idx (replicate (stop - idx) v);
            read_lengths h n stop lengths b
          }))
      else Some (Ok lengths, b))"
  by pat_completeness auto
termination
  by (relation "measure (\<lambda>(h, n, idx, lengths, b). n - idx)") auto

declare read_lengths.simps [simp del]

definition build_dynamic :: "inflate \<Rightarrow> bitreader \<Rightarrow> ((codec_error, unit) res \<times> inflate \<times> bitreader) option" where
  "build_dynamic z b =
     on_ok (bits_take 5 b) (\<lambda>hlit b. let hlit = hlit + 257 in
     on_ok (bits_take 5 b) (\<lambda>hdist b. let hdist = hdist + 1 in
     on_ok (bits_take 4 b) (\<lambda>hclen b. let hclen = hclen + 4 in
     if 286 < hlit \<or> 30 < hdist then Some (Err Corrupt, z, b)
     else do {
       orders \<leftarrow> slice CL_ORDER 0 hclen;
       on_ok (read_code_lengths orders (replicate 19 0) b) (\<lambda>cl_lengths b. do {
         (left, dist) \<leftarrow> construct (if_dist z) cl_lengths;
         let z = z\<lparr>if_dist := dist\<rparr>;
         if left < 0 then Some (Err Corrupt, z, b)
         else on_ok (read_lengths (if_dist z) (hlit + hdist) 0 (replicate 316 0) b) (\<lambda>lengths b. do {
           lit_lengths \<leftarrow> slice lengths 0 hlit;
           dist_lengths \<leftarrow> slice lengths hlit (hlit + hdist);
           (left, lit) \<leftarrow> construct (if_lit z) lit_lengths;
           let z = z\<lparr>if_lit := lit\<rparr>;
           if left < 0 then Some (Err Corrupt, z, b)
           else do {
             (left, dist) \<leftarrow> construct (if_dist z) dist_lengths;
             let z = z\<lparr>if_dist := dist\<rparr>;
             if left < 0 then Some (Err Corrupt, z, b) else Some (Ok (), z, b)
           }
         }) (\<lambda>e b. (z, b))
       }) (\<lambda>e b. (z, b))
     }) (\<lambda>e b. (z, b))) (\<lambda>e b. (z, b))) (\<lambda>e b. (z, b))"

text \<open>The header of a stored block, after its three bits: the rest of the bit buffer is dropped; the
  complement of the length is read and ignored. \<open>None\<close> in the result when the input ends within it.\<close>

definition stored_header :: "bitreader \<Rightarrow> ((codec_error, nat option) res \<times> bitreader) option" where
  "stored_header b =
     (let b = b\<lparr>br_buf := 0, br_cnt := 0\<rparr>;
          next = (\<lambda>b. map_option (\<lambda>(r, i). (r, b\<lparr>br_input := i\<rparr>)) (input_byte block_ops (br_input b)))
      in and_then (next b) (\<lambda>l0 b. and_then (next b) (\<lambda>l1 b. and_then (next b) (\<lambda>_ b. and_then (next b) (\<lambda>_ b.
           Some (Ok (case (l0, l1) of (Some l0, Some l1) \<Rightarrow> Some (unat l0 + 256 * unat l1) | _ \<Rightarrow> None), b))))))"

text \<open>The start of a block: true when the block is active, false when the stream ended.\<close>

definition start_block :: "inflate \<Rightarrow> bitreader \<Rightarrow> ((codec_error, bool) res \<times> inflate \<times> bitreader) option" where
  "start_block z b =
     on_ok (bits_take 1 b) (\<lambda>fin b. let z = z\<lparr>if_block_final := (fin \<noteq> 0)\<rparr> in
     on_ok (bits_take 2 b) (\<lambda>kind b.
       if input_eof (br_input b) then Some (Ok False, z\<lparr>if_ended := True\<rparr>, b)
       else if kind = 0 then
         on_ok (stored_header b) (\<lambda>len b. case len of
             None \<Rightarrow> Some (Ok False, z\<lparr>if_ended := True\<rparr>, b)
           | Some len \<Rightarrow> Some (Ok True, z\<lparr>if_stored_rem := len, if_stored := True, if_block_active := True\<rparr>, b))
           (\<lambda>e b. (z, b))
       else if kind = 1 then do {
         z \<leftarrow> build_fixed z;
         Some (Ok True, z\<lparr>if_stored := False, if_copy_rem := 0, if_block_active := True\<rparr>, b)
       }
       else if kind = 2 then
         and_then (build_dynamic z b) (\<lambda>_ (z, b).
           Some (Ok True, z\<lparr>if_stored := False, if_copy_rem := 0, if_block_active := True\<rparr>, b))
       else Some (Err Corrupt, z, b)) (\<lambda>e b. (z, b))) (\<lambda>e b. (z, b))"

text \<open>The body of the loop of \<open>run\<close> after the start of a block.\<close>

definition block_body ::
  "inflate \<Rightarrow> bitreader \<Rightarrow> u8 list \<Rightarrow> nat \<Rightarrow> ((codec_error, u8 list) res \<times> u8 list \<times> inflate \<times> bitreader) option" where
  "block_body z b window n = (if if_stored z then copy_stored z b window n else decode_loop n z window b [])"

text \<open>The loop of \<open>run\<close>. Every round but the first takes at least three bits of the input or of its
  padding, so the bits that are left bound the rounds.\<close>

fun inflate_run ::
  "nat \<Rightarrow> inflate \<Rightarrow> bitreader \<Rightarrow> u8 list \<Rightarrow> nat \<Rightarrow> u8 list \<Rightarrow>
   ((codec_error, u8 list) res \<times> u8 list \<times> inflate \<times> bitreader) option" where
  "inflate_run 0 z b window n out = None"
| "inflate_run (Suc fuel) z b window n out =
     (if length out < n \<and> \<not> if_ended z then
        on_ok (if if_block_active z then Some (Ok True, z, b) else start_block z b) (\<lambda>active (z, b).
          if \<not> active then Some (Ok out, window, z, b)
          else and_then (block_body z b window (n - length out)) (\<lambda>bytes (window, z, b).
            inflate_run fuel z b window n (out @ bytes)))
          (\<lambda>e (z, b). (window, z, b))
      else Some (Ok out, window, z, b))"

definition inflate_fuel :: "inflate \<Rightarrow> block_source \<Rightarrow> nat" where
  "inflate_fuel z src = 2 * (if_bitcnt z + 8 * length (block_content src) + 64) + 2"

definition inflate_read ::
  "inflate \<Rightarrow> block_source \<Rightarrow> u8 list \<Rightarrow> nat \<Rightarrow> ((codec_error, u8 list) res \<times> inflate \<times> u8 list \<times> block_source) option" where
  "inflate_read z src window n =
     (if \<not> if_started z then Some (Err NotStarted, z, window, src)
      else case if_failed z of
        Some e \<Rightarrow> Some (Err e, z, window, src)
      | None \<Rightarrow> do {
          let b = \<lparr>br_input = input_new src (if_padding z), br_buf = if_bitbuf z, br_cnt = if_bitcnt z\<rparr>;
          (result, window, z, b) \<leftarrow> inflate_run (inflate_fuel z src) z b window n [];
          let z = z\<lparr>if_bitbuf := br_buf b, if_bitcnt := br_cnt b, if_padding := in_padding (br_input b)\<rparr>;
          let z = (case result of Err e \<Rightarrow> z\<lparr>if_failed := Some e\<rparr> | Ok _ \<Rightarrow> z);
          src \<leftarrow> input_drop block_ops (br_input b);
          Some (result, z, window, src)
        })"

end
