(* ===== verification/Inflate_Spec.thy ===== *)
theory Inflate_Spec
  imports Inflate
begin

text \<open>
  What the decompressor of \<open>Inflate\<close> computes: the window is the last 32768 bytes of what was written,
  a compressed block is the literals and copies its codes stand for (RFC 1951, 3.2.5), a stored block is
  the bytes of the input, and no read panics.
\<close>

section \<open>The window and copies\<close>

text \<open>A copy takes its bytes one by one, so it may reach into itself.\<close>

fun copy_text :: "nat \<Rightarrow> nat \<Rightarrow> u8 list \<Rightarrow> u8 list" where
  "copy_text 0 d h = h"
| "copy_text (Suc k) d h = copy_text k d (h @ [h ! (length h - d)])"

definition window_holds :: "nat \<Rightarrow> u8 list \<Rightarrow> u8 list \<Rightarrow> bool" where
  "window_holds wpos w h \<longleftrightarrow> length w = WINDOW_BYTES \<and> wpos < WINDOW_BYTES \<and> WINDOW_BYTES \<le> length h \<and>
     (\<forall>d \<in> {1..WINDOW_BYTES}. w ! window_back wpos d = h ! (length h - d))"

lemma window_back_less [simp]: "window_back wpos d < WINDOW_BYTES"
  by (simp add: window_back_def WINDOW_BYTES_def nat_less_iff)

lemma window_back_one: "wpos < WINDOW_BYTES \<Longrightarrow> window_back ((wpos + 1) mod WINDOW_BYTES) 1 = wpos"
  by (auto simp: window_back_def WINDOW_BYTES_def zmod_int mod_simps)

lemma window_back_Suc: "window_back ((wpos + 1) mod WINDOW_BYTES) (Suc d) = window_back wpos d"
proof -
  have "(int ((wpos + 1) mod WINDOW_BYTES) - int (Suc d)) mod int WINDOW_BYTES = (int wpos - int d) mod int WINDOW_BYTES"
    by (simp add: zmod_int mod_simps)
  then show ?thesis by (simp only: window_back_def)
qed

lemma window_back_neq:
  assumes "1 \<le> d" "d < WINDOW_BYTES" "wpos < WINDOW_BYTES"
  shows "window_back wpos d \<noteq> wpos"
proof -
  have "window_back wpos d = (if d \<le> wpos then wpos - d else wpos + WINDOW_BYTES - d)"
  proof (cases "d \<le> wpos")
    case True
    then show ?thesis using assms by (simp add: window_back_def nat_diff_distrib)
  next
    case False
    have "(int wpos - int d) mod int WINDOW_BYTES = (int wpos - int d + int WINDOW_BYTES) mod int WINDOW_BYTES" by simp
    also have "\<dots> = int wpos - int d + int WINDOW_BYTES" using False assms by (intro mod_pos_pos_trivial) auto
    finally show ?thesis using False assms by (simp add: window_back_def)
  qed
  then show ?thesis using assms by (auto split: if_splits)
qed

lemma window_holds_push:
  assumes "window_holds wpos w h"
  shows "window_holds ((wpos + 1) mod WINDOW_BYTES) (w[wpos := c]) (h @ [c])"
proof -
  have w: "length w = WINDOW_BYTES" "wpos < WINDOW_BYTES" "WINDOW_BYTES \<le> length h"
      "\<And>d. d \<in> {1..WINDOW_BYTES} \<Longrightarrow> w ! window_back wpos d = h ! (length h - d)"
    using assms by (auto simp: window_holds_def)
  have "w[wpos := c] ! window_back ((wpos + 1) mod WINDOW_BYTES) d = (h @ [c]) ! (length (h @ [c]) - d)"
    if "d \<in> {1..WINDOW_BYTES}" for d
  proof (cases "d = 1")
    case True
    then show ?thesis using w window_back_one by (simp add: nth_append)
  next
    case False
    moreover define e where "e = d - 1"
    ultimately have d: "d = Suc e" "1 \<le> e" using that by auto
    have "w[wpos := c] ! window_back wpos e = w ! window_back wpos e"
      using window_back_neq [of e wpos] that w(2) d by (intro nth_list_update_neq) auto
    moreover have "length h - e < length h" using d w(3) that by auto
    ultimately show ?thesis unfolding d(1) window_back_Suc using w(3) w(4) [of e] that d by (simp add: nth_append)
  qed
  moreover have "0 < WINDOW_BYTES" by (simp add: WINDOW_BYTES_def)
  ultimately show ?thesis using w by (simp add: window_holds_def)
qed

lemma window_holds_get:
  "window_holds wpos w h \<Longrightarrow> 1 \<le> d \<Longrightarrow> d \<le> WINDOW_BYTES \<Longrightarrow> arr_get w (window_back wpos d) = Some (h ! (length h - d))"
  by (simp add: window_holds_def)

lemma window_holds_set: "window_holds wpos w h \<Longrightarrow> arr_set w wpos c = Some (w[wpos := c])"
  by (simp add: window_holds_def)

lemma copy_run_spec:
  assumes "1 \<le> d" "d \<le> WINDOW_BYTES"
  shows "window_holds wpos w h \<Longrightarrow>
    \<exists>bytes wpos' w'. copy_run k d wpos w = Some (bytes, wpos', w') \<and> length bytes = k \<and> copy_text k d h = h @ bytes \<and>
      window_holds wpos' w' (h @ bytes)"
proof (induction k arbitrary: wpos w h)
  case (Suc k)
  let ?c = "h ! (length h - d)"
  obtain bytes wpos' w' where "copy_run k d ((wpos + 1) mod WINDOW_BYTES) (w[wpos := ?c]) = Some (bytes, wpos', w')"
      "length bytes = k" "copy_text k d (h @ [?c]) = (h @ [?c]) @ bytes" "window_holds wpos' w' ((h @ [?c]) @ bytes)"
    using Suc.IH [OF window_holds_push [OF Suc.prems, of ?c]] by blast
  then show ?case using window_holds_get [OF Suc.prems assms] window_holds_set [OF Suc.prems, of ?c] by simp
qed simp

lemma copy_text_add: "copy_text (j + k) d h = copy_text k d (copy_text j d h)"
  by (induction j arbitrary: h) auto

section \<open>Compressed blocks\<close>

text \<open>The length and the distance of a match: \<open>m\<close> is the length symbol less 257.\<close>

definition match_text :: "nat list \<Rightarrow> nat \<Rightarrow> bool list \<Rightarrow> nat \<Rightarrow> nat \<Rightarrow> bool list \<Rightarrow> bool" where
  "match_text D m bits len d rest \<longleftrightarrow> (\<exists>ds bits'.
     LEN_EXTRA ! m \<le> length bits \<and> len = LEN_BASE ! m + horner_sum of_bool 2 (take (LEN_EXTRA ! m) bits) \<and>
     has_code D ds (drop (LEN_EXTRA ! m) bits) bits' \<and> ds < 30 \<and>
     DIST_EXTRA ! ds \<le> length bits' \<and> d = DIST_BASE ! ds + horner_sum of_bool 2 (take (DIST_EXTRA ! ds) bits') \<and>
     rest = drop (DIST_EXTRA ! ds) bits')"

inductive text_step :: "nat list \<Rightarrow> nat list \<Rightarrow> u8 list \<times> bool list \<Rightarrow> u8 list \<times> bool list \<Rightarrow> bool"
  for L D :: "nat list" where
  literal: "has_code L s bits rest \<Longrightarrow> s < 256 \<Longrightarrow> text_step L D (h, bits) (h @ [word_of_nat s], rest)"
| repeat: "has_code L (257 + m) bits bits' \<Longrightarrow> m < 29 \<Longrightarrow> match_text D m bits' len d rest \<Longrightarrow>
    text_step L D (h, bits) (copy_text len d h, rest)"

lemma extra_bounds:
  "m < 29 \<Longrightarrow> LEN_EXTRA ! m \<le> 16 \<and> 0 < LEN_BASE ! m"
  "ds < 30 \<Longrightarrow> DIST_EXTRA ! ds \<le> 16 \<and> 1 \<le> DIST_BASE ! ds \<and> DIST_BASE ! ds + 2 ^ (DIST_EXTRA ! ds) \<le> Suc WINDOW_BYTES"
proof -
  have "list_all2 (\<lambda>e b. e \<le> 16 \<and> 0 < b) LEN_EXTRA LEN_BASE" by (simp add: LEN_EXTRA_def LEN_BASE_def)
  then show "m < 29 \<Longrightarrow> LEN_EXTRA ! m \<le> 16 \<and> 0 < LEN_BASE ! m"
    by (auto simp: list_all2_conv_all_nth LEN_EXTRA_def)
  have "list_all2 (\<lambda>e b. e \<le> 16 \<and> 1 \<le> b \<and> b + 2 ^ e \<le> Suc WINDOW_BYTES) DIST_EXTRA DIST_BASE"
    by (simp add: DIST_EXTRA_def DIST_BASE_def WINDOW_BYTES_def)
  then show "ds < 30 \<Longrightarrow> DIST_EXTRA ! ds \<le> 16 \<and> 1 \<le> DIST_BASE ! ds \<and> DIST_BASE ! ds + 2 ^ (DIST_EXTRA ! ds) \<le> Suc WINDOW_BYTES"
    by (auto simp: list_all2_conv_all_nth DIST_EXTRA_def)
qed

lemma length_tables [simp]:
  "length LEN_BASE = 29" "length LEN_EXTRA = 29" "length DIST_BASE = 30" "length DIST_EXTRA = 30" "length CL_ORDER = 19"
  by (simp_all add: LEN_BASE_def LEN_EXTRA_def DIST_BASE_def DIST_EXTRA_def CL_ORDER_def)

abbreviation bad_input :: "bitreader \<Rightarrow> codec_error \<Rightarrow> bool" where
  "bad_input b e \<equiv> e = Corrupt \<or> e = short_error b"

lemma short_error_cong: "reader_end b' = reader_end b \<Longrightarrow> short_error b' = short_error b"
  by (simp add: short_error_def)

lemma horner_take_less: "horner_sum of_bool 2 (take e bits) < (2 :: nat) ^ e"
proof -
  have "horner_sum of_bool 2 (take e bits) < (2 :: nat) ^ length (take e bits)" by (rule horner_sum_of_bool_2_less)
  also have "\<dots> \<le> 2 ^ e" by simp
  finally show ?thesis .
qed

lemma decode_match_spec:
  assumes "huffman_ok dist D" "reader_ok b" "m < 29"
  shows "reads (decode_match dist m b) b
    (\<lambda>(len, d) bs. match_text D m (reader_bits b) len d bs \<and> 0 < len \<and> 1 \<le> d \<and> d \<le> WINDOW_BYTES) (bad_input b)"
  unfolding decode_match_def arr_get_in [of m LEN_EXTRA, unfolded length_tables, OF assms(3)] bind.bind_lunit
proof (rule reads_and_then [OF bits_take_spec [OF assms(2) extra_bounds(1) [OF assms(3), THEN conjunct1]]])
  fix extra :: nat and b1
  assume b1: "reader_ok b1" "reader_end b1 = reader_end b"
    and P1: "LEN_EXTRA ! m \<le> length (reader_bits b) \<and> extra = horner_sum of_bool 2 (take (LEN_EXTRA ! m) (reader_bits b)) \<and>
      reader_bits b1 = drop (LEN_EXTRA ! m) (reader_bits b)"
  note se1 = short_error_cong [OF b1(2)]
  show "reads (and_then (bits_symbol dist b1) (\<lambda>ds b. if length DIST_BASE \<le> ds then Some (Err Corrupt, b)
       else do {
         dist_extra \<leftarrow> arr_get DIST_EXTRA ds;
         dist_base \<leftarrow> arr_get DIST_BASE ds;
         len_base \<leftarrow> arr_get LEN_BASE m;
         and_then (bits_take dist_extra b) (\<lambda>d b. Some (Ok (len_base + extra, dist_base + d), b))
       })) b1
    (\<lambda>(len, d) bs. match_text D m (reader_bits b) len d bs \<and> 0 < len \<and> 1 \<le> d \<and> d \<le> WINDOW_BYTES) (bad_input b)"
  proof (rule reads_and_then [OF bits_symbol_spec [OF assms(1) b1(1)]])
    fix ds b2
    assume b2: "reader_ok b2" "reader_end b2 = reader_end b1" and P2: "has_code D ds (reader_bits b1) (reader_bits b2)"
    note se2 = short_error_cong [OF b2(2)]
    show "reads (if length DIST_BASE \<le> ds then Some (Err Corrupt, b2)
       else do {
         dist_extra \<leftarrow> arr_get DIST_EXTRA ds;
         dist_base \<leftarrow> arr_get DIST_BASE ds;
         len_base \<leftarrow> arr_get LEN_BASE m;
         and_then (bits_take dist_extra b2) (\<lambda>d b. Some (Ok (len_base + extra, dist_base + d), b))
       }) b2
      (\<lambda>(len, d) bs. match_text D m (reader_bits b) len d bs \<and> 0 < len \<and> 1 \<le> d \<and> d \<le> WINDOW_BYTES) (bad_input b)"
    proof (cases "ds < 30")
      case False
      then show ?thesis using b2(1) by (simp add: reads_fail)
    next
      case True
      note bounds = extra_bounds(2) [OF True]
      have "reads (and_then (bits_take (DIST_EXTRA ! ds) b2) (\<lambda>d b. Some (Ok (LEN_BASE ! m + extra, DIST_BASE ! ds + d), b))) b2
        (\<lambda>(len, d) bs. match_text D m (reader_bits b) len d bs \<and> 0 < len \<and> 1 \<le> d \<and> d \<le> WINDOW_BYTES) (bad_input b)"
      proof (rule reads_and_then [OF bits_take_spec [OF b2(1)]])
        fix v :: nat and b3
        assume b3: "reader_ok b3" and P3: "DIST_EXTRA ! ds \<le> length (reader_bits b2) \<and>
            v = horner_sum of_bool 2 (take (DIST_EXTRA ! ds) (reader_bits b2)) \<and> reader_bits b3 = drop (DIST_EXTRA ! ds) (reader_bits b2)"
        have "v < 2 ^ (DIST_EXTRA ! ds)" using P3 horner_take_less by simp
        moreover have "match_text D m (reader_bits b) (LEN_BASE ! m + extra) (DIST_BASE ! ds + v) (reader_bits b3)"
          unfolding match_text_def using P1 P2 P3 True by (intro exI [of _ ds] exI [of _ "reader_bits b2"]) auto
        ultimately show "reads (Some (Ok (LEN_BASE ! m + extra, DIST_BASE ! ds + v), b3)) b3
          (\<lambda>(len, d) bs. match_text D m (reader_bits b) len d bs \<and> 0 < len \<and> 1 \<le> d \<and> d \<le> WINDOW_BYTES) (bad_input b)"
          using b3 bounds extra_bounds(1) [OF assms(3)] by (intro reads_return) auto
      qed (use bounds se1 se2 in auto)
      then show ?thesis using True assms(3) by simp
    qed
  qed (use se1 in auto)
qed auto

text \<open>The fields a block body leaves alone.\<close>

definition same_block :: "inflate \<Rightarrow> inflate \<Rightarrow> bool" where
  "same_block z z' \<longleftrightarrow> if_lit z' = if_lit z \<and> if_dist z' = if_dist z \<and> if_block_final z' = if_block_final z \<and>
     if_stored z' = if_stored z \<and> if_started z' = if_started z \<and> if_failed z' = if_failed z"

definition copy_ok :: "inflate \<Rightarrow> bool" where
  "copy_ok z \<longleftrightarrow> if_copy_rem z = 0 \<or> (1 \<le> if_copy_dist z \<and> if_copy_dist z \<le> WINDOW_BYTES)"

text \<open>What was written so far, and what a pending copy will add to it.\<close>

abbreviation with_copy :: "inflate \<Rightarrow> u8 list \<Rightarrow> u8 list" where
  "with_copy z h \<equiv> copy_text (if_copy_rem z) (if_copy_dist z) h"

definition decoded ::
  "nat list \<Rightarrow> nat list \<Rightarrow> nat \<Rightarrow> u8 list \<Rightarrow> bool list \<Rightarrow> inflate \<Rightarrow> u8 list \<Rightarrow> u8 list \<Rightarrow> bool list \<Rightarrow> bool" where
  "decoded L D n h bits z out h' bits' \<longleftrightarrow> (\<exists>rest. (text_step L D)\<^sup>*\<^sup>* (h, bits) (with_copy z h', rest) \<and>
     (if_block_active z \<and> length out = n \<and> rest = bits' \<or>
      \<not> if_block_active z \<and> if_copy_rem z = 0 \<and> if_ended z = if_block_final z \<and> has_code L 256 rest bits'))"

text \<open>What a run of \<open>decode\<close> promises, from the text \<open>h0\<close> and the bits \<open>bits\<close>; \<open>h\<close> is what was written before.\<close>

definition decode_result ::
  "nat list \<Rightarrow> nat list \<Rightarrow> nat \<Rightarrow> u8 list \<Rightarrow> inflate \<Rightarrow> bitreader \<Rightarrow> u8 list \<Rightarrow> bool list \<Rightarrow>
   ((codec_error, u8 list) res \<times> u8 list \<times> inflate \<times> bitreader) option \<Rightarrow> bool" where
  "decode_result L D n h z b h0 bits m \<longleftrightarrow> (\<exists>r window' z' b'. m = Some (r, window', z', b') \<and> same_block z z' \<and>
     if_stored_rem z' = if_stored_rem z \<and> input_fine (br_input b') \<and> reader_end b' = reader_end b \<and> length window' = WINDOW_BYTES \<and>
     (case r of
        Ok out' \<Rightarrow> reader_ok b' \<and> copy_ok z' \<and> window_holds (if_wpos z') window' (h @ out') \<and> length out' \<le> n \<and>
          decoded L D n h0 bits z' out' (h @ out') (reader_bits b')
      | Err e \<Rightarrow> bad_input b e))"

lemma decode_result_step:
  assumes "decode_result L D n h z1 b1 h1 bits1 m" and "(text_step L D)\<^sup>*\<^sup>* (h0, bits) (h1, bits1)"
    and "same_block z z1" "if_stored_rem z1 = if_stored_rem z" "reader_end b1 = reader_end b"
  shows "decode_result L D n h z b h0 bits m"
proof -
  have "decoded L D n h0 bits z' out' h' bits'" if "decoded L D n h1 bits1 z' out' h' bits'" for z' out' h' bits'
    using that assms(2) unfolding decoded_def by (blast intro: rtranclp_trans)
  moreover have "same_block z z'" if "same_block z1 z'" for z' using that assms(3) by (simp add: same_block_def)
  moreover have "short_error b1 = short_error b" using assms(5) by (rule short_error_cong)
  ultimately show ?thesis using assms(1,4,5) unfolding decode_result_def by (fastforce split: res.splits)
qed

lemma copy_pending_spec:
  assumes "copy_ok z" and "window_holds (if_wpos z) w h" and "k \<le> if_copy_rem z"
  shows "\<exists>bytes wpos' w'. copy_run k (if_copy_dist z) (if_wpos z) w = Some (bytes, wpos', w') \<and> length bytes = k \<and>
    window_holds wpos' w' (h @ bytes) \<and> copy_text (if_copy_rem z - k) (if_copy_dist z) (h @ bytes) = with_copy z h"
proof (cases "k = 0")
  case True
  then show ?thesis using assms by simp
next
  case False
  then obtain bytes wpos' w' where "copy_run k (if_copy_dist z) (if_wpos z) w = Some (bytes, wpos', w')" "length bytes = k"
      "copy_text k (if_copy_dist z) h = h @ bytes" "window_holds wpos' w' (h @ bytes)"
    using copy_run_spec [OF _ _ assms(2), of "if_copy_dist z" k] assms(1,3) by (auto simp: copy_ok_def)
  moreover have "with_copy z h = copy_text (if_copy_rem z - k) (if_copy_dist z) (copy_text k (if_copy_dist z) h)"
    using copy_text_add [of k "if_copy_rem z - k"] assms(3) by simp
  ultimately show ?thesis by simp
qed

lemma decode_loop_spec:
  assumes "huffman_ok (if_lit z) L" "huffman_ok (if_dist z) D" "if_block_active z" "copy_ok z"
    and "window_holds (if_wpos z) window (h @ out)" "reader_ok b" "length out \<le> n"
  shows "decode_result L D n h z b (with_copy z (h @ out)) (reader_bits b) (decode_loop n z window b out)"
  using assms
proof (induction "2 * (n - length out) + of_bool (if_copy_rem z = 0)" arbitrary: z window b out rule: less_induct)
  case less
  let ?run = "min (if_copy_rem z) (n - length out)"
  obtain bytes wpos1 w1 where run: "copy_run ?run (if_copy_dist z) (if_wpos z) window = Some (bytes, wpos1, w1)"
      "length bytes = ?run" "window_holds wpos1 w1 (h @ out @ bytes)"
      "copy_text (if_copy_rem z - ?run) (if_copy_dist z) (h @ out @ bytes) = with_copy z (h @ out)"
    using copy_pending_spec [OF less.prems(4,5), of ?run] by auto
  define z1 where "z1 = z\<lparr>if_wpos := wpos1, if_copy_rem := if_copy_rem z - ?run\<rparr>"
  define out1 where "out1 = out @ bytes"
  note loop = decode_loop.simps [of n z window b out, unfolded Let_def run(1) bind.bind_lunit prod.case, folded z1_def out1_def]
  have tables: "huffman_ok (if_lit z1) L" "huffman_ok (if_dist z1) D" "if_block_active z1" using less.prems(1-3) by (simp_all add: z1_def)
  have copy: "copy_ok z1" using less.prems(4) by (auto simp: copy_ok_def z1_def)
  have w1: "window_holds (if_wpos z1) w1 (h @ out1)" "length w1 = WINDOW_BYTES"
    using run(3) by (simp_all add: window_holds_def z1_def out1_def)
  have out1: "length out1 = length out + ?run" using run(2) by (simp add: out1_def)
  have same: "same_block z z1" "if_stored_rem z1 = if_stored_rem z" by (simp_all add: same_block_def z1_def)
  have with_z1: "with_copy z1 (h @ out1) = with_copy z (h @ out)" using run(4) by (simp add: z1_def out1_def)
  show ?case
  proof (cases "n \<le> length out1")
    case True
    then have n: "length out1 = n" using out1 less.prems(7) by auto
    then have "decoded L D n (with_copy z (h @ out)) (reader_bits b) z1 out1 (h @ out1) (reader_bits b)"
      unfolding decoded_def with_z1 using tables(3) by auto
    then show ?thesis using loop n copy w1 same less.prems(6) by (simp add: decode_result_def reader_ok_def)
  next
    case False
    then have rem: "if_copy_rem z1 = 0" using out1 less.prems(7) by (auto simp: z1_def)
    then have with_z: "with_copy z (h @ out) = h @ out1" using with_z1 by simp
    obtain r1 b1 where b1: "bits_symbol (if_lit z1) b = Some (r1, b1)" "input_fine (br_input b1)" "reader_end b1 = reader_end b"
        "case r1 of Ok s \<Rightarrow> reader_ok b1 \<and> has_code L s (reader_bits b) (reader_bits b1) | Err e \<Rightarrow> bad_input b e"
      using bits_symbol_spec [OF tables(1) less.prems(6)] unfolding reads_def by (fastforce split: res.splits)
    show ?thesis
    proof (cases r1)
      case (Err e)
      then show ?thesis using b1 False loop same w1 by (simp add: decode_result_def)
    next
      case (Ok s)
      then have r1: "reader_ok b1" and code: "has_code L s (reader_bits b) (reader_bits b1)" using b1(4) by simp_all
      note loop = loop [unfolded b1(1) Ok on_ok_simps]
      note se = short_error_cong [OF b1(3)]
      consider (lit) "s < 256" | (stop) "s = 256" | (match) "256 < s" by linarith
      then show ?thesis
      proof cases
        case lit
        let ?z = "z1\<lparr>if_wpos := (if_wpos z1 + 1) mod WINDOW_BYTES\<rparr>" and ?c = "word_of_nat s :: u8"
        have step: "decode_loop n z window b out = decode_loop n ?z (w1[if_wpos z1 := ?c]) b1 (out1 @ [?c])"
          using loop lit False window_holds_set [OF w1(1)] by simp
        have "text_step L D (with_copy z (h @ out), reader_bits b) (with_copy ?z (h @ out1 @ [?c]), reader_bits b1)"
          using text_step.literal [OF code lit, of D "h @ out1"] rem with_z by simp
        moreover have "decode_result L D n h ?z b1 (with_copy ?z (h @ out1 @ [?c])) (reader_bits b1)
            (decode_loop n ?z (w1[if_wpos z1 := ?c]) b1 (out1 @ [?c]))"
          using less.hyps [of "out1 @ [?c]" ?z "w1[if_wpos z1 := ?c]" b1] tables copy window_holds_push [OF w1(1), of ?c] r1 False
            rem out1 by (simp add: copy_ok_def)
        ultimately show ?thesis unfolding step using same b1(3) by (auto elim!: decode_result_step simp: same_block_def)
      next
        case stop
        let ?z = "z1\<lparr>if_block_active := False, if_ended := if_block_final z1\<rparr>"
        have "decoded L D n (with_copy z (h @ out)) (reader_bits b) ?z out1 (h @ out1) (reader_bits b1)"
          unfolding decoded_def with_z using code stop rem by (intro exI [of _ "reader_bits b"]) simp
        moreover have "decode_loop n z window b out = Some (Ok out1, w1, ?z, b1)" using loop stop False by simp
        ultimately show ?thesis using copy w1 same r1 b1 False by (simp add: decode_result_def same_block_def copy_ok_def)
      next
        case match
        define m where "m = s - 257"
        have s: "s = 257 + m" using match by (simp add: m_def)
        show ?thesis
        proof (cases "m < 29")
          case False
          then show ?thesis using loop match \<open>\<not> n \<le> length out1\<close> b1 same w1 by (simp add: decode_result_def m_def)
        next
          case True
          let ?P = "\<lambda>(len, d) bs. match_text D m (reader_bits b1) len d bs \<and> 0 < len \<and> 1 \<le> d \<and> d \<le> WINDOW_BYTES"
          obtain r2 b2 where b2: "decode_match (if_dist z1) m b1 = Some (r2, b2)" "input_fine (br_input b2)" "reader_end b2 = reader_end b1"
              "case r2 of Ok x \<Rightarrow> reader_ok b2 \<and> ?P x (reader_bits b2) | Err e \<Rightarrow> bad_input b1 e"
            using decode_match_spec [OF tables(2) r1 True] unfolding reads_def by blast
          note loop = loop [folded m_def, unfolded b2(1)]
          show ?thesis
          proof (cases r2)
            case (Err e)
            then show ?thesis using loop match \<open>\<not> n \<le> length out1\<close> True b1 b2 same w1 se by (auto simp: decode_result_def)
          next
            case (Ok x)
            obtain len d where x: "x = (len, d)" by fastforce
            have mt: "match_text D m (reader_bits b1) len d (reader_bits b2)" and bounds: "0 < len" "1 \<le> d" "d \<le> WINDOW_BYTES"
              and r2: "reader_ok b2" using b2(4) Ok x by simp_all
            let ?z = "z1\<lparr>if_copy_rem := len, if_copy_dist := d\<rparr>"
            have step: "decode_loop n z window b out = decode_loop n ?z w1 b2 out1"
              using loop match \<open>\<not> n \<le> length out1\<close> True Ok x bounds by simp
            have "text_step L D (with_copy z (h @ out), reader_bits b) (with_copy ?z (h @ out1), reader_bits b2)"
              using text_step.repeat [OF code [unfolded s] True mt, of "h @ out1"] with_z by simp
            moreover have "2 * (n - length out1) < 2 * (n - length out) + of_bool (if_copy_rem z = 0)"
              using \<open>\<not> n \<le> length out1\<close> out1 by (auto simp: min_def split: if_splits)
            then have "decode_result L D n h ?z b2 (with_copy ?z (h @ out1)) (reader_bits b2) (decode_loop n ?z w1 b2 out1)"
              using less.hyps [of out1 ?z w1 b2] tables w1(1) bounds r2 \<open>\<not> n \<le> length out1\<close> by (simp add: copy_ok_def)
            ultimately show ?thesis unfolding step using same b1(3) b2(3) by (auto elim!: decode_result_step simp: same_block_def)
          qed
        qed
      qed
    qed
  qed
qed

section \<open>The tables of a block\<close>

text \<open>The tables keep their size, also when a block fails.\<close>

definition shape :: "inflate \<Rightarrow> bool" where
  "shape z \<longleftrightarrow> length (hf_symbol (if_lit z)) = 288 \<and> length (hf_symbol (if_dist z)) = 288"

definition fixed_L :: "nat list" where
  "fixed_L = replicate 144 8 @ replicate 112 9 @ replicate 24 7 @ replicate 8 8"

definition fixed_D :: "nat list" where
  "fixed_D = replicate 30 5"

definition tables :: "inflate \<Rightarrow> nat list \<Rightarrow> nat list \<Rightarrow> bool" where
  "tables z L D \<longleftrightarrow> huffman_ok (if_lit z) L \<and> huffman_ok (if_dist z) D"

lemma tables_shape: "tables z L D \<Longrightarrow> shape z"
  by (simp add: tables_def shape_def huffman_ok_def)

text \<open>The lengths of the codes are themselves coded, with repeats (RFC 1951, 3.2.7); a repeat past the end is cut.\<close>

inductive length_step :: "nat list \<Rightarrow> nat \<Rightarrow> nat list \<times> bool list \<Rightarrow> nat list \<times> bool list \<Rightarrow> bool"
  for C :: "nat list" and n :: nat where
  plain: "has_code C s bits rest \<Longrightarrow> s \<le> 15 \<Longrightarrow> length ls < n \<Longrightarrow> length_step C n (ls, bits) (ls @ [s], rest)"
| run: "has_code C s bits bits' \<Longrightarrow> s \<in> {16, 17, 18} \<Longrightarrow> length ls < n \<Longrightarrow> (s = 16 \<Longrightarrow> ls \<noteq> []) \<Longrightarrow>
    e = (if s = 16 then 2 else if s = 17 then 3 else 7) \<Longrightarrow> e \<le> length bits' \<Longrightarrow>
    rep = (if s = 18 then 11 else 3) + horner_sum of_bool 2 (take e bits') \<Longrightarrow> v = (if s = 16 then last ls else 0) \<Longrightarrow>
    length_step C n (ls, bits) (take n (ls @ replicate rep v), drop e bits')"

fun code_length_text :: "nat list \<Rightarrow> nat list \<Rightarrow> bool list \<Rightarrow> nat list" where
  "code_length_text [] ls bits = ls"
| "code_length_text (order # orders) ls bits =
     code_length_text orders (ls[order := horner_sum of_bool 2 (take 3 bits)]) (drop 3 bits)"

definition bits_value :: "nat \<Rightarrow> nat \<Rightarrow> bool list \<Rightarrow> nat" where
  "bits_value at k bits = horner_sum of_bool 2 (take k (drop at bits))"

definition dynamic_text :: "bool list \<Rightarrow> nat list \<Rightarrow> nat list \<Rightarrow> bool list \<Rightarrow> bool" where
  "dynamic_text bits L D rest \<longleftrightarrow>
     (let hlit = bits_value 0 5 bits + 257; hdist = bits_value 5 5 bits + 1; hclen = bits_value 10 4 bits + 4 in
      hlit \<le> 286 \<and> hdist \<le> 30 \<and> 14 + 3 * hclen \<le> length bits \<and>
      (length_step (code_length_text (take hclen CL_ORDER) (replicate 19 0) (drop 14 bits)) (hlit + hdist))\<^sup>*\<^sup>*
        ([], drop (14 + 3 * hclen) bits) (L @ D, rest) \<and>
      length L = hlit \<and> length D = hdist)"

lemma build_fixed_spec:
  assumes "shape z"
  shows "\<exists>lit dist. build_fixed z = Some (z\<lparr>if_lit := lit, if_dist := dist\<rparr>) \<and> huffman_ok lit fixed_L \<and> huffman_ok dist fixed_D"
proof -
  have L: "\<forall>l \<in> set fixed_L. l \<le> 15" "length fixed_L \<le> 288" and D: "\<forall>l \<in> set fixed_D. l \<le> 15" "length fixed_D \<le> 288"
    by (auto simp: fixed_L_def fixed_D_def)
  have list: "[1..<16] = [1, 2, 3, 4, 5, 6, 7, 8, 9, 10, 11, 12, 13, 14, 15 :: nat]" by (simp add: upt_conv_Cons)
  have "map (count_list fixed_L) [1..<16] = [0, 0, 0, 0, 0, 0, 24, 152, 112, 0, 0, 0, 0, 0, 0]" "count_list fixed_L 0 = 0"
    "map (count_list fixed_D) [1..<16] = [0, 0, 0, 0, 30, 0, 0, 0, 0, 0, 0, 0, 0, 0, 0]" "count_list fixed_D 0 = 0"
    unfolding list by (simp_all add: fixed_L_def fixed_D_def count_list_replicate count_list_append)
  then have "0 \<le> left" if "construct h fixed_L = Some (left, h') \<or> construct h fixed_D = Some (left, h')" for h left h'
    using that construct_left [OF L(1), of h left h'] construct_left [OF D(1), of h left h'] by (auto simp: Let_def)
  then show ?thesis
    using construct_spec [OF L, of "if_lit z"] construct_spec [OF D, of "if_dist z"] assms
    unfolding shape_def build_fixed_def fixed_L_def [symmetric] fixed_D_def [symmetric] by fastforce
qed

lemma length_symbol_spec:
  assumes "reader_ok b" "s < 19" "idx < n" "n \<le> length lengths" "\<forall>l \<in> set lengths. l \<le> 15"
    and code: "has_code C s bits (reader_bits b)"
  shows "reads (length_symbol s idx lengths b) b
    (\<lambda>(v, rep) bs. v \<le> 15 \<and> 0 < rep \<and> length_step C n (take idx lengths, bits) (take n (take idx lengths @ replicate rep v), bs))
    (bad_input b)"
proof -
  let ?ls = "take idx lengths"
  have step: "length_step C n (?ls, bits) (take n (?ls @ replicate (base + horner_sum of_bool 2 (take e (reader_bits b))) v), drop e (reader_bits b))"
    if "e \<le> length (reader_bits b)" "s \<in> {16, 17, 18}" "s = 16 \<Longrightarrow> 0 < idx" "e = (if s = 16 then 2 else if s = 17 then 3 else 7)"
      "base = (if s = 18 then 11 else 3)" "v = (if s = 16 then last ?ls else 0)" for e base v
    using that assms(3,4) by (intro length_step.run [OF code]) auto
  have run: "reads (and_then (bits_take e b) (\<lambda>rep b. Some (Ok (v, base + rep), b))) b
    (\<lambda>(v, rep) bs. v \<le> 15 \<and> 0 < rep \<and> length_step C n (?ls, bits) (take n (?ls @ replicate rep v), bs)) (bad_input b)"
    if "s \<in> {16, 17, 18}" "s = 16 \<Longrightarrow> 0 < idx" "e = (if s = 16 then 2 else if s = 17 then 3 else 7)"
      "base = (if s = 18 then 11 else 3)" "v = (if s = 16 then last ?ls else 0)" "v \<le> 15" for e base v
  proof (rule reads_and_then [OF bits_take_spec [OF assms(1)]])
    fix x :: nat and b'
    assume "reader_ok b'" and P: "e \<le> length (reader_bits b) \<and> x = horner_sum of_bool 2 (take e (reader_bits b)) \<and>
        reader_bits b' = drop e (reader_bits b)"
    then show "reads (Some (Ok (v, base + x), b')) b'
      (\<lambda>(v, rep) bs. v \<le> 15 \<and> 0 < rep \<and> length_step C n (?ls, bits) (take n (?ls @ replicate rep v), bs)) (bad_input b)"
      using step [OF _ that(1-5)] that(5,6) by (intro reads_return) (simp_all add: that(4))
  qed (use that(3) in auto)
  consider "s \<le> 15" | "s = 16" "idx = 0" | "s = 16" "0 < idx" | "s = 17" | "s = 18" using assms(2) by linarith
  then show ?thesis
  proof cases
    case 1
    then show ?thesis using assms length_step.plain [OF code, of "take idx lengths" n]
      by (auto simp: length_symbol_def intro!: reads_return)
  next
    case 2
    then show ?thesis using assms by (simp add: length_symbol_def reads_fail)
  next
    case 3
    have "take idx lengths \<noteq> []" using 3 assms(3,4) by auto
    then have prev: "lengths ! (idx - 1) = last (take idx lengths)" "lengths ! (idx - 1) \<le> 15"
      using 3 assms(3-5) by (auto simp: last_conv_nth min_absorb2)
    show ?thesis using run [of 2 3 "last (take idx lengths)"] 3 assms(3,4) prev by (simp add: length_symbol_def)
  next
    case 4
    then show ?thesis using run [of 3 3 0] by (simp add: length_symbol_def)
  next
    case 5
    then show ?thesis using run [of 7 11 0] by (simp add: length_symbol_def)
  qed
qed

lemma read_lengths_spec:
  assumes h: "huffman_ok h C" "length C = 19"
  shows "reader_ok b \<Longrightarrow> idx \<le> n \<Longrightarrow> n \<le> length lengths \<Longrightarrow> \<forall>l \<in> set lengths. l \<le> 15 \<Longrightarrow>
    reads (read_lengths h n idx lengths b) b
      (\<lambda>ls bs. length ls = length lengths \<and> (\<forall>l \<in> set ls. l \<le> 15) \<and>
         (length_step C n)\<^sup>*\<^sup>* (take idx lengths, reader_bits b) (take n ls, bs))
      (bad_input b)"
proof (induction "n - idx" arbitrary: idx lengths b rule: less_induct)
  case less
  show ?case
  proof (cases "idx < n")
    case False
    then have "read_lengths h n idx lengths b = Some (Ok lengths, b)" by (simp add: read_lengths.simps)
    then show ?thesis using less.prems False by (auto intro!: reads_return)
  next
    case True
    let ?P = "\<lambda>ls bs. length ls = length lengths \<and> (\<forall>l \<in> set ls. l \<le> 15) \<and>
         (length_step C n)\<^sup>*\<^sup>* (take idx lengths, reader_bits b) (take n ls, bs)"
    show ?thesis
      unfolding read_lengths.simps [of h n idx lengths b] if_P [OF True]
    proof (rule reads_and_then [OF bits_symbol_spec [OF h(1) less.prems(1)]])
      fix s b1
      assume b1: "reader_ok b1" "reader_end b1 = reader_end b" and code: "has_code C s (reader_bits b) (reader_bits b1)"
      have s: "s < 19" using code h(2) by (simp add: has_code_def)
      note se1 = short_error_cong [OF b1(2)]
      show "reads (and_then (length_symbol s idx lengths b1) (\<lambda>(v, rep) b. let stop = min (idx + rep) n in
          if rep = 0 then None
          else do {
            lengths \<leftarrow> copy_at lengths idx (replicate (stop - idx) v);
            read_lengths h n stop lengths b
          })) b1 ?P (bad_input b)"
      proof (rule reads_and_then [OF length_symbol_spec [OF b1(1) s True less.prems(3,4) code]])
        fix x b2
        assume b2: "reader_ok b2" "reader_end b2 = reader_end b1"
          and P: "(case x of (v, rep) \<Rightarrow> \<lambda>bs. v \<le> 15 \<and> 0 < rep \<and>
            length_step C n (take idx lengths, reader_bits b) (take n (take idx lengths @ replicate rep v), bs)) (reader_bits b2)"
        obtain v rep where x: "x = (v, rep)" by fastforce
        have v: "v \<le> 15" "0 < rep" and step: "length_step C n (take idx lengths, reader_bits b)
            (take n (take idx lengths @ replicate rep v), reader_bits b2)"
          using P x by simp_all
        let ?stop = "min (idx + rep) n"
        let ?ls = "take idx lengths @ replicate (?stop - idx) v @ drop ?stop lengths"
        have stop: "idx \<le> ?stop" "?stop \<le> n" "idx < ?stop" "idx + (?stop - idx) = ?stop" using True v(2) by auto
        have copy: "copy_at lengths idx (replicate (?stop - idx) v) = Some ?ls"
          using stop less.prems(3) by (simp add: copy_at_def)
        have all: "length ?ls = length lengths" "\<forall>l \<in> set ?ls. l \<le> 15"
          using stop less.prems(2-4) v(1) by (auto dest: in_set_takeD in_set_dropD)
        have part: "take ?stop ?ls = take n (take idx lengths @ replicate rep v)"
          using stop less.prems(2,3) by (auto simp: min_def)
        have IH: "reads (read_lengths h n ?stop ?ls b2) b2 (\<lambda>ls bs. length ls = length ?ls \<and> (\<forall>l \<in> set ls. l \<le> 15) \<and>
            (length_step C n)\<^sup>*\<^sup>* (take ?stop ?ls, reader_bits b2) (take n ls, bs)) (bad_input b2)"
          using less.hyps [of ?stop b2 ?ls] stop all less.prems(3) True b2(1) by simp
        have "reads (read_lengths h n ?stop ?ls b2) b2 ?P (bad_input b)"
          using step by (intro reads_mono [OF IH]) (use part all short_error_cong [OF b2(2)] se1 in \<open>auto intro: converse_rtranclp_into_rtranclp\<close>)
        then show "reads ((case x of (v, rep) \<Rightarrow> \<lambda>b. let stop = min (idx + rep) n in
          if rep = 0 then None
          else do {
            lengths \<leftarrow> copy_at lengths idx (replicate (stop - idx) v);
            read_lengths h n stop lengths b
          }) b2) b2 ?P (bad_input b)"
          using copy v x by (simp add: Let_def)
      qed (use se1 in auto)
    qed auto
  qed
qed

lemma read_code_lengths_spec:
  "reader_ok b \<Longrightarrow> \<forall>o' \<in> set orders. o' < length lengths \<Longrightarrow> \<forall>l \<in> set lengths. l \<le> 7 \<Longrightarrow>
   reads (read_code_lengths orders lengths b) b
     (\<lambda>ls bs. 3 * length orders \<le> length (reader_bits b) \<and> ls = code_length_text orders lengths (reader_bits b) \<and>
        length ls = length lengths \<and> (\<forall>l \<in> set ls. l \<le> 7) \<and> bs = drop (3 * length orders) (reader_bits b))
     (bad_input b)"
proof (induction orders arbitrary: lengths b)
  case Nil
  then show ?case by (auto intro!: reads_return)
next
  case (Cons order orders)
  let ?P = "\<lambda>ls bs. 3 * length (order # orders) \<le> length (reader_bits b) \<and> ls = code_length_text (order # orders) lengths (reader_bits b) \<and>
        length ls = length lengths \<and> (\<forall>l \<in> set ls. l \<le> 7) \<and> bs = drop (3 * length (order # orders)) (reader_bits b)"
  show ?case unfolding read_code_lengths.simps
  proof (rule reads_and_then [OF bits_take_spec [OF Cons.prems(1)]])
    fix v :: nat and b'
    assume b': "reader_ok b'" "reader_end b' = reader_end b"
      and P: "3 \<le> length (reader_bits b) \<and> v = horner_sum of_bool 2 (take 3 (reader_bits b)) \<and> reader_bits b' = drop 3 (reader_bits b)"
    have "v < 2 ^ 3" using P horner_take_less by blast
    then have v: "\<forall>l \<in> set (lengths[order := v]). l \<le> 7" using Cons.prems(3) by (auto dest!: set_update_subset_insert [THEN subsetD])
    have "reads (read_code_lengths orders (lengths[order := v]) b') b' ?P (bad_input b)"
      by (intro reads_mono [OF Cons.IH [OF b'(1)]]) (use Cons.prems v P short_error_cong [OF b'(2)] in \<open>auto simp: add.commute\<close>)
    then show "reads (do { lengths \<leftarrow> arr_set lengths order v; read_code_lengths orders lengths b' }) b' ?P (bad_input b)"
      using Cons.prems(2) by simp
  qed auto
qed

text \<open>What the operations that build tables promise.\<close>

definition builds ::
  "((codec_error, 'a) res \<times> inflate \<times> bitreader) option \<Rightarrow> bitreader \<Rightarrow> inflate \<Rightarrow> ('a \<Rightarrow> inflate \<Rightarrow> bool list \<Rightarrow> bool) \<Rightarrow> bool" where
  "builds m b z P \<longleftrightarrow> (\<exists>r z' b'. m = Some (r, z', b') \<and> input_fine (br_input b') \<and> reader_end b' = reader_end b \<and> shape z' \<and>
     if_started z' = if_started z \<and> if_failed z' = if_failed z \<and> if_wpos z' = if_wpos z \<and>
     (case r of Ok x \<Rightarrow> reader_ok b' \<and> P x z' (reader_bits b') | Err e \<Rightarrow> bad_input b e))"

definition like :: "inflate \<Rightarrow> inflate \<Rightarrow> bool" where
  "like z z' \<longleftrightarrow> if_started z' = if_started z \<and> if_failed z' = if_failed z \<and> if_wpos z' = if_wpos z"

lemma builds_on_ok:
  assumes "reads m b P Q" and "shape z'" "like z z'"
    and "\<And>x b'. reader_ok b' \<Longrightarrow> reader_end b' = reader_end b \<Longrightarrow> P x (reader_bits b') \<Longrightarrow> builds (f x b') b' z P'"
    and "\<And>e. Q e \<Longrightarrow> bad_input b e"
  shows "builds (on_ok m f (\<lambda>e b. (z', b))) b z P'"
proof -
  obtain r c where c: "m = Some (r, c)" "input_fine (br_input c)" "reader_end c = reader_end b"
      "case r of Ok x \<Rightarrow> reader_ok c \<and> P x (reader_bits c) | Err e \<Rightarrow> Q e"
    using assms(1) by (auto simp: reads_def)
  show ?thesis
  proof (cases r)
    case (Err e)
    then show ?thesis using c assms(2,3,5) by (simp add: builds_def like_def)
  next
    case (Ok x)
    then have "builds (f x c) c z P'" using c assms(4) by simp
    then show ?thesis using Ok c short_error_cong [OF c(3)] unfolding builds_def by (fastforce split: res.splits)
  qed
qed

lemma builds_return: "reader_ok b \<Longrightarrow> shape z' \<Longrightarrow> like z z' \<Longrightarrow> P x z' (reader_bits b) \<Longrightarrow> builds (Some (Ok x, z', b)) b z P"
  by (auto simp: builds_def like_def reader_ok_def)

lemma builds_fail: "reader_ok b \<Longrightarrow> shape z' \<Longrightarrow> like z z' \<Longrightarrow> bad_input b e \<Longrightarrow> builds (Some (Err e, z', b)) b z P"
  by (auto simp: builds_def like_def reader_ok_def)

lemma builds_guard:
  "reader_ok b \<Longrightarrow> shape z' \<Longrightarrow> like z z' \<Longrightarrow> bad_input b e \<Longrightarrow> (\<not> c \<Longrightarrow> builds m b z P) \<Longrightarrow>
   builds (if c then Some (Err e, z', b) else m) b z P"
  by (auto intro: builds_fail)

lemma builds_bind: "m = Some x \<Longrightarrow> builds (f x) b z P \<Longrightarrow> builds (do { x \<leftarrow> m; f x }) b z P"
  by simp

lemma builds_construct:
  assumes "\<forall>l \<in> set L. l \<le> 15" "length L \<le> 288" "length (hf_symbol h) = 288" "reader_ok b" "bad_input b e"
    and "\<And>left h'. length (hf_symbol h') = 288 \<Longrightarrow> shape (g h') \<and> like z (g h')"
    and "\<And>left h'. construct h L = Some (left, h') \<Longrightarrow> huffman_ok h' L \<Longrightarrow> builds (f h') b z P"
  shows "builds (do { (left, h') \<leftarrow> construct h L; if left < 0 then Some (Err e, g h', b) else f h' }) b z P"
proof -
  obtain left h' where c: "construct h L = Some (left, h')" "length (hf_symbol h') = 288" "0 \<le> left \<longrightarrow> huffman_ok h' L"
    using construct_spec [OF assms(1-3)] by blast
  show ?thesis
  proof (cases "left < 0")
    case True
    then show ?thesis using c assms(4-6) by (auto intro!: builds_fail)
  next
    case False
    then show ?thesis using c assms(7) by simp
  qed
qed

lemma CL_ORDER_less: "o' \<in> set CL_ORDER \<Longrightarrow> o' < 19"
  by (auto simp: CL_ORDER_def)

lemma build_dynamic_spec:
  assumes b: "reader_ok b" and z: "shape z"
  shows "builds (build_dynamic z b) b z (\<lambda>_ z' bs. \<exists>L D. tables z' L D \<and> dynamic_text (reader_bits b) L D bs \<and>
    z' = z\<lparr>if_lit := if_lit z', if_dist := if_dist z'\<rparr>)"
    (is "builds _ _ _ ?P")
  unfolding build_dynamic_def Let_def
proof (rule builds_on_ok [OF bits_take_spec [OF b] z], goal_cases)
  case (3 hlit b1)
  note b1 = 3
  show ?case
  proof (rule builds_on_ok [OF bits_take_spec [OF b1(1)] z], goal_cases)
    case (3 hdist b2)
    note b2 = 3
    show ?case
    proof (rule builds_on_ok [OF bits_take_spec [OF b2(1)] z], goal_cases)
      case (3 hclen b3)
      note b3 = 3
      let ?bits = "reader_bits b"
      define len where "len = hlit + 257" define dst where "dst = hdist + 1" define cl where "cl = hclen + 4"
      note folds = len_def [symmetric] dst_def [symmetric] cl_def [symmetric]
      have vals: "len = bits_value 0 5 ?bits + 257" "dst = bits_value 5 5 ?bits + 1" "cl = bits_value 10 4 ?bits + 4"
        using b1 b2 b3 by (simp_all add: bits_value_def len_def dst_def cl_def)
      have bits3: "reader_bits b3 = drop 14 ?bits" "reader_end b3 = reader_end b" using b1 b2 b3 by simp_all
      have "horner_sum of_bool 2 (take 4 (reader_bits b2)) < (2::nat) ^ 4" by (rule horner_take_less)
      then have cl: "cl \<le> 19" using b3(3) by (simp add: cl_def)
      show ?case unfolding folds
      proof (rule builds_guard [OF b3(1) z], goal_cases)
        case 3
        then have small: "len \<le> 286" "dst \<le> 30" by simp_all
        have orders: "slice CL_ORDER 0 cl = Some (take cl CL_ORDER)" using cl by (simp add: slice_def)
        let ?C = "code_length_text (take cl CL_ORDER) (replicate 19 0) (reader_bits b3)"
        show ?case
        proof (rule builds_bind [OF orders], rule builds_on_ok [OF read_code_lengths_spec [OF b3(1)] z], goal_cases)
          case (4 ls b4)
          note b4 = 4
          have C: "ls = ?C" "length ?C = 19" "\<forall>l \<in> set ?C. l \<le> 15" "3 * cl \<le> length (reader_bits b3)"
            "reader_bits b4 = drop (3 * cl) (reader_bits b3)"
            using b4(3) cl by auto
          show ?case
          proof (rule builds_construct [of ls "if_dist z"], goal_cases)
            case (7 left dist)
            note dist = 7
            show ?case
            proof (rule builds_on_ok [OF read_lengths_spec [of "if_dist (z\<lparr>if_dist := dist\<rparr>)" ?C b4 0 "len + dst" "replicate 316 0"]], goal_cases)
              case (9 lens b5)
              note b5 = 9
              have lens: "length lens = 316" "\<forall>l \<in> set lens. l \<le> 15"
                "(length_step ?C (len + dst))\<^sup>*\<^sup>* ([], reader_bits b4) (take (len + dst) lens, reader_bits b5)"
                using b5(3) by simp_all
              let ?L = "take len lens" and ?D = "take dst (drop len lens)"
              have slices: "slice lens 0 len = Some ?L" "slice lens len (len + dst) = Some ?D" "take (len + dst) lens = ?L @ ?D"
                using small lens(1) by (simp_all add: slice_def take_add)
              have dyn: "dynamic_text ?bits ?L ?D (reader_bits b5)"
                unfolding dynamic_text_def Let_def vals [symmetric] using small C(4,5) lens(1,3) slices(3) bits3(1) vals cl
                by (auto simp: add.commute)
              show ?case
              proof (rule builds_bind [OF slices(1)], rule builds_bind [OF slices(2)], rule builds_construct [of ?L], goal_cases)
                case (7 left lit)
                note lit = 7
                show ?case
                proof (rule builds_construct [of ?D], goal_cases)
                  case (7 left dist')
                  then show ?case using lit dyn b5(1)
                    by (intro builds_return exI [of _ ?L] exI [of _ ?D])
                      (auto simp: tables_def shape_def like_def huffman_ok_def)
                qed (use lens small dist lit z b5 in \<open>auto simp: shape_def like_def huffman_ok_def dest: in_set_takeD in_set_dropD\<close>)
              qed (use lens small dist z b5 in \<open>auto simp: shape_def like_def huffman_ok_def dest: in_set_takeD\<close>)
            qed (use dist C b4 small z in \<open>auto simp: shape_def like_def huffman_ok_def\<close>)
          qed (use C b4 z in \<open>auto simp: shape_def like_def\<close>)
        qed (use cl CL_ORDER_less in \<open>auto simp: like_def dest: in_set_takeD\<close>)
      qed (auto simp: like_def)
    qed (auto simp: like_def)
  qed (auto simp: like_def)
qed (auto simp: like_def)

section \<open>Stored blocks\<close>

lemma input_byte_cases:
  assumes "input_fine (br_input b)"
  obtains (some) c cs j where "input_byte block_ops (br_input b) = Some (Ok (Some c), j)" "input_left block_content (br_input b) = c # cs"
      "input_left block_content j = cs" "input_fine j" "in_padding j = in_padding (br_input b)" "sr_end (in_src j) = reader_end b"
  | (none) j where "input_byte block_ops (br_input b) = Some (Ok None, j)" "input_left block_content (br_input b) = []"
      "input_left block_content j = []" "input_fine j" "in_padding j = in_padding (br_input b)" "sr_end (in_src j) = reader_end b"
      "reader_end b = None"
  | (fail) e j where "input_byte block_ops (br_input b) = Some (Err e, j)" "input_left block_content (br_input b) = []"
      "input_left block_content j = []" "input_fine j" "in_padding j = in_padding (br_input b)" "sr_end (in_src j) = reader_end b"
      "reader_end b = Some e"
  using bl.byte_ok [OF assms]
  by (cases "input_left block_content (br_input b)"; cases "sr_end (in_src (br_input b))") (auto simp: reader_end_def)

lemma stored_loop_spec:
  assumes "input_fine (br_input b)" and "window_holds wpos window h"
  shows "\<exists>r window' z' b'. stored_loop room wpos window z b = Some (r, window', z', b') \<and> length window' = WINDOW_BYTES \<and>
    input_fine (br_input b') \<and> reader_end b' = reader_end b \<and> br_cnt b' = br_cnt b \<and> br_buf b' = br_buf b \<and>
    in_padding (br_input b') = in_padding (br_input b) \<and>
    (let k = min room (if_stored_rem z); left = input_left block_content (br_input b) in
     if k \<le> length left
     then z' = z\<lparr>if_stored_rem := if_stored_rem z - k\<rparr> \<and> input_left block_content (br_input b') = drop k left \<and>
       (\<exists>wpos'. r = Ok (take k left, wpos') \<and> window_holds wpos' window' (h @ take k left))
     else r = Err (short_error b) \<and> (\<exists>n. z' = z\<lparr>if_stored_rem := n\<rparr>))"
  using assms
proof (induction room arbitrary: wpos window z b h)
  case 0
  then show ?case by (simp add: window_holds_def)
next
  case (Suc room)
  have w: "length window = WINDOW_BYTES" using Suc.prems(2) by (simp add: window_holds_def)
  show ?case
  proof (cases "if_stored_rem z = 0")
    case True
    then show ?thesis using Suc.prems w by simp
  next
    case False
    show ?thesis using Suc.prems(1)
    proof (cases rule: input_byte_cases)
      case (none j)
      then show ?thesis using False w
        by (auto simp: reader_end_def short_error_def Let_def min_def intro!: exI [of _ "if_stored_rem z"])
    next
      case (fail e j)
      then show ?thesis using False w
        by (auto simp: reader_end_def short_error_def Let_def min_def intro!: exI [of _ "if_stored_rem z"])
    next
      case (some c cs j)
      let ?z = "z\<lparr>if_stored_rem := if_stored_rem z - 1\<rparr>" and ?b = "b\<lparr>br_input := j\<rparr>" and ?w = "window[wpos := c]"
      have k: "min (Suc room) (if_stored_rem z) = Suc (min room (if_stored_rem ?z))" using False by auto
      have e: "reader_end ?b = reader_end b" "short_error ?b = short_error b" using some by (simp_all add: reader_end_def short_error_def)
      have fine: "input_fine (br_input ?b)" and left: "input_left block_content (br_input ?b) = cs" using some by simp_all
      obtain r window' z' b' where run: "stored_loop room ((wpos + 1) mod WINDOW_BYTES) ?w ?z ?b = Some (r, window', z', b')"
        and post: "length window' = WINDOW_BYTES" "input_fine (br_input b')" "reader_end b' = reader_end ?b" "br_cnt b' = br_cnt ?b"
          "br_buf b' = br_buf ?b" "in_padding (br_input b') = in_padding (br_input ?b)"
        and res: "if min room (if_stored_rem ?z) \<le> length cs
          then z' = ?z\<lparr>if_stored_rem := if_stored_rem ?z - min room (if_stored_rem ?z)\<rparr> \<and>
            input_left block_content (br_input b') = drop (min room (if_stored_rem ?z)) cs \<and>
            (\<exists>wpos'. r = Ok (take (min room (if_stored_rem ?z)) cs, wpos') \<and>
               window_holds wpos' window' ((h @ [c]) @ take (min room (if_stored_rem ?z)) cs))
          else r = Err (short_error ?b) \<and> (\<exists>n. z' = ?z\<lparr>if_stored_rem := n\<rparr>)"
        using Suc.IH [OF fine window_holds_push [OF Suc.prems(2), of c], of ?z, unfolded Let_def left] by blast
      have loop: "stored_loop (Suc room) wpos window z b =
          and_then (stored_loop room ((wpos + 1) mod WINDOW_BYTES) ?w ?z ?b) (\<lambda>(bytes, wpos) s. Some (Ok (c # bytes, wpos), s))"
        using False some(1) window_holds_set [OF Suc.prems(2)] by simp
      show ?thesis
      proof (cases "min room (if_stored_rem ?z) \<le> length cs")
        case True
        then show ?thesis using res run post some(2,5) e unfolding loop k by auto
      next
        case False
        then show ?thesis using res run post some(2,5) e unfolding loop k by auto
      qed
    qed
  qed
qed

lemma next_byte_spec:
  assumes "reader_ok b"
  shows "reads (map_option (\<lambda>(r, i). (r, b\<lparr>br_input := i\<rparr>)) (input_byte block_ops (br_input b))) b
    (\<lambda>_ bs. length bs \<le> length (reader_bits b)) (bad_input b)"
proof -
  have "input_fine (br_input b)" using assms by (simp add: reader_ok_def)
  then show ?thesis
  proof (cases rule: input_byte_cases)
    case (some c cs j)
    then show ?thesis using assms by (simp add: reads_def reader_end_def reader_ok_def reader_bits_def)
  next
    case (none j)
    then show ?thesis using assms by (simp add: reads_def reader_end_def reader_ok_def reader_bits_def)
  next
    case (fail e j)
    then show ?thesis using assms by (simp add: reads_def reader_end_def short_error_def)
  qed
qed

lemma reads_shorter:
  assumes "reads m b (\<lambda>_ bs. length bs \<le> length (reader_bits b)) (bad_input b)"
    and "\<And>x b'. reader_ok b' \<Longrightarrow> reads (f x b') b' (\<lambda>_ bs. length bs \<le> length (reader_bits b')) (bad_input b')"
  shows "reads (and_then m f) b (\<lambda>_ bs. length bs \<le> length (reader_bits b)) (bad_input b)"
proof (rule reads_and_then [OF assms(1)])
  fix x b'
  assume b': "reader_ok b'" "reader_end b' = reader_end b" and le: "length (reader_bits b') \<le> length (reader_bits b)"
  show "reads (f x b') b' (\<lambda>_ bs. length bs \<le> length (reader_bits b)) (bad_input b)"
    using le short_error_cong [OF b'(2)] by (intro reads_mono [OF assms(2) [OF b'(1)]]) auto
qed

lemma stored_header_spec:
  assumes "reader_ok b"
  shows "reads (stored_header b) b (\<lambda>_ bs. length bs \<le> length (reader_bits b)) (bad_input b)"
proof -
  let ?b = "b\<lparr>br_buf := 0, br_cnt := 0\<rparr>"
  have ok: "reader_ok ?b" using assms by (simp add: reader_ok_def)
  have e: "reader_end ?b = reader_end b" by (simp add: reader_end_def)
  have "reads (stored_header b) ?b (\<lambda>_ bs. length bs \<le> length (reader_bits ?b)) (bad_input ?b)"
    unfolding stored_header_def Let_def
    apply (rule reads_shorter [OF next_byte_spec [OF ok]])
    apply (rule reads_shorter, erule next_byte_spec)+
    apply (erule reads_return, rule order_refl)
    done
  note reads_from [OF this e]
  moreover have "length (reader_bits ?b) \<le> length (reader_bits b)" by (simp add: reader_bits_def e)
  ultimately show ?thesis using short_error_cong [OF e] by (auto elim: reads_mono)
qed

section \<open>Blocks\<close>

text \<open>Every step takes bits.\<close>

lemma has_code_shorter: "has_code L s bits rest \<Longrightarrow> length rest < length bits"
  by (auto simp: has_code_def)

lemma length_steps_shorter: "(length_step C n)\<^sup>*\<^sup>* p q \<Longrightarrow> length (snd q) \<le> length (snd p)"
  by (induction rule: rtranclp_induct) (auto elim!: length_step.cases dest!: has_code_shorter)

lemma text_steps_shorter: "(text_step L D)\<^sup>*\<^sup>* p q \<Longrightarrow> length (snd q) \<le> length (snd p)"
  by (induction rule: rtranclp_induct) (auto elim!: text_step.cases dest!: has_code_shorter simp: match_text_def)

lemma dynamic_text_shorter: "dynamic_text bits L D rest \<Longrightarrow> length rest \<le> length bits"
  by (auto simp: dynamic_text_def Let_def dest!: length_steps_shorter)

text \<open>The lengths that the header of a compressed block gives (RFC 1951, 3.2.3).\<close>

definition block_tables :: "bool list \<Rightarrow> nat list \<Rightarrow> nat list \<Rightarrow> bool list \<Rightarrow> bool" where
  "block_tables bits L D rest \<longleftrightarrow> 3 \<le> length bits \<and>
     (bits_value 1 2 bits = 1 \<and> L = fixed_L \<and> D = fixed_D \<and> rest = drop 3 bits \<or>
      bits_value 1 2 bits = 2 \<and> dynamic_text (drop 3 bits) L D rest)"

definition block_started :: "bool list \<Rightarrow> bool \<Rightarrow> inflate \<Rightarrow> bool list \<Rightarrow> bool" where
  "block_started bits active z rest \<longleftrightarrow> length rest + 3 \<le> length bits \<and> copy_ok z \<and>
     (if active
      then if_block_active z \<and> if_block_final z = hd bits \<and>
        (\<not> if_stored z \<longrightarrow> if_copy_rem z = 0 \<and> (\<exists>L D. tables z L D \<and> block_tables bits L D rest))
      else if_ended z \<and> \<not> if_block_active z)"

lemma builds_and_then:
  assumes "builds m b z P"
    and "\<And>x z' b'. reader_ok b' \<Longrightarrow> reader_end b' = reader_end b \<Longrightarrow> shape z' \<Longrightarrow> like z z' \<Longrightarrow> P x z' (reader_bits b') \<Longrightarrow>
      builds (f x (z', b')) b' z' P'"
  shows "builds (and_then m f) b z P'"
proof -
  obtain r z' c where c: "m = Some (r, z', c)" "input_fine (br_input c)" "reader_end c = reader_end b" "shape z'" "like z z'"
      "case r of Ok x \<Rightarrow> reader_ok c \<and> P x z' (reader_bits c) | Err e \<Rightarrow> bad_input b e"
    using assms(1) unfolding builds_def like_def by blast
  show ?thesis
  proof (cases r)
    case (Err e)
    then show ?thesis using c by (simp add: builds_def like_def)
  next
    case (Ok x)
    then have "builds (f x (z', c)) c z' P'" using c assms(2) by simp
    then show ?thesis using Ok c short_error_cong [OF c(3)] unfolding builds_def like_def by (fastforce split: res.splits)
  qed
qed

lemma builds_like:
  "builds m b z' P \<Longrightarrow> like z z' \<Longrightarrow> builds m b z P"
  by (auto simp: builds_def like_def)

lemma start_block_spec:
  assumes b: "reader_ok b" and z: "shape z" "copy_ok z" "\<not> if_block_active z"
  shows "builds (start_block z b) b z (block_started (reader_bits b))"
  unfolding start_block_def Let_def
proof (rule builds_on_ok [OF bits_take_spec [OF b] z(1)], goal_cases)
  case (3 fin b1)
  note b1 = 3
  let ?z = "z\<lparr>if_block_final := fin \<noteq> 0\<rparr>" and ?bits = "reader_bits b"
  have z1: "shape ?z" "like z ?z" "copy_ok ?z" "\<not> if_block_active ?z" using z by (simp_all add: shape_def like_def copy_ok_def)
  show ?case
  proof (rule builds_on_ok [OF bits_take_spec [OF b1(1)] z1(1,2)], goal_cases)
    case (2 kind b2)
    note b2 = 2
    have kind: "kind = bits_value 1 2 ?bits" "3 \<le> length ?bits" "reader_bits b2 = drop 3 ?bits" "(fin \<noteq> 0) = hd ?bits"
      using b1 b2 by (cases ?bits; simp add: bits_value_def)+
    have len: "length (reader_bits b2) + 3 = length ?bits" using kind(2,3) by simp
    consider (eof) "input_eof (br_input b2)" | (stored) "\<not> input_eof (br_input b2)" "kind = 0"
      | (fixed) "\<not> input_eof (br_input b2)" "kind = 1" | (dynamic) "\<not> input_eof (br_input b2)" "kind = 2"
      | (bad) "\<not> input_eof (br_input b2)" "kind \<noteq> 0" "kind \<noteq> 1" "kind \<noteq> 2" by blast
    then show ?case
    proof cases
      case eof
      then show ?thesis using b2(1) z1 len
        by (auto intro!: builds_return simp: block_started_def shape_def like_def copy_ok_def)
    next
      case stored
      have "builds (on_ok (stored_header b2) (\<lambda>len b. case len of
             None \<Rightarrow> Some (Ok False, ?z\<lparr>if_ended := True\<rparr>, b)
           | Some len \<Rightarrow> Some (Ok True, ?z\<lparr>if_stored_rem := len, if_stored := True, if_block_active := True\<rparr>, b)) (\<lambda>e b. (?z, b)))
         b2 z (block_started ?bits)"
      proof (rule builds_on_ok [OF stored_header_spec [OF b2(1)] z1(1,2)], goal_cases)
        case (1 n b3)
        then show ?case using z1 len kind(4)
          by (auto intro!: builds_return simp: block_started_def shape_def like_def copy_ok_def split: option.split)
      qed auto
      then show ?thesis using stored by simp
    next
      case fixed
      obtain lit dist where "build_fixed ?z = Some (?z\<lparr>if_lit := lit, if_dist := dist\<rparr>)" "huffman_ok lit fixed_L" "huffman_ok dist fixed_D"
        using build_fixed_spec [OF z1(1)] by blast
      then show ?thesis using fixed b2(1) z1 len kind
        by (auto intro!: builds_return exI [of _ fixed_L] exI [of _ fixed_D]
            simp: block_started_def shape_def like_def copy_ok_def tables_def huffman_ok_def block_tables_def)
    next
      case dynamic
      have "builds (and_then (build_dynamic ?z b2) (\<lambda>_ (z, b).
           Some (Ok True, z\<lparr>if_stored := False, if_copy_rem := 0, if_block_active := True\<rparr>, b))) b2 ?z (block_started ?bits)"
      proof (rule builds_and_then [OF build_dynamic_spec [OF b2(1) z1(1)]], goal_cases)
        case (1 x z' b3)
        obtain L D where LD: "tables z' L D" "dynamic_text (drop 3 ?bits) L D (reader_bits b3)"
          and z': "z' = ?z\<lparr>if_lit := if_lit z', if_dist := if_dist z'\<rparr>"
          using 1(5) kind(3) by auto
        have "length (reader_bits b3) + 3 \<le> length ?bits" using dynamic_text_shorter [OF LD(2)] kind(2) by simp
        moreover have "if_block_final z' = hd ?bits" using kind(4) by (subst z') simp
        moreover let ?z' = "z'\<lparr>if_stored := False, if_copy_rem := 0, if_block_active := True\<rparr>"
        have "tables ?z' L D" "block_tables ?bits L D (reader_bits b3)"
          using LD dynamic kind by (simp_all add: tables_def block_tables_def)
        moreover have "shape ?z'" "like z' ?z'" "copy_ok ?z'" using 1(3) by (simp_all add: shape_def like_def copy_ok_def)
        ultimately show ?case using 1(1) unfolding prod.case by (intro builds_return) (auto simp: block_started_def)
      qed
      then show ?thesis using dynamic builds_like [OF _ z1(2)] by simp
    next
      case bad
      then show ?thesis using b2(1) z1 by (simp add: builds_fail)
    qed
  qed auto
qed (auto simp: like_def)

section \<open>Whole reads\<close>

definition running :: "inflate \<Rightarrow> u8 list \<Rightarrow> u8 list \<Rightarrow> bool" where
  "running z w h \<longleftrightarrow> shape z \<and> copy_ok z \<and> window_holds (if_wpos z) w h \<and>
     (if_block_active z \<and> \<not> if_stored z \<longrightarrow> (\<exists>L D. tables z L D))"

definition body_result ::
  "nat \<Rightarrow> inflate \<Rightarrow> bitreader \<Rightarrow> u8 list \<Rightarrow> ((codec_error, u8 list) res \<times> u8 list \<times> inflate \<times> bitreader) option \<Rightarrow> bool" where
  "body_result n z b h m \<longleftrightarrow> (\<exists>r w' z' b'. m = Some (r, w', z', b') \<and> input_fine (br_input b') \<and> reader_end b' = reader_end b \<and>
     shape z' \<and> if_started z' = if_started z \<and> if_failed z' = if_failed z \<and> length w' = WINDOW_BYTES \<and>
     (case r of
        Ok bytes \<Rightarrow> reader_ok b' \<and> running z' w' (h @ bytes) \<and> length bytes \<le> n \<and>
          length (reader_bits b') \<le> length (reader_bits b) \<and> (length bytes = n \<or> \<not> if_block_active z')
      | Err e \<Rightarrow> bad_input b e))"

lemma copy_stored_spec:
  assumes "running z w h" "reader_ok b" "if_stored z"
  shows "body_result n z b h (copy_stored z b w n)"
proof -
  let ?k = "min n (if_stored_rem z)" and ?left = "input_left block_content (br_input b)"
  have fine: "input_fine (br_input b)" and win: "window_holds (if_wpos z) w h" and shape: "shape z"
    using assms by (simp_all add: reader_ok_def running_def)
  obtain r w' z' b' where loop: "stored_loop n (if_wpos z) w z b = Some (r, w', z', b')" "length w' = WINDOW_BYTES"
      "input_fine (br_input b')" "reader_end b' = reader_end b" "br_cnt b' = br_cnt b" "br_buf b' = br_buf b"
      "in_padding (br_input b') = in_padding (br_input b)"
    and res: "if ?k \<le> length ?left
     then z' = z\<lparr>if_stored_rem := if_stored_rem z - ?k\<rparr> \<and> input_left block_content (br_input b') = drop ?k ?left \<and>
       (\<exists>wpos'. r = Ok (take ?k ?left, wpos') \<and> window_holds wpos' w' (h @ take ?k ?left))
     else r = Err (short_error b) \<and> (\<exists>n. z' = z\<lparr>if_stored_rem := n\<rparr>)"
    using stored_loop_spec [OF fine win, of n z] unfolding Let_def by blast
  show ?thesis
  proof (cases "?k \<le> length ?left")
    case True
    then obtain wpos' where ok: "z' = z\<lparr>if_stored_rem := if_stored_rem z - ?k\<rparr>" "input_left block_content (br_input b') = drop ?k ?left"
        "r = Ok (take ?k ?left, wpos')" "window_holds wpos' w' (h @ take ?k ?left)"
      using res by auto
    have "reader_ok b'" using assms(2) loop(3-7) by (simp add: reader_ok_def)
    moreover have "length (reader_bits b') \<le> length (reader_bits b)" using loop(4-7) ok(2) by (simp add: reader_bits_def)
    ultimately show ?thesis using loop ok assms True
      by (auto simp: body_result_def copy_stored_def Let_def running_def shape_def copy_ok_def tables_def min_def)
  next
    case False
    then show ?thesis using loop res shape by (auto simp: body_result_def copy_stored_def shape_def)
  qed
qed

lemma block_body_spec:
  assumes "running z w h" "reader_ok b" "if_block_active z"
  shows "body_result n z b h (block_body z b w n)"
proof (cases "if_stored z")
  case True
  then show ?thesis using copy_stored_spec assms(1,2) by (simp add: block_body_def)
next
  case False
  then obtain L D where LD: "tables z L D" using assms(1,3) by (auto simp: running_def)
  have "decode_result L D n h z b (with_copy z h) (reader_bits b) (decode_loop n z w b [])"
    using decode_loop_spec [of z L D w h "[]" b n] assms LD by (simp add: running_def tables_def)
  then obtain r w' z' b' where dec: "decode_loop n z w b [] = Some (r, w', z', b')" "same_block z z'" "input_fine (br_input b')"
      "reader_end b' = reader_end b" "length w' = WINDOW_BYTES"
      "case r of Ok out' \<Rightarrow> reader_ok b' \<and> copy_ok z' \<and> window_holds (if_wpos z') w' (h @ out') \<and> length out' \<le> n \<and>
          decoded L D n (with_copy z h) (reader_bits b) z' out' (h @ out') (reader_bits b')
        | Err e \<Rightarrow> bad_input b e"
    unfolding decode_result_def by blast
  have LD': "tables z' L D" using LD dec(2) by (simp add: tables_def same_block_def)
  show ?thesis
  proof (cases r)
    case (Err e)
    then show ?thesis using dec False tables_shape [OF LD'] by (simp add: body_result_def block_body_def same_block_def)
  next
    case (Ok out)
    then have d: "decoded L D n (with_copy z h) (reader_bits b) z' out (h @ out) (reader_bits b')" using dec(6) by simp
    then have "length (reader_bits b') \<le> length (reader_bits b)" "length out = n \<or> \<not> if_block_active z'"
      by (auto simp: decoded_def dest!: text_steps_shorter has_code_shorter)
    then show ?thesis using dec False tables_shape [OF LD'] Ok LD'
      by (auto simp: body_result_def block_body_def same_block_def running_def)
  qed
qed

text \<open>The run returns, with what was asked for unless the stream ended.\<close>

lemma inflate_run_spec:
  assumes "running z w (h @ out)" "reader_ok b" "length out \<le> n" "0 < fuel"
    and "length out < n \<and> \<not> if_ended z \<longrightarrow> length (reader_bits b) + of_bool (if_block_active z) < fuel"
  shows "\<exists>r w' z' b'. inflate_run fuel z b w n out = Some (r, w', z', b') \<and> input_fine (br_input b') \<and> reader_end b' = reader_end b \<and>
    shape z' \<and> if_started z' = if_started z \<and> if_failed z' = if_failed z \<and> length w' = WINDOW_BYTES \<and>
    (case r of
       Ok out' \<Rightarrow> reader_ok b' \<and> running z' w' (h @ out') \<and> length out' \<le> n \<and> (length out' = n \<or> if_ended z')
     | Err e \<Rightarrow> bad_input b e)"
  using assms
proof (induction fuel arbitrary: z b w out)
  case (Suc fuel)
  have w: "length w = WINDOW_BYTES" and shape: "shape z" using Suc.prems(1) by (simp_all add: running_def window_holds_def)
  show ?case
  proof (cases "length out < n \<and> \<not> if_ended z")
    case False
    then show ?thesis using Suc.prems w shape by (auto simp: reader_ok_def)
  next
    case True
    let ?start = "if if_block_active z then Some (Ok True, z, b) else start_block z b"
    have copy: "copy_ok z" using Suc.prems(1) by (simp add: running_def)
    obtain r1 z1 b1 where start: "?start = Some (r1, z1, b1)" "input_fine (br_input b1)" "reader_end b1 = reader_end b" "shape z1" "like z z1"
      "case r1 of
         Ok active \<Rightarrow> reader_ok b1 \<and> (if if_block_active z then active \<and> z1 = z \<and> b1 = b else block_started (reader_bits b) active z1 (reader_bits b1))
       | Err e \<Rightarrow> bad_input b e"
    proof (cases "if_block_active z")
      case True
      then show ?thesis using that [of "Ok True" z b] Suc.prems(2) shape by (simp add: reader_ok_def like_def)
    next
      case False
      show ?thesis using that start_block_spec [OF Suc.prems(2) shape copy False]
        unfolding if_not_P [OF False] builds_def like_def by blast
    qed
    show ?thesis
    proof (cases r1)
      case (Err e)
      then show ?thesis using True start short_error_cong [OF start(3)]
        by (auto simp: like_def w)
    next
      case (Ok active)
      note loop = inflate_run.simps(2) [of fuel z b w n out, unfolded if_P [OF True] start(1) Ok on_ok_simps prod.case]
      show ?thesis
      proof (cases active)
        case False
        then show ?thesis using start Ok Suc.prems(1,3) w loop
          by (auto simp: like_def running_def block_started_def split: if_splits)
      next
        case active: True
        have r1: "reader_ok b1" "if_block_active z1" "running z1 w (h @ out)"
            "length (reader_bits b1) + (if if_block_active z then 0 else 3) \<le> length (reader_bits b)"
          using start Ok active Suc.prems(1) by (auto simp: running_def block_started_def like_def split: if_splits)
        obtain r2 w2 z2 b2 where body: "block_body z1 b1 w (n - length out) = Some (r2, w2, z2, b2)" "input_fine (br_input b2)"
            "reader_end b2 = reader_end b1" "shape z2" "if_started z2 = if_started z1" "if_failed z2 = if_failed z1" "length w2 = WINDOW_BYTES"
            "case r2 of
              Ok bytes \<Rightarrow> reader_ok b2 \<and> running z2 w2 ((h @ out) @ bytes) \<and> length bytes \<le> n - length out \<and>
                length (reader_bits b2) \<le> length (reader_bits b1) \<and> (length bytes = n - length out \<or> \<not> if_block_active z2)
            | Err e \<Rightarrow> bad_input b1 e"
          using block_body_spec [OF r1(3,1,2), of "n - length out"] unfolding body_result_def by blast
        show ?thesis
        proof (cases r2)
          case (Err e)
          then show ?thesis using loop active body start short_error_cong [OF start(3)] by (auto simp: like_def)
        next
          case (Ok bytes)
          have step: "inflate_run (Suc fuel) z b w n out = inflate_run fuel z2 b2 w2 n (out @ bytes)"
            using loop active body(1) Ok by simp
          have post: "running z2 w2 (h @ out @ bytes)" "reader_ok b2" "length (out @ bytes) \<le> n" "0 < fuel"
            "length (out @ bytes) < n \<and> \<not> if_ended z2 \<longrightarrow> length (reader_bits b2) + of_bool (if_block_active z2) < fuel"
            using body(8) Ok Suc.prems(3,5) True r1(4) by (auto split: if_splits)
          have e: "reader_end b2 = reader_end b" using body(3) start(3) by simp
          show ?thesis unfolding step
            using Suc.IH [OF post, unfolded short_error_cong [OF e]] e body(5,6) start(5) by (simp add: like_def)
        qed
      qed
    qed
  qed
qed simp

lemma inflate_reset_fields:
  "if_lit (inflate_reset z) = if_lit z \<and> if_dist (inflate_reset z) = if_dist z \<and> if_failed (inflate_reset z) = None \<and>
   if_wpos (inflate_reset z) = 0 \<and> if_bitcnt (inflate_reset z) = 0 \<and> if_bitbuf (inflate_reset z) = 0 \<and> if_padding (inflate_reset z) = 0 \<and>
   if_copy_rem (inflate_reset z) = 0 \<and> \<not> if_block_active (inflate_reset z) \<and> \<not> if_started (inflate_reset z) \<and> \<not> if_ended (inflate_reset z)"
  by (simp add: inflate_reset_def inflate_new_def)

text \<open>The state between two calls; a state that failed or was not started is not looked at again.\<close>

definition inflate_ok :: "inflate \<Rightarrow> u8 list \<Rightarrow> bool" where
  "inflate_ok z w \<longleftrightarrow> shape z \<and> length w = WINDOW_BYTES \<and>
     (if_started z \<and> if_failed z = None \<longrightarrow> (\<exists>h. running z w h) \<and> if_bitcnt z \<le> 24 \<and>
        (\<forall>j \<ge> if_bitcnt z. \<not> bit (if_bitbuf z) j) \<and> if_padding z \<le> MAX_PADDING)"

lemma window_holds_ex: "length w = WINDOW_BYTES \<Longrightarrow> window_holds 0 w w"
proof -
  assume w: "length w = WINDOW_BYTES"
  have "window_back 0 d = WINDOW_BYTES - d" if "d \<in> {1..WINDOW_BYTES}" for d
  proof -
    have "(0 - int d) mod int WINDOW_BYTES = (int WINDOW_BYTES - int d) mod int WINDOW_BYTES" by (simp add: mod_simps)
    also have "\<dots> = int WINDOW_BYTES - int d" using that by (intro mod_pos_pos_trivial) auto
    finally show ?thesis by (simp add: window_back_def nat_diff_distrib)
  qed
  moreover have "0 < WINDOW_BYTES" by (simp add: WINDOW_BYTES_def)
  ultimately show ?thesis using w by (simp add: window_holds_def)
qed

lemma inflate_start_spec:
  assumes "shape z" "length w = WINDOW_BYTES"
  shows "\<exists>r z' s'. inflate_start z s = Some (r, z', s') \<and> inflate_ok z' w \<and> (r = Ok () \<longleftrightarrow> if_started z')"
proof -
  let ?z = "inflate_reset z" and ?i = "input_new s 0"
  have i: "input_fine ?i" using bl.new_ok [of s 0] by simp
  obtain r j where h: "inflate_header ?i = Some (r, j)" "input_fine j"
  proof -
    obtain r1 j1 where 1: "input_byte block_ops ?i = Some (r1, j1)" "input_fine j1" using bl.byte_ok [OF i] by blast
    obtain r2 j2 where 2: "input_byte block_ops j1 = Some (r2, j2)" "input_fine j2" using bl.byte_ok [OF 1(2)] by blast
    have "\<exists>r j. inflate_header ?i = Some (r, j) \<and> input_fine j"
      using 1 2 by (cases r1; cases r2) (auto simp: inflate_header_def split: option.split)
    then show thesis using that by blast
  qed
  obtain s' where "input_drop block_ops j = Some s'" using bl.drop_ok [OF h(2)] by blast
  moreover have "inflate_ok (if r = Ok () then ?z\<lparr>if_started := True\<rparr> else ?z) w"
    using assms window_holds_ex [OF assms(2)] inflate_reset_fields [of z]
    by (auto simp: inflate_ok_def shape_def running_def copy_ok_def)
  ultimately show ?thesis using h(1) inflate_reset_fields [of z] by (auto simp: inflate_start_def Let_def)
qed

lemma inflate_read_spec:
  assumes "inflate_ok z w"
  shows "\<exists>r z' w' s'. inflate_read z s w n = Some (r, z', w', s') \<and> inflate_ok z' w' \<and>
    (\<forall>out. r = Ok out \<longrightarrow> length out \<le> n \<and> (length out = n \<or> if_ended z')) \<and>
    if_started z' = if_started z \<and> (\<forall>e. r = Err e \<and> if_started z \<longrightarrow> if_failed z' = Some e)"
proof (cases "if_started z \<and> if_failed z = None")
  case False
  then show ?thesis using assms by (auto simp: inflate_read_def)
next
  case True
  let ?b = "\<lparr>br_input = input_new s (if_padding z), br_buf = if_bitbuf z, br_cnt = if_bitcnt z\<rparr>"
  obtain h where h: "running z w (h @ [])" using assms True by (auto simp: inflate_ok_def)
  have new: "input_fine (input_new s (if_padding z))" "input_left block_content (input_new s (if_padding z)) = block_content s"
    using bl.new_ok [of s "if_padding z"] by simp_all
  have b: "reader_ok ?b" using assms True new by (auto simp: inflate_ok_def reader_ok_def input_new_def)
  have "length (reader_bits ?b) \<le> if_bitcnt z + 8 * length (block_content s) + 32"
    using new by (simp add: reader_bits_def MAX_PADDING_def)
  then have fuel: "length (reader_bits ?b) + of_bool (if_block_active z) < inflate_fuel z s" "0 < inflate_fuel z s"
    by (simp_all add: inflate_fuel_def)
  obtain r w' z' b' where run: "inflate_run (inflate_fuel z s) z ?b w n [] = Some (r, w', z', b')" "input_fine (br_input b')"
      "reader_end b' = reader_end ?b" "shape z'" "if_started z' = if_started z" "if_failed z' = if_failed z" "length w' = WINDOW_BYTES"
      "case r of
         Ok out' \<Rightarrow> reader_ok b' \<and> running z' w' (h @ out') \<and> length out' \<le> n \<and> (length out' = n \<or> if_ended z')
       | Err e \<Rightarrow> bad_input ?b e"
    using inflate_run_spec [OF h b _ fuel(2), of n] fuel(1) by auto
  obtain s' where s': "input_drop block_ops (br_input b') = Some s'" using bl.drop_ok [OF run(2)] by blast
  let ?z = "z'\<lparr>if_bitbuf := br_buf b', if_bitcnt := br_cnt b', if_padding := in_padding (br_input b')\<rparr>"
  have same: "running ?z w' h' = running z' w' h'" "shape ?z" for h' using run(4) by (simp_all add: running_def shape_def copy_ok_def tables_def)
  have read: "inflate_read z s w n = Some (r, (case r of Err e \<Rightarrow> ?z\<lparr>if_failed := Some e\<rparr> | Ok _ \<Rightarrow> ?z), w', s')"
    using True run(1) s' by (auto simp: inflate_read_def Let_def)
  show ?thesis
  proof (cases r)
    case (Err e)
    then show ?thesis using read run(5,7) same(2) by (simp add: inflate_ok_def shape_def)
  next
    case (Ok out)
    then show ?thesis using read run same by (auto simp: inflate_ok_def reader_ok_def)
  qed
qed

section \<open>Streams of stored blocks\<close>

definition stored_block :: "bool \<Rightarrow> u8 list \<Rightarrow> u8 list" where
  "stored_block fin d =
     (let lo = word_of_nat (length d mod 256); hi = word_of_nat (length d div 256) in [of_bool fin, lo, hi, NOT lo, NOT hi] @ d)"

fun stored_stream :: "u8 list list \<Rightarrow> u8 list" where
  "stored_stream [] = []"
| "stored_stream [d] = stored_block True d"
| "stored_stream (d # ds) = stored_block False d @ stored_stream ds"

lemma input_byte_some:
  assumes "input_fine i" "input_left block_content i = c # cs"
  obtains j where "input_byte block_ops i = Some (Ok (Some c), j)" "input_fine j" "input_left block_content j = cs"
    "in_padding j = in_padding i"
  using bl.byte_ok [OF assms(1)] assms(2) by auto

text \<open>An empty bit buffer, and the input at \<open>bytes\<close>.\<close>

definition at_bytes :: "bitreader \<Rightarrow> u8 list \<Rightarrow> bool" where
  "at_bytes b bytes \<longleftrightarrow> br_cnt b = 0 \<and> br_buf b = 0 \<and> input_fine (br_input b) \<and> input_left block_content (br_input b) = bytes \<and>
     in_padding (br_input b) = 0"

lemma stored_header_bytes:
  assumes "input_fine (br_input b)" "input_left block_content (br_input b) = l0 # l1 # n0 # n1 # bytes" "in_padding (br_input b) = 0"
  shows "\<exists>b'. stored_header b = Some (Ok (Some (unat l0 + 256 * unat l1)), b') \<and> at_bytes b' bytes"
proof -
  obtain j0 where 0: "input_byte block_ops (br_input b) = Some (Ok (Some l0), j0)" "input_fine j0"
      "input_left block_content j0 = l1 # n0 # n1 # bytes" "in_padding j0 = 0"
    using input_byte_some [OF assms(1,2)] assms(3) by auto
  obtain j1 where 1: "input_byte block_ops j0 = Some (Ok (Some l1), j1)" "input_fine j1"
      "input_left block_content j1 = n0 # n1 # bytes" "in_padding j1 = 0"
    using input_byte_some [OF 0(2,3)] 0(4) by auto
  obtain j2 where 2: "input_byte block_ops j1 = Some (Ok (Some n0), j2)" "input_fine j2"
      "input_left block_content j2 = n1 # bytes" "in_padding j2 = 0"
    using input_byte_some [OF 1(2,3)] 1(4) by auto
  obtain j3 where 3: "input_byte block_ops j2 = Some (Ok (Some n1), j3)" "input_fine j3"
      "input_left block_content j3 = bytes" "in_padding j3 = 0"
    using input_byte_some [OF 2(2,3)] 2(4) by auto
  show ?thesis using 0 1 2 3 by (simp add: stored_header_def at_bytes_def)
qed

lemma start_stored:
  assumes "at_bytes b (stored_block fin d @ bytes)" "length d \<le> 65535"
  shows "\<exists>b'. start_block z b = Some (Ok True, z\<lparr>if_block_final := fin, if_stored_rem := length d, if_stored := True,
      if_block_active := True\<rparr>, b') \<and> at_bytes b' (d @ bytes)"
proof -
  let ?c = "of_bool fin :: u8" and ?lo = "word_of_nat (length d mod 256) :: u8" and ?hi = "word_of_nat (length d div 256) :: u8"
  have b: "br_cnt b = 0" "br_buf b = 0" "input_fine (br_input b)" "in_padding (br_input b) = 0"
      "input_left block_content (br_input b) = ?c # ?lo # ?hi # NOT ?lo # NOT ?hi # d @ bytes"
    using assms(1) by (simp_all add: at_bytes_def stored_block_def Let_def)
  obtain j where j: "input_byte block_ops (br_input b) = Some (Ok (Some ?c), j)" "input_fine j"
      "input_left block_content j = ?lo # ?hi # NOT ?lo # NOT ?hi # d @ bytes" "in_padding j = 0"
    using input_byte_some [OF b(3,5)] b(4) by auto
  let ?b = "b\<lparr>br_input := j, br_buf := ucast ?c, br_cnt := 8\<rparr>"
  have "fill_bits 1 b = fill_bits 1 ?b"
    using b(1,2) j(1) by (simp add: fill_bits.simps [of "Suc 0" b] input_byte_or_zero_def)
  also have "\<dots> = Some (Ok (), ?b)" by (simp add: fill_bits.simps)
  finally have one: "bits_take 1 b = Some (Ok (of_bool fin), b\<lparr>br_input := j, br_buf := 0, br_cnt := 7\<rparr>)"
    by (cases fin) (simp_all add: bits_take_def mask_eq_exp_minus_1)
  have two: "bits_take 2 (b\<lparr>br_input := j, br_buf := 0, br_cnt := 7\<rparr>) = Some (Ok 0, b\<lparr>br_input := j, br_buf := 0, br_cnt := 5\<rparr>)"
    by (simp add: bits_take_def fill_bits.simps)
  obtain b' where b': "stored_header (b\<lparr>br_input := j, br_buf := 0, br_cnt := 5\<rparr>) = Some (Ok (Some (unat ?lo + 256 * unat ?hi)), b')"
      "at_bytes b' (d @ bytes)"
    using stored_header_bytes [of "b\<lparr>br_input := j, br_buf := 0, br_cnt := 5\<rparr>"] j by auto
  have "length d div 256 < 256" using assms(2) by simp
  then have "unat ?lo + 256 * unat ?hi = length d" by (simp add: unat_of_nat)
  then show ?thesis using one two b' j(4) by (simp add: start_block_def input_eof_def)
qed

lemma stored_run:
  assumes "ds \<noteq> []" "\<forall>d \<in> set ds. length d \<le> 65535" "at_bytes b (stored_stream ds @ bytes)" "window_holds (if_wpos z) w h"
    and "\<not> if_block_active z" "length out + length (concat ds) \<le> n" "length ds < fuel" "\<not> if_ended z"
  shows "\<exists>w' z' b'. inflate_run fuel z b w n out = Some (Ok (out @ concat ds), w', z', b') \<and> input_fine (br_input b')"
  using assms
proof (induction ds arbitrary: b z w h out fuel)
  case (Cons d ds)
  obtain fuel' where fuel: "fuel = Suc fuel'" using Cons.prems(7) by (cases fuel) auto
  show ?case
  proof (cases "length out < n")
    case False
    moreover have "length out + (length d + length (concat ds)) \<le> n" using Cons.prems(6) by simp
    ultimately have "length d + length (concat ds) = 0" by linarith
    then have "concat (d # ds) = []" by simp
    then show ?thesis using False Cons.prems(3) fuel by (simp add: at_bytes_def)
  next
    case True
    let ?fin = "ds = []"
    let ?rest = "stored_stream ds @ bytes"
    have stream: "at_bytes b (stored_block ?fin d @ ?rest)" using Cons.prems(3) by (cases ds) auto
    let ?z = "z\<lparr>if_block_final := ?fin, if_stored_rem := length d, if_stored := True, if_block_active := True\<rparr>"
    obtain b1 where b1: "start_block z b = Some (Ok True, ?z, b1)" "at_bytes b1 (d @ ?rest)"
      using start_stored [OF stream] Cons.prems(2) by auto
    have win: "window_holds (if_wpos ?z) w h" and fine: "input_fine (br_input b1)" using Cons.prems(4) b1(2) by (simp_all add: at_bytes_def)
    have k: "min (n - length out) (if_stored_rem ?z) = length d" using Cons.prems(6) by simp
    obtain r w' z' b' where loop: "stored_loop (n - length out) (if_wpos ?z) w ?z b1 = Some (r, w', z', b')"
        "input_fine (br_input b')" "br_cnt b' = br_cnt b1" "br_buf b' = br_buf b1" "in_padding (br_input b') = in_padding (br_input b1)"
      and res: "if length d \<le> length (d @ ?rest)
       then z' = ?z\<lparr>if_stored_rem := if_stored_rem ?z - length d\<rparr> \<and> input_left block_content (br_input b') = drop (length d) (d @ ?rest) \<and>
         (\<exists>wpos'. r = Ok (take (length d) (d @ ?rest), wpos') \<and> window_holds wpos' w' (h @ take (length d) (d @ ?rest)))
       else r = Err (short_error b1) \<and> (\<exists>n. z' = ?z\<lparr>if_stored_rem := n\<rparr>)"
      using stored_loop_spec [OF fine win, of "n - length out" ?z] b1(2) unfolding Let_def k at_bytes_def by auto
    obtain wpos' where ok: "z' = ?z\<lparr>if_stored_rem := 0\<rparr>" "r = Ok (d, wpos')" "window_holds wpos' w' (h @ d)"
      using res by auto
    have at: "at_bytes b' ?rest" using res b1(2) loop by (simp add: at_bytes_def)
    let ?z2 = "?z\<lparr>if_stored_rem := 0, if_wpos := wpos', if_block_active := False, if_ended := ?fin\<rparr>"
    have body: "block_body ?z b1 w (n - length out) = Some (Ok d, w', ?z2, b')"
      using loop(1) ok(1,2) by (simp add: block_body_def copy_stored_def Let_def)
    have step: "inflate_run fuel z b w n out = inflate_run fuel' ?z2 b' w' n (out @ d)"
      using True Cons.prems(5,8) b1(1) body unfolding fuel by simp
    show ?thesis
    proof (cases ds)
      case Nil
      then show ?thesis unfolding step using Cons.prems(7) fuel loop(2) by (cases fuel') auto
    next
      case (Cons d' ds')
      have "\<exists>w'' z'' b''. inflate_run fuel' ?z2 b' w' n (out @ d) = Some (Ok ((out @ d) @ concat ds), w'', z'', b'') \<and> input_fine (br_input b'')"
        using Cons.prems Cons ok(3) at fuel by (intro Cons.IH [of b' ?z2 w' "h @ d" "out @ d" fuel']) auto
      then show ?thesis unfolding step by simp
    qed
  qed
qed simp

lemma inflate_start_header:
  assumes "block_content s = cmf # flg # bytes" "zlib_header_ok cmf flg"
  shows "\<exists>s'. inflate_start z s = Some (Ok (), (inflate_reset z)\<lparr>if_started := True\<rparr>, s') \<and> block_content s' = bytes"
proof -
  let ?i = "input_new s 0"
  have i: "input_fine ?i" "input_left block_content ?i = cmf # flg # bytes"
    using bl.new_ok [OF block_handed_le, of s 0] assms(1) by simp_all
  obtain j1 where 1: "input_byte block_ops ?i = Some (Ok (Some cmf), j1)" "input_fine j1" "input_left block_content j1 = flg # bytes"
    using input_byte_some [OF i] by blast
  obtain j2 where 2: "input_byte block_ops j1 = Some (Ok (Some flg), j2)" "input_fine j2" "input_left block_content j2 = bytes"
    using input_byte_some [OF 1(2,3)] by blast
  obtain s' where "input_drop block_ops j2 = Some s'" "block_content s' = bytes" using bl.drop_ok [OF 2(2)] 2(3) by auto
  then show ?thesis using 1(1) 2(1) assms(2) by (simp add: inflate_start_def inflate_header_def Let_def)
qed

section \<open>Properties\<close>

definition reader_on :: "u8 list \<Rightarrow> bitreader" where
  "reader_on bytes = \<lparr>br_input = input_new \<lparr>sr_blocks = [bytes], sr_end = None\<rparr> 0, br_buf = 0, br_cnt = 0\<rparr>"

lemma reader_on_ok: "reader_ok (reader_on bytes)"
  using bl.new_ok [OF block_handed_le, of "\<lparr>sr_blocks = [bytes], sr_end = None\<rparr>" 0]
  by (simp add: reader_ok_def reader_on_def) (simp add: input_new_def)

lemma shape_new [simp]: "shape inflate_new" "copy_ok inflate_new" "\<not> if_block_active inflate_new"
  by (simp_all add: shape_def copy_ok_def inflate_new_def huffman_new_def)

text \<open>The header of a block sets up the codes of RFC 1951: for a fixed block the fixed code lengths, for a
  dynamic block the lengths that its code-length code spells out, with the repeats expanded; the tables
  then represent those lengths, and the final flag is the first bit. Anything else is an error, never a panic.\<close>

theorem block_header_sets_tables:
  assumes "reader_ok b" "shape z" "copy_ok z" "\<not> if_block_active z"
  shows "\<exists>r z' b'. start_block z b = Some (r, z', b') \<and>
    (case r of
       Err e \<Rightarrow> e = Corrupt \<or> e = short_error b
     | Ok False \<Rightarrow> if_ended z'
     | Ok True \<Rightarrow> if_block_final z' = hd (reader_bits b) \<and>
         (if_stored z' \<or> (\<exists>L D. tables z' L D \<and> block_tables (reader_bits b) L D (reader_bits b'))))"
  using start_block_spec [OF assms] unfolding builds_def block_started_def by (fastforce split: res.splits bool.splits if_splits)

lemma block_header_sets_tables_witness:
  "\<exists>r z' b'. start_block inflate_new (reader_on [0x4b, 0x04, 0x00]) = Some (r, z', b') \<and>
    (case r of
       Err e \<Rightarrow> e = Corrupt \<or> e = short_error (reader_on [0x4b, 0x04, 0x00])
     | Ok False \<Rightarrow> if_ended z'
     | Ok True \<Rightarrow> if_block_final z' = hd (reader_bits (reader_on [0x4b, 0x04, 0x00])) \<and>
         (if_stored z' \<or> (\<exists>L D. tables z' L D \<and> block_tables (reader_bits (reader_on [0x4b, 0x04, 0x00])) L D (reader_bits b'))))"
  by (rule block_header_sets_tables [OF reader_on_ok shape_new])

text \<open>C21: Decoding a compressed block computes what its codes stand for: the bytes written are the literals and
  the copies (of the bytes that many positions back in everything written before, one by one) that the
  bits spell out, up to what was asked for or to the end-of-block code; a copy that did not fit is kept
  and continued by the next call; and the window holds the last 32768 bytes. It never panics: bad
  input is an error.\<close>

theorem compressed_block_is_lz77:
  assumes "tables z L D" "if_block_active z" "copy_ok z" "window_holds (if_wpos z) window h" "reader_ok b"
  shows "\<exists>r window' z' b'. decode_loop n z window b [] = Some (r, window', z', b') \<and>
    (case r of
       Err e \<Rightarrow> e = Corrupt \<or> e = short_error b
     | Ok out \<Rightarrow> copy_ok z' \<and> window_holds (if_wpos z') window' (h @ out) \<and> length out \<le> n \<and>
         (\<exists>rest. (text_step L D)\<^sup>*\<^sup>* (with_copy z h, reader_bits b) (with_copy z' (h @ out), rest) \<and>
            (length out = n \<and> rest = reader_bits b' \<or>
             if_copy_rem z' = 0 \<and> \<not> if_block_active z' \<and> has_code L 256 rest (reader_bits b'))))"
proof -
  have "decode_result L D n h z b (with_copy z (h @ [])) (reader_bits b) (decode_loop n z window b [])"
    using assms by (intro decode_loop_spec) (simp_all add: tables_def)
  then show ?thesis unfolding decode_result_def decoded_def by (fastforce split: res.splits)
qed

lemma compressed_block_is_lz77_witness:
  "\<exists>z. tables z fixed_L fixed_D \<and> (\<exists>r window' z' b'. decode_loop 5 z (replicate WINDOW_BYTES 0) (reader_on [0x4b, 0x04, 0x00]) [] = Some (r, window', z', b') \<and>
    (case r of
       Err e \<Rightarrow> e = Corrupt \<or> e = short_error (reader_on [0x4b, 0x04, 0x00])
     | Ok out \<Rightarrow> copy_ok z' \<and> window_holds (if_wpos z') window' (replicate WINDOW_BYTES 0 @ out) \<and> length out \<le> 5 \<and>
         (\<exists>rest. (text_step fixed_L fixed_D)\<^sup>*\<^sup>* (with_copy z (replicate WINDOW_BYTES 0), reader_bits (reader_on [0x4b, 0x04, 0x00]))
              (with_copy z' (replicate WINDOW_BYTES 0 @ out), rest) \<and>
            (length out = 5 \<and> rest = reader_bits b' \<or>
             if_copy_rem z' = 0 \<and> \<not> if_block_active z' \<and> has_code fixed_L 256 rest (reader_bits b')))))"
proof -
  obtain lit dist where t: "huffman_ok lit fixed_L" "huffman_ok dist fixed_D" using build_fixed_spec [OF shape_new(1)] by blast
  let ?z = "inflate_new\<lparr>if_lit := lit, if_dist := dist, if_block_active := True\<rparr>"
  have z: "tables ?z fixed_L fixed_D" "if_block_active ?z" "copy_ok ?z" "window_holds (if_wpos ?z) (replicate WINDOW_BYTES 0) (replicate WINDOW_BYTES 0)"
    using t window_holds_ex [of "replicate WINDOW_BYTES 0"] by (simp_all add: tables_def copy_ok_def inflate_new_def)
  from compressed_block_is_lz77 [OF z reader_on_ok, of 5 "[0x4b, 0x04, 0x00]"] z(1) show ?thesis by blast
qed

text \<open>A run of calls, on the state and the window they share.\<close>

datatype inflate_call = Start block_source | Read block_source nat

fun inflate_calls :: "inflate_call list \<Rightarrow> inflate \<Rightarrow> u8 list \<Rightarrow> ((codec_error, u8 list) res list \<times> inflate \<times> u8 list) option" where
  "inflate_calls [] z w = Some ([], z, w)"
| "inflate_calls (Start s # calls) z w = do {
     (r, z, s) \<leftarrow> inflate_start z s;
     (rs, z, w) \<leftarrow> inflate_calls calls z w;
     Some ((case r of Ok _ \<Rightarrow> Ok [] | Err e \<Rightarrow> Err e) # rs, z, w)
   }"
| "inflate_calls (Read s n # calls) z w = do {
     (r, z, w, s) \<leftarrow> inflate_read z s w n;
     (rs, z, w) \<leftarrow> inflate_calls calls z w;
     Some (r # rs, z, w)
   }"

lemma inflate_calls_spec:
  "inflate_ok z w \<Longrightarrow> \<exists>rs z' w'. inflate_calls calls z w = Some (rs, z', w') \<and> inflate_ok z' w' \<and>
    list_all2 (\<lambda>call r. \<forall>s n out. call = Read s n \<and> r = Ok out \<longrightarrow> length out \<le> n) calls rs"
proof (induction calls arbitrary: z w)
  case (Cons call calls)
  show ?case
  proof (cases call)
    case (Start s)
    obtain r z' s' where "inflate_start z s = Some (r, z', s')" "inflate_ok z' w"
      using inflate_start_spec [of z w s] Cons.prems by (auto simp: inflate_ok_def)
    then show ?thesis using Start Cons.IH [of z' w] by auto
  next
    case (Read s n)
    obtain r z' w' s' where "inflate_read z s w n = Some (r, z', w', s')" "inflate_ok z' w'" "\<forall>out. r = Ok out \<longrightarrow> length out \<le> n"
      using inflate_read_spec [OF Cons.prems, of s n] by blast
    then show ?thesis using Read Cons.IH [of z' w'] by auto
  qed
qed simp

text \<open>C22: No input makes the decompressor panic, index out of its tables or its window, or loop: any sequence
  of starts and reads, on any sources and with any sizes, returns, each call with an error or with at
  most the bytes that were asked for.\<close>

theorem inflate_never_panics:
  assumes "length w = WINDOW_BYTES"
  shows "\<exists>rs z' w'. inflate_calls calls inflate_new w = Some (rs, z', w') \<and> length w' = WINDOW_BYTES \<and>
    list_all2 (\<lambda>call r. \<forall>s n out. call = Read s n \<and> r = Ok out \<longrightarrow> length out \<le> n) calls rs"
proof -
  have "inflate_ok inflate_new w" using assms by (simp add: inflate_ok_def inflate_new_def shape_def huffman_new_def)
  from inflate_calls_spec [OF this, of calls] show ?thesis by (auto simp: inflate_ok_def)
qed

lemma inflate_never_panics_witness:
  "\<exists>rs z' w'. inflate_calls [Start \<lparr>sr_blocks = [[0x78, 0x01], [0x4b]], sr_end = None\<rparr>, Read \<lparr>sr_blocks = [[0x4b]], sr_end = Some Source_error\<rparr> 7]
      inflate_new (replicate WINDOW_BYTES 0) = Some (rs, z', w') \<and> length w' = WINDOW_BYTES \<and>
    list_all2 (\<lambda>call r. \<forall>s n out. call = Read s n \<and> r = Ok out \<longrightarrow> length out \<le> n)
      [Start \<lparr>sr_blocks = [[0x78, 0x01], [0x4b]], sr_end = None\<rparr>, Read \<lparr>sr_blocks = [[0x4b]], sr_end = Some Source_error\<rparr> 7] rs"
  by (rule inflate_never_panics) simp

text \<open>An error stays: after a read failed, every read fails with the same error and changes nothing, until
  the next start.\<close>

theorem inflate_error_stays:
  assumes "inflate_ok z w" "inflate_read z s w n = Some (Err e, z', w', s')"
  shows "inflate_read z' t v m = Some (Err e, z', v, t)"
proof (cases "if_started z")
  case False
  then show ?thesis using assms(2) by (auto simp: inflate_read_def)
next
  case True
  then show ?thesis using inflate_read_spec [OF assms(1), of s n] assms(2) by (auto simp: inflate_read_def)
qed

lemma inflate_error_stays_witness:
  "\<exists>z' w' s'. inflate_read (inflate_new\<lparr>if_started := True\<rparr>) \<lparr>sr_blocks = [[0x07]], sr_end = None\<rparr> (replicate WINDOW_BYTES 0) 5
      = Some (Err Corrupt, z', w', s') \<and>
    inflate_read z' \<lparr>sr_blocks = [[0x4b]], sr_end = None\<rparr> [] 3 = Some (Err Corrupt, z', [], \<lparr>sr_blocks = [[0x4b]], sr_end = None\<rparr>)"
proof -
  let ?z = "inflate_new\<lparr>if_started := True\<rparr>" and ?w = "replicate WINDOW_BYTES (0 :: u8)" and ?s = "\<lparr>sr_blocks = [[0x07 :: u8]], sr_end = None\<rparr>"
  have ok: "inflate_ok ?z ?w"
    using window_holds_ex [of ?w] shape_new by (auto simp: inflate_ok_def running_def shape_def copy_ok_def inflate_new_def)
  have start: "\<exists>z' b'. start_block ?z \<lparr>br_input = input_new ?s 0, br_buf = 0, br_cnt = 0\<rparr> = Some (Err Corrupt, z', b') \<and>
      input_drop block_ops (br_input b') = Some \<lparr>sr_blocks = [[]], sr_end = None\<rparr>"
    by (simp add: start_block_def bits_take_def fill_bits.simps [of "Suc 0"] fill_bits.simps [of 2] input_byte_or_zero_def input_byte_def
        input_refill_def input_release_def input_new_def block_ops_def block_fill_def block_consume_def input_eof_def input_drop_def
        mask_eq_exp_minus_1 slice_def fill_bits.simps)
  have "\<exists>z' w' s'. inflate_read ?z ?s ?w 5 = Some (Err Corrupt, z', w', s')"
    using start by (auto simp: inflate_read_def inflate_new_def inflate_fuel_def block_content_def numeral_eq_Suc)
  then obtain z' w' s' where r: "inflate_read ?z ?s ?w 5 = Some (Err Corrupt, z', w', s')" by blast
  from inflate_error_stays [OF ok r] r show ?thesis by blast
qed

text \<open>C23: Storing and inflating gives the data back: a zlib stream of stored blocks, of any sizes up to 65535 and
  cut into any blocks by its source, is read as the concatenation of what was stored.\<close>

theorem stored_roundtrip:
  assumes "shape z" "length w = WINDOW_BYTES" "ds \<noteq> []" "\<forall>d \<in> set ds. length d \<le> 65535" "length (concat ds) \<le> n"
    and "block_content s = [0x78, 0x01] @ stored_stream ds @ bytes"
  shows "\<exists>z1 s1 z2 w2 s2. inflate_start z s = Some (Ok (), z1, s1) \<and> inflate_read z1 s1 w n = Some (Ok (concat ds), z2, w2, s2)"
proof -
  let ?z = "(inflate_reset z)\<lparr>if_started := True\<rparr>"
  have "zlib_header_ok 0x78 0x01" by (simp add: zlib_header_ok_def)
  then obtain s1 where s1: "inflate_start z s = Some (Ok (), ?z, s1)" "block_content s1 = stored_stream ds @ bytes"
    using inflate_start_header [of s "0x78" "0x01" "stored_stream ds @ bytes" z] assms(6) by auto
  let ?b = "\<lparr>br_input = input_new s1 0, br_buf = 0, br_cnt = 0\<rparr>"
  note fields = inflate_reset_fields [of z]
  have at: "at_bytes ?b (stored_stream ds @ bytes)"
    using bl.new_ok [OF block_handed_le, of s1 0] s1(2) by (simp add: at_bytes_def) (simp add: input_new_def)
  have "length ds \<le> length (stored_stream ds)"
    by (induction ds rule: stored_stream.induct) (auto simp: stored_block_def Let_def)
  then have fuel: "length ds < inflate_fuel ?z s1" using s1(2) by (simp add: inflate_fuel_def)
  obtain w' z' b' where run: "inflate_run (inflate_fuel ?z s1) ?z ?b w n [] = Some (Ok ([] @ concat ds), w', z', b')" "input_fine (br_input b')"
    using stored_run [OF assms(3,4) at _ _ _ fuel, of ?z w w "[]" n] window_holds_ex [OF assms(2)] assms(5) fields by auto
  obtain s2 where "input_drop block_ops (br_input b') = Some s2" using bl.drop_ok [OF run(2)] by blast
  then show ?thesis using s1(1) run(1) fields by (auto simp: inflate_read_def Let_def)
qed

lemma stored_roundtrip_witness:
  "\<exists>z1 s1 z2 w2 s2.
    inflate_start inflate_new \<lparr>sr_blocks = [[0x78, 0x01, 0, 2, 0, 0xfd, 0xff, 0x61], [0x62, 1, 1, 0, 0xfe, 0xff, 0x63, 0xaa]], sr_end = None\<rparr>
      = Some (Ok (), z1, s1) \<and>
    inflate_read z1 s1 (replicate WINDOW_BYTES 0) 10 = Some (Ok (concat [[0x61, 0x62], [0x63]]), z2, w2, s2)"
  by (rule stored_roundtrip [where bytes = "[0xaa]"]) (simp_all add: stored_block_def block_content_def)

text \<open>The look-ahead of a code may leave eight or more bits in the buffer when a block ends, because its
  end-of-block code may be short. A stored block that follows then drops whole bytes of the stream with
  the rest of the header byte: here the 14 bits left by an
  end-of-block code of two bits are the header 000, three bits of filling and the byte 1, the low byte of
  the length 1, and the length is read as 65024.\<close>

theorem stored_block_drops_lookahead:
  "\<exists>z' b'. start_block inflate_new \<lparr>br_input = input_new \<lparr>sr_blocks = [[0x00, 0xfe, 0xff, 0x41]], sr_end = None\<rparr> 0, br_buf = 0x40, br_cnt = 14\<rparr>
     = Some (Ok True, z', b') \<and> if_stored z' \<and> if_stored_rem z' = 65024"
  by (simp add: start_block_def bits_take_def fill_bits.simps stored_header_def input_byte_def
      input_refill_def input_release_def input_new_def block_ops_def block_fill_def input_eof_def
      mask_eq_exp_minus_1)

end
