(* ===== verification/Tcp.thy ===== *)
theory Tcp
  imports Stack_State
begin

text \<open>
  The connections of \<open>libs/devkit_net/src/tcp.rs\<close>: output, input, timers and the calls of the
  sockets. The functions of the source take the control block out of its slot (\<open>with_tcb\<close>) and pass it
  beside the stack; so do the definitions here. The outer \<open>option\<close> is a panic.
\<close>

section \<open>Sending a segment\<close>

text \<open>The closure of \<open>send_tcp\<close> that fills the IPv4 payload.\<close>

definition tcp_fill ::
  "platform \<Rightarrow> tcb \<Rightarrow> u32 \<Rightarrow> u32 \<Rightarrow> u8 \<Rightarrow> u16 \<Rightarrow> nat \<Rightarrow> nat \<Rightarrow> u8 list \<Rightarrow> ipv4addr \<Rightarrow> u8 list option" where
  "tcp_fill pl t sq ack flags win header offset out src = do {
     out \<leftarrow> tcp_write_header out (snd (t_local t)) (snd (t_remote t)) sq ack flags win header;
     out \<leftarrow> (if has_flag flags SYN then do {
               out \<leftarrow> copy_at out 20 [2, 4, word_of_nat (rcv_mss t div 256), word_of_nat (rcv_mss t)];
               copy_at out 24 (if t_state t = SynSent \<or> scaling t then [1, 3, 3, word_of_nat (rcv_scale t)]
                               else [1, 1, 1, 1])
             }
             else Some out);
     body \<leftarrow> slice out header (length out);
     (_, body) \<leftarrow> ring_read_at (t_tx t) offset body;
     tcp_finish pl (take header out @ body) src (fst (t_remote t))
   }"

definition send_tcp ::
  "net_env \<Rightarrow> stack \<Rightarrow> tcb \<Rightarrow> u32 \<Rightarrow> u8 \<Rightarrow> nat \<Rightarrow> nat \<Rightarrow> instant \<Rightarrow> (bool \<times> stack \<times> tcb) option" where
  "send_tcp E st t sq flags offset len now = do {
     let syn = has_flag flags SYN;
     let header = (if syn then TCP_HEADER + SYN_OPTIONS else TCP_HEADER);
     let (w, t) = window t;
     let win = (if syn then min w 0xffff else drop_bit (rcv_scale t) (min w (push_bit (rcv_scale t) 0xffff)));
     let ack = (if has_flag flags ACK then rcv_nxt t else 0);
     (result, st) \<leftarrow> send_ipv4 E st (Some (fst (t_local t))) (fst (t_remote t)) PROTO_TCP (header + len) now
       (tcp_fill (e_platform E) t sq ack flags (ucast win) header offset);
     if result = Err WouldBlock then Some (False, st, t)
     else
       let t = (if has_flag flags ACK then t\<lparr>ack_now := False, ack_at := None, unacked_segments := 0\<rparr> else t);
           t = (if 0 < len then t\<lparr>last_sent := now\<rparr> else t)
       in Some (True, st, t)
   }"

definition retransmit_first :: "net_env \<Rightarrow> stack \<Rightarrow> tcb \<Rightarrow> instant \<Rightarrow> (stack \<times> tcb) option" where
  "retransmit_first E st t now = do {
     let offset = unat (snd_una t - tx_base t);
     let n = min (r_len (t_tx t) - offset) (snd_mss t);
     if 0 < n then do {
       (_, st, t) \<leftarrow> send_tcp E st t (snd_una t) ACK offset n now;
       Some (st, t\<lparr>rtt_sample := None\<rparr>)
     }
     else Some (st, t)
   }"

section \<open>Output\<close>

datatype 'a output_step = Break | LinkFull 'a | Sent 'a

definition get_or_insert :: "'a option \<Rightarrow> 'a \<Rightarrow> 'a option" where
  "get_or_insert x y = (case x of None \<Rightarrow> Some y | Some _ \<Rightarrow> x)"

text \<open>How much of the queued data may go out now, with the windows of the peer and of the congestion
  control.\<close>

definition output_allowed :: "tcb \<Rightarrow> nat" where
  "output_allowed t =
     (let window = min (unat (snd_wnd t)) (cwnd t) - in_flight t
      in if probe t then max window 1 else window)"

definition output_len :: "tcb \<Rightarrow> nat" where
  "output_len t = min (min (unsent t) (snd_mss t)) (output_allowed t)"

definition output_fin :: "tcb \<Rightarrow> bool" where
  "output_fin t \<longleftrightarrow> fin_queued t \<and> output_len t = unsent t"

text \<open>One round of the output loop.\<close>

definition output_round :: "net_env \<Rightarrow> stack \<Rightarrow> tcb \<Rightarrow> instant \<Rightarrow> (stack \<times> tcb) output_step option" where
  "output_round E st t now = do {
     let n = output_len t;
     let fin = output_fin t;
     let offset = unat (snd_nxt t - tx_base t);
     if \<not> fin \<and> \<not> worth_sending n (unsent t) (snd_mss t) (unat (max_window t)) (in_flight t) (nodelay t) (probe t)
     then Some Break
     else do {
       let flags = (ACK OR (if 0 < n \<and> n = unsent t then PSH else 0)) OR (if fin then FIN else 0);
       (sent, st, t) \<leftarrow> send_tcp E st t (snd_nxt t) flags offset n now;
       if \<not> sent then Some (LinkFull (st, t\<lparr>link_retry_at := Some (instant_add now LINK_RETRY)\<rparr>))
       else
         let t = (if rtt_sample t = None \<and> 0 < n then t\<lparr>rtt_sample := Some (snd_nxt t, now)\<rparr> else t);
             t = (if fin then t\<lparr>fin_seq := Some (snd_nxt t + word_of_nat n)\<rparr> else t);
             t = advance t (snd_nxt t + (word_of_nat n + of_bool fin));
             t = t\<lparr>fin_sent := fin_sent t \<or> fin\<rparr>;
             t = t\<lparr>probe := False\<rparr>;
             t = t\<lparr>retransmit_at := get_or_insert (retransmit_at t) (instant_add now (rto t))\<rparr>
         in Some (Sent (st, t))
     }
   }"

text \<open>What a sent segment leaves alone.\<close>

lemma window_frame:
  "window t = (w, t') \<Longrightarrow> \<exists>a. t' = t\<lparr>rcv_adv := a\<rparr>"
  by (cases t) (auto simp: window_def Let_def split: if_splits)

lemma send_tcp_frame:
  "send_tcp E st t sq flags offset len now = Some (sent, st', t') \<Longrightarrow>
   \<exists>a b c d e. t' = t\<lparr>rcv_adv := a, ack_now := b, ack_at := c, unacked_segments := d, last_sent := e\<rparr>"
proof -
  assume send: "send_tcp E st t sq flags offset len now = Some (sent, st', t')"
  obtain w t1 where w: "window t = (w, t1)" by fastforce
  obtain a where "t1 = t\<lparr>rcv_adv := a\<rparr>" using window_frame [OF w] by blast
  then show ?thesis
    using send w by (cases t) (auto simp: send_tcp_def Let_def bind_eq_Some_conv split: if_splits)
qed

lemma in_flight_advance:
  assumes "in_flight t + n < 2 ^ 32"
  shows "unat (snd_nxt t + word_of_nat n - snd_una t) = in_flight t + n"
proof -
  have "snd_nxt t + word_of_nat n - snd_una t = (snd_nxt t - snd_una t) + word_of_nat n" by simp
  also have "unat \<dots> = in_flight t + n"
    using assms by (simp add: in_flight_def unat_word_ariths unat_of_nat)
  finally show ?thesis .
qed

definition output_measure :: "tcb \<Rightarrow> nat \<times> nat \<times> nat" where
  "output_measure t =
     (of_bool (\<not> fin_sent t), of_bool (probe t), min (unat (snd_wnd t)) (cwnd t) - in_flight t)"

lemma advance_sel [simp]:
  "snd_nxt (advance t to) = to" "snd_una (advance t to) = snd_una t" "snd_wnd (advance t to) = snd_wnd t"
  "cwnd (advance t to) = cwnd t" "fin_sent (advance t to) = fin_sent t" "probe (advance t to) = probe t"
  by (simp_all add: advance_def Let_def)

text \<open>A round that sent something either sent the FIN, used up the probe, or used some window.\<close>

lemma output_round_decreases:
  assumes round: "output_round E st t now = Some (Sent (st', t'))" and "\<not> fin_sent t"
  shows "(output_measure t', output_measure t) \<in> less_than <*lex*> less_than <*lex*> less_than"
proof -
  let ?n = "output_len t"
  obtain flags st1 t1 where send: "send_tcp E st t (snd_nxt t) flags (unat (snd_nxt t - tx_base t)) ?n now = Some (True, st1, t1)"
    and go: "output_fin t \<or> worth_sending ?n (unsent t) (snd_mss t) (unat (max_window t)) (in_flight t) (nodelay t) (probe t)"
    and t': "fin_sent t' = (fin_sent t1 \<or> output_fin t)" "probe t' = False" "snd_wnd t' = snd_wnd t1" "cwnd t' = cwnd t1"
      "snd_una t' = snd_una t1" "snd_nxt t' = snd_nxt t1 + (word_of_nat ?n + of_bool (output_fin t))"
    using round by (auto simp: output_round_def Let_def bind_eq_Some_conv split: if_splits)
  obtain a b c d e where t1: "t1 = t\<lparr>rcv_adv := a, ack_now := b, ack_at := c, unacked_segments := d, last_sent := e\<rparr>"
    using send_tcp_frame [OF send] by blast
  show ?thesis
  proof (cases "output_fin t")
    case True
    then show ?thesis using assms(2) t' by (simp add: output_measure_def)
  next
    case nofin: False
    then have pos: "0 < ?n" using go worth_sending_pos by blast
    show ?thesis
    proof (cases "probe t")
      case True
      then show ?thesis using t' t1 nofin by (simp add: output_measure_def)
    next
      case False
      let ?w = "min (unat (snd_wnd t)) (cwnd t)"
      have le: "?n \<le> ?w - in_flight t" using False by (simp add: output_len_def output_allowed_def Let_def)
      have "unat (snd_wnd t) < 2 ^ 32" using unat_u32 [of "snd_wnd t"] by simp
      then have "in_flight t + ?n < 2 ^ 32" using le pos by linarith
      then have "in_flight t' = in_flight t + ?n"
        using in_flight_advance [of t ?n] t' t1 nofin by (simp add: in_flight_def)
      then show ?thesis using t' t1 nofin False pos le by (simp add: output_measure_def)
    qed
  qed
qed

function output_loop :: "net_env \<Rightarrow> stack \<Rightarrow> tcb \<Rightarrow> instant \<Rightarrow> (bool \<times> stack \<times> tcb) option" where
  "output_loop E st t now =
     (if fin_sent t then Some (True, st, t)
      else case output_round E st t now of
        None \<Rightarrow> None
      | Some Break \<Rightarrow> Some (True, st, t)
      | Some (LinkFull (st, t)) \<Rightarrow> Some (False, st, t)
      | Some (Sent (st, t)) \<Rightarrow> output_loop E st t now)"
  by pat_completeness auto
termination
  by (relation "inv_image (less_than <*lex*> less_than <*lex*> less_than) (\<lambda>(E, st, t, now). output_measure t)")
    (auto simp: output_round_decreases)

declare output_loop.simps [simp del]

text \<open>The handshake part of \<open>tcp_output\<close>.\<close>

definition output_syn :: "net_env \<Rightarrow> stack \<Rightarrow> tcb \<Rightarrow> instant \<Rightarrow> (stack \<times> tcb) option" where
  "output_syn E st t now =
     (if snd_nxt t = iss t then do {
        let flags = (if t_state t = SynSent then SYN else SYN OR ACK);
        (sent, st, t) \<leftarrow> send_tcp E st t (iss t) flags 0 0 now;
        if \<not> sent then Some (st, t\<lparr>link_retry_at := Some (instant_add now LINK_RETRY)\<rparr>)
        else
          let t = advance t (iss t + 1);
              t = (if retries t = 0 then t\<lparr>rtt_sample := Some (iss t, now)\<rparr> else t)
          in Some (st, t\<lparr>retransmit_at := get_or_insert (retransmit_at t) (instant_add now (rto t))\<rparr>)
      }
      else Some (st, t))"

text \<open>After an idle time, the congestion window starts over.\<close>

definition output_restart :: "tcb \<Rightarrow> instant \<Rightarrow> tcb" where
  "output_restart t now =
     (if in_flight t = 0 \<and> 0 < unsent t \<and> rto t < instant_sub now (last_sent t)
      then t\<lparr>cwnd := min (cwnd t) (initial_window (snd_mss t))\<rparr> else t)"

text \<open>An acknowledgement that no data carried.\<close>

definition output_ack :: "net_env \<Rightarrow> stack \<Rightarrow> tcb \<Rightarrow> instant \<Rightarrow> (stack \<times> tcb) option" where
  "output_ack E st t now =
     (if ack_now t then do {
        (sent, st, t) \<leftarrow> send_tcp E st t (snd_nxt t) ACK 0 0 now;
        Some (st, if sent then t else t\<lparr>link_retry_at := Some (instant_add now LINK_RETRY)\<rparr>)
      }
      else Some (st, t))"

definition tcp_output :: "net_env \<Rightarrow> stack \<Rightarrow> tcb \<Rightarrow> instant \<Rightarrow> (stack \<times> tcb) option" where
  "tcp_output E st t now =
     (let t = t\<lparr>link_retry_at := None\<rparr> in
      if t_state t = Closed then Some (st, t)
      else if t_state t \<in> {SynSent, SynReceived} then output_syn E st t now
      else do {
        (ok, st, t) \<leftarrow> output_loop E st (output_restart t now) now;
        if \<not> ok then Some (st, t)
        else do {
          (st, t) \<leftarrow> output_ack E st t now;
          Some (st, if 0 < unsent t \<and> in_flight t = 0 \<and> persist_at t = None
                    then t\<lparr>persist_at := Some (instant_add now (rto t))\<rparr> else t)
        }
      })"

section \<open>Input\<close>

text \<open>The closure and the call of \<open>send_reset\<close>; its result is ignored.\<close>

definition reset_fill ::
  "platform \<Rightarrow> sockaddr \<Rightarrow> sockaddr \<Rightarrow> u32 \<Rightarrow> u32 \<Rightarrow> u8 \<Rightarrow> u8 list \<Rightarrow> ipv4addr \<Rightarrow> u8 list option" where
  "reset_fill pl local remote sq ack flags out src = do {
     out \<leftarrow> tcp_write_header out (snd local) (snd remote) sq ack flags 0 TCP_HEADER;
     tcp_finish pl out src (fst remote)
   }"

definition send_reset :: "net_env \<Rightarrow> stack \<Rightarrow> sockaddr \<Rightarrow> sockaddr \<Rightarrow> segment \<Rightarrow> instant \<Rightarrow> stack option" where
  "send_reset E st local remote seg now = do {
     let (sq, ack, flags) =
       (if has_flag (sg_flags seg) ACK then (sg_ack seg, 0, RST) else (0, sg_seq seg + segment_len seg, RST OR ACK));
     (_, st) \<leftarrow> send_ipv4 E st (Some (fst local)) (fst remote) PROTO_TCP TCP_HEADER now
       (reset_fill (e_platform E) local remote sq ack flags);
     Some st
   }"

text \<open>The acknowledgement that answers a segment out of place.\<close>

definition ack_and_output :: "net_env \<Rightarrow> stack \<Rightarrow> tcb \<Rightarrow> instant \<Rightarrow> (stack \<times> tcb) option" where
  "ack_and_output E st t now = tcp_output E st (t\<lparr>ack_now := True\<rparr>) now"

text \<open>\<open>rtt_sample.take()\<close>.\<close>

definition take_rtt_sample :: "tcb \<Rightarrow> instant \<Rightarrow> tcb" where
  "take_rtt_sample t now =
     (case rtt_sample t of None \<Rightarrow> t | Some (_, sent) \<Rightarrow> sample_rtt (t\<lparr>rtt_sample := None\<rparr>) (instant_sub now sent))"

definition tcp_syn_sent :: "net_env \<Rightarrow> stack \<Rightarrow> tcb \<Rightarrow> segment \<Rightarrow> instant \<Rightarrow> (stack \<times> tcb) option" where
  "tcp_syn_sent E st t seg now =
     (let f = sg_flags seg; ack_ok = seq_lt (snd_una t) (sg_ack seg) \<and> seq_le (sg_ack seg) (snd_max t) in
      if has_flag f ACK \<and> \<not> ack_ok then
        (if \<not> has_flag f RST then do { st \<leftarrow> send_reset E st (t_local t) (t_remote t) seg now; Some (st, t) }
         else Some (st, t))
      else if has_flag f RST then
        Some (st, if has_flag f ACK then close_with t (Some ConnectionRefused) else t)
      else if \<not> has_flag f SYN then Some (st, t)
      else if \<not> has_flag f ACK then
        tcp_output E st ((on_syn t seg)\<lparr>t_state := SynReceived, snd_nxt := iss t\<rparr>) now
      else
        let t = on_syn t seg;
            t = t\<lparr>snd_una := sg_ack seg, t_state := Established, retransmit_at := None, retries := 0\<rparr>;
            t = take_rtt_sample t now
        in ack_and_output E st t now)"

definition tcp_acked_window :: "net_env \<Rightarrow> stack \<Rightarrow> tcb \<Rightarrow> nat \<Rightarrow> u32 \<Rightarrow> instant \<Rightarrow> (stack \<times> tcb) option" where
  "tcp_acked_window E st t acked ack now =
     (case recover t of
        Some r \<Rightarrow>
          if seq_le r ack then Some (st, t\<lparr>cwnd := ssthresh t, recover := None\<rparr>)
          else do {
            (st, t) \<leftarrow> retransmit_first E st t now;
            Some (st, t\<lparr>cwnd := (cwnd t - acked) + snd_mss t\<rparr>)
          }
      | None \<Rightarrow>
          if cwnd t < ssthresh t then Some (st, t\<lparr>cwnd := cwnd t + min acked (snd_mss t)\<rparr>)
          else Some (st, t\<lparr>cwnd := cwnd t + max (snd_mss t * snd_mss t div max (cwnd t) 1) 1\<rparr>))"

definition tcp_fin_acked :: "tcb \<Rightarrow> instant \<Rightarrow> tcb" where
  "tcp_fin_acked t now =
     (case t_state t of
        FinWait1 \<Rightarrow>
          let t = t\<lparr>t_state := FinWait2\<rparr>
          in if t_released t then t\<lparr>close_at := Some (instant_add now FIN_WAIT_2)\<rparr> else t
      | Closing \<Rightarrow> t\<lparr>t_state := TimeWait\<rparr>
      | LastAck \<Rightarrow> close_with t None
      | _ \<Rightarrow> t)"

text \<open>What is acknowledged leaves the send buffer.\<close>

definition tcp_acked_data :: "tcb \<Rightarrow> u32 \<Rightarrow> tcb" where
  "tcp_acked_data t ack =
     (if seq_lt (tx_base t) ack then
        let data = min (unat (ack - tx_base t)) (r_len (t_tx t))
        in t\<lparr>t_tx := ring_discard (t_tx t) data, tx_base := tx_base t + word_of_nat data\<rparr>
      else t)"

definition fin_acked :: "tcb \<Rightarrow> u32 \<Rightarrow> bool" where
  "fin_acked t ack \<longleftrightarrow> (case fin_seq t of None \<Rightarrow> False | Some f \<Rightarrow> seq_lt f ack)"

text \<open>The three steps of \<open>tcp_acked\<close> before the congestion window: the send pointers move, a round trip is
  measured, the timers start over.\<close>

definition tcp_acked_pointers :: "tcb \<Rightarrow> u32 \<Rightarrow> bool \<Rightarrow> tcb" where
  "tcp_acked_pointers t ack fin =
     (let t = t\<lparr>snd_una := ack\<rparr>;
          t = (if seq_lt (snd_nxt t) ack then t\<lparr>snd_nxt := ack\<rparr> else t)
      in if fin then t\<lparr>fin_sent := True\<rparr> else t)"

definition tcp_acked_rtt :: "tcb \<Rightarrow> u32 \<Rightarrow> instant \<Rightarrow> tcb" where
  "tcp_acked_rtt t ack now =
     (case rtt_sample t of
        Some (sq, sent) \<Rightarrow>
          if seq_lt sq ack then (sample_rtt t (instant_sub now sent))\<lparr>rtt_sample := None\<rparr> else t
      | None \<Rightarrow> t)"

definition tcp_acked_timers :: "tcb \<Rightarrow> instant \<Rightarrow> tcb" where
  "tcp_acked_timers t now =
     (let t = t\<lparr>retries := 0\<rparr>;
          t = t\<lparr>retransmit_at := (if snd_una t \<noteq> snd_max t then Some (instant_add now (rto t)) else None)\<rparr>
      in t\<lparr>persist_at := None, dupacks := 0\<rparr>)"

definition tcp_acked :: "net_env \<Rightarrow> stack \<Rightarrow> tcb \<Rightarrow> u32 \<Rightarrow> instant \<Rightarrow> (stack \<times> tcb) option" where
  "tcp_acked E st t ack now = do {
     let acked = unat (ack - snd_una t);
     let t = tcp_acked_data t ack;
     let fin = fin_acked t ack;
     let t = tcp_acked_timers (tcp_acked_rtt (tcp_acked_pointers t ack fin) ack now) now;
     (st, t) \<leftarrow> tcp_acked_window E st t acked ack now;
     Some (st, if fin then tcp_fin_acked t now else t)
   }"

text \<open>The three steps of \<open>tcp_data\<close>: the bytes that fit are written ahead and noted, what became contiguous is
  committed, and the acknowledgement is sent at once or later.\<close>

definition tcp_place :: "net_env \<Rightarrow> tcb \<Rightarrow> nat \<Rightarrow> nat \<Rightarrow> u8 list \<Rightarrow> tcb option" where
  "tcp_place E t start stop data =
     (if start < stop then do {
        part \<leftarrow> slice data 0 (stop - start);
        (ok, rx) \<leftarrow> ring_write_free (e_mem E) (t_rx t) start part;
        let t = t\<lparr>t_rx := rx\<rparr>;
        Some (if ok then t\<lparr>t_assembler := snd (assembler_add (t_assembler t) start stop)\<rparr> else t)
      }
      else Some t)"

definition tcp_take_front :: "tcb \<Rightarrow> nat \<times> tcb" where
  "tcp_take_front t =
     (let (n, asm) = assembler_take_front (t_assembler t);
          t = t\<lparr>t_assembler := asm\<rparr>
      in (n, if 0 < n then t\<lparr>t_rx := ring_commit (t_rx t) n, rcv_nxt := rcv_nxt t + word_of_nat n\<rparr> else t))"

definition tcp_data_ack :: "tcb \<Rightarrow> int \<Rightarrow> nat \<Rightarrow> instant \<Rightarrow> tcb" where
  "tcp_data_ack t offset n now =
     (if 0 < offset \<or> n = 0 \<or> 0 < as_count (t_assembler t) then t\<lparr>ack_now := True\<rparr>
      else
        let t = t\<lparr>unacked_segments := unacked_segments t + 1\<rparr>
        in if 2 \<le> unacked_segments t then t\<lparr>ack_now := True\<rparr>
           else if ack_at t = None then t\<lparr>ack_at := Some (instant_add now DELAYED_ACK)\<rparr> else t)"

definition tcp_data :: "net_env \<Rightarrow> tcb \<Rightarrow> segment \<Rightarrow> instant \<Rightarrow> tcb option" where
  "tcp_data E t seg now = do {
     let offset = sint (sg_seq seg - rcv_nxt t);
     let skip = nat (max (- offset) 0);
     if length (sg_data seg) \<le> skip then Some (t\<lparr>ack_now := True\<rparr>)
     else do {
       data \<leftarrow> slice (sg_data seg) skip (length (sg_data seg));
       let start = nat (max offset 0);
       let stop = min (start + length data) (ring_free (t_rx t));
       t \<leftarrow> tcp_place E t start stop data;
       let (n, t) = tcp_take_front t;
       Some (tcp_data_ack t offset n now)
     }
   }"

text \<open>RFC 9293 3.10.7.4: whether a segment is in the receive window.\<close>

definition in_window :: "tcb \<Rightarrow> u32 \<Rightarrow> bool" where
  "in_window t sq \<longleftrightarrow>
     seq_le (rcv_nxt t) sq \<and> seq_lt sq (rcv_nxt t + word_of_nat (ring_free (t_rx t)))"

definition tcp_acceptable :: "tcb \<Rightarrow> segment \<Rightarrow> bool" where
  "tcp_acceptable t seg =
     (let win = (word_of_nat (ring_free (t_rx t)) :: u32); len = segment_len seg in
      if len = 0 then (if win = 0 then sg_seq seg = rcv_nxt t else in_window t (sg_seq seg))
      else if win = 0 then False
      else in_window t (sg_seq seg) \<or> in_window t (sg_seq seg + (len - 1)))"

definition tcp_reset :: "tcb \<Rightarrow> tcb" where
  "tcp_reset t =
     (case t_state t of
        SynReceived \<Rightarrow> close_with (t\<lparr>t_released := t_released t \<or> t_listener t \<noteq> None\<rparr>) None
      | s \<Rightarrow> close_with t (if s \<in> {Established, FinWait1, FinWait2, CloseWait} then Some ConnectionReset else None))"

text \<open>The end of the handshake on the passive side; the listener of the connection must exist.\<close>

definition tcp_establish :: "stack \<Rightarrow> nat \<Rightarrow> tcb \<Rightarrow> segment \<Rightarrow> instant \<Rightarrow> (stack \<times> tcb) option" where
  "tcp_establish st i t seg now = do {
     let t = t\<lparr>t_state := Established, snd_una := sg_ack seg\<rparr>;
     let t = t\<lparr>snd_wnd := push_bit (snd_scale t) (ucast (sg_window seg))\<rparr>;
     let t = t\<lparr>max_window := max (max_window t) (snd_wnd t), snd_wl1 := sg_seq seg, snd_wl2 := sg_ack seg,
               retransmit_at := None, retries := 0\<rparr>;
     let t = take_rtt_sample t now;
     case t_listener t of
       None \<Rightarrow> Some (st, t)
     | Some l \<Rightarrow>
         (let s = st_tcp st in
          if l < length (listeners s) then
            (case listeners s ! l of
               None \<Rightarrow> None
             | Some x \<Rightarrow>
                 let st = st\<lparr>st_tcp := s\<lparr>listeners := (listeners s)[l := Some (x\<lparr>l_ready := l_ready x @ [i]\<rparr>)]\<rparr>\<rparr>
                 in Some (wake st (ListenerSocket l), t))
          else None)
   }"

text \<open>The acknowledgement of a segment: new data acknowledged, a duplicate, or neither.\<close>

definition tcp_ack_phase :: "net_env \<Rightarrow> stack \<Rightarrow> tcb \<Rightarrow> segment \<Rightarrow> u32 \<Rightarrow> instant \<Rightarrow> (stack \<times> tcb) option" where
  "tcp_ack_phase E st t seg window_update now =
     (if seq_lt (snd_una t) (sg_ack seg) then tcp_acked E st t (sg_ack seg) now
      else if sg_ack seg = snd_una t \<and> sg_data seg = [] \<and> \<not> has_flag (sg_flags seg) FIN \<and>
              window_update = snd_wnd t \<and> snd_una t \<noteq> snd_max t then
        (let t = t\<lparr>dupacks := min (dupacks t + 1) 255\<rparr> in
         if dupacks t = 3 \<and> recover t = None then do {
           let t = t\<lparr>ssthresh := max (in_flight t div 2) (2 * snd_mss t), recover := Some (snd_nxt t)\<rparr>;
           (st, t) \<leftarrow> retransmit_first E st t now;
           Some (st, t\<lparr>cwnd := ssthresh t + 3 * snd_mss t\<rparr>)
         }
         else if 3 < dupacks t \<and> recover t \<noteq> None then Some (st, t\<lparr>cwnd := cwnd t + snd_mss t\<rparr>)
         else Some (st, t))
      else Some (st, t))"

definition tcp_window_phase :: "tcb \<Rightarrow> segment \<Rightarrow> u32 \<Rightarrow> tcb" where
  "tcp_window_phase t seg window_update =
     (if seq_lt (snd_wl1 t) (sg_seq seg) \<or> (snd_wl1 t = sg_seq seg \<and> seq_le (snd_wl2 t) (sg_ack seg)) then
        let t = t\<lparr>snd_wnd := window_update, max_window := max (max_window t) window_update,
                  snd_wl1 := sg_seq seg, snd_wl2 := sg_ack seg\<rparr>
        in if 0 < snd_wnd t then t\<lparr>persist_at := None\<rparr> else t
      else t)"

definition tcp_fin_phase :: "tcb \<Rightarrow> segment \<Rightarrow> tcb" where
  "tcp_fin_phase t seg =
     (if has_flag (sg_flags seg) FIN \<and> sg_seq seg + word_of_nat (length (sg_data seg)) = rcv_nxt t \<and> \<not> fin_received t then
        let t = t\<lparr>rcv_nxt := rcv_nxt t + 1, fin_received := True, ack_now := True\<rparr>;
            fin = fin_acked t (snd_una t)
        in t\<lparr>t_state := (case t_state t of
                 Established \<Rightarrow> CloseWait
               | FinWait1 \<Rightarrow> if fin then TimeWait else Closing
               | FinWait2 \<Rightarrow> TimeWait
               | other \<Rightarrow> other)\<rparr>
      else t)"

text \<open>\<open>tcp_process\<close> from the acknowledgement on.\<close>

definition tcp_process_ack :: "net_env \<Rightarrow> stack \<Rightarrow> tcb \<Rightarrow> segment \<Rightarrow> instant \<Rightarrow> (stack \<times> tcb) option" where
  "tcp_process_ack E st t seg now =
     (if seq_lt (snd_max t) (sg_ack seg) \<or> seq_lt (sg_ack seg) (snd_una t - max_window t)
      then ack_and_output E st t now
      else do {
        let window_update = push_bit (snd_scale t) (ucast (sg_window seg));
        let t = (if window_update = 0 then t\<lparr>retries := 0\<rparr> else t);
        (st, t) \<leftarrow> tcp_ack_phase E st t seg window_update now;
        let t = tcp_window_phase t seg window_update;
        t \<leftarrow> (if sg_data seg \<noteq> [] \<and> t_state t \<in> {Established, FinWait1, FinWait2}
             then tcp_data E t seg now else Some t);
        let t = tcp_fin_phase t seg;
        let t = (if t_state t = TimeWait
                 then t\<lparr>close_at := Some (instant_add now TIME_WAIT), retransmit_at := None\<rparr> else t);
        tcp_output E st t now
      })"

definition tcp_process :: "net_env \<Rightarrow> stack \<Rightarrow> nat \<Rightarrow> tcb \<Rightarrow> segment \<Rightarrow> instant \<Rightarrow> (stack \<times> tcb) option" where
  "tcp_process E st i t seg now =
     (let t = t\<lparr>heard := now, keepalive_probes := 0\<rparr> in
      if t_state t = SynSent then tcp_syn_sent E st t seg now
      else
        let seg = (if t_state t = SynReceived \<and> has_flag (sg_flags seg) SYN \<and> sg_seq seg + 1 = rcv_nxt t \<and>
                      t_listener t = None
                   then seg\<lparr>sg_seq := rcv_nxt t, sg_flags := sg_flags seg AND NOT SYN\<rparr> else seg);
            f = sg_flags seg
        in if \<not> tcp_acceptable t seg then
             (if \<not> has_flag f RST then ack_and_output E st t now else Some (st, t))
           else if has_flag f RST then
             (if sg_seq seg \<noteq> rcv_nxt t then ack_and_output E st t now else Some (st, tcp_reset t))
           else if has_flag f SYN then ack_and_output E st t now
           else if \<not> has_flag f ACK then Some (st, t)
           else if t_state t = SynReceived then
             (if \<not> (seq_lt (snd_una t) (sg_ack seg) \<and> seq_le (sg_ack seg) (snd_max t)) then do {
                st \<leftarrow> send_reset E st (t_local t) (t_remote t) seg now;
                Some (st, t)
              }
              else do {
                (st, t) \<leftarrow> tcp_establish st i t seg now;
                tcp_process_ack E st t seg now
              })
           else tcp_process_ack E st t seg now)"

section \<open>Timers\<close>

definition tcp_abort :: "net_env \<Rightarrow> stack \<Rightarrow> tcb \<Rightarrow> instant \<Rightarrow> (stack \<times> tcb) option" where
  "tcp_abort E st t now = do {
     (st, t) \<leftarrow>
       (if synchronized (t_state t) \<or> t_state t = SynReceived then do {
          (_, st, t) \<leftarrow> send_tcp E st t (snd_nxt t) (RST OR ACK) 0 0 now;
          Some (st, t)
        }
        else Some (st, t));
     Some (st, close_with t None)
   }"

text \<open>The retransmission timer: \<open>Err\<close> when the connection is given up.\<close>

definition tcp_retransmit_timer :: "tcb \<Rightarrow> instant \<Rightarrow> (tcb, tcb) res" where
  "tcp_retransmit_timer t now =
     (if due (retransmit_at t) now then
        let limit = (if synchronized (t_state t) then MAX_RETRIES else MAX_SYN_RETRIES);
            t = t\<lparr>retries := retries t + 1\<rparr>
        in if limit < retries t then
             let timeout = (if t_state t = SynSent then TimedOut else ConnectionAborted);
                 err = (case t_soft_error t of Some e \<Rightarrow> e | None \<Rightarrow> timeout);
                 t = t\<lparr>t_released := t_released t \<or> t_listener t \<noteq> None\<rparr>
             in Err (close_with t (Some err))
           else
             let t = t\<lparr>rto := min (rto t * 2) RTO_MAX\<rparr>;
                 t = t\<lparr>ssthresh := max (in_flight t div 2) (2 * snd_mss t)\<rparr>;
                 t = t\<lparr>cwnd := snd_mss t, dupacks := 0, recover := None, rtt_sample := None, snd_nxt := snd_una t,
                       fin_sent := False\<rparr>
             in Ok (t\<lparr>retransmit_at := Some (instant_add now (rto t))\<rparr>)
      else Ok t)"

text \<open>A delayed acknowledgement and a window probe that are due are noted for the output.\<close>

definition tcp_due_flags :: "tcb \<Rightarrow> instant \<Rightarrow> tcb" where
  "tcp_due_flags t now =
     (let t = (if due (ack_at t) now then t\<lparr>ack_now := True\<rparr> else t)
      in if due (persist_at t) now then (let t = t\<lparr>persist_at := None\<rparr> in t\<lparr>probe := 0 < unsent t\<rparr>) else t)"

text \<open>The keepalive, and the output that ends every call.\<close>

definition tcp_keepalive_timer :: "net_env \<Rightarrow> stack \<Rightarrow> tcb \<Rightarrow> instant \<Rightarrow> (stack \<times> tcb) option" where
  "tcp_keepalive_timer E st t now =
     (if due (keepalive_at t) now then
        (if KEEPALIVE_PROBES \<le> keepalive_probes t
         then Some (st, close_with t (Some (case t_soft_error t of Some e \<Rightarrow> e | None \<Rightarrow> TimedOut)))
         else do {
           let t = t\<lparr>keepalive_probes := keepalive_probes t + 1\<rparr>;
           (_, st, t) \<leftarrow> send_tcp E st t (snd_una t - 1) ACK 0 0 now;
           tcp_output E st t now
         })
      else tcp_output E st t now)"

definition tcp_timers :: "net_env \<Rightarrow> stack \<Rightarrow> tcb \<Rightarrow> instant \<Rightarrow> (stack \<times> tcb) option" where
  "tcp_timers E st t now =
     (if due (close_at t) now then Some (st, close_with t None)
      else case tcp_retransmit_timer t now of
        Err t \<Rightarrow> Some (st, t)
      | Ok t \<Rightarrow> tcp_keepalive_timer E st (tcp_due_flags t now) now)"

section \<open>The connection table\<close>

text \<open>\<open>with_tcb\<close>: the block is taken out of its slot, a missing one panics; a closed connection that
  was let go of is freed.\<close>

definition set_tcb :: "stack \<Rightarrow> nat \<Rightarrow> tcb option \<Rightarrow> stack" where
  "set_tcb st i x = st\<lparr>st_tcp := (st_tcp st)\<lparr>tcbs := (tcbs (st_tcp st))[i := x]\<rparr>\<rparr>"

definition remove_ready :: "stack \<Rightarrow> nat \<Rightarrow> nat \<Rightarrow> stack option" where
  "remove_ready st l i =
     (let ls = listeners (st_tcp st) in
      if l < length ls then
        Some (case ls ! l of
                None \<Rightarrow> st
              | Some x \<Rightarrow> st\<lparr>st_tcp := (st_tcp st)\<lparr>listeners := ls[l := Some (x\<lparr>l_ready := filter (\<lambda>r. r \<noteq> i) (l_ready x)\<rparr>)]\<rparr>\<rparr>)
      else None)"

definition with_tcb ::
  "stack \<Rightarrow> nat \<Rightarrow> (stack \<Rightarrow> tcb \<Rightarrow> ('r \<times> stack \<times> tcb) option) \<Rightarrow> ('r \<times> stack) option" where
  "with_tcb st i f = do {
     t \<leftarrow> tcb_of (st_tcp st) i;
     let before = readiness t;
     (result, st, t) \<leftarrow> f (set_tcb st i None) t;
     let changed = readiness t \<noteq> before;
     let t = (if t_state t = TimeWait \<and> t_released t \<and> 0 < r_capacity (t_rx t) + r_capacity (t_tx t)
              then t\<lparr>t_rx := ring_new 0, t_tx := ring_new 0\<rparr> else t);
     let free = (t_state t = Closed \<and> t_released t);
     st \<leftarrow> (if \<not> free then Some (set_tcb st i (Some t))
           else case t_listener t of None \<Rightarrow> Some st | Some l \<Rightarrow> remove_ready st l i);
     Some (result, if changed \<and> \<not> free then wake st (TcpSocket i) else st)
   }"

definition unit_result :: "(stack \<times> tcb) option \<Rightarrow> (unit \<times> stack \<times> tcb) option" where
  "unit_result x = map_option (\<lambda>(st, t). ((), st, t)) x"

definition tcp_listen ::
  "stack \<Rightarrow> u32 \<Rightarrow> sockaddr \<Rightarrow> nat \<Rightarrow> buffers \<Rightarrow> (net_error, nat) res \<times> stack" where
  "tcp_listen st rnd addr backlog bufs =
     (if \<not> is_unspecified (fst addr) \<and> \<not> is_own_address st (fst addr) then (Err AddrNotAvailable, st)
      else
        let ls = listeners (st_tcp st);
            port = (if snd addr = 0 then ephemeral (st_tcp st) rnd
                    else if (\<exists>l \<in> set (somes ls). snd (l_local l) = snd addr) then Err AddrInUse
                    else Ok (snd addr))
        in case port of
             Err e \<Rightarrow> (Err e, st)
           | Ok p \<Rightarrow>
               let x = \<lparr>l_local = (fst addr, p), l_backlog = max backlog 1, l_buffers = bufs, l_ready = []\<rparr>
               in case position (\<lambda>l. l = None) ls of
                    Some i \<Rightarrow> (Ok i, st\<lparr>st_tcp := (st_tcp st)\<lparr>listeners := ls[i := Some x]\<rparr>\<rparr>)
                  | None \<Rightarrow> (Ok (length ls), st\<lparr>st_tcp := (st_tcp st)\<lparr>listeners := ls @ [Some x]\<rparr>\<rparr>))"

text \<open>The listener must exist, and the connection at the front of its queue too.\<close>

definition tcp_accept :: "stack \<Rightarrow> nat \<Rightarrow> (nat option \<times> stack) option" where
  "tcp_accept st l =
     (let ls = listeners (st_tcp st) in
      if l < length ls then
        (case ls ! l of
           None \<Rightarrow> None
         | Some x \<Rightarrow>
             (case l_ready x of
                [] \<Rightarrow> Some (None, st)
              | conn # rest \<Rightarrow> do {
                  let st = st\<lparr>st_tcp := (st_tcp st)\<lparr>listeners := ls[l := Some (x\<lparr>l_ready := rest\<rparr>)]\<rparr>\<rparr>;
                  t \<leftarrow> tcb_of (st_tcp st) conn;
                  Some (Some conn, set_tcb st conn (Some (t\<lparr>t_listener := None\<rparr>)))
                }))
      else None)"

fun tcp_unlisten_from :: "net_env \<Rightarrow> stack \<Rightarrow> nat \<Rightarrow> instant \<Rightarrow> nat list \<Rightarrow> stack option" where
  "tcp_unlisten_from E st l now [] = Some st"
| "tcp_unlisten_from E st l now (conn # conns) = do {
     st \<leftarrow> (case tcb_of (st_tcp st) conn of
              Some t \<Rightarrow>
                if t_listener t = Some l then
                  map_option snd (with_tcb st conn (\<lambda>st t.
                    unit_result (tcp_abort E st (t\<lparr>t_released := True, t_listener := None\<rparr>) now)))
                else Some st
            | None \<Rightarrow> Some st);
     tcp_unlisten_from E st l now conns
   }"

definition unwake :: "stack \<Rightarrow> socket_id \<Rightarrow> stack" where
  "unwake st s = st\<lparr>st_woken := filter (\<lambda>w. w \<noteq> s) (st_woken st)\<rparr>"

definition tcp_unlisten :: "net_env \<Rightarrow> stack \<Rightarrow> nat \<Rightarrow> instant \<Rightarrow> stack option" where
  "tcp_unlisten E st l now =
     (if l < length (listeners (st_tcp st)) then do {
        let st = st\<lparr>st_tcp := (st_tcp st)\<lparr>listeners := (listeners (st_tcp st))[l := None]\<rparr>\<rparr>;
        st \<leftarrow> tcp_unlisten_from E st l now [0..<length (tcbs (st_tcp st))];
        Some (unwake st (ListenerSocket l))
      }
      else None)"

definition tcp_connect_from ::
  "net_env \<Rightarrow> (nat \<Rightarrow> u32) \<Rightarrow> stack \<Rightarrow> u16 option \<Rightarrow> sockaddr \<Rightarrow> buffers \<Rightarrow> instant \<Rightarrow>
   ((net_error, nat) res \<times> stack) option" where
  "tcp_connect_from E rnd st local_port remote bufs now = do {
     src \<leftarrow> source_for st (fst remote);
     case src of
       None \<Rightarrow> Some (Err NoRoute, st)
     | Some src \<Rightarrow> do {
         mtu \<leftarrow> mtu_to st (fst remote);
         case mtu of
           None \<Rightarrow> Some (Err NoRoute, st)
         | Some mtu \<Rightarrow>
             if mtu < TCP_HEADER then None
             else
               (case (case local_port of Some p \<Rightarrow> Ok p | None \<Rightarrow> ephemeral (st_tcp st) (rnd 0)) of
                  Err e \<Rightarrow> Some (Err e, st)
                | Ok port \<Rightarrow> do {
                    let mss = mtu - TCP_HEADER;
                    let local = (src, port);
                    let (sq, socks) = isn (st_tcp st) (\<lambda>k. rnd (k + 1)) local remote now;
                    let t = (tcb_new local remote SynSent bufs mss sq)\<lparr>cwnd := mss\<rparr>;
                    let (i, socks) = tcb_insert socks t;
                    (_, st) \<leftarrow> with_tcb (st\<lparr>st_tcp := socks\<rparr>) i (\<lambda>st t. unit_result (tcp_output E st t now));
                    Some (Ok i, st)
                  })
       }
   }"

definition tcp_connected :: "stack \<Rightarrow> nat \<Rightarrow> (net_error, unit) res option option" where
  "tcp_connected st i = do {
     t \<leftarrow> tcb_of (st_tcp st) i;
     Some (if t_state t \<in> {SynSent, SynReceived} then None
           else if t_state t = Closed
                then Some (Err (case t_error t of Some e \<Rightarrow> e | None \<Rightarrow> NotConnected))
                else Some (Ok ()))
   }"

definition tcp_set_nodelay :: "stack \<Rightarrow> nat \<Rightarrow> bool \<Rightarrow> stack option" where
  "tcp_set_nodelay st i b = do { t \<leftarrow> tcb_of (st_tcp st) i; Some (set_tcb st i (Some (t\<lparr>nodelay := b\<rparr>))) }"

definition tcp_set_keepalive :: "stack \<Rightarrow> nat \<Rightarrow> duration option \<Rightarrow> stack option" where
  "tcp_set_keepalive st i idle = do {
     t \<leftarrow> tcb_of (st_tcp st) i;
     Some (set_tcb st i (Some (t\<lparr>keepalive := idle, keepalive_probes := 0\<rparr>)))
   }"

text \<open>Reading returns the bytes of the buffer after the copy, beside what the source returns.\<close>

definition tcp_read_tcb ::
  "net_env \<Rightarrow> u8 list \<Rightarrow> instant \<Rightarrow> stack \<Rightarrow> tcb \<Rightarrow>
   (((net_error, nat) res option \<times> u8 list) \<times> stack \<times> tcb) option" where
  "tcp_read_tcb E buf now st t =
     (if 0 < r_len (t_rx t) then do {
        (n, buf, rx) \<leftarrow> ring_pop (t_rx t) (min (length buf) (r_len (t_rx t))) buf;
        let t = t\<lparr>t_rx := rx\<rparr>;
        (st, t) \<leftarrow> (if synchronized (t_state t) \<and> window_grew t then ack_and_output E st t now else Some (st, t));
        Some ((Some (Ok n), buf), st, t)
      }
      else if fin_received t then Some ((Some (Ok 0), buf), st, t)
      else if t_state t = Closed
           then Some ((Some (case t_error t of None \<Rightarrow> Ok 0 | Some e \<Rightarrow> Err e), buf), st, t)
           else Some ((None, buf), st, t))"

definition tcp_read ::
  "net_env \<Rightarrow> stack \<Rightarrow> nat \<Rightarrow> u8 list \<Rightarrow> instant \<Rightarrow> (((net_error, nat) res option \<times> u8 list) \<times> stack) option" where
  "tcp_read E st i buf now = with_tcb st i (tcp_read_tcb E buf now)"

definition tcp_write_tcb ::
  "net_env \<Rightarrow> u8 list \<Rightarrow> instant \<Rightarrow> stack \<Rightarrow> tcb \<Rightarrow> ((net_error, nat) res option \<times> stack \<times> tcb) option" where
  "tcp_write_tcb E data now st t =
     (case t_error t of
        Some e \<Rightarrow> Some (Some (Err e), st, t)
      | None \<Rightarrow>
          if fin_queued t \<or> t_state t \<notin> {Established, CloseWait} then Some (Some (Err BrokenPipe), st, t)
          else do {
            (n, tx) \<leftarrow> ring_push (e_mem E) (t_tx t) data;
            let t = t\<lparr>t_tx := tx\<rparr>;
            if n = 0 then Some (if r_len (t_tx t) = 0 then Some (Err NoMemory) else None, st, t)
            else do {
              (st, t) \<leftarrow> tcp_output E st t now;
              Some (Some (Ok n), st, t)
            }
          })"

definition tcp_write ::
  "net_env \<Rightarrow> stack \<Rightarrow> nat \<Rightarrow> u8 list \<Rightarrow> instant \<Rightarrow> ((net_error, nat) res option \<times> stack) option" where
  "tcp_write E st i data now = with_tcb st i (tcp_write_tcb E data now)"

definition tcp_shutdown_tcb :: "net_env \<Rightarrow> stack \<Rightarrow> tcb \<Rightarrow> instant \<Rightarrow> (stack \<times> tcb) option" where
  "tcp_shutdown_tcb E st t now =
     (if fin_queued t then Some (st, t)
      else case t_state t of
        SynSent \<Rightarrow> Some (st, close_with t None)
      | s \<Rightarrow>
          if s \<in> {SynReceived, Established} then tcp_output E st (t\<lparr>t_state := FinWait1, fin_queued := True\<rparr>) now
          else if s = CloseWait then tcp_output E st (t\<lparr>t_state := LastAck, fin_queued := True\<rparr>) now
          else Some (st, t))"

definition tcp_shutdown :: "net_env \<Rightarrow> stack \<Rightarrow> nat \<Rightarrow> instant \<Rightarrow> stack option" where
  "tcp_shutdown E st i now = map_option snd (with_tcb st i (\<lambda>st t. unit_result (tcp_shutdown_tcb E st t now)))"

definition tcp_release_tcb :: "net_env \<Rightarrow> instant \<Rightarrow> stack \<Rightarrow> tcb \<Rightarrow> (stack \<times> tcb) option" where
  "tcp_release_tcb E now st t =
     (let t = t\<lparr>t_released := True\<rparr> in
      if 0 < r_len (t_rx t) \<or> t_state t = SynSent then tcp_abort E st t now
      else do {
        (st, t) \<leftarrow> tcp_shutdown_tcb E st t now;
        Some (st, if t_state t = FinWait2 \<and> close_at t = None
                  then t\<lparr>close_at := Some (instant_add now FIN_WAIT_2)\<rparr> else t)
      })"

definition tcp_release :: "net_env \<Rightarrow> stack \<Rightarrow> nat \<Rightarrow> instant \<Rightarrow> stack option" where
  "tcp_release E st i now = do {
     (_, st) \<leftarrow> with_tcb st i (\<lambda>st t. unit_result (tcp_release_tcb E now st t));
     Some (unwake st (TcpSocket i))
   }"

definition find_connection :: "stack \<Rightarrow> sockaddr \<Rightarrow> sockaddr \<Rightarrow> nat option" where
  "find_connection st local remote =
     position (\<lambda>x. case x of None \<Rightarrow> False
                   | Some t \<Rightarrow> t_state t \<noteq> Closed \<and> t_local t = local \<and> t_remote t = remote) (tcbs (st_tcp st))"

definition tcp_passive_open ::
  "net_env \<Rightarrow> (nat \<Rightarrow> u32) \<Rightarrow> stack \<Rightarrow> nat \<Rightarrow> sockaddr \<Rightarrow> sockaddr \<Rightarrow> segment \<Rightarrow> instant \<Rightarrow> stack option" where
  "tcp_passive_open E rnd st l local remote seg now =
     (case (if l < length (listeners (st_tcp st)) then listeners (st_tcp st) ! l else None) of
        None \<Rightarrow> None
      | Some x \<Rightarrow>
          let waiting = length (filter (\<lambda>t. t_listener t = Some l) (somes (tcbs (st_tcp st))))
          in if l_backlog x \<le> waiting then Some st
             else do {
               mtu \<leftarrow> mtu_to st (fst remote);
               case mtu of
                 None \<Rightarrow> Some st
               | Some mss \<Rightarrow> do {
                   let (sq, socks) = isn (st_tcp st) rnd local remote now;
                   t \<leftarrow> (if mss < TCP_HEADER then None
                         else Some (tcb_new local remote SynReceived (l_buffers x) (mss - TCP_HEADER) sq));
                   let t = on_syn (t\<lparr>t_listener := Some l\<rparr>) seg;
                   let (i, socks) = tcb_insert socks t;
                   map_option snd (with_tcb (st\<lparr>st_tcp := socks\<rparr>) i (\<lambda>st t. unit_result (tcp_output E st t now)))
                 }
             })"

definition tcp_input :: "net_env \<Rightarrow> (nat \<Rightarrow> u32) \<Rightarrow> stack \<Rightarrow> ipv4 \<Rightarrow> bool \<Rightarrow> u8 list \<Rightarrow> instant \<Rightarrow> stack option" where
  "tcp_input E rnd st ip unicast p now =
     (if \<not> unicast then Some st
      else do {
        parsed \<leftarrow> segment_parse (e_platform E) ip p;
        case parsed of
          None \<Rightarrow> Some st
        | Some seg \<Rightarrow>
            let local = (ip_dst ip, sg_dst_port seg); remote = (ip_src ip, sg_src_port seg); f = sg_flags seg
            in case find_connection st local remote of
                 Some i \<Rightarrow> map_option snd (with_tcb st i (\<lambda>st t. unit_result (tcp_process E st i t seg now)))
               | None \<Rightarrow>
                   (case (if f AND (SYN OR ACK OR RST) = SYN then
                            position (\<lambda>x. case x of None \<Rightarrow> False | Some l \<Rightarrow> snd (l_local l) = sg_dst_port seg \<and>
                              (is_unspecified (fst (l_local l)) \<or> fst (l_local l) = ip_dst ip)) (listeners (st_tcp st))
                          else None) of
                      Some l \<Rightarrow> tcp_passive_open E rnd st l local remote seg now
                    | None \<Rightarrow> if \<not> has_flag f RST then send_reset E st local remote seg now else Some st)
      })"

definition tcp_icmp_error_tcb :: "u32 \<Rightarrow> bool \<Rightarrow> net_error \<Rightarrow> tcb \<Rightarrow> tcb" where
  "tcp_icmp_error_tcb sq refused err t =
     (if \<not> (seq_le (snd_una t) sq \<and> seq_lt sq (snd_max t)) then t
      else if t_state t = SynSent \<and> refused then close_with t (Some ConnectionRefused)
      else t\<lparr>t_soft_error := Some err\<rparr>)"

text \<open>\<open>refused\<close> is \<open>reported == Reported::Refused\<close>, \<open>err\<close> is \<open>reported.into()\<close>.\<close>

definition tcp_icmp_error :: "stack \<Rightarrow> sockaddr \<Rightarrow> sockaddr \<Rightarrow> u32 \<Rightarrow> bool \<Rightarrow> net_error \<Rightarrow> stack option" where
  "tcp_icmp_error st local remote sq refused err =
     (case find_connection st local remote of
        None \<Rightarrow> Some st
      | Some i \<Rightarrow> map_option snd (with_tcb st i (\<lambda>st t. Some ((), st, tcp_icmp_error_tcb sq refused err t))))"

fun tcp_link_ready_from :: "net_env \<Rightarrow> stack \<Rightarrow> instant \<Rightarrow> nat list \<Rightarrow> stack option" where
  "tcp_link_ready_from E st now [] = Some st"
| "tcp_link_ready_from E st now (i # is) = do {
     st \<leftarrow> (case tcb_of (st_tcp st) i of
              Some t \<Rightarrow>
                if link_retry_at t \<noteq> None
                then map_option snd (with_tcb st i (\<lambda>st t. unit_result (tcp_output E st t now))) else Some st
            | None \<Rightarrow> Some st);
     tcp_link_ready_from E st now is
   }"

definition tcp_link_ready :: "net_env \<Rightarrow> stack \<Rightarrow> instant \<Rightarrow> stack option" where
  "tcp_link_ready E st now = tcp_link_ready_from E st now [0..<length (tcbs (st_tcp st))]"

definition tcp_link_waiting :: "stack \<Rightarrow> bool" where
  "tcp_link_waiting st \<longleftrightarrow> (\<exists>t \<in> set (somes (tcbs (st_tcp st))). link_retry_at t \<noteq> None)"

definition tcp_next_deadline :: "stack \<Rightarrow> instant option" where
  "tcp_next_deadline st = min_option (somes (map deadline (somes (tcbs (st_tcp st)))))"

definition tcp_poll_tcb :: "net_env \<Rightarrow> instant \<Rightarrow> stack \<Rightarrow> tcb \<Rightarrow> (instant option \<times> stack \<times> tcb) option" where
  "tcp_poll_tcb E now st t = do {
     (st, t) \<leftarrow> (if due (deadline t) now then tcp_timers E st t now else Some (st, t));
     Some (deadline t, st, t)
   }"

fun tcp_poll_from :: "net_env \<Rightarrow> stack \<Rightarrow> instant \<Rightarrow> nat list \<Rightarrow> instant option \<Rightarrow> (instant option \<times> stack) option" where
  "tcp_poll_from E st now [] next = Some (next, st)"
| "tcp_poll_from E st now (i # is) next =
     (if tcb_of (st_tcp st) i = None then tcp_poll_from E st now is next
      else do {
        (at, st) \<leftarrow> with_tcb st i (tcp_poll_tcb E now);
        tcp_poll_from E st now is (case at of None \<Rightarrow> next
          | Some d \<Rightarrow> Some (case next of None \<Rightarrow> d | Some n \<Rightarrow> min n d))
      })"

definition tcp_poll :: "net_env \<Rightarrow> stack \<Rightarrow> instant \<Rightarrow> (instant option \<times> stack) option" where
  "tcp_poll E st now = tcp_poll_from E st now [0..<length (tcbs (st_tcp st))] None"

end
