(* ===== verification/Udp.thy ===== *)
theory Udp
  imports Stack_State
begin

text \<open>
  UDP sockets, \<open>libs/devkit_net/src/udp.rs\<close>. Each keeps its datagrams back to back in a ring, with
  their senders and lengths in a queue.
\<close>

section \<open>Definitions\<close>

definition MAX_QUEUED :: nat where "MAX_QUEUED = 64"
definition UDP_HEADER :: nat where "UDP_HEADER = 8"

definition udp_in_use :: "udp_socket option list \<Rightarrow> sockaddr \<Rightarrow> iface_id option \<Rightarrow> bool" where
  "udp_in_use slots addr i \<longleftrightarrow>
     (\<exists>s \<in> set (somes slots). snd (u_local s) = snd addr \<and>
        (is_unspecified (fst (u_local s)) \<or> is_unspecified (fst addr) \<or> fst (u_local s) = fst addr) \<and>
        (u_iface s = None \<or> i = None \<or> u_iface s = i))"

definition udp_ephemeral :: "udp_socket option list \<Rightarrow> u32 \<Rightarrow> (net_error, u16) res" where
  "udp_ephemeral slots rnd =
     (case find (\<lambda>port. \<not> udp_in_use slots (0, port) None) (ephemeral_ports rnd) of
        None \<Rightarrow> Err AddrInUse | Some port \<Rightarrow> Ok port)"

definition udp_pseudo_sum :: "platform \<Rightarrow> ipv4addr \<Rightarrow> ipv4addr \<Rightarrow> nat \<Rightarrow> u32" where
  "udp_pseudo_sum pl src dst len =
     inet_sum pl (u32_bytes dst) (inet_sum pl (u32_bytes src) 0) + ucast PROTO_UDP + word_of_nat len"

text \<open>\<open>slots[id].as_mut().unwrap()\<close>.\<close>

definition udp_get :: "stack \<Rightarrow> nat \<Rightarrow> udp_socket option" where
  "udp_get st i = (if i < length (st_udp st) then st_udp st ! i else None)"

definition udp_set :: "stack \<Rightarrow> nat \<Rightarrow> udp_socket option \<Rightarrow> stack" where
  "udp_set st i s = st\<lparr>st_udp := (st_udp st)[i := s]\<rparr>"

definition udp_bind ::
  "stack \<Rightarrow> u32 \<Rightarrow> sockaddr \<Rightarrow> iface_id option \<Rightarrow> nat \<Rightarrow> (net_error, nat) res \<times> stack" where
  "udp_bind st rnd addr i rx_size =
     (if \<not> is_unspecified (fst addr) \<and> \<not> is_own_address st (fst addr) then (Err AddrNotAvailable, st)
      else
        case (if snd addr = 0 then udp_ephemeral (st_udp st) rnd
              else if udp_in_use (st_udp st) addr i then Err AddrInUse else Ok (snd addr)) of
          Err e \<Rightarrow> (Err e, st)
        | Ok port \<Rightarrow>
            let s = \<lparr>u_local = (fst addr, port), u_iface = i, u_remote = None, u_rx = ring_new rx_size,
                     u_queue = [], u_error = None\<rparr>
            in case position (\<lambda>x. x = None) (st_udp st) of
                 Some k \<Rightarrow> (Ok k, udp_set st k (Some s))
               | None \<Rightarrow> (Ok (length (st_udp st)), st\<lparr>st_udp := st_udp st @ [Some s]\<rparr>))"

definition udp_close :: "stack \<Rightarrow> nat \<Rightarrow> stack option" where
  "udp_close st i =
     (if i < length (st_udp st)
      then Some ((udp_set st i None)\<lparr>st_woken := filter (\<lambda>w. w \<noteq> UdpSocket i) (st_woken st)\<rparr>) else None)"

definition udp_connect :: "stack \<Rightarrow> nat \<Rightarrow> sockaddr \<Rightarrow> stack option" where
  "udp_connect st i remote = do { s \<leftarrow> udp_get st i; Some (udp_set st i (Some (s\<lparr>u_remote := Some remote\<rparr>))) }"

text \<open>The closure of \<open>udp_send\<close>; the length field wraps like the cast.\<close>

definition udp_fill ::
  "platform \<Rightarrow> u16 \<Rightarrow> sockaddr \<Rightarrow> u8 list \<Rightarrow> u8 list \<Rightarrow> ipv4addr \<Rightarrow> u8 list option" where
  "udp_fill pl local_port dst data out src = do {
     let len = UDP_HEADER + length data;
     out \<leftarrow> put16 out 0 local_port;
     out \<leftarrow> put16 out 2 (snd dst);
     out \<leftarrow> put16 out 4 (word_of_nat len);
     out \<leftarrow> put16 out 6 0;
     out \<leftarrow> (if length out = len then copy_at out UDP_HEADER data else None);
     let c = checksum (inet_sum pl out (udp_pseudo_sum pl src (fst dst) len));
     put16 out 6 (if c = 0 then 0xffff else c)
   }"

definition udp_send ::
  "net_env \<Rightarrow> stack \<Rightarrow> nat \<Rightarrow> sockaddr \<Rightarrow> u8 list \<Rightarrow> instant \<Rightarrow> ((net_error, unit) res \<times> stack) option" where
  "udp_send E st i dst data now = do {
     s \<leftarrow> udp_get st i;
     let src = (if is_unspecified (fst (u_local s)) then None else Some (fst (u_local s)));
     (src, via) \<leftarrow>
       (case u_iface s of
          Some n \<Rightarrow> do {
            x \<leftarrow> get_iface st n;
            hop \<leftarrow> next_hop_on st n (fst dst);
            Some (if if_ipv4 x = None then Some 0 else src, map_option (\<lambda>h. (n, h)) hop)
          }
        | None \<Rightarrow> Some (src, route_v4 st (fst dst)));
     case via of
       None \<Rightarrow> Some (Err NoRoute, st)
     | Some (n, hop) \<Rightarrow>
         send_ipv4_on E st n hop src (fst dst) PROTO_UDP (UDP_HEADER + length data) now
           (udp_fill (e_platform E) (snd (u_local s)) dst data)
   }"

text \<open>\<open>None\<close> when nothing is queued; the buffer after the copy is beside the result.\<close>

definition udp_recv ::
  "stack \<Rightarrow> nat \<Rightarrow> u8 list \<Rightarrow> (((net_error, nat \<times> sockaddr) res option \<times> u8 list) \<times> stack) option" where
  "udp_recv st i buf = do {
     s \<leftarrow> udp_get st i;
     case u_error s of
       Some e \<Rightarrow> Some ((Some (Err e), buf), udp_set st i (Some (s\<lparr>u_error := None\<rparr>)))
     | None \<Rightarrow>
         (case u_queue s of
            [] \<Rightarrow> Some ((None, buf), st)
          | (from, len) # queue \<Rightarrow> do {
              (n, buf, rx) \<leftarrow> ring_pop (u_rx s) len buf;
              Some ((Some (Ok (n, from)), buf), udp_set st i (Some (s\<lparr>u_queue := queue, u_rx := rx\<rparr>)))
            })
   }"

definition udp_icmp_error :: "stack \<Rightarrow> sockaddr \<Rightarrow> sockaddr \<Rightarrow> net_error \<Rightarrow> stack option" where
  "udp_icmp_error st local remote err =
     (case position (\<lambda>x. case x of None \<Rightarrow> False
                        | Some s \<Rightarrow> snd (u_local s) = snd local \<and>
                            (is_unspecified (fst (u_local s)) \<or> fst (u_local s) = fst local) \<and> u_remote s = Some remote)
             (st_udp st) of
        None \<Rightarrow> Some st
      | Some i \<Rightarrow> do {
          s \<leftarrow> udp_get st i;
          Some (wake (udp_set st i (Some (s\<lparr>u_error := Some err\<rparr>))) (UdpSocket i))
        })"

definition udp_matches :: "iface_id \<Rightarrow> ipv4addr \<Rightarrow> u16 \<Rightarrow> sockaddr \<Rightarrow> udp_socket option \<Rightarrow> bool" where
  "udp_matches arrived dst port from x =
     (case x of None \<Rightarrow> False
      | Some s \<Rightarrow> snd (u_local s) = port \<and> (is_unspecified (fst (u_local s)) \<or> fst (u_local s) = dst) \<and>
          (u_iface s = None \<or> u_iface s = Some arrived) \<and> (u_remote s = None \<or> u_remote s = Some from))"

definition udp_input :: "net_env \<Rightarrow> stack \<Rightarrow> iface_id \<Rightarrow> ipv4 \<Rightarrow> u8 list \<Rightarrow> (bool \<times> stack) option" where
  "udp_input E st arrived ip p =
     (if length p < UDP_HEADER then Some (True, st)
      else do {
        l \<leftarrow> be16 p 4;
        let len = unat l;
        if len < UDP_HEADER \<or> length p < len then Some (True, st)
        else do {
          p \<leftarrow> slice p 0 len;
          c \<leftarrow> be16 p 6;
          if c \<noteq> 0 \<and> checksum (inet_sum (e_platform E) p (udp_pseudo_sum (e_platform E) (ip_src ip) (ip_dst ip) len)) \<noteq> 0
          then Some (True, st)
          else do {
            src_port \<leftarrow> be16 p 0;
            port \<leftarrow> be16 p 2;
            let from = (ip_src ip, src_port);
            case position (udp_matches arrived (ip_dst ip) port from) (st_udp st) of
              None \<Rightarrow> Some (False, st)
            | Some i \<Rightarrow> do {
                data \<leftarrow> slice p UDP_HEADER (length p);
                s \<leftarrow> udp_get st i;
                if ring_free (u_rx s) < length data \<or> MAX_QUEUED \<le> length (u_queue s) then Some (True, st)
                else do {
                  (ok, rx) \<leftarrow> ring_write_free (e_mem E) (u_rx s) 0 data;
                  if \<not> ok then Some (True, udp_set st i (Some (s\<lparr>u_rx := rx\<rparr>)))
                  else
                    let s = s\<lparr>u_rx := ring_commit rx (length data), u_queue := u_queue s @ [(from, length data)]\<rparr>
                    in Some (True, wake (udp_set st i (Some s)) (UdpSocket i))
                }
              }
          }
        }
      })"

end
