(* ===== verification/Net_Stack.thy ===== *)
theory Net_Stack
  imports Tcp Udp
begin

text \<open>
  What the stack does with a frame and with the passing of time: \<open>libs/devkit_net/src/stack.rs\<close>
  (\<open>receive\<close>, \<open>poll\<close> and what they call) and \<open>icmp.rs\<close>.
\<close>

section \<open>ICMP\<close>

definition ICMP_ECHO_REPLY :: u8 where "ICMP_ECHO_REPLY = 0"
definition ICMP_ECHO_REQUEST :: u8 where "ICMP_ECHO_REQUEST = 8"
definition UNREACHABLE :: u8 where "UNREACHABLE = 3"
definition TIME_EXCEEDED :: u8 where "TIME_EXCEEDED = 11"
definition PARAMETER_PROBLEM :: u8 where "PARAMETER_PROBLEM = 12"
definition CODE_PROTOCOL :: u8 where "CODE_PROTOCOL = 2"
definition CODE_PORT :: u8 where "CODE_PORT = 3"
definition QUOTED :: nat where "QUOTED = 8"

datatype reported = Refused | Unreachable

fun reported_error :: "reported \<Rightarrow> net_error" where
  "reported_error Refused = ConnectionRefused"
| "reported_error Unreachable = HostUnreachable"

definition limiter_take :: "limiter \<Rightarrow> instant \<Rightarrow> bool \<times> limiter" where
  "limiter_take l now =
     (let l = (if from_secs 1 \<le> instant_sub now (lim_refilled l)
               then l\<lparr>lim_tokens := ERRORS_PER_SECOND, lim_refilled := now\<rparr> else l)
      in (0 < lim_tokens l, l\<lparr>lim_tokens := lim_tokens l - 1\<rparr>))"

definition icmp_error_input :: "stack \<Rightarrow> u8 list \<Rightarrow> stack option" where
  "icmp_error_input st p = do {
     inner \<leftarrow> slice p 8 (length p);
     parsed \<leftarrow> ipv4_parse_quoted inner;
     case parsed of
       None \<Rightarrow> Some st
     | Some (quoted, rest) \<Rightarrow>
         if length rest < QUOTED then Some st
         else do {
           kind \<leftarrow> byte_at p 0;
           code \<leftarrow> byte_at p 1;
           let reported = (if kind = UNREACHABLE \<and> (code = CODE_PROTOCOL \<or> code = CODE_PORT) then Refused else Unreachable);
           local_port \<leftarrow> be16 rest 0;
           remote_port \<leftarrow> be16 rest 2;
           let local = (ip_src quoted, local_port);
           let remote = (ip_dst quoted, remote_port);
           if ip_protocol quoted = PROTO_TCP then do {
             sq \<leftarrow> be32 rest 4;
             tcp_icmp_error st local remote sq (reported = Refused) (reported_error reported)
           }
           else if ip_protocol quoted = PROTO_UDP then udp_icmp_error st local remote (reported_error reported)
           else Some st
         }
   }"

definition echo_fill :: "platform \<Rightarrow> u8 list \<Rightarrow> u8 list \<Rightarrow> ipv4addr \<Rightarrow> u8 list option" where
  "echo_fill pl p out src = do {
     out \<leftarrow> (if length out = length p then Some p else None);
     out \<leftarrow> put8 out 0 ICMP_ECHO_REPLY;
     out \<leftarrow> put16 out 2 0;
     put16 out 2 (checksum (inet_sum pl out 0))
   }"

definition icmp_input :: "net_env \<Rightarrow> stack \<Rightarrow> ipv4 \<Rightarrow> bool \<Rightarrow> u8 list \<Rightarrow> instant \<Rightarrow> stack option" where
  "icmp_input E st ip unicast p now =
     (if length p < 8 \<or> checksum (inet_sum (e_platform E) p 0) \<noteq> 0 then Some st
      else do {
        kind \<leftarrow> byte_at p 0;
        code \<leftarrow> byte_at p 1;
        if kind = ICMP_ECHO_REQUEST \<and> code = 0 \<and> unicast then
          map_option snd (send_ipv4 E st (Some (ip_dst ip)) (ip_src ip) PROTO_ICMP (length p) now
            (echo_fill (e_platform E) p))
        else if kind = UNREACHABLE \<or> kind = TIME_EXCEEDED \<or> kind = PARAMETER_PROBLEM
        then icmp_error_input st p
        else Some st
      })"

definition unreachable_fill ::
  "platform \<Rightarrow> ipv4 \<Rightarrow> u8 list \<Rightarrow> u8 \<Rightarrow> u8 list \<Rightarrow> ipv4addr \<Rightarrow> u8 list option" where
  "unreachable_fill pl ip payload code out src = do {
     let quoted = min (length payload) QUOTED;
     out \<leftarrow> copy_at out 0 (replicate 8 0);
     out \<leftarrow> put8 out 0 UNREACHABLE;
     out \<leftarrow> put8 out 1 code;
     h \<leftarrow> slice out 8 (8 + IPV4_HEADER);
     h \<leftarrow> ipv4_write_header pl (ip\<lparr>ip_frag := 0\<rparr>) h (length payload);
     out \<leftarrow> copy_at out 8 h;
     part \<leftarrow> slice payload 0 quoted;
     out \<leftarrow> (if length out = 8 + IPV4_HEADER + quoted then copy_at out (8 + IPV4_HEADER) part else None);
     put16 out 2 (checksum (inet_sum pl out 0))
   }"

definition send_unreachable :: "net_env \<Rightarrow> stack \<Rightarrow> ipv4 \<Rightarrow> u8 list \<Rightarrow> u8 \<Rightarrow> instant \<Rightarrow> stack option" where
  "send_unreachable E st ip payload code now =
     (if is_unspecified (ip_src ip) then Some st
      else
        let (ok, l) = limiter_take (st_icmp_limit st) now; st = st\<lparr>st_icmp_limit := l\<rparr>
        in if \<not> ok then Some st
           else
             let quoted = min (length payload) QUOTED
             in map_option snd (send_ipv4 E st (Some (ip_dst ip)) (ip_src ip) PROTO_ICMP (8 + IPV4_HEADER + quoted) now
                  (unreachable_fill (e_platform E) ip payload code)))"

section \<open>ARP\<close>

definition arp_probe :: "net_env \<Rightarrow> stack \<Rightarrow> iface_id \<Rightarrow> ipv4addr \<Rightarrow> stack option" where
  "arp_probe E st i address = do {
     x \<leftarrow> get_iface st i;
     let x = (if if_probing x \<noteq> Some address then x\<lparr>if_probing := Some address, if_conflict := False\<rparr> else x);
     send_arp E (set_iface st i x) i BROADCAST_MAC
       \<lparr>arp_op = ARP_REQUEST, arp_sha = li_mac (if_info x), arp_spa = 0, arp_tha = replicate 6 0, arp_tpa = address\<rparr>
   }"

definition arp_probe_done :: "stack \<Rightarrow> iface_id \<Rightarrow> (bool \<times> stack) option" where
  "arp_probe_done st i = do {
     x \<leftarrow> get_iface st i;
     Some (if_conflict x, set_iface st i (x\<lparr>if_probing := None, if_conflict := False\<rparr>))
   }"

definition arp_conflict :: "iface \<Rightarrow> arp \<Rightarrow> bool" where
  "arp_conflict x a =
     (case if_probing x of
        None \<Rightarrow> False
      | Some probed \<Rightarrow> arp_sha a \<noteq> li_mac (if_info x) \<and>
          (arp_spa a = probed \<or> (is_unspecified (arp_spa a) \<and> arp_tpa a = probed)))"

definition arp_input :: "net_env \<Rightarrow> stack \<Rightarrow> iface_id \<Rightarrow> u8 list \<Rightarrow> instant \<Rightarrow> stack option" where
  "arp_input E st i p now = do {
     parsed \<leftarrow> arp_parse p;
     case parsed of
       None \<Rightarrow> Some st
     | Some a \<Rightarrow> do {
         x \<leftarrow> get_iface st i;
         let x = (if arp_conflict x a then x\<lparr>if_conflict := True\<rparr> else x);
         let st = set_iface st i x;
         case if_ipv4 x of
           None \<Rightarrow> Some st
         | Some config \<Rightarrow> do {
             let m = li_mac (if_info x);
             let for_us = (arp_tpa a = c_address config);
             st \<leftarrow>
               (if \<not> is_unspecified (arp_spa a) then do {
                  (packet, es) \<leftarrow> arp_update (st_arp st) i (arp_spa a) (arp_sha a) now for_us;
                  let st = st\<lparr>st_arp := es\<rparr>;
                  case packet of
                    None \<Rightarrow> Some st
                  | Some packet \<Rightarrow>
                      map_option snd (emit_ethernet E st i (arp_sha a) ETHERTYPE_IPV4 (replicate ETHERNET_HEADER 0 @ packet))
                }
                else Some st);
             if for_us \<and> arp_op a = ARP_REQUEST
             then send_arp E st i (arp_sha a) \<lparr>arp_op = ARP_REPLY, arp_sha = m, arp_spa = c_address config,
                                               arp_tha = arp_sha a, arp_tpa = arp_spa a\<rparr>
             else Some st
           }
       }
   }"

text \<open>The gratuitous ARPs of the interfaces from number \<open>n\<close> on. Announcing an interface without an
  address panics.\<close>

fun announce_from :: "net_env \<Rightarrow> stack \<Rightarrow> instant \<Rightarrow> nat list \<Rightarrow> instant option \<Rightarrow> (instant option \<times> stack) option" where
  "announce_from E st now [] nxt = Some (nxt, st)"
| "announce_from E st now (n # ns) nxt = do {
     x \<leftarrow> get_iface st n;
     if if_announce x = 0 then announce_from E st now ns nxt
     else do {
       st \<leftarrow>
         (if if_announce_at x \<le> now then do {
            let x = x\<lparr>if_announce := if_announce x - 1, if_announce_at := instant_add now ANNOUNCE_INTERVAL\<rparr>;
            config \<leftarrow> if_ipv4 x;
            send_arp E (set_iface st n x) n BROADCAST_MAC
              \<lparr>arp_op = ARP_REQUEST, arp_sha = li_mac (if_info x), arp_spa = c_address config,
               arp_tha = replicate 6 0, arp_tpa = c_address config\<rparr>
          }
          else Some st);
       x \<leftarrow> get_iface st n;
       announce_from E st now ns
         (if 0 < if_announce x
          then Some (case nxt of None \<Rightarrow> if_announce_at x | Some t \<Rightarrow> min t (if_announce_at x)) else nxt)
     }
   }"

definition announce :: "net_env \<Rightarrow> stack \<Rightarrow> instant \<Rightarrow> (instant option \<times> stack) option" where
  "announce E st now = announce_from E st now [0..<length (st_ifaces st)] None"

section \<open>IPv4 input\<close>

definition is_unicast_for :: "stack \<Rightarrow> iface_id \<Rightarrow> ipv4_config \<Rightarrow> ipv4addr \<Rightarrow> bool" where
  "is_unicast_for st i config dst \<longleftrightarrow>
     (if i = LOOPBACK then is_loopback dst \<or> is_own_address st dst else dst = c_address config)"

text \<open>An accepted datagram, whole, goes to its protocol.\<close>

definition ipv4_deliver ::
  "net_env \<Rightarrow> (nat \<Rightarrow> u32) \<Rightarrow> stack \<Rightarrow> iface_id \<Rightarrow> ipv4 \<Rightarrow> u8 list \<Rightarrow> instant \<Rightarrow> stack option" where
  "ipv4_deliver E rnd st i ip payload now = do {
     x \<leftarrow> get_iface st i;
     case if_ipv4 x of
       None \<Rightarrow> if ip_protocol ip = PROTO_UDP then map_option snd (udp_input E st i ip payload) else Some st
     | Some config \<Rightarrow>
         let unicast = is_unicast_for st i config (ip_dst ip)
         in if \<not> unicast \<and> \<not> is_broadcast (ip_dst ip) \<and> ip_dst ip \<noteq> config_broadcast config then Some st
            else if ip_protocol ip = PROTO_ICMP then icmp_input E st ip unicast payload now
            else if ip_protocol ip = PROTO_UDP then do {
              (taken, st) \<leftarrow> udp_input E st i ip payload;
              if \<not> taken \<and> unicast then send_unreachable E st ip payload CODE_PORT now else Some st
            }
            else if ip_protocol ip = PROTO_TCP then tcp_input E rnd st ip unicast payload now
            else if unicast then send_unreachable E st ip payload CODE_PROTOCOL now
            else Some st
   }"

definition ipv4_input ::
  "net_env \<Rightarrow> (nat \<Rightarrow> u32) \<Rightarrow> stack \<Rightarrow> iface_id \<Rightarrow> u8 list \<Rightarrow> instant \<Rightarrow> stack option" where
  "ipv4_input E rnd st i p now = do {
     parsed \<leftarrow> ipv4_parse (e_platform E) p;
     case parsed of
       None \<Rightarrow> Some st
     | Some (ip, payload) \<Rightarrow> do {
         ok \<leftarrow> valid_source st i (ip_src ip);
         if \<not> ok then Some st
         else if is_fragment ip then do {
           (data, ps) \<leftarrow> frag_add (st_frag st) ip payload now;
           let st = st\<lparr>st_frag := ps\<rparr>;
           case data of None \<Rightarrow> Some st | Some data \<Rightarrow> ipv4_deliver E rnd st i ip data now
         }
         else ipv4_deliver E rnd st i ip payload now
       }
   }"

section \<open>Frames and time\<close>

definition receive ::
  "net_env \<Rightarrow> (nat \<Rightarrow> u32) \<Rightarrow> stack \<Rightarrow> iface_id \<Rightarrow> u8 list \<Rightarrow> instant \<Rightarrow> stack option" where
  "receive E rnd st i frame now = do {
     x \<leftarrow> get_iface st i;
     let header = header_len x;
     let s = if_stats x;
     if \<not> if_up x \<or> length frame \<le> header \<or> header + li_mtu (if_info x) < length frame
     then Some (set_iface st i (x\<lparr>if_stats := s\<lparr>rx_dropped := rx_dropped s + 1\<rparr>\<rparr>))
     else do {
       let st = set_iface st i (x\<lparr>if_stats := s\<lparr>rx_frames := rx_frames s + 1\<rparr>\<rparr>);
       case li_medium (if_info x) of
         Ip \<Rightarrow> ipv4_input E rnd st i frame now
       | Ethernet \<Rightarrow> do {
           let m = li_mac (if_info x);
           parsed \<leftarrow> ethernet_parse frame;
           case parsed of
             None \<Rightarrow> Some st
           | Some eth \<Rightarrow>
               if eth_src eth = m \<or> (eth_dst eth \<noteq> m \<and> eth_dst eth \<noteq> BROADCAST_MAC) then Some st
               else if eth_type eth = ETHERTYPE_ARP then arp_input E st i (eth_payload eth) now
               else if eth_type eth = ETHERTYPE_IPV4 then ipv4_input E rnd st i (eth_payload eth) now
               else Some st
         }
     }
   }"

fun poll_loopback :: "net_env \<Rightarrow> (nat \<Rightarrow> nat \<Rightarrow> u32) \<Rightarrow> stack \<Rightarrow> nat \<Rightarrow> instant \<Rightarrow> stack option" where
  "poll_loopback E rnd st 0 now = Some st"
| "poll_loopback E rnd st (Suc n) now =
     (case st_loopback st of
        [] \<Rightarrow> Some st
      | frame # rest \<Rightarrow> do {
          st \<leftarrow> receive E (rnd n) (st\<lparr>st_loopback := rest\<rparr>) LOOPBACK frame now;
          poll_loopback E rnd st n now
        })"

fun send_arp_requests :: "net_env \<Rightarrow> stack \<Rightarrow> (iface_id \<times> ipv4addr) list \<Rightarrow> stack option" where
  "send_arp_requests E st [] = Some st"
| "send_arp_requests E st ((i, ip) # rs) = do { st \<leftarrow> send_arp_request E st i ip; send_arp_requests E st rs }"

definition poll ::
  "net_env \<Rightarrow> (nat \<Rightarrow> nat \<Rightarrow> u32) \<Rightarrow> stack \<Rightarrow> instant \<Rightarrow> (instant option \<times> stack) option" where
  "poll E rnd st now = do {
     st \<leftarrow> poll_loopback E rnd st (length (st_loopback st)) now;
     let (requests, arp_due_at, es) = arp_poll (st_arp st) now;
     let st = st\<lparr>st_arp := es\<rparr>;
     st \<leftarrow> send_arp_requests E st requests;
     (announce_due, st) \<leftarrow> announce E st now;
     let (frag_due, ps) = frag_poll (st_frag st) now;
     let st = st\<lparr>st_frag := ps\<rparr>;
     (tcp_due, st) \<leftarrow> tcp_poll E st now;
     let next_due = min_option (somes [arp_due_at, announce_due, frag_due, tcp_due]);
     Some (if st_loopback st = [] then next_due else Some now, st)
   }"

definition next_deadline :: "stack \<Rightarrow> instant option" where
  "next_deadline st =
     (if st_loopback st \<noteq> [] then Some 0
      else
        let announce_due = min_option (map if_announce_at (filter (\<lambda>i. 0 < if_announce i) (st_ifaces st)))
        in min_option (somes [arp_next_deadline (st_arp st), announce_due, frag_next_deadline (st_frag st),
                              tcp_next_deadline st]))"

end
