(* ===== verification/Pipeline.thy ===== *)
theory Pipeline
  imports Image_Base
begin

text \<open>
  The pipeline of \<open>libs/devkit_image/src/pipeline.rs\<close>: two tasks with a bounded ring of rows between them.
  What happens under the mutex is one step; the semaphores are binary: giving twice counts once, taking
  waits for a give. The two closures of the caller are arbitrary: at any moment of its own a closure may
  call the ring or end, with any rows. \<open>run_producer\<close> and \<open>run_consumer\<close> end the tasks.
\<close>

section \<open>The ring\<close>

definition DEFAULT_SLOTS :: nat where "DEFAULT_SLOTS = 4"

record row_ring =
  rr_buf :: "u8 list"
  rr_head :: nat
  rr_tail :: nat
  rr_count :: nat
  rr_closed :: bool
  rr_aborted :: bool

text \<open>The ring and its number of slots; the semaphores start at zero. \<open>mem\<close> is the allocator.\<close>

definition row_ring_new :: "(nat \<Rightarrow> bool) \<Rightarrow> nat \<Rightarrow> nat \<Rightarrow> (image_error, row_ring \<times> nat) res" where
  "row_ring_new mem row_bytes slots =
     (if row_bytes = 0 then Err ImgInvalidArgument
      else let slots = (if slots = 0 then DEFAULT_SLOTS else slots) in
        if mem (slots * row_bytes) then
          Ok (\<lparr>rr_buf = replicate (slots * row_bytes) 0, rr_head = 0, rr_tail = 0, rr_count = 0, rr_closed = False,
               rr_aborted = False\<rparr>, slots)
        else Err ImgOutOfMemory)"

text \<open>What \<open>put\<close> and \<open>get\<close> do each time they hold the mutex.\<close>

datatype put_outcome = Put_wait | Put_refused | Put_done row_ring

definition put_section :: "nat \<Rightarrow> nat \<Rightarrow> u8 list \<Rightarrow> row_ring \<Rightarrow> put_outcome option" where
  "put_section slots row_bytes row s =
     (if rr_count s = slots \<and> \<not> rr_aborted s then Some Put_wait
      else if rr_aborted s then Some Put_refused
      else do {
        buf \<leftarrow> copy_at (rr_buf s) (rr_head s * row_bytes) row;
        Some (Put_done (s\<lparr>rr_buf := buf, rr_head := (rr_head s + 1) mod slots, rr_count := rr_count s + 1\<rparr>))
      })"

datatype get_outcome = Get_wait | Get_refused | Get_end | Get_row "u8 list" row_ring

definition get_section :: "nat \<Rightarrow> nat \<Rightarrow> row_ring \<Rightarrow> get_outcome option" where
  "get_section slots row_bytes s =
     (if rr_count s = 0 \<and> \<not> rr_closed s \<and> \<not> rr_aborted s then Some Get_wait
      else if rr_count s = 0 then Some (if rr_aborted s then Get_refused else Get_end)
      else do {
        let at = rr_tail s * row_bytes;
        row \<leftarrow> slice (rr_buf s) at (at + row_bytes);
        Some (Get_row row (s\<lparr>rr_tail := (rr_tail s + 1) mod slots, rr_count := rr_count s - 1\<rparr>))
      })"

text \<open>\<open>row.get(..row_bytes)\<close>.\<close>

definition row_arg :: "nat \<Rightarrow> u8 list \<Rightarrow> u8 list option" where
  "row_arg row_bytes row = (if row_bytes \<le> length row then Some (take row_bytes row) else None)"

section \<open>The tasks\<close>

text \<open>Where a task is: in its closure, in a call, waiting, about to give the semaphore after it let go of the
  mutex, in the steps of \<open>abort\<close> (how many are done, and whether the closure goes on after it), or of
  \<open>close\<close>, or at its end.\<close>

datatype producer_at = PRun | PPut "u8 list" | PWait "u8 list" | PGive | PAbort nat bool | PClose nat | PDone
datatype consumer_at = CRun | CGet | CWait | CGive | CAbort nat bool | CDone

text \<open>Beside the state of the code: the rows accepted and handed over so far, and whether \<open>get\<close> has reported
  the end or the abort to the consumer.\<close>

record pipe =
  p_ring :: row_ring
  p_not_full :: bool
  p_not_empty :: bool
  p_producer :: producer_at
  p_consumer :: consumer_at
  p_put :: "u8 list list"
  p_got :: "u8 list list"
  p_told :: bool

definition pipe_start :: "row_ring \<Rightarrow> pipe" where
  "pipe_start r = \<lparr>p_ring = r, p_not_full = False, p_not_empty = False, p_producer = PRun, p_consumer = CRun, p_put = [], p_got = [],
     p_told = False\<rparr>"

text \<open>The three steps of \<open>abort\<close>.\<close>

definition abort_step :: "nat \<Rightarrow> pipe \<Rightarrow> pipe" where
  "abort_step k p =
     (if k = 0 then p\<lparr>p_ring := (p_ring p)\<lparr>rr_aborted := True\<rparr>\<rparr>
      else if k = 1 then p\<lparr>p_not_empty := True\<rparr>
      else p\<lparr>p_not_full := True\<rparr>)"

text \<open>The two steps of \<open>close\<close>.\<close>

definition close_step :: "nat \<Rightarrow> pipe \<Rightarrow> pipe" where
  "close_step k p = (if k = 0 then p\<lparr>p_ring := (p_ring p)\<lparr>rr_closed := True\<rparr>\<rparr> else p\<lparr>p_not_empty := True\<rparr>)"

text \<open>The steps of the two tasks. With \<open>drains\<close>, the closure of the consumer ends well only after \<open>get\<close> told
  it that the stream ended or was aborted; without, it ends when it likes.\<close>

inductive pipe_step :: "bool \<Rightarrow> nat \<Rightarrow> nat \<Rightarrow> pipe \<Rightarrow> pipe \<Rightarrow> bool" for drains slots row_bytes where
  put_call: "p_producer p = PRun \<Longrightarrow> row_arg row_bytes arg = Some row \<Longrightarrow>
     pipe_step drains slots row_bytes p (p\<lparr>p_producer := PPut row\<rparr>)"
| put_waits: "p_producer p = PPut row \<Longrightarrow> put_section slots row_bytes row (p_ring p) = Some Put_wait \<Longrightarrow>
     pipe_step drains slots row_bytes p (p\<lparr>p_producer := PWait row\<rparr>)"
| put_refused: "p_producer p = PPut row \<Longrightarrow> put_section slots row_bytes row (p_ring p) = Some Put_refused \<Longrightarrow>
     pipe_step drains slots row_bytes p (p\<lparr>p_producer := PRun\<rparr>)"
| put_stores: "p_producer p = PPut row \<Longrightarrow> put_section slots row_bytes row (p_ring p) = Some (Put_done r) \<Longrightarrow>
     pipe_step drains slots row_bytes p (p\<lparr>p_ring := r, p_producer := PGive, p_put := p_put p @ [row]\<rparr>)"
| put_gives: "p_producer p = PGive \<Longrightarrow> pipe_step drains slots row_bytes p (p\<lparr>p_not_empty := True, p_producer := PRun\<rparr>)"
| put_wakes: "p_producer p = PWait row \<Longrightarrow> p_not_full p \<Longrightarrow>
     pipe_step drains slots row_bytes p (p\<lparr>p_not_full := False, p_producer := PPut row\<rparr>)"
| producer_aborts: "p_producer p = PRun \<Longrightarrow> pipe_step drains slots row_bytes p (p\<lparr>p_producer := PAbort 0 goes_on\<rparr>)"
| producer_abort_step: "p_producer p = PAbort k goes_on \<Longrightarrow> pipe_step drains slots row_bytes p
     ((abort_step k p)\<lparr>p_producer := (if k < 2 then PAbort (k + 1) goes_on else if goes_on then PRun else PClose 0)\<rparr>)"
| producer_ends: "p_producer p = PRun \<Longrightarrow> pipe_step drains slots row_bytes p (p\<lparr>p_producer := PClose 0\<rparr>)"
| producer_close_step: "p_producer p = PClose k \<Longrightarrow> pipe_step drains slots row_bytes p
     ((close_step k p)\<lparr>p_producer := (if k = 0 then PClose 1 else PDone)\<rparr>)"
| get_call: "p_consumer p = CRun \<Longrightarrow> pipe_step drains slots row_bytes p (p\<lparr>p_consumer := CGet\<rparr>)"
| get_waits: "p_consumer p = CGet \<Longrightarrow> get_section slots row_bytes (p_ring p) = Some Get_wait \<Longrightarrow>
     pipe_step drains slots row_bytes p (p\<lparr>p_consumer := CWait\<rparr>)"
| get_tells: "p_consumer p = CGet \<Longrightarrow> get_section slots row_bytes (p_ring p) \<in> {Some Get_refused, Some Get_end} \<Longrightarrow>
     pipe_step drains slots row_bytes p (p\<lparr>p_consumer := CRun, p_told := True\<rparr>)"
| get_takes: "p_consumer p = CGet \<Longrightarrow> get_section slots row_bytes (p_ring p) = Some (Get_row row r) \<Longrightarrow>
     pipe_step drains slots row_bytes p (p\<lparr>p_ring := r, p_consumer := CGive, p_got := p_got p @ [row]\<rparr>)"
| get_gives: "p_consumer p = CGive \<Longrightarrow> pipe_step drains slots row_bytes p (p\<lparr>p_not_full := True, p_consumer := CRun\<rparr>)"
| get_wakes: "p_consumer p = CWait \<Longrightarrow> p_not_empty p \<Longrightarrow>
     pipe_step drains slots row_bytes p (p\<lparr>p_not_empty := False, p_consumer := CGet\<rparr>)"
| consumer_aborts: "p_consumer p = CRun \<Longrightarrow> pipe_step drains slots row_bytes p (p\<lparr>p_consumer := CAbort 0 goes_on\<rparr>)"
| consumer_abort_step: "p_consumer p = CAbort k goes_on \<Longrightarrow> pipe_step drains slots row_bytes p
     ((abort_step k p)\<lparr>p_consumer := (if k < 2 then CAbort (k + 1) goes_on else if goes_on then CRun else CDone)\<rparr>)"
| consumer_ends: "p_consumer p = CRun \<Longrightarrow> drains \<longrightarrow> p_told p \<Longrightarrow> pipe_step drains slots row_bytes p (p\<lparr>p_consumer := CDone\<rparr>)"

definition pipe_reaches :: "bool \<Rightarrow> nat \<Rightarrow> nat \<Rightarrow> pipe \<Rightarrow> bool" where
  "pipe_reaches drains slots row_bytes p \<longleftrightarrow>
     (\<exists>r. row_ring_new (\<lambda>_. True) row_bytes slots = Ok (r, slots) \<and> (pipe_step drains slots row_bytes)\<^sup>*\<^sup>* (pipe_start r) p)"

section \<open>No wakeup is lost\<close>

text \<open>A task waits only while there is a reason to, or while the one who ended the reason is about to give.\<close>

definition wakeups :: "bool \<Rightarrow> nat \<Rightarrow> pipe \<Rightarrow> bool" where
  "wakeups drains slots p \<longleftrightarrow>
     (\<forall>row. p_producer p = PWait row \<and> \<not> p_not_full p \<longrightarrow>
        rr_count (p_ring p) = slots \<and> \<not> rr_aborted (p_ring p) \<or> p_consumer p = CGive \<or> (\<exists>k g. p_consumer p = CAbort k g \<and> 0 < k)) \<and>
     (p_consumer p = CWait \<and> \<not> p_not_empty p \<longrightarrow>
        rr_count (p_ring p) = 0 \<and> \<not> rr_closed (p_ring p) \<and> \<not> rr_aborted (p_ring p) \<or>
        p_producer p = PGive \<or> p_producer p = PClose 1 \<or> (\<exists>g. p_producer p = PAbort 1 g)) \<and>
     (rr_closed (p_ring p) \<longleftrightarrow> p_producer p = PDone \<or> (\<exists>k. p_producer p = PClose k \<and> 0 < k)) \<and>
     (\<forall>k g. p_producer p = PAbort k g \<longrightarrow> k \<le> 2 \<and> (0 < k \<longrightarrow> rr_aborted (p_ring p))) \<and>
     (\<forall>k g. p_consumer p = CAbort k g \<longrightarrow> k \<le> 2 \<and> (0 < k \<longrightarrow> rr_aborted (p_ring p))) \<and>
     (\<forall>k. p_producer p = PClose k \<longrightarrow> k \<le> 1) \<and>
     (p_told p \<longrightarrow> rr_closed (p_ring p) \<or> rr_aborted (p_ring p)) \<and>
     (drains \<and> p_consumer p = CDone \<longrightarrow> p_told p \<or> rr_aborted (p_ring p))"

lemma wakeups_step:
  assumes "pipe_step drains slots row_bytes p q" "wakeups drains slots p"
  shows "wakeups drains slots q"
  using assms
proof cases
  case (put_stores row r)
  then show ?thesis using assms(2)
    by (auto simp: wakeups_def put_section_def bind_eq_Some_conv split: if_splits)
qed (auto simp: wakeups_def put_section_def get_section_def abort_step_def close_step_def bind_eq_Some_conv Let_def split: if_splits)

section \<open>The ring is a queue\<close>

definition row_at :: "nat \<Rightarrow> u8 list \<Rightarrow> nat \<Rightarrow> u8 list" where
  "row_at row_bytes buf i = take row_bytes (drop (i * row_bytes) buf)"

definition held_rows :: "nat \<Rightarrow> nat \<Rightarrow> row_ring \<Rightarrow> u8 list list" where
  "held_rows slots row_bytes r = map (\<lambda>k. row_at row_bytes (rr_buf r) ((rr_tail r + k) mod slots)) [0..<rr_count r]"

definition row_ring_ok :: "nat \<Rightarrow> nat \<Rightarrow> row_ring \<Rightarrow> bool" where
  "row_ring_ok slots row_bytes r \<longleftrightarrow> 0 < slots \<and> length (rr_buf r) = slots * row_bytes \<and> rr_tail r < slots \<and> rr_count r \<le> slots \<and>
     rr_head r = (rr_tail r + rr_count r) mod slots"

lemma row_fits: "i < n \<Longrightarrow> i * b + b \<le> n * (b :: nat)"
  by (metis Suc_leI add.commute mult.commute mult_Suc_right mult_le_mono2)

lemma row_at_write:
  assumes "copy_at buf (j * b) row = Some buf'" "length buf = n * b" "length row = b" "i < n" "j < n"
  shows "row_at b buf' i = (if i = j then row else row_at b buf i)"
proof (rule nth_equalityI)
  have len: "length buf' = n * b" using length_copy_at [OF assms(1)] assms(2) by simp
  show "length (row_at b buf' i) = length (if i = j then row else row_at b buf i)"
    using row_fits [OF assms(4), of b] len assms(2,3) by (auto simp: row_at_def)
  fix m assume "m < length (row_at b buf' i)"
  then have m: "m < b" by (simp add: row_at_def)
  have fit: "i * b + m < n * b" using row_fits [OF assms(4), of b] m by linarith
  have "j * b \<le> i * b + m \<and> i * b + m < j * b + b \<longleftrightarrow> i = j"
  proof
    assume "j * b \<le> i * b + m \<and> i * b + m < j * b + b"
    then have "(i * b + m) div b = j" using m by (intro div_nat_eqI) (auto simp: mult.commute)
    then show "i = j" using m by simp
  qed (use m in simp)
  moreover have "i * b \<le> length buf'" "i * b \<le> length buf" using fit len assms(2) by linarith+
  ultimately show "row_at b buf' i ! m = (if i = j then row else row_at b buf i) ! m"
    using nth_copy_at [OF assms(1), of "i * b + m"] fit assms(2,3) m by (auto simp: row_at_def len nth_drop)
qed

lemma held_rows_put:
  assumes "row_ring_ok slots b r" "rr_count r < slots" "copy_at (rr_buf r) (rr_head r * b) row = Some buf" "length row = b"
  shows "held_rows slots b (r\<lparr>rr_buf := buf, rr_head := h, rr_count := rr_count r + 1\<rparr>) = held_rows slots b r @ [row]"
proof -
  have len: "length (rr_buf r) = slots * b" and pos: "0 < slots" and head: "rr_head r = (rr_tail r + rr_count r) mod slots"
    using assms(1) by (simp_all add: row_ring_ok_def)
  have "row_at b buf ((rr_tail r + k) mod slots) = (if k = rr_count r then row else row_at b (rr_buf r) ((rr_tail r + k) mod slots))"
    if "k \<le> rr_count r" for k
  proof -
    have "(rr_tail r + k) mod slots = (rr_tail r + rr_count r) mod slots \<longleftrightarrow> k = rr_count r"
    proof
      assume "(rr_tail r + k) mod slots = (rr_tail r + rr_count r) mod slots"
      then have "slots dvd rr_count r - k" using that by (metis mod_eq_dvd_iff_nat add_left_mono diff_add_inverse diff_diff_left)
      then show "k = rr_count r" using assms(2) that by (metis dvd_imp_le le_neq_implies_less less_imp_diff_less linorder_not_less zero_less_diff)
    qed simp
    then show ?thesis using row_at_write [OF assms(3) len assms(4), of "(rr_tail r + k) mod slots"] head pos by simp
  qed
  then show ?thesis by (simp add: held_rows_def)
qed

lemma held_rows_get:
  assumes "0 < rr_count r"
  shows "held_rows slots b r = row_at b (rr_buf r) (rr_tail r mod slots) #
    held_rows slots b (r\<lparr>rr_tail := (rr_tail r + 1) mod slots, rr_count := rr_count r - 1\<rparr>)"
proof -
  obtain n where n: "rr_count r = Suc n" using assms by (cases "rr_count r") simp_all
  have "[0..<Suc n] = 0 # map Suc [0..<n]" by (simp add: upt_conv_Cons map_Suc_upt)
  then show ?thesis by (simp add: held_rows_def n comp_def mod_add_left_eq del: upt_Suc)
qed

definition queue_ok :: "nat \<Rightarrow> nat \<Rightarrow> pipe \<Rightarrow> bool" where
  "queue_ok slots row_bytes p \<longleftrightarrow> row_ring_ok slots row_bytes (p_ring p) \<and>
     p_put p = p_got p @ held_rows slots row_bytes (p_ring p) \<and>
     (\<forall>row. p_producer p \<in> {PPut row, PWait row} \<longrightarrow> length row = row_bytes)"

lemma row_ring_ok_flags [simp]:
  "row_ring_ok n b (r\<lparr>rr_aborted := x\<rparr>) = row_ring_ok n b r" "row_ring_ok n b (r\<lparr>rr_closed := x\<rparr>) = row_ring_ok n b r"
  "held_rows n b (r\<lparr>rr_aborted := x\<rparr>) = held_rows n b r" "held_rows n b (r\<lparr>rr_closed := x\<rparr>) = held_rows n b r"
  by (simp_all add: row_ring_ok_def held_rows_def)

lemma put_section_ok:
  assumes "row_ring_ok n b r" "length row = b"
  shows "\<exists>out. put_section n b row r = Some out \<and>
    (\<forall>r'. out = Put_done r' \<longrightarrow> rr_count r < n \<and> row_ring_ok n b r' \<and> held_rows n b r' = held_rows n b r @ [row] \<and>
       rr_count r' = rr_count r + 1)"
proof (cases "rr_count r = n \<or> rr_aborted r")
  case True
  then show ?thesis by (auto simp: put_section_def)
next
  case False
  have "rr_head r < n" using assms(1) by (simp add: row_ring_ok_def)
  then have "rr_head r * b + length row \<le> length (rr_buf r)" using row_fits [of "rr_head r" n b] assms by (simp add: row_ring_ok_def)
  then obtain buf where buf: "copy_at (rr_buf r) (rr_head r * b) row = Some buf" using copy_at_in_range by blast
  let ?r = "r\<lparr>rr_buf := buf, rr_head := (rr_head r + 1) mod n, rr_count := rr_count r + 1\<rparr>"
  have less: "rr_count r < n" using False assms(1) by (simp add: row_ring_ok_def)
  have "row_ring_ok n b ?r" using assms less length_copy_at [OF buf] by (simp add: row_ring_ok_def mod_Suc_eq)
  then show ?thesis using held_rows_put [OF assms(1) less buf assms(2)] buf less False by (simp add: put_section_def)
qed

lemma get_section_ok:
  assumes "row_ring_ok n b r"
  shows "\<exists>out. get_section n b r = Some out \<and>
    (\<forall>row r'. out = Get_row row r' \<longrightarrow> 0 < rr_count r \<and> row_ring_ok n b r' \<and> held_rows n b r = row # held_rows n b r' \<and>
       rr_count r' = rr_count r - 1)"
proof (cases "rr_count r = 0")
  case True
  then show ?thesis by (auto simp: get_section_def)
next
  case False
  have tail: "rr_tail r < n" using assms by (simp add: row_ring_ok_def)
  then have "slice (rr_buf r) (rr_tail r * b) (rr_tail r * b + b) = Some (row_at b (rr_buf r) (rr_tail r mod n))"
    using row_fits [of "rr_tail r" n b] assms by (simp add: slice_def row_at_def row_ring_ok_def)
  moreover have "row_ring_ok n b (r\<lparr>rr_tail := (rr_tail r + 1) mod n, rr_count := rr_count r - 1\<rparr>)"
    using assms False by (cases "rr_count r") (auto simp: row_ring_ok_def mod_add_left_eq)
  ultimately show ?thesis using False held_rows_get [of r n b] by (simp add: get_section_def Let_def)
qed

lemma queue_step:
  assumes "pipe_step drains slots row_bytes p q" "queue_ok slots row_bytes p"
  shows "queue_ok slots row_bytes q"
  using assms(1)
proof cases
  case (put_stores row r)
  then show ?thesis using assms(2) put_section_ok [of slots row_bytes "p_ring p" row] by (auto simp: queue_ok_def)
next
  case (get_takes row r)
  then show ?thesis using assms(2) get_section_ok [of slots row_bytes "p_ring p"] by (auto simp: queue_ok_def)
next
  case (producer_abort_step k g)
  then show ?thesis using assms(2) by (auto simp: queue_ok_def abort_step_def)
next
  case (producer_close_step k)
  then show ?thesis using assms(2) by (auto simp: queue_ok_def close_step_def)
next
  case (consumer_abort_step k g)
  then show ?thesis using assms(2) by (auto simp: queue_ok_def abort_step_def)
next
  case (put_call arg row)
  then show ?thesis using assms(2) by (auto simp: queue_ok_def row_arg_def split: if_splits)
next
  case (put_waits row)
  then show ?thesis using assms(2) by (simp add: queue_ok_def)
next
  case (put_wakes row)
  then show ?thesis using assms(2) by (simp add: queue_ok_def)
qed (use assms(2) in \<open>simp_all add: queue_ok_def\<close>)

lemma reaches_induct:
  assumes "pipe_reaches drains slots row_bytes p"
    and "\<And>r. row_ring_new (\<lambda>_. True) row_bytes slots = Ok (r, slots) \<Longrightarrow> I (pipe_start r)"
    and "\<And>p q. pipe_step drains slots row_bytes p q \<Longrightarrow> I p \<Longrightarrow> I q"
  shows "I p"
proof -
  obtain r where r: "row_ring_new (\<lambda>_. True) row_bytes slots = Ok (r, slots)" "(pipe_step drains slots row_bytes)\<^sup>*\<^sup>* (pipe_start r) p"
    using assms(1) by (auto simp: pipe_reaches_def)
  show ?thesis using r(2) assms(2) [OF r(1)] by (induction rule: rtranclp_induct) (auto intro: assms(3))
qed

lemma new_ring:
  "row_ring_new mem row_bytes slots = Ok (r, slots) \<Longrightarrow>
   0 < slots \<and> r = \<lparr>rr_buf = replicate (slots * row_bytes) 0, rr_head = 0, rr_tail = 0, rr_count = 0, rr_closed = False, rr_aborted = False\<rparr>"
  by (auto simp: row_ring_new_def Let_def DEFAULT_SLOTS_def split: if_splits)

lemma reaches_queue: "pipe_reaches drains slots row_bytes p \<Longrightarrow> queue_ok slots row_bytes p"
proof (erule reaches_induct)
  fix r assume "row_ring_new (\<lambda>_. True) row_bytes slots = Ok (r, slots)"
  from new_ring [OF this] show "queue_ok slots row_bytes (pipe_start r)"
    by (auto simp: queue_ok_def row_ring_ok_def pipe_start_def held_rows_def)
qed (rule queue_step)

lemma reaches_wakeups: "pipe_reaches drains slots row_bytes p \<Longrightarrow> wakeups drains slots p"
proof (erule reaches_induct)
  fix r assume "row_ring_new (\<lambda>_. True) row_bytes slots = Ok (r, slots)"
  from new_ring [OF this] show "wakeups drains slots (pipe_start r)" by (auto simp: wakeups_def pipe_start_def)
qed (rule wakeups_step)

text \<open>What the end of the stream means.\<close>

definition end_ok :: "pipe \<Rightarrow> bool" where
  "end_ok p \<longleftrightarrow> (p_told p \<and> \<not> rr_aborted (p_ring p) \<longrightarrow> rr_closed (p_ring p) \<and> rr_count (p_ring p) = 0)"

lemma end_step:
  assumes "pipe_step drains slots row_bytes p q" "wakeups drains slots p" "end_ok p"
  shows "end_ok q"
  using assms(1)
proof cases
  case (put_stores row r)
  then have "\<not> rr_closed (p_ring p)" "rr_aborted r = rr_aborted (p_ring p)"
    using assms(2) by (auto simp: wakeups_def put_section_def bind_eq_Some_conv split: if_splits)
  then show ?thesis using put_stores assms(3) by (auto simp: end_ok_def)
next
  case (get_tells)
  then show ?thesis by (auto simp: end_ok_def get_section_def bind_eq_Some_conv Let_def split: if_splits)
next
  case (get_takes row r)
  then show ?thesis using assms(3) by (auto simp: end_ok_def get_section_def bind_eq_Some_conv Let_def split: if_splits)
qed (use assms(3) in \<open>auto simp: end_ok_def abort_step_def close_step_def\<close>)

lemma reaches_end: "pipe_reaches drains slots row_bytes p \<Longrightarrow> end_ok p"
proof -
  assume "pipe_reaches drains slots row_bytes p"
  then have "wakeups drains slots p \<and> end_ok p"
  proof (rule reaches_induct)
    fix r assume "row_ring_new (\<lambda>_. True) row_bytes slots = Ok (r, slots)"
    from new_ring [OF this] show "wakeups drains slots (pipe_start r) \<and> end_ok (pipe_start r)"
      by (auto simp: wakeups_def end_ok_def pipe_start_def)
  qed (use wakeups_step end_step in blast)
  then show ?thesis ..
qed

lemma never_stuck:
  assumes "wakeups True slots p" "queue_ok slots row_bytes p"
  shows "p_producer p = PDone \<and> p_consumer p = CDone \<or> (\<exists>q. pipe_step True slots row_bytes p q)"
proof (rule ccontr)
  assume "\<not> ?thesis"
  then have none: "\<not> pipe_step True slots row_bytes p q" and undone: "p_producer p \<noteq> PDone \<or> p_consumer p \<noteq> CDone" for q by auto
  have ring: "row_ring_ok slots row_bytes (p_ring p)" using assms(2) by (simp add: queue_ok_def)
  have producer: "p_producer p = PDone \<or> (\<exists>row. p_producer p = PWait row \<and> \<not> p_not_full p)"
  proof (cases "p_producer p")
    case (PPut row)
    then obtain out where "put_section slots row_bytes row (p_ring p) = Some out"
      using put_section_ok [OF ring] assms(2) by (auto simp: queue_ok_def)
    then show ?thesis using none PPut put_waits put_refused put_stores by (cases out) blast+
  next
    case PRun
    then show ?thesis using none producer_ends by blast
  next
    case PWait
    then show ?thesis using none put_wakes by blast
  next
    case PGive
    then show ?thesis using none put_gives by blast
  next
    case PAbort
    then show ?thesis using none producer_abort_step by blast
  next
    case PClose
    then show ?thesis using none producer_close_step by blast
  qed simp
  have consumer: "p_consumer p = CDone \<or> p_consumer p = CWait \<and> \<not> p_not_empty p"
  proof (cases "p_consumer p")
    case CGet
    obtain out where out: "get_section slots row_bytes (p_ring p) = Some out" using get_section_ok [OF ring] by blast
    show ?thesis
    proof (cases out)
      case Get_refused
      then have "get_section slots row_bytes (p_ring p) \<in> {Some Get_refused, Some Get_end}" using out by simp
      then show ?thesis using none get_tells [OF CGet] by blast
    next
      case Get_end
      then have "get_section slots row_bytes (p_ring p) \<in> {Some Get_refused, Some Get_end}" using out by simp
      then show ?thesis using none get_tells [OF CGet] by blast
    next
      case Get_wait
      then show ?thesis using none out get_waits [OF CGet] by blast
    next
      case Get_row
      then show ?thesis using none out get_takes [OF CGet] by blast
    qed
  next
    case CRun
    then show ?thesis using none get_call by blast
  next
    case CWait
    then show ?thesis using none get_wakes by blast
  next
    case CGive
    then show ?thesis using none get_gives by blast
  next
    case CAbort
    then show ?thesis using none consumer_abort_step by blast
  qed simp
  have "0 < slots" using ring by (simp add: row_ring_ok_def)
  then show False using producer consumer undone assms(1) by (auto simp: wakeups_def)
qed

section \<open>Properties\<close>

text \<open>C25: In every interleaving of the two tasks, with whatever the two closures do, the consumer gets the rows that
  were put, in order, each once: what was put is what was taken followed by the rows in the ring, of
  which there are never more than slots; and when the consumer is told the end of a stream that nobody
  aborted, it has got every row.\<close>

theorem pipeline_is_fifo:
  assumes "pipe_reaches drains slots row_bytes p"
  shows "\<exists>rows. p_put p = p_got p @ rows \<and> length rows = rr_count (p_ring p) \<and> length rows \<le> slots \<and>
    (p_told p \<and> \<not> rr_aborted (p_ring p) \<longrightarrow> rows = [])"
proof -
  have q: "queue_ok slots row_bytes p" by (rule reaches_queue [OF assms])
  then have "length (held_rows slots row_bytes (p_ring p)) = rr_count (p_ring p)" by (simp add: held_rows_def)
  then show ?thesis using q reaches_end [OF assms] by (auto simp: queue_ok_def row_ring_ok_def end_ok_def)
qed

definition example_ring :: row_ring where
  "example_ring = \<lparr>rr_buf = [0], rr_head = 0, rr_tail = 0, rr_count = 0, rr_closed = False, rr_aborted = False\<rparr>"

text \<open>One slot, rows of a byte: the producer puts a row and waits to put the next.\<close>

lemma example_run:
  "\<exists>p. pipe_reaches drains 1 1 p \<and> p_producer p = PWait [8] \<and> p_consumer p = CRun \<and> \<not> p_not_full p \<and> p_put p = [[7]]"
proof -
  let ?step = "pipe_step drains 1 1"
  let ?r = "example_ring\<lparr>rr_buf := [7], rr_count := 1\<rparr>"
  let ?p0 = "pipe_start example_ring"
  let ?p1 = "?p0\<lparr>p_producer := PPut [7]\<rparr>"
  let ?p2 = "?p1\<lparr>p_ring := ?r, p_producer := PGive, p_put := [[7]]\<rparr>"
  let ?p3 = "?p2\<lparr>p_not_empty := True, p_producer := PRun\<rparr>"
  let ?p4 = "?p3\<lparr>p_producer := PPut [8]\<rparr>"
  let ?p5 = "?p4\<lparr>p_producer := PWait [8]\<rparr>"
  note defs = pipe_start_def example_ring_def row_arg_def put_section_def copy_at_def
  have 1: "?step ?p0 ?p1" by (rule put_call [where arg = "[7]"]) (simp_all add: defs)
  have 2: "?step ?p1 ?p2"
    using put_stores [of ?p1 "[7]" 1 1 ?r drains] by (simp add: defs)
  have 3: "?step ?p2 ?p3" by (rule put_gives) simp
  have 4: "?step ?p3 ?p4" by (rule put_call [where arg = "[8]"]) (simp_all add: defs)
  have 5: "?step ?p4 ?p5" by (rule put_waits) (simp_all add: defs)
  have "?step\<^sup>*\<^sup>* ?p0 ?p5" using 1 2 3 4 5 by (meson converse_rtranclp_into_rtranclp rtranclp.rtrancl_refl)
  moreover have "row_ring_new (\<lambda>_. True) 1 1 = Ok (example_ring, 1)" by (simp add: row_ring_new_def example_ring_def)
  ultimately have "pipe_reaches drains 1 1 ?p5" unfolding pipe_reaches_def by blast
  then show ?thesis by (intro exI [of _ ?p5]) (simp add: pipe_start_def)
qed

lemma pipeline_is_fifo_witness:
  "\<exists>p rows. pipe_reaches True 1 1 p \<and> p_put p = [[7]] \<and> p_put p = p_got p @ rows \<and> length rows = rr_count (p_ring p) \<and> length rows \<le> 1"
proof -
  obtain p where p: "pipe_reaches True 1 1 p" "p_put p = [[7]]" using example_run by blast
  then show ?thesis using pipeline_is_fifo [OF p(1)] by blast
qed

text \<open>C26: No wakeup is lost: if the consumer only ends well once it was told that the stream ended or was aborted,
  the two tasks never block each other. In every reachable state both are at their end or one of them
  can take a step.\<close>

theorem pipeline_never_stuck:
  assumes "pipe_reaches True slots row_bytes p"
  shows "p_producer p = PDone \<and> p_consumer p = CDone \<or> (\<exists>q. pipe_step True slots row_bytes p q)"
  by (rule never_stuck [OF reaches_wakeups [OF assms] reaches_queue [OF assms]])

lemma pipeline_never_stuck_witness:
  "\<exists>p. pipe_reaches True 1 1 p \<and> p_producer p = PWait [8] \<and> \<not> p_not_full p \<and> (\<exists>q. pipe_step True 1 1 p q)"
proof -
  obtain p where p: "pipe_reaches True 1 1 p" "p_producer p = PWait [8]" "\<not> p_not_full p" using example_run by blast
  then show ?thesis using pipeline_never_stuck [OF p(1)] by auto
qed


end
