(* ===== verification/Png_Decoder.thy ===== *)
theory Png_Decoder
  imports Image_Open Inflate_Spec
begin

text \<open>
  PNG without interlacing, \<open>libs/devkit_image/src/png.rs\<close>: opening a stream (the header, the palette and its
  transparency, up to the first \<open>IDAT\<close>), undoing the filter of a row, converting it to the row format, and
  reading row after row. The \<open>IdatSource\<close> over the reader is held as the blocks that it hands out, which
  \<open>Image_Sources\<close> shows it to be. A multiplication of lengths cannot overflow: widths are below \<open>2\<^sup>1\<^sup>6\<close>.
\<close>

section \<open>Pixels and filters\<close>

definition composite_white :: "u8 \<Rightarrow> u8 \<Rightarrow> u8" where
  "composite_white c a = word_of_nat ((unat c * unat a + 255 * (255 - unat a) + 127) div 255)"

definition paeth :: "u8 \<Rightarrow> u8 \<Rightarrow> u8 \<Rightarrow> u8" where
  "paeth a b c =
     (let ia = uint a; ib = uint b; ic = uint c; p = ia + ib - ic; pa = \<bar>p - ia\<bar>; pb = \<bar>p - ib\<bar>; pc = \<bar>p - ic\<bar>
      in if pa \<le> pb \<and> pa \<le> pc then a else if pb \<le> pc then b else c)"

text \<open>The byte \<open>i\<close> of a row from the filtered byte \<open>x\<close>, the row above and the bytes before it.\<close>

definition unfilter_byte :: "u8 \<Rightarrow> nat \<Rightarrow> u8 list \<Rightarrow> u8 list \<Rightarrow> nat \<Rightarrow> u8 \<Rightarrow> u8" where
  "unfilter_byte kind bpp prev cur i x =
     (if kind = 1 then (if i < bpp then x else x + cur ! (i - bpp))
      else if kind = 2 then x + prev ! i
      else if kind = 3 then
        (if i < bpp then x + drop_bit 1 (prev ! i)
         else x + word_of_nat ((unat (cur ! (i - bpp)) + unat (prev ! i)) div 2))
      else if kind = 4 then
        (if i < bpp then x + prev ! i else x + paeth (cur ! (i - bpp)) (prev ! i) (prev ! (i - bpp)))
      else x)"

definition unfilter :: "nat \<Rightarrow> u8 list \<Rightarrow> u8 list \<Rightarrow> u8 list" where
  "unfilter bpp prev filtered =
     foldl (\<lambda>cur i. cur @ [unfilter_byte (filtered ! 0) bpp prev cur i (filtered ! (i + 1))]) [] [0..<length prev]"

section \<open>The decoder\<close>

record png =
  pn_src :: block_source
  pn_inflate :: inflate
  pn_window :: "u8 list"
  pn_width :: nat
  pn_height :: nat
  pn_format :: image_format
  pn_bitdepth :: nat
  pn_colortype :: nat
  pn_rowbytes :: nat
  pn_filter_bpp :: nat
  pn_row :: nat
  pn_palette :: "u8 list list"
  pn_trns :: "u8 list"
  pn_palette_count :: nat
  pn_prev :: "u8 list"

definition PNG_SIGNATURE :: "u8 list" where
  "PNG_SIGNATURE = [0x89, 0x50, 0x4E, 0x47, 0x0D, 0x0A, 0x1A, 0x0A]"

definition USIZE_MAX :: nat where "USIZE_MAX = 2 ^ 32 - 1"

subsection \<open>Opening\<close>

record png_head =
  ph_width :: nat
  ph_height :: nat
  ph_bitdepth :: nat
  ph_colortype :: nat
  ph_channels :: nat
  ph_rgb :: bool

text \<open>The match on the colour type.\<close>

definition png_channels :: "nat \<Rightarrow> nat \<Rightarrow> (nat \<times> bool) option" where
  "png_channels colortype bitdepth =
     (let low_depth = bitdepth \<in> {1, 2, 4, 8} in
      if colortype = 0 \<and> low_depth then Some (1, False)
      else if colortype = 2 \<and> bitdepth = 8 then Some (3, True)
      else if colortype = 3 \<and> low_depth then Some (1, True)
      else if colortype = 4 \<and> bitdepth = 8 then Some (2, False)
      else if colortype = 6 \<and> bitdepth = 8 then Some (4, True)
      else None)"

definition png_read_head :: "reader \<Rightarrow> (image_error, png_head \<times> reader) res" where
  "png_read_head r =
     bind_res (read_or r 8) (\<lambda>(sig, r).
     if sig \<noteq> PNG_SIGNATURE then Err ImgDecode
     else bind_res (read_or r 4) (\<lambda>(lenbuf, r). bind_res (read_or r 4) (\<lambda>(tag, r).
     if tag \<noteq> [0x49, 0x48, 0x44, 0x52] \<or> be32_at lenbuf 0 \<noteq> 13 then Err ImgDecode
     else bind_res (read_or r 13) (\<lambda>(ih, r). bind_res (skip_or r 4) (\<lambda>r.
       let w = unat (be32_at ih 0); h = unat (be32_at ih 4); bitdepth = unat (ih ! 8); colortype = unat (ih ! 9) in
       if ih ! 10 \<noteq> 0 \<or> ih ! 11 \<noteq> 0 then Err ImgDecode
       else if ih ! 12 \<noteq> 0 then Err ImgUnsupported
       else if w = 0 \<or> h = 0 then Err ImgDecode
       else if 0xFFFF < w \<or> 0xFFFF < h then Err ImgTooLarge
       else case png_channels colortype bitdepth of
         None \<Rightarrow> Err ImgUnsupported
       | Some (channels, rgb) \<Rightarrow>
           Ok (\<lparr>ph_width = w, ph_height = h, ph_bitdepth = bitdepth, ph_colortype = colortype, ph_channels = channels,
                ph_rgb = rgb\<rparr>, r))))))"

text \<open>The loop over the chunks before the image data; it ends with the length of the first \<open>IDAT\<close>.\<close>

record png_tables =
  pt_palette :: "u8 list list"
  pt_trns :: "u8 list"
  pt_count :: nat

datatype chunk_step = Chunk_next png_tables reader | Chunk_data nat reader

definition png_chunk :: "png_tables \<Rightarrow> reader \<Rightarrow> (image_error, chunk_step) res" where
  "png_chunk t r =
     bind_res (read_or r 4) (\<lambda>(lenbuf, r). bind_res (read_or r 4) (\<lambda>(tag, r).
     let len = unat (be32_at lenbuf 0) in
     if tag = [0x50, 0x4C, 0x54, 0x45] then
       (if len mod 3 \<noteq> 0 \<or> 256 < len div 3 then Err ImgDecode
        else let count = len div 3 in
          bind_res (read_entries r count) (\<lambda>(es, r). bind_res (skip_or r 4) (\<lambda>r.
            Ok (Chunk_next (t\<lparr>pt_palette := es @ drop count (pt_palette t), pt_count := count\<rparr>) r))))
     else if tag = [0x74, 0x52, 0x4E, 0x53] then
       (let k = min len 256 in
        bind_res (read_or r k) (\<lambda>(bs, r). bind_res (skip_or r (len - k + 4)) (\<lambda>r.
          Ok (Chunk_next (t\<lparr>pt_trns := bs @ drop k (pt_trns t)\<rparr>) r))))
     else if tag = IDAT_TAG then Ok (Chunk_data len r)
     else if tag = [0x49, 0x45, 0x4E, 0x44] then Err ImgDecode
     else bind_res (skip_or r (min (len + 4) USIZE_MAX)) (\<lambda>r. Ok (Chunk_next t r))))"

lemma png_chunk_left: "png_chunk t r = Ok (Chunk_next t' r') \<Longrightarrow> reader_left r' < reader_left r"
  by (auto simp: png_chunk_def bind_res_Ok Let_def split: if_splits dest!: read_or_left skip_or_left read_entries_left)

function png_chunks :: "png_tables \<Rightarrow> reader \<Rightarrow> (image_error, nat \<times> png_tables \<times> reader) res" where
  "png_chunks t r =
     (case png_chunk t r of
        Err e \<Rightarrow> Err e
      | Ok (Chunk_data len r) \<Rightarrow> Ok (len, t, r)
      | Ok (Chunk_next t r) \<Rightarrow> png_chunks t r)"
  by pat_completeness auto
termination by (relation "measure (\<lambda>(t, r). reader_left r)") (auto dest: png_chunk_left)

declare png_chunks.simps [simp del]

definition png_tables_new :: png_tables where
  "png_tables_new = \<lparr>pt_palette = replicate 256 [0, 0, 0], pt_trns = replicate 256 0xFF, pt_count = 0\<rparr>"

text \<open>What is left to do when the image data begins.\<close>

definition png_start ::
  "(nat \<Rightarrow> bool) \<Rightarrow> decode_options \<Rightarrow> png_head \<Rightarrow> nat \<Rightarrow> png_tables \<Rightarrow> reader \<Rightarrow> (image_error, png) res option" where
  "png_start mem options head len t r =
     on_res (alloc mem 5) (\<lambda>_. on_res (alloc mem 6) (\<lambda>_. do {
       let src = as_blocks idat_pull idat_left (buffered_new \<lparr>id_r = r, id_remaining = len, id_done = False\<rparr>);
       (result, z, src) \<leftarrow> inflate_start inflate_new src;
       (case result of
          Err _ \<Rightarrow> Some (Err ImgDecode)
        | Ok _ \<Rightarrow>
            let bits = ph_channels head * ph_bitdepth head; rowbytes = div_ceil (ph_width head * bits) 8 in
            on_res (out_format (if ph_rgb head then Rgb888 else L8) (do_format options)) (\<lambda>f.
            on_res (alloc mem 7) (\<lambda>_. on_res (alloc mem 8) (\<lambda>_. on_res (alloc mem 9) (\<lambda>_.
            Some (Ok \<lparr>pn_src = src, pn_inflate = z, pn_window = replicate WINDOW_BYTES 0, pn_width = ph_width head,
                      pn_height = ph_height head, pn_format = f, pn_bitdepth = ph_bitdepth head, pn_colortype = ph_colortype head,
                      pn_rowbytes = rowbytes, pn_filter_bpp = div_ceil bits 8, pn_row = 0, pn_palette = pt_palette t,
                      pn_trns = pt_trns t, pn_palette_count = pt_count t, pn_prev = replicate rowbytes 0\<rparr>))))))
     }))"

definition png_open :: "(nat \<Rightarrow> bool) \<Rightarrow> stream \<Rightarrow> decode_options \<Rightarrow> (image_error, png) res option" where
  "png_open mem src options =
     on_res (alloc mem 0) (\<lambda>_. on_res (alloc mem 1) (\<lambda>_.
     on_res (png_read_head (reader_new src)) (\<lambda>(head, r).
     on_res (alloc mem 2) (\<lambda>_. on_res (alloc mem 3) (\<lambda>_. on_res (alloc mem 4) (\<lambda>_.
     on_res (png_chunks png_tables_new r) (\<lambda>(len, t, r).
     if ph_colortype head = 3 \<and> pt_count t = 0 then Some (Err ImgDecode)
     else png_start mem options head len t r)))))))"

subsection \<open>Rows\<close>

text \<open>\<open>sample\<close>: the \<open>x\<close>-th sample of a line.\<close>

definition png_sample :: "u8 list \<Rightarrow> nat \<Rightarrow> nat \<Rightarrow> nat option" where
  "png_sample line depth x = do {
     let bitpos = x * depth;
     b \<leftarrow> byte_at line (bitpos div 8);
     Some (unat (drop_bit (8 - depth - bitpos mod 8) b) mod 2 ^ depth)
   }"

definition png_convert :: "png \<Rightarrow> u8 list \<Rightarrow> u8 list \<Rightarrow> u8 list option" where
  "png_convert d line dst =
     (let w = pn_width d; depth = pn_bitdepth d; f = pn_format d in
      if pn_colortype d = 0 then do {
        pixels \<leftarrow> those (map (\<lambda>x. do { s \<leftarrow> png_sample line depth x; Some (store_gray f (word_of_nat (s * 255 div (2 ^ depth - 1)))) }) [0..<w]);
        store_pixels f w dst pixels
      }
      else if pn_colortype d = 2 then do {
        n \<leftarrow> store_bytes f;
        _ \<leftarrow> slice dst 0 (w * n);
        store_row line Rgb888 dst f w
      }
      else if pn_colortype d = 3 then do {
        pixels \<leftarrow> those (map (\<lambda>x. do {
          s \<leftarrow> png_sample line depth x;
          let i = min s (pn_palette_count d - 1);
          p \<leftarrow> arr_get (pn_palette d) i;
          a \<leftarrow> arr_get (pn_trns d) i;
          Some (store_rgb f (composite_white (p ! 0) a) (composite_white (p ! 1) a) (composite_white (p ! 2) a))
        }) [0..<w]);
        store_pixels f w dst pixels
      }
      else if pn_colortype d = 4 then
        store_pixels f w dst (map (\<lambda>p. store_gray f (composite_white (p ! 0) (p ! 1))) (chunks_exact 2 line))
      else
        store_pixels f w dst (map (\<lambda>p. store_rgb f (composite_white (p ! 0) (p ! 3)) (composite_white (p ! 1) (p ! 3))
          (composite_white (p ! 2) (p ! 3))) (chunks_exact 4 line)))"

definition png_next_row :: "png \<Rightarrow> u8 list \<Rightarrow> ((image_error, bool) res \<times> u8 list \<times> png) option" where
  "png_next_row d dst =
     (if length dst < format_row_bytes (pn_format d) (pn_width d) then Some (Err ImgInvalidArgument, dst, d)
      else if pn_height d \<le> pn_row d then Some (Ok False, dst, d)
      else do {
        let need = 1 + pn_rowbytes d;
        (result, z, window, src) \<leftarrow> inflate_read (pn_inflate d) (pn_src d) (pn_window d) need;
        let d = d\<lparr>pn_inflate := z, pn_window := window, pn_src := src\<rparr>;
        (case result of
           Err _ \<Rightarrow> Some (Err ImgTruncated, dst, d)
         | Ok filtered \<Rightarrow>
             if length filtered \<noteq> need then Some (Err ImgTruncated, dst, d)
             else do {
               let cur = unfilter (pn_filter_bpp d) (pn_prev d) filtered;
               dst \<leftarrow> png_convert d cur dst;
               Some (Ok True, dst, d\<lparr>pn_prev := cur, pn_row := pn_row d + 1\<rparr>)
             })
      })"

section \<open>Filters\<close>

text \<open>The filters of the PNG specification (9.2), which an encoder applies: a byte less what the filter predicts
  from the bytes to the left, above and above to the left, which are zero outside of the image.\<close>

definition predictor :: "u8 \<Rightarrow> u8 \<Rightarrow> u8 \<Rightarrow> u8 \<Rightarrow> u8" where
  "predictor kind a b c =
     (if kind = 1 then a else if kind = 2 then b else if kind = 3 then word_of_nat ((unat a + unat b) div 2)
      else if kind = 4 then paeth a b c else 0)"

definition filter_row :: "u8 \<Rightarrow> nat \<Rightarrow> u8 list \<Rightarrow> u8 list \<Rightarrow> u8 list" where
  "filter_row kind bpp prev row =
     map (\<lambda>i. row ! i - predictor kind (if i < bpp then 0 else row ! (i - bpp)) (prev ! i) (if i < bpp then 0 else prev ! (i - bpp)))
       [0..<length row]"

lemma paeth_above: "paeth 0 b 0 = b"
  by (simp add: paeth_def Let_def uint_0_iff)

lemma half_word: "word_of_nat (unat b div 2) = (drop_bit 1 b :: u8)"
proof -
  have "drop_bit 1 b = word_of_nat (unat (drop_bit 1 b))" by simp
  also have "\<dots> = word_of_nat (unat b div 2)" by (simp only: unat_drop_bit_eq) (simp add: drop_bit_eq_div)
  finally show ?thesis by simp
qed

lemma unfilter_byte_spec:
  assumes "0 < bpp" "i < length row"
  shows "unfilter_byte kind bpp prev (take i row) i (filter_row kind bpp prev row ! i) = row ! i"
proof (cases "i < bpp")
  case True
  then show ?thesis using assms(2)
    by (simp add: unfilter_byte_def filter_row_def predictor_def paeth_above half_word)
next
  case False
  then have "take i row ! (i - bpp) = row ! (i - bpp)" using assms(1) by simp
  then show ?thesis using False assms(2) by (simp add: unfilter_byte_def filter_row_def predictor_def)
qed

lemma unfilter_filter:
  assumes "0 < bpp" "length row = length prev"
  shows "unfilter bpp prev (kind # filter_row kind bpp prev row) = row"
proof -
  let ?f = "\<lambda>cur i. cur @ [unfilter_byte kind bpp prev cur i (filter_row kind bpp prev row ! i)]"
  have "k \<le> length row \<Longrightarrow> foldl ?f [] [0..<k] = take k row" for k
  proof (induction k)
    case (Suc k)
    then show ?case using unfilter_byte_spec [OF assms(1), of k row kind prev] assms(1) by (simp add: take_Suc_conv_app_nth)
  qed simp
  from this [of "length row"] show ?thesis by (simp add: unfilter_def assms(2))
qed

lemma length_unfilter [simp]: "length (unfilter bpp prev filtered) = length prev"
proof -
  have "length (foldl (\<lambda>cur i. cur @ [f cur i]) [] [0..<k]) = k" for f :: "u8 list \<Rightarrow> nat \<Rightarrow> u8" and k
    by (induction k) simp_all
  then show ?thesis by (simp add: unfilter_def)
qed

section \<open>The image data\<close>

text \<open>The chunks that follow the data of the first: the checksum of the one before, length, tag and data.\<close>

fun idat_chunks :: "(u8 list \<times> u8 list) list \<Rightarrow> u8 list \<Rightarrow> u8 list" where
  "idat_chunks [] tail = tail"
| "idat_chunks ((crc, d) # ds) tail = crc @ u32_bytes (word_of_nat (length d)) @ IDAT_TAG @ d @ idat_chunks ds tail"

definition no_idat :: "u8 list \<Rightarrow> bool" where
  "no_idat tail \<longleftrightarrow> length tail < 12 \<or> take 4 (drop 8 tail) \<noteq> IDAT_TAG"

abbreviation idat_bytes :: "idat \<Rightarrow> u8 list" where
  "idat_bytes s \<equiv> concat (pull_blocks idat_pull (Suc (idat_left s)) s)"

lemma idat_bytes_same: "idat_pull s = idat_pull t \<Longrightarrow> idat_bytes s = idat_bytes t"
  using png.blocks_next [of s] png.blocks_next [of t] by (cases "idat_pull t") simp

lemma idat_bytes_data:
  assumes "cursor_ok r" "reader_rest r = d @ rest"
  shows "\<exists>r'. idat_bytes \<lparr>id_r = r, id_remaining = length d, id_done = False\<rparr> =
      d @ idat_bytes \<lparr>id_r = r', id_remaining = 0, id_done = False\<rparr> \<and> cursor_ok r' \<and> reader_rest r' = rest"
  using assms
proof (induction "length d" arbitrary: r d rule: less_induct)
  case less
  show ?case
  proof (cases d)
    case Nil
    then show ?thesis using less.prems by (intro exI [of _ r]) simp
  next
    case (Cons c cs)
    let ?s = "\<lparr>id_r = r, id_remaining = length d, id_done = False\<rparr>"
    let ?k = "min (length d) IDAT_BUF"
    have k: "0 < ?k" "?k \<le> length d" using Cons by (simp_all add: IDAT_BUF_def)
    obtain r' where r': "reader_read r ?k = (take ?k (reader_rest r), r')" "cursor_ok r'" "same_stream r r'"
        "reader_tell r' = reader_tell r + min ?k (length (reader_rest r))" "reader_rest r' = drop ?k (reader_rest r)"
      using reader_read_rest [OF less.prems(1)] by blast
    have got: "take ?k (reader_rest r) = take ?k d" "drop ?k (reader_rest r) = drop ?k d @ rest" using less.prems(2) k(2) by simp_all
    have pull: "idat_pull ?s = (take ?k d, \<lparr>id_r = r', id_remaining = length (drop ?k d), id_done = False\<rparr>)"
    proof -
      have "idat_header ?s = (True, ?s)" using Cons by (simp add: idat_header.simps)
      moreover have "take ?k d \<noteq> []" "length (take ?k d) = ?k" using k Cons by (simp_all add: min_def)
      ultimately show ?thesis using r'(1) got(1) by (simp add: idat_pull_def Let_def del: take_eq_Nil)
    qed
    obtain r2 where "idat_bytes \<lparr>id_r = r', id_remaining = length (drop ?k d), id_done = False\<rparr> =
        drop ?k d @ idat_bytes \<lparr>id_r = r2, id_remaining = 0, id_done = False\<rparr>" "cursor_ok r2" "reader_rest r2 = rest"
      using less.hyps [of "drop ?k d" r'] k r'(2,5) got(2) by auto
    moreover have "idat_bytes ?s = take ?k d @ idat_bytes \<lparr>id_r = r', id_remaining = length (drop ?k d), id_done = False\<rparr>"
      using png.blocks_next [OF pull] by simp
    ultimately show ?thesis by (metis append.assoc append_take_drop_id)
  qed
qed

lemma be32_at_bytes: "length p = 4 \<Longrightarrow> be32_at (p @ u32_bytes v @ q) 4 = v"
  by (simp add: be32_at_def nth_append u32_bytes_def)

lemma idat_bytes_next:
  assumes "cursor_ok r" "reader_rest r = crc @ u32_bytes (word_of_nat (length d)) @ IDAT_TAG @ rest"
    and "length crc = 4" "length d < 2 ^ 32"
  shows "\<exists>r'. idat_bytes \<lparr>id_r = r, id_remaining = 0, id_done = False\<rparr> = idat_bytes \<lparr>id_r = r', id_remaining = length d, id_done = False\<rparr> \<and>
    cursor_ok r' \<and> reader_rest r' = rest"
proof -
  let ?s = "\<lparr>id_r = r, id_remaining = 0, id_done = False\<rparr>"
  have tag: "length IDAT_TAG = 4" by (simp add: IDAT_TAG_def)
  obtain r1 where r1: "reader_read_exact r 8 = (8 \<le> length (reader_rest r), take 8 (reader_rest r), r1)" "cursor_ok r1"
      "reader_rest r1 = drop 8 (reader_rest r)"
    using reader_exact_rest [OF assms(1)] by metis
  have one: "take 8 (reader_rest r) = crc @ u32_bytes (word_of_nat (length d)) @ []" "reader_rest r1 = IDAT_TAG @ rest" "8 \<le> length (reader_rest r)"
    using assms(2,3) r1(3) by simp_all
  obtain r2 where r2: "reader_read_exact r1 4 = (4 \<le> length (reader_rest r1), take 4 (reader_rest r1), r2)" "cursor_ok r2"
      "reader_rest r2 = drop 4 (reader_rest r1)"
    using reader_exact_rest [OF r1(2)] by metis
  have two: "take 4 (reader_rest r1) = IDAT_TAG" "reader_rest r2 = rest" "4 \<le> length (reader_rest r1)"
    using one(2) r2(3) tag by simp_all
  let ?t = "\<lparr>id_r = r2, id_remaining = length d, id_done = False\<rparr>"
  have len: "unat (be32_at (crc @ u32_bytes (word_of_nat (length d)) @ []) 4) = length d"
    unfolding be32_at_bytes [OF assms(3)] using assms(4) by (simp add: unsigned_of_nat take_bit_nat_eq_self)
  have three: "take 4 (IDAT_TAG @ rest) = IDAT_TAG" "(4 \<le> length (IDAT_TAG @ rest)) = True" using tag by simp_all
  have "idat_header ?s = idat_header ?t"
    by (subst idat_header.simps) (simp only: r1(1) one r2(1) three len prod.case idat.simps not_True_eq_False if_False simp_thms)
  then have "idat_bytes ?s = idat_bytes ?t" by (intro idat_bytes_same) (simp add: idat_pull_def)
  then show ?thesis using r2(2) two(2) by blast
qed

lemma idat_bytes_end:
  assumes "cursor_ok r" "no_idat (reader_rest r)"
  shows "idat_bytes \<lparr>id_r = r, id_remaining = 0, id_done = False\<rparr> = []"
proof -
  let ?s = "\<lparr>id_r = r, id_remaining = 0, id_done = False\<rparr>"
  obtain r1 where r1: "reader_read_exact r 8 = (8 \<le> length (reader_rest r), take 8 (reader_rest r), r1)" "cursor_ok r1"
      "reader_rest r1 = drop 8 (reader_rest r)"
    using reader_exact_rest [OF assms(1)] by metis
  obtain r2 where r2: "reader_read_exact r1 4 = (4 \<le> length (reader_rest r1), take 4 (reader_rest r1), r2)"
    using reader_exact_rest [OF r1(2)] by metis
  have "8 \<le> length (reader_rest r) \<Longrightarrow> \<not> 4 \<le> length (reader_rest r1) \<or> take 4 (reader_rest r1) \<noteq> IDAT_TAG"
    using assms(2) r1(3) by (auto simp: no_idat_def)
  then have "\<exists>t. idat_header ?s = (False, t)"
    using r1(1) r2 by (subst idat_header.simps) auto
  then have "fst (idat_pull ?s) = []" by (auto simp: idat_pull_def)
  then show ?thesis using png.blocks_end [of ?s] by (simp del: pull_blocks.simps)
qed

lemma idat_bytes_chunks:
  assumes "cursor_ok r" "reader_rest r = idat_chunks ds tail" "no_idat tail" "\<forall>(crc, d) \<in> set ds. length crc = 4 \<and> length d < 2 ^ 32"
  shows "idat_bytes \<lparr>id_r = r, id_remaining = 0, id_done = False\<rparr> = concat (map snd ds)"
  using assms
proof (induction ds arbitrary: r)
  case Nil
  then show ?case using idat_bytes_end [of r] by (simp only: idat_chunks.simps list.map concat.simps)
next
  case (Cons cd ds)
  obtain crc d where cd: "cd = (crc, d)" by fastforce
  have small: "length crc = 4" "length d < 2 ^ 32" using Cons.prems(4) cd by auto
  have rest: "reader_rest r = crc @ u32_bytes (word_of_nat (length d)) @ IDAT_TAG @ d @ idat_chunks ds tail"
    using Cons.prems(2) cd by simp
  obtain r1 where r1: "idat_bytes \<lparr>id_r = r, id_remaining = 0, id_done = False\<rparr> = idat_bytes \<lparr>id_r = r1, id_remaining = length d, id_done = False\<rparr>"
      "cursor_ok r1" "reader_rest r1 = d @ idat_chunks ds tail"
    using idat_bytes_next [OF Cons.prems(1) rest small] by blast
  obtain r2 where r2: "idat_bytes \<lparr>id_r = r1, id_remaining = length d, id_done = False\<rparr> = d @ idat_bytes \<lparr>id_r = r2, id_remaining = 0, id_done = False\<rparr>"
      "cursor_ok r2" "reader_rest r2 = idat_chunks ds tail"
    using idat_bytes_data [OF r1(2,3)] by blast
  have "idat_bytes \<lparr>id_r = r2, id_remaining = 0, id_done = False\<rparr> = concat (map snd ds)"
    by (rule Cons.IH [OF r2(2,3) Cons.prems(3)]) (use Cons.prems(4) in auto)
  then show ?case using r1(1) r2(1) cd by simp
qed

section \<open>The invariant\<close>

definition png_ok :: "png \<Rightarrow> bool" where
  "png_ok d \<longleftrightarrow>
     (\<exists>channels rgb. png_channels (pn_colortype d) (pn_bitdepth d) = Some (channels, rgb) \<and>
        pn_rowbytes d = div_ceil (pn_width d * (channels * pn_bitdepth d)) 8 \<and>
        pn_filter_bpp d = div_ceil (channels * pn_bitdepth d) 8) \<and>
     0 < pn_width d \<and> pn_width d \<le> 0xFFFF \<and> pn_height d \<le> 0xFFFF \<and> pn_row d \<le> pn_height d \<and> is_row_format (pn_format d) \<and>
     length (pn_palette d) = 256 \<and> all_length 3 (pn_palette d) \<and> length (pn_trns d) = 256 \<and>
     pn_palette_count d \<le> 256 \<and> (pn_colortype d = 3 \<longrightarrow> 0 < pn_palette_count d) \<and>
     length (pn_prev d) = pn_rowbytes d \<and> inflate_ok (pn_inflate d) (pn_window d)"

definition png_tables_ok :: "png_tables \<Rightarrow> bool" where
  "png_tables_ok t \<longleftrightarrow> length (pt_palette t) = 256 \<and> all_length 3 (pt_palette t) \<and> length (pt_trns t) = 256 \<and> pt_count t \<le> 256"

lemma png_chunk_ok:
  assumes "png_chunk t r = Ok (Chunk_next t' r')" "png_tables_ok t"
  shows "png_tables_ok t'"
  using assms(1,2) all_length_drop [of 3 "pt_palette t"]
  by (auto simp: png_chunk_def bind_res_Ok Let_def png_tables_ok_def all_length_def split: if_splits
      dest!: read_or_length read_entries_length)

lemma png_chunks_ok: "png_chunks t r = Ok (len, t', r') \<Longrightarrow> png_tables_ok t \<Longrightarrow> png_tables_ok t'"
proof (induction t r rule: png_chunks.induct)
  case (1 t r)
  show ?case
  proof (cases "png_chunk t r")
    case (Err e)
    then show ?thesis using "1.prems" by (simp add: png_chunks.simps [of t r])
  next
    case (Ok s)
    then show ?thesis using "1" png_chunk_ok by (cases s) (auto simp: png_chunks.simps [of t r])
  qed
qed

lemma png_head_ok:
  assumes "png_read_head r = Ok (h, r')"
  shows "0 < ph_width h \<and> ph_width h \<le> 0xFFFF \<and> ph_height h \<le> 0xFFFF \<and>
    png_channels (ph_colortype h) (ph_bitdepth h) = Some (ph_channels h, ph_rgb h)"
  using assms by (auto simp: png_read_head_def bind_res_Ok Let_def split: if_splits option.splits prod.splits)

lemma png_start_total:
  assumes "0 < ph_width head \<and> ph_width head \<le> 0xFFFF \<and> ph_height head \<le> 0xFFFF \<and>
      png_channels (ph_colortype head) (ph_bitdepth head) = Some (ph_channels head, ph_rgb head)"
    and "png_tables_ok t" "\<not> (ph_colortype head = 3 \<and> pt_count t = 0)"
  shows "\<exists>res. png_start mem options head len t r = Some res \<and> (\<forall>d. res = Ok d \<longrightarrow> png_ok d)"
proof -
  let ?src = "as_blocks idat_pull idat_left (buffered_new \<lparr>id_r = r, id_remaining = len, id_done = False\<rparr>)"
  obtain res z s' where start: "inflate_start inflate_new ?src = Some (res, z, s')" "inflate_ok z (replicate WINDOW_BYTES 0)"
    using inflate_start_spec [of inflate_new "replicate WINDOW_BYTES 0" ?src] shape_new by auto
  have ok: "\<lbrakk>out_format native wanted = Ok f\<rbrakk> \<Longrightarrow>
      png_ok \<lparr>pn_src = s', pn_inflate = z, pn_window = replicate WINDOW_BYTES 0, pn_width = ph_width head,
                      pn_height = ph_height head, pn_format = f, pn_bitdepth = ph_bitdepth head, pn_colortype = ph_colortype head,
                      pn_rowbytes = div_ceil (ph_width head * (ph_channels head * ph_bitdepth head)) 8,
                      pn_filter_bpp = div_ceil (ph_channels head * ph_bitdepth head) 8, pn_row = 0, pn_palette = pt_palette t,
                      pn_trns = pt_trns t, pn_palette_count = pt_count t,
                      pn_prev = replicate (div_ceil (ph_width head * (ph_channels head * ph_bitdepth head)) 8) 0\<rparr>" for f native wanted
    using assms start(2) by (auto simp: png_ok_def png_tables_ok_def out_format_ok)
  show ?thesis
    unfolding png_start_def Let_def start(1)
    by (intro on_res_total; (cases res)?) (auto intro!: on_res_total ok)
qed

lemma png_open_total:
  "\<exists>res. png_open mem src options = Some res \<and> (\<forall>d. res = Ok d \<longrightarrow> png_ok d)"
proof -
  have "png_tables_ok png_tables_new" by (simp add: png_tables_ok_def png_tables_new_def all_length_def)
  then show ?thesis
    unfolding png_open_def
    by (auto intro!: on_res_total png_start_total dest!: png_head_ok png_chunks_ok split: prod.splits)
qed

section \<open>Rows\<close>

lemma png_sample_total:
  assumes "x < w" "w * depth \<le> 8 * length line" "0 < depth"
  shows "\<exists>s. png_sample line depth x = Some s \<and> s < 2 ^ depth"
proof -
  have "x * depth < w * depth" using assms(1,3) by simp
  also note assms(2)
  finally have "x * depth div 8 < length line" by (simp add: div_less_iff_less_mult mult.commute)
  then show ?thesis by (simp add: png_sample_def Let_def)
qed

lemma png_convert_total:
  assumes "png_ok d" "length line = pn_rowbytes d" "format_row_bytes (pn_format d) (pn_width d) \<le> length dst"
  shows "\<exists>dst'. png_convert d line dst = Some dst' \<and> length dst' = length dst"
proof -
  let ?f = "pn_format d" and ?w = "pn_width d" and ?depth = "pn_bitdepth d"
  obtain n where n: "store_bytes ?f = Some n" using assms(1) row_format_bytes by (auto simp: png_ok_def)
  have dst: "?w * n \<le> length dst" using assms(3) row_bytes_store [OF n] by simp
  obtain channels rgb where ch: "png_channels (pn_colortype d) ?depth = Some (channels, rgb)"
      and bytes: "pn_rowbytes d = div_ceil (?w * (channels * ?depth)) 8" using assms(1) by (auto simp: png_ok_def)
  have bits: "?w * (channels * ?depth) \<le> 8 * length line"
    using div_ceil_ge [of 8 "?w * (channels * ?depth)"] bytes assms(2) by (simp add: mult.commute)
  have depth: "0 < ?depth" using ch by (auto simp: png_channels_def Let_def split: if_splits)
  note rgb = length_store_rgb [OF n] and gray = length_store_gray [OF n]
  note total = store_pixels_total [OF n dst]
  consider "pn_colortype d = 0" "channels = 1" | "pn_colortype d = 2" "channels = 3" "?depth = 8" | "pn_colortype d = 3" "channels = 1"
    | "pn_colortype d = 4" | "pn_colortype d = 6"
    using ch by (auto simp: png_channels_def Let_def split: if_splits)
  then show ?thesis
  proof cases
    case 1
    let ?g = "\<lambda>x. do { s \<leftarrow> png_sample line ?depth x; Some (store_gray ?f (word_of_nat (s * 255 div (2 ^ ?depth - 1)))) }"
    have "\<exists>y. ?g x = Some y \<and> length y = n" if "x \<in> set [0..<?w]" for x
      using png_sample_total [of x ?w ?depth line] that bits depth 1 gray by auto
    then obtain ys where "those (map ?g [0..<?w]) = Some ys" "\<forall>y \<in> set ys. length y = n"
      using those_total [of "[0..<?w]" ?g "\<lambda>y. length y = n"] by blast
    then show ?thesis using 1 total [of ys] by (simp add: png_convert_def Let_def all_length_def)
  next
    case 2
    have "?w * 3 \<le> length line" using bits 2 by simp
    then show ?thesis using 2 store_row_total [OF n dst, of line] n dst by (simp add: png_convert_def Let_def slice_def)
  next
    case 3
    let ?g = "\<lambda>x. do {
          s \<leftarrow> png_sample line ?depth x;
          let i = min s (pn_palette_count d - 1);
          p \<leftarrow> arr_get (pn_palette d) i;
          a \<leftarrow> arr_get (pn_trns d) i;
          Some (store_rgb ?f (composite_white (p ! 0) a) (composite_white (p ! 1) a) (composite_white (p ! 2) a))
        }"
    have "\<exists>y. ?g x = Some y \<and> length y = n" if x: "x \<in> set [0..<?w]" for x
    proof -
      obtain s where "png_sample line ?depth x = Some s" using png_sample_total [of x ?w ?depth line] x bits depth 3 by auto
      moreover have "min s (pn_palette_count d - 1) < 256" using assms(1) 3 by (auto simp: png_ok_def)
      ultimately show ?thesis using assms(1) rgb by (simp add: png_ok_def Let_def)
    qed
    then obtain ys where "those (map ?g [0..<?w]) = Some ys" "\<forall>y \<in> set ys. length y = n"
      using those_total [of "[0..<?w]" ?g "\<lambda>y. length y = n"] by blast
    then show ?thesis using 3 total [of ys] by (simp add: png_convert_def Let_def all_length_def)
  qed (use total gray rgb in \<open>simp_all add: png_convert_def Let_def\<close>)
qed

lemma png_next_row_total:
  assumes "png_ok d"
  shows "\<exists>r dst' d'. png_next_row d dst = Some (r, dst', d') \<and> png_ok d' \<and> length dst' = length dst"
proof -
  consider "length dst < format_row_bytes (pn_format d) (pn_width d)" | "format_row_bytes (pn_format d) (pn_width d) \<le> length dst" "pn_height d \<le> pn_row d"
    | "format_row_bytes (pn_format d) (pn_width d) \<le> length dst" "pn_row d < pn_height d" by linarith
  then show ?thesis
  proof cases
    case 3
    obtain r z w s where read: "inflate_read (pn_inflate d) (pn_src d) (pn_window d) (1 + pn_rowbytes d) = Some (r, z, w, s)" "inflate_ok z w"
      using inflate_read_spec [of "pn_inflate d" "pn_window d" "pn_src d" "1 + pn_rowbytes d"] assms by (auto simp: png_ok_def)
    let ?d = "d\<lparr>pn_inflate := z, pn_window := w, pn_src := s\<rparr>"
    have ok: "png_ok ?d" using assms read(2) by (simp add: png_ok_def)
    have len: "length (unfilter (pn_filter_bpp d) (pn_prev d) f) = pn_rowbytes d" for f using assms by (simp add: png_ok_def)
    show ?thesis
    proof (cases "\<exists>f. r = Ok f \<and> length f = 1 + pn_rowbytes d")
      case True
      then obtain f where f: "r = Ok f" "length f = 1 + pn_rowbytes d" by blast
      obtain dst' where "png_convert ?d (unfilter (pn_filter_bpp d) (pn_prev d) f) dst = Some dst'" "length dst' = length dst"
        using png_convert_total [OF ok, of "unfilter (pn_filter_bpp d) (pn_prev d) f" dst] len 3 by auto
      moreover have "png_ok (?d\<lparr>pn_prev := unfilter (pn_filter_bpp d) (pn_prev d) f, pn_row := pn_row d + 1\<rparr>)"
        using ok len 3(2) by (simp add: png_ok_def)
      ultimately show ?thesis using 3 read(1) f by (simp add: png_next_row_def Let_def)
    next
      case False
      then show ?thesis using 3 read(1) ok by (cases r) (auto simp: png_next_row_def Let_def)
    qed
  qed (use assms in \<open>simp_all add: png_next_row_def\<close>)
qed

text \<open>One call of \<open>next_row\<close> per buffer: the results and what the buffers hold after them.\<close>

fun png_rows :: "png \<Rightarrow> u8 list list \<Rightarrow> (((image_error, bool) res \<times> u8 list) list \<times> png) option" where
  "png_rows d [] = Some ([], d)"
| "png_rows d (dst # dsts) = do {
     (r, out, d) \<leftarrow> png_next_row d dst;
     (outs, d) \<leftarrow> png_rows d dsts;
     Some ((r, out) # outs, d)
   }"

lemma png_rows_total:
  "png_ok d \<Longrightarrow> \<exists>outs d'. png_rows d dsts = Some (outs, d') \<and> png_ok d' \<and> map (\<lambda>x. length (snd x)) outs = map length dsts"
proof (induction dsts arbitrary: d)
  case (Cons dst dsts)
  obtain r out d1 where "png_next_row d dst = Some (r, out, d1)" "png_ok d1" "length out = length dst"
    using png_next_row_total [OF Cons.prems] by blast
  then show ?case using Cons.IH [of d1] by auto
qed simp

text \<open>The filtered rows of an image, each with the kind of its filter.\<close>

fun filter_image :: "nat \<Rightarrow> u8 list \<Rightarrow> (u8 \<times> u8 list) list \<Rightarrow> u8 list list" where
  "filter_image bpp prev [] = []"
| "filter_image bpp prev ((kind, row) # rows) = (kind # filter_row kind bpp prev row) # filter_image bpp row rows"

text \<open>Reads of \<open>n\<close> bytes each give the given rows.\<close>

fun inflates :: "inflate \<Rightarrow> u8 list \<Rightarrow> block_source \<Rightarrow> nat \<Rightarrow> u8 list list \<Rightarrow> bool" where
  "inflates z w s n [] \<longleftrightarrow> True"
| "inflates z w s n (b # bs) \<longleftrightarrow>
     (case inflate_read z s w n of
        Some (Ok out, z, w, s) \<Rightarrow> out = b \<and> inflates z w s n bs
      | _ \<Rightarrow> False)"

lemma filter_bpp_pos: "png_ok d \<Longrightarrow> 0 < pn_filter_bpp d"
  by (auto simp: png_ok_def png_channels_def div_ceil_def Let_def split: if_splits)

lemma png_convert_state:
  "png_convert (d\<lparr>pn_inflate := z, pn_window := w, pn_src := s\<rparr>) = png_convert d"
  "png_convert (d\<lparr>pn_inflate := z, pn_window := w, pn_src := s, pn_prev := p, pn_row := k\<rparr>) = png_convert d"
  by (simp_all add: png_convert_def fun_eq_iff Let_def)

lemma png_next_row_decodes:
  assumes "png_ok d" "length row = pn_rowbytes d" "pn_row d < pn_height d" "format_row_bytes (pn_format d) (pn_width d) \<le> length dst"
    and "inflate_read (pn_inflate d) (pn_src d) (pn_window d) (1 + pn_rowbytes d)
           = Some (Ok (kind # filter_row kind (pn_filter_bpp d) (pn_prev d) row), z, w, s)"
  shows "\<exists>out. png_convert d row dst = Some out \<and>
    png_next_row d dst = Some (Ok True, out, d\<lparr>pn_inflate := z, pn_window := w, pn_src := s, pn_prev := row, pn_row := pn_row d + 1\<rparr>)"
proof -
  have "unfilter (pn_filter_bpp d) (pn_prev d) (kind # filter_row kind (pn_filter_bpp d) (pn_prev d) row) = row"
    by (rule unfilter_filter [OF filter_bpp_pos [OF assms(1)]]) (use assms(1,2) in \<open>simp add: png_ok_def\<close>)
  moreover obtain out where "png_convert d row dst = Some out" using png_convert_total [OF assms(1,2,4)] by blast
  moreover have "length (kind # filter_row kind (pn_filter_bpp d) (pn_prev d) row) = 1 + pn_rowbytes d"
    using assms(2) by (simp add: filter_row_def)
  ultimately show ?thesis using assms(3,4,5) by (simp add: png_next_row_def Let_def png_convert_state)
qed

lemma png_rows_decode:
  "png_ok d \<Longrightarrow> \<forall>(kind, row) \<in> set rows. length row = pn_rowbytes d \<Longrightarrow> pn_row d + length rows \<le> pn_height d \<Longrightarrow>
   length dsts = length rows \<Longrightarrow> \<forall>dst \<in> set dsts. format_row_bytes (pn_format d) (pn_width d) \<le> length dst \<Longrightarrow>
   inflates (pn_inflate d) (pn_window d) (pn_src d) (1 + pn_rowbytes d) (filter_image (pn_filter_bpp d) (pn_prev d) rows) \<Longrightarrow>
   \<exists>outs d'. png_rows d dsts = Some (outs, d') \<and> map fst outs = replicate (length rows) (Ok True) \<and>
     map (\<lambda>x. Some (snd x)) outs = map2 (\<lambda>(kind, row). png_convert d row) rows dsts"
proof (induction rows arbitrary: d dsts)
  case (Cons kr rows)
  obtain kind row where kr: "kr = (kind, row)" by fastforce
  obtain dst dsts' where dsts: "dsts = dst # dsts'" using Cons.prems(4) by (cases dsts) simp_all
  obtain z w s where read: "inflate_read (pn_inflate d) (pn_src d) (pn_window d) (1 + pn_rowbytes d)
      = Some (Ok (kind # filter_row kind (pn_filter_bpp d) (pn_prev d) row), z, w, s)"
    and later: "inflates z w s (1 + pn_rowbytes d) (filter_image (pn_filter_bpp d) row rows)"
    using Cons.prems(6) kr by (auto split: option.splits prod.splits res.splits)
  let ?d = "d\<lparr>pn_inflate := z, pn_window := w, pn_src := s, pn_prev := row, pn_row := pn_row d + 1\<rparr>"
  obtain out where out: "png_convert d row dst = Some out" "png_next_row d dst = Some (Ok True, out, ?d)"
    using png_next_row_decodes [OF Cons.prems(1) _ _ _ read, of dst] Cons.prems(2,3,5) kr dsts by auto
  have "png_ok ?d" using png_next_row_total [OF Cons.prems(1), of dst] out(2) by simp
  then obtain outs d' where "png_rows ?d dsts' = Some (outs, d')" "map fst outs = replicate (length rows) (Ok True)"
      "map (\<lambda>x. Some (snd x)) outs = map2 (\<lambda>(kind, row). png_convert d row) rows dsts'"
    using Cons.IH [of ?d dsts'] Cons.prems(2-5) later dsts by (auto simp: png_convert_state)
  then show ?case using out kr dsts by simp
qed simp

section \<open>Properties\<close>

text \<open>C32: No stream makes the PNG decoder panic, and it keeps its invariant: whatever the bytes are, however the
  stream gives them, and whichever allocation fails, opening returns an error or a decoder whose
  buffers, palette and row lengths fit its header; and every later call of \<open>next_row\<close>, with buffers of
  any lengths, returns, leaves such a decoder, and never changes the length of the buffer.\<close>

theorem png_never_panics:
  "\<exists>res. png_open mem src options = Some res \<and>
     (\<forall>d. res = Ok d \<longrightarrow> png_ok d \<and>
        (\<exists>outs d'. png_rows d dsts = Some (outs, d') \<and> png_ok d' \<and> map (\<lambda>x. length (snd x)) outs = map length dsts))"
  using png_open_total [of mem src options] png_rows_total [of _ dsts] by blast

lemma png_never_panics_witness:
  "\<exists>res. png_open (\<lambda>k. k \<noteq> 7) (slice_stream [0x89, 0x50]) \<lparr>do_format = None\<rparr> = Some res \<and>
     (\<forall>d. res = Ok d \<longrightarrow> png_ok d \<and>
        (\<exists>outs d'. png_rows d [[], [1, 2, 3]] = Some (outs, d') \<and> png_ok d' \<and> map (\<lambda>x. length (snd x)) outs = map length [[], [1, 2, 3 :: u8]]))"
  by (rule png_never_panics)

text \<open>C33: The image data of a PNG is the concatenation of its \<open>IDAT\<close> chunks: with the reader after the header of the
  first, the source that the decompressor reads from gives the data of that chunk and of all that
  follow, however long each is (also empty, also longer than the buffer), up to the first chunk of
  another kind or the end.\<close>

theorem png_data_is_chunks:
  assumes "cursor_ok r" "reader_rest r = d @ idat_chunks ds tail" "no_idat tail" "\<forall>(crc, c) \<in> set ds. length crc = 4 \<and> length c < 2 ^ 32"
  shows "block_content (as_blocks idat_pull idat_left (buffered_new \<lparr>id_r = r, id_remaining = length d, id_done = False\<rparr>))
      = d @ concat (map snd ds)"
proof -
  let ?s = "\<lparr>id_r = r, id_remaining = length d, id_done = False\<rparr>"
  obtain r' where "idat_bytes ?s = d @ idat_bytes \<lparr>id_r = r', id_remaining = 0, id_done = False\<rparr>" "cursor_ok r'"
      "reader_rest r' = idat_chunks ds tail"
    using idat_bytes_data [OF assms(1,2)] by blast
  then have "idat_bytes ?s = d @ concat (map snd ds)" using idat_bytes_chunks [OF _ _ assms(3,4)] by metis
  then show ?thesis by (simp add: as_blocks_content buffered_content_def buffered_new_def del: pull_blocks.simps)
qed

lemma png_data_is_chunks_witness:
  "block_content (as_blocks idat_pull idat_left
     (buffered_new \<lparr>id_r = reader_new (slice_stream ([1, 2] @ idat_chunks [([9, 9, 9, 9], []), ([8, 8, 8, 8], [3])] [7])),
                    id_remaining = length [1 :: u8, 2], id_done = False\<rparr>))
   = [1, 2] @ concat (map snd [([9, 9, 9, 9 :: u8], []), ([8, 8, 8, 8], [3])])"
  by (rule png_data_is_chunks)
    (simp_all add: slice_stream_def reader_rest_def no_idat_def, simp_all add: reader_new_def cursor_ok_def)

text \<open>C34: A PNG decodes to what was encoded: if the image data inflates to the rows of an image as an encoder
  filters them (PNG specification, section 9), with any filter for each row, then \<open>next_row\<close> gives
  row after row just these rows, converted to the row format.\<close>

theorem png_decodes_filtered_rows:
  assumes "png_ok d" "\<forall>(kind, row) \<in> set rows. length row = pn_rowbytes d" "pn_row d + length rows \<le> pn_height d"
    and "length dsts = length rows" "\<forall>dst \<in> set dsts. format_row_bytes (pn_format d) (pn_width d) \<le> length dst"
    and "inflates (pn_inflate d) (pn_window d) (pn_src d) (1 + pn_rowbytes d) (filter_image (pn_filter_bpp d) (pn_prev d) rows)"
  shows "\<exists>outs d'. png_rows d dsts = Some (outs, d') \<and> map fst outs = replicate (length rows) (Ok True) \<and>
     map (\<lambda>x. Some (snd x)) outs = map2 (\<lambda>(kind, row). png_convert d row) rows dsts"
  by (rule png_rows_decode [OF assms])

text \<open>One row of three gray pixels, filtered with the byte to the left, in a stored block.\<close>

lemma png_decodes_filtered_rows_witness:
  "\<exists>d outs d'. png_ok d \<and> png_rows d [[0, 0, 0, 0]] = Some (outs, d') \<and> map fst outs = [Ok True] \<and> map (\<lambda>x. Some (snd x)) outs = [Some [5, 7, 4, 0]]"
proof -
  let ?s = "\<lparr>sr_blocks = [[0x78, 0x01], stored_stream [[1, 5, 2, 0xFD]]], sr_end = None\<rparr>" and ?w = "replicate WINDOW_BYTES (0 :: u8)"
  obtain z s z2 w2 s2 where z: "inflate_start inflate_new ?s = Some (Ok (), z, s)" "inflate_read z s ?w 4 = Some (Ok [1, 5, 2, 0xFD], z2, w2, s2)"
    using stored_roundtrip [of inflate_new ?w "[[1, 5, 2, 0xFD]]" 4 ?s "[]"] shape_new by (auto simp: block_content_def)
  define d where "d = \<lparr>pn_src = s, pn_inflate = z, pn_window = ?w, pn_width = 3, pn_height = 1, pn_format = L8, pn_bitdepth = 8,
      pn_colortype = 0, pn_rowbytes = 3, pn_filter_bpp = 1, pn_row = 0, pn_palette = replicate 256 [0, 0, 0],
      pn_trns = replicate 256 0xFF, pn_palette_count = 0, pn_prev = [0, 0, 0]\<rparr>"
  have ok: "png_ok d"
    using inflate_start_spec [of inflate_new ?w ?s] shape_new z(1)
    by (auto simp: png_ok_def d_def png_channels_def div_ceil_def is_row_format_def all_length_def)
  have gives: "inflates (pn_inflate d) (pn_window d) (pn_src d) (1 + pn_rowbytes d) (filter_image (pn_filter_bpp d) (pn_prev d) [(1, [5, 7, 4])])"
    using z(2) by (simp add: d_def filter_row_def predictor_def upt_rec)
  have convert: "png_convert d [5, 7, 4] [0, 0, 0, 0] = Some [5, 7, 4, 0]"
  proof -
    have "[0..<3] = [0, 1, 2 :: nat]" by (simp add: upt_rec)
    then show ?thesis
      by (simp add: d_def png_convert_def png_sample_def Let_def store_pixels_def slice_def copy_at_def put_chunks_def)
  qed
  have "\<exists>outs d'. png_rows d [[0, 0, 0, 0]] = Some (outs, d') \<and> map fst outs = replicate (length [(1 :: u8, [5, 7, 4 :: u8])]) (Ok True) \<and>
      map (\<lambda>x. Some (snd x)) outs = map2 (\<lambda>(kind, row). png_convert d row) [(1 :: u8, [5, 7, 4])] [[0, 0, 0, 0]]"
    by (rule png_decodes_filtered_rows [OF ok _ _ _ _ gives]) (simp_all add: d_def format_row_bytes_def div_ceil_def)
  then show ?thesis using ok convert by (intro exI [of _ d]) simp
qed

end
