(* ===== verification/Tcp_Stream.thy ===== *)
theory Tcp_Stream
  imports Tcp
begin

text \<open>
  The byte streams of a connection. What the receiving side hands to the reader is a prefix of what the
  peer sent, however its segments arrive; what the sending side puts into a segment are the bytes that
  were written at the segment's position, and an acknowledgement releases just the bytes it covers.
\<close>

section \<open>Receiving\<close>

text \<open>A segment that carries a part of the stream \<open>S\<close>, whose first byte has the number \<open>base\<close>.\<close>

definition carries :: "u8 list \<Rightarrow> u32 \<Rightarrow> segment \<Rightarrow> bool" where
  "carries S base seg \<longleftrightarrow> (\<exists>j. sg_seq seg = base + word_of_nat j \<and> j + length (sg_data seg) \<le> length S \<and>
     sg_data seg = take (length (sg_data seg)) (drop j S))"

text \<open>\<open>t\<close> has received \<open>k\<close> bytes of the stream in order, of which \<open>p\<close> were read, and holds more of them ahead.\<close>

definition receiving :: "u8 list \<Rightarrow> u32 \<Rightarrow> nat \<Rightarrow> nat \<Rightarrow> tcb \<Rightarrow> bool" where
  "receiving S base p k t \<longleftrightarrow> rb.holds S p k (t_rx t) (live_ranges (t_assembler t)) \<and> assembler_wf (t_assembler t) \<and>
     rcv_nxt t = base + word_of_nat k"

lemma receiving_bytes: "receiving S base p k t \<Longrightarrow> ring_wf (t_rx t) \<and> p \<le> k \<and> k \<le> length S \<and> ring_bytes (t_rx t) = take (k - p) (drop p S)"
  by (simp add: receiving_def buffer_holds_def)

lemma assembler_bound:
  "rb.holds S p k r (live_ranges a) \<Longrightarrow> \<forall>x \<in> set (live_ranges a). snd x \<le> ring_free r"
  by (simp add: buffer_holds_def)

text \<open>The bytes of a segment from \<open>start\<close> on go into the free part of the buffer and the assembler.\<close>

lemma place_segment:
  assumes r: "receiving S base p k t" and le: "start < stop" "stop \<le> ring_free (t_rx t)"
    and part: "length part = stop - start" "k + stop \<le> length S" "part = take (stop - start) (drop (k + start) S)"
  shows "\<exists>ok rx. ring_write_free mem (t_rx t) start part = Some (ok, rx) \<and> ring_free rx = ring_free (t_rx t) \<and>
    receiving S base p k (if ok then t\<lparr>t_rx := rx, t_assembler := snd (assembler_add (t_assembler t) start stop)\<rparr> else t\<lparr>t_rx := rx\<rparr>)"
proof -
  let ?a = "t_assembler t" and ?add = "assembler_add (t_assembler t) start stop"
  have h: "rb.holds S p k (t_rx t) (live_ranges ?a)" and wf: "assembler_wf ?a" and nxt: "rcv_nxt t = base + word_of_nat k"
    using r by (simp_all add: receiving_def)
  have fit: "start + length part \<le> ring_free (t_rx t)" using le part(1) by simp
  obtain ok rx where w: "ring_write_free mem (t_rx t) start part = Some (ok, rx)" "ring_free rx = ring_free (t_rx t)"
      "rb.holds S p k rx (live_ranges ?a)"
      "ok \<longrightarrow> (\<forall>rs'. apart_ranges rs' \<longrightarrow> covered rs' \<subseteq> covered (live_ranges ?a) \<union> {start..<start + length part} \<longrightarrow>
        (\<forall>r \<in> set rs'. snd r \<le> ring_free (t_rx t)) \<longrightarrow> rb.holds S p k rx rs')"
    using rb.holds_write [OF h fit, of mem] part le by (auto simp: add.assoc)
  have add: "assembler_wf (snd ?add)" "fst ?add \<Longrightarrow> covered (live_ranges (snd ?add)) = covered (live_ranges ?a) \<union> {start..<stop} \<and>
      (\<forall>r \<in> set (live_ranges (snd ?add)). snd r \<le> ring_free (t_rx t))" "\<not> fst ?add \<Longrightarrow> snd ?add = ?a"
    using assembler_add_spec [OF wf less_imp_le [OF le(1)] assembler_bound [OF h] le(2)] by (auto split: if_splits)
  have "rb.holds S p k rx (live_ranges (snd ?add))" if ok
  proof (cases "fst ?add")
    case True
    then show ?thesis using w(4) that add le part(1) by (auto simp: assembler_wf_def)
  next
    case False
    then show ?thesis using add(3) w(3) by simp
  qed
  then show ?thesis using w wf nxt add(1) by (auto simp: receiving_def)
qed

lemma front_committed:
  assumes r: "receiving S base p k t" and front: "tcp_take_front t = (n, t')"
  shows "receiving S base p (k + n) t'"
proof -
  have h: "rb.holds S p k (t_rx t) (live_ranges (t_assembler t))" and wf: "assembler_wf (t_assembler t)"
    and nxt: "rcv_nxt t = base + word_of_nat k" using r by (simp_all add: receiving_def)
  show ?thesis using wf
  proof (cases rule: assembler_take_front_spec)
    case none
    then show ?thesis using r front by (simp add: receiving_def tcp_take_front_def)
  next
    case (front n' rs)
    then have "rb.holds S p (k + n') (ring_commit (t_rx t) n') (live_ranges (snd (assembler_take_front (t_assembler t))))"
      using rb.holds_commit [of S p k "t_rx t" n' rs] h by simp
    moreover have "ring_commit (t_rx t) 0 = t_rx t" by (simp add: ring_commit_def)
    ultimately show ?thesis using front assms(2) nxt
      by (cases "assembler_take_front (t_assembler t)") (auto simp: receiving_def add.assoc tcp_take_front_def Let_def split: if_splits)
  qed
qed

lemma data_ack_sel [simp]:
  "t_rx (tcp_data_ack t off n now) = t_rx t" "t_assembler (tcp_data_ack t off n now) = t_assembler t"
  "rcv_nxt (tcp_data_ack t off n now) = rcv_nxt t"
  by (simp_all add: tcp_data_ack_def Let_def)

lemma receiving_cong:
  "t_rx t' = t_rx t \<Longrightarrow> t_assembler t' = t_assembler t \<Longrightarrow> rcv_nxt t' = rcv_nxt t \<Longrightarrow> receiving S base p k t' = receiving S base p k t"
  by (simp add: receiving_def)

lemma tcp_data_receives:
  assumes r: "receiving S base p k t" and seq: "sg_seq seg = base + word_of_nat j" "\<bar>int j - int k\<bar> < 2 ^ 31"
    and data: "j + length (sg_data seg) \<le> length S" "sg_data seg = take (length (sg_data seg)) (drop j S)"
  shows "\<exists>t' n. tcp_data E t seg now = Some t' \<and> receiving S base p (k + n) t'"
proof -
  let ?offset = "int j - int k" and ?data = "sg_data seg"
  have nxt: "rcv_nxt t = base + word_of_nat k" using r by (simp add: receiving_def)
  have "sg_seq seg - rcv_nxt t = (word_of_int ?offset :: u32)" unfolding seq nxt by simp
  then have off: "sint (sg_seq seg - rcv_nxt t) = ?offset" using sint_word_of_int_small [of ?offset] seq(2) by simp
  have skip: "nat (max (- ?offset) 0) = k - j" and start: "nat (max ?offset 0) = j - k" by auto
  show ?thesis
  proof (cases "length ?data \<le> k - j")
    case True
    then show ?thesis using r off skip
      by (intro exI [of _ "t\<lparr>ack_now := True\<rparr>"] exI [of _ 0]) (simp add: tcp_data_def Let_def receiving_def)
  next
    case False
    let ?rest = "drop (k - j) ?data" and ?start = "j - k"
    let ?stop = "min (?start + length ?rest) (ring_free (t_rx t))"
    have slice: "slice ?data (k - j) (length ?data) = Some ?rest" using False by (simp add: slice_def)
    have pos: "k + ?start = j + (k - j)" by simp
    have rest: "?rest = take (length ?rest) (drop (k + ?start) S)"
      using arg_cong [OF data(2), of "drop (k - j)"] unfolding pos length_drop by (simp add: drop_take add.commute)
    obtain t1 where t1: "tcp_place E t ?start ?stop ?rest = Some t1" "receiving S base p k t1"
    proof (cases "?start < ?stop")
      case True
      let ?part = "take (?stop - ?start) ?rest"
      have len: "length ?part = ?stop - ?start" by auto
      have bound: "k + ?stop \<le> length S" using data(1) False pos by auto
      have part: "?part = take (?stop - ?start) (drop (k + ?start) S)"
      proof -
        have le: "?stop - ?start \<le> length ?rest" by auto
        have "?part = take (?stop - ?start) (take (length ?rest) (drop (k + ?start) S))" by (rule arg_cong [OF rest])
        also have "\<dots> = take (?stop - ?start) (drop (k + ?start) S)" using le by (simp only: take_take min_absorb1)
        finally show ?thesis .
      qed
      obtain ok rx where w: "ring_write_free (e_mem E) (t_rx t) ?start ?part = Some (ok, rx)"
          "receiving S base p k (if ok then t\<lparr>t_rx := rx, t_assembler := snd (assembler_add (t_assembler t) ?start ?stop)\<rparr> else t\<lparr>t_rx := rx\<rparr>)"
        using place_segment [OF r True _ len bound part, of "e_mem E"] by auto
      have "slice ?rest 0 (?stop - ?start) = Some ?part" by (auto simp: slice_def)
      then show thesis using that w True by (cases ok) (auto simp: tcp_place_def)
    next
      case False
      then show thesis using that [of t] r by (auto simp: tcp_place_def)
    qed
    obtain n t2 where front: "tcp_take_front t1 = (n, t2)" by fastforce
    have "tcp_data E t seg now = Some (tcp_data_ack t2 ?offset n now)"
      using False front t1(1) slice unfolding tcp_data_def off skip start Let_def by simp
    then show ?thesis using receiving_cong [OF data_ack_sel] front_committed [OF t1(2) front] by blast
  qed
qed

text \<open>Reading takes bytes off the front, as many as fit into the reader's buffer.\<close>

datatype rx_event = Arrive segment instant | Consume "u8 list"

fun rx_run :: "net_env \<Rightarrow> tcb \<Rightarrow> rx_event list \<Rightarrow> (u8 list \<times> tcb) option" where
  "rx_run E t [] = Some ([], t)"
| "rx_run E t (Arrive seg now # es) = do { t \<leftarrow> tcp_data E t seg now; rx_run E t es }"
| "rx_run E t (Consume buf # es) = do {
     (n, buf, rx) \<leftarrow> ring_pop (t_rx t) (min (length buf) (r_len (t_rx t))) buf;
     (out, t) \<leftarrow> rx_run E (t\<lparr>t_rx := rx\<rparr>) es;
     Some (take n buf @ out, t)
   }"

lemma consume_receives:
  assumes "receiving S base p k t"
  shows "\<exists>n buf' rx. ring_pop (t_rx t) (min (length buf) (r_len (t_rx t))) buf = Some (n, buf', rx) \<and> p + n \<le> k \<and>
    take n buf' = take n (drop p S) \<and> receiving S base (p + n) k (t\<lparr>t_rx := rx\<rparr>)"
proof -
  let ?n = "min (length buf) (r_len (t_rx t))"
  have b: "ring_wf (t_rx t)" "p \<le> k" "k \<le> length S" "ring_bytes (t_rx t) = take (k - p) (drop p S)"
    using receiving_bytes [OF assms] by auto
  have len: "r_len (t_rx t) = k - p" using length_ring_bytes [OF b(1)] b(2-4) by simp
  have pop: "ring_pop (t_rx t) ?n buf = Some (?n, take ?n (ring_bytes (t_rx t)) @ drop ?n buf, ring_discard (t_rx t) ?n)"
    using ring_pop_spec [OF b(1), of ?n buf] by simp
  have "rb.holds S (p + ?n) k (ring_discard (t_rx t) ?n) (live_ranges (t_assembler t))"
    using assms len by (intro rb.holds_discard) (auto simp: receiving_def)
  then have "receiving S base (p + ?n) k (t\<lparr>t_rx := ring_discard (t_rx t) ?n\<rparr>)" using assms by (simp add: receiving_def)
  moreover have "take ?n (ring_bytes (t_rx t)) = take ?n (drop p S)" "?n \<le> k - p" using b(4) len by simp_all
  moreover from this have "length (take ?n (drop p S)) = ?n" using b(2,3) by simp
  ultimately show ?thesis using b(2) unfolding pop
    by (intro exI [of _ ?n] exI [of _ "take ?n (ring_bytes (t_rx t)) @ drop ?n buf"] exI [of _ "ring_discard (t_rx t) ?n"]) auto
qed

lemma rx_run_receives:
  assumes "length S < 2 ^ 31"
  shows "receiving S base p k t \<Longrightarrow> \<forall>seg now. Arrive seg now \<in> set es \<longrightarrow> carries S base seg \<Longrightarrow>
    \<exists>out t' p' k'. rx_run E t es = Some (out, t') \<and> receiving S base p' k' t' \<and> p \<le> p' \<and> p' \<le> k' \<and> out = take (p' - p) (drop p S)"
proof (induction es arbitrary: t p k)
  case Nil
  then show ?case using receiving_bytes [OF Nil.prems(1)] by auto
next
  case (Cons e es)
  have k: "p \<le> k" "k \<le> length S" using receiving_bytes [OF Cons.prems(1)] by auto
  have rest: "\<forall>seg now. Arrive seg now \<in> set es \<longrightarrow> carries S base seg" using Cons.prems(2) by auto
  show ?case
  proof (cases e)
    case (Arrive seg now)
    then obtain j where j: "sg_seq seg = base + word_of_nat j" "j + length (sg_data seg) \<le> length S"
        "sg_data seg = take (length (sg_data seg)) (drop j S)"
      using Cons.prems(2) by (auto simp: carries_def)
    have "\<bar>int j - int k\<bar> < 2 ^ 31" using j(2) k assms by (simp add: abs_less_iff)
    then obtain t' n where "tcp_data E t seg now = Some t'" "receiving S base p (k + n) t'"
      using tcp_data_receives [OF Cons.prems(1) j(1) _ j(2,3)] by blast
    then show ?thesis using Cons.IH [OF _ rest, of p "k + n" t'] Arrive by auto
  next
    case (Consume buf)
    obtain n buf' rx where pop: "ring_pop (t_rx t) (min (length buf) (r_len (t_rx t))) buf = Some (n, buf', rx)" "p + n \<le> k"
        "take n buf' = take n (drop p S)" "receiving S base (p + n) k (t\<lparr>t_rx := rx\<rparr>)"
      using consume_receives [OF Cons.prems(1), of buf] by blast
    obtain out t' p' k' where "rx_run E (t\<lparr>t_rx := rx\<rparr>) es = Some (out, t')" "receiving S base p' k' t'" "p + n \<le> p'" "p' \<le> k'"
        "out = take (p' - (p + n)) (drop (p + n) S)"
      using Cons.IH [OF pop(4) rest] by auto
    moreover have "take n (drop p S) @ take (p' - (p + n)) (drop (p + n) S) = take (p' - p) (drop p S)" if "p + n \<le> p'" for p'
    proof -
      have eq: "p' - p = n + (p' - (p + n))" using that by simp
      show ?thesis unfolding eq take_add by (simp add: add.commute)
    qed
    ultimately show ?thesis using Consume pop(1,3) by (intro exI [of _ "take n buf' @ out"] exI [of _ t'] exI [of _ p'] exI [of _ k']) auto
  qed
qed

section \<open>In-order data\<close>

lemma covered_front:
  assumes "apart_ranges rs" "{0..<m} \<subseteq> covered rs" "0 < m"
  shows "\<exists>n rest. rs = (0, n) # rest \<and> m \<le> n"
proof (cases rs)
  case Nil
  then show ?thesis using assms by auto
next
  case (Cons r rest)
  obtain s e where r: "r = (s, e)" by fastforce
  have ap: "s \<le> e" "\<forall>x \<in> set rest. e < fst x" using assms(1) Cons r by auto
  have "0 \<in> covered rs" using assms(2,3) by auto
  then have s: "s = 0" using ap unfolding Cons r by (fastforce simp: covered_def)
  have "e \<notin> covered rs" using covered_from_zero(2) assms(1) unfolding Cons r s by simp
  then have "\<not> e < m" using assms(2) by auto
  then show ?thesis using Cons r s by auto
qed

text \<open>With fewer than four ranges held ahead, memory and room, in-order data is taken at once.\<close>

lemma tcp_data_advances:
  assumes r: "receiving S base p k t" and seg: "sg_seq seg = rcv_nxt t" "sg_data seg \<noteq> []"
    and fits: "length (sg_data seg) \<le> ring_free (t_rx t)" and mem: "\<forall>n. e_mem E n" and few: "as_count (t_assembler t) < 4"
    and data: "k + length (sg_data seg) \<le> length S" "sg_data seg = take (length (sg_data seg)) (drop k S)"
  shows "\<exists>t' n. tcp_data E t seg now = Some t' \<and> length (sg_data seg) \<le> n \<and> receiving S base p (k + n) t'"
proof -
  let ?d = "sg_data seg" and ?a = "t_assembler t" and ?add = "assembler_add (t_assembler t) 0 (length (sg_data seg))"
  have h: "rb.holds S p k (t_rx t) (live_ranges ?a)" and wf: "assembler_wf ?a" and nxt: "rcv_nxt t = base + word_of_nat k"
    using r by (simp_all add: receiving_def)
  have pos: "0 < length ?d" using seg(2) by simp
  have place: "tcp_place E t 0 (length ?d) ?d = Some (t\<lparr>t_rx := rx, t_assembler := snd ?add\<rparr>)"
    if "ring_write_free (e_mem E) (t_rx t) 0 ?d = Some (True, rx)" for rx
    using that pos by (simp add: tcp_place_def)
  obtain ok rx where w: "ring_write_free (e_mem E) (t_rx t) 0 ?d = Some (ok, rx)"
      "receiving S base p k (if ok then t\<lparr>t_rx := rx, t_assembler := snd ?add\<rparr> else t\<lparr>t_rx := rx\<rparr>)"
    using place_segment [OF r pos fits _ data(1), of ?d "e_mem E"] data(2) by auto
  have ok using ring_write_free_spec [of "t_rx t" 0 ?d "e_mem E"] receiving_bytes [OF r] fits mem w(1) by auto
  let ?t = "t\<lparr>t_rx := rx, t_assembler := snd ?add\<rparr>"
  have rt: "receiving S base p k ?t" using w(2) \<open>ok\<close> by simp
  have "fst ?add"
    using assembler_add_spec [OF wf _ assembler_bound [OF h] fits, of 0] few by (auto split: if_splits)
  then have cov: "{0..<length ?d} \<subseteq> covered (live_ranges (snd ?add))" "assembler_wf (snd ?add)"
    using assembler_add_spec [OF wf _ assembler_bound [OF h] fits, of 0] by auto
  then obtain m rest where front: "live_ranges (snd ?add) = (0, m) # rest" "length ?d \<le> m"
    using covered_front [OF _ cov(1) pos] by (auto simp: assembler_wf_def)
  obtain n t2 where tf: "tcp_take_front ?t = (n, t2)" by fastforce
  have "n = m" using cov(2) tf front(1)
    by (cases rule: assembler_take_front_spec) (auto simp: tcp_take_front_def Let_def split: prod.splits)
  moreover have "tcp_data E t seg now = Some (tcp_data_ack t2 0 n now)"
    using seg(1) place w(1) \<open>ok\<close> tf fits pos by (simp add: tcp_data_def min_absorb1)
  ultimately show ?thesis using receiving_cong [OF data_ack_sel] front_committed [OF rt tf] front(2) by blast
qed

section \<open>Sending\<close>

text \<open>The send buffer holds what was written from the byte \<open>a\<close> of the stream \<open>W\<close> on.\<close>

definition sending :: "u8 list \<Rightarrow> u32 \<Rightarrow> nat \<Rightarrow> tcb \<Rightarrow> bool" where
  "sending W base a t \<longleftrightarrow> ring_wf (t_tx t) \<and> a \<le> length W \<and> ring_bytes (t_tx t) = drop a W \<and> tx_base t = base + word_of_nat a"

lemma sending_write:
  assumes "sending W base a t"
  shows "\<exists>n tx. ring_push mem (t_tx t) data = Some (n, tx) \<and> n \<le> length data \<and> sending (W @ take n data) base a (t\<lparr>t_tx := tx\<rparr>)"
  using ring_push_spec [of "t_tx t" mem data] assms by (fastforce simp: sending_def)

lemma acked_releases:
  assumes t: "sending W base a t" and ack: "ack = base + word_of_nat b" "b \<le> Suc (length W)" "\<bar>int a - int b\<bar> < 2 ^ 31" "length W < 2 ^ 32 - 1"
  shows "sending W base (max a (min b (length W))) (tcp_acked_data t ack)"
proof -
  have wf: "ring_wf (t_tx t)" and a: "a \<le> length W" "ring_bytes (t_tx t) = drop a W" "tx_base t = base + word_of_nat a"
    using t by (simp_all add: sending_def)
  have lt: "seq_lt (tx_base t) ack \<longleftrightarrow> a < b" using seq_lt_positions [OF ack(3), of base] a(3) ack(1) by simp
  show ?thesis
  proof (cases "a < b")
    case False
    then show ?thesis using t lt by (simp add: tcp_acked_data_def max_def min_def) (use a(1) in auto)
  next
    case True
    have "ack - tx_base t = word_of_nat (b - a)" using True unfolding a(3) ack(1) by simp
    moreover have "b - a < 2 ^ 32" using ack(2,4) by simp
    ultimately have diff: "unat (ack - tx_base t) = b - a" by (simp add: unat_of_nat take_bit_nat_eq_self)
    have len: "r_len (t_tx t) = length W - a" using length_ring_bytes [OF wf] a(2) by simp
    define n where "n = min (b - a) (length W - a)"
    have n: "a + n = max a (min b (length W))" "n \<le> r_len (t_tx t)" "a + n \<le> length W" using True a(1) len by (auto simp: n_def)
    have "sending W base (a + n) (t\<lparr>t_tx := ring_discard (t_tx t) n, tx_base := tx_base t + word_of_nat n\<rparr>)"
      using ring_discard_spec [OF wf n(2)] a n(3) by (simp add: sending_def add.commute)
    then show ?thesis using lt True unfolding n(1) by (simp add: tcp_acked_data_def diff len Let_def n_def)
  qed
qed

lemma sent_bytes:
  assumes t: "sending W base a t" and pl: "align_ok pl" and pos: "a \<le> j" "j + len \<le> length W" "len < 65516"
    and flags: "\<not> has_flag flags SYN" and dst: "fst (t_remote t) = ip_dst ip"
  shows "\<exists>p seg. tcp_fill pl t (base + word_of_nat j) ack flags win TCP_HEADER (j - a) (replicate (TCP_HEADER + len) 0) (ip_src ip) = Some p \<and>
    segment_parse pl ip p = Some (Some seg) \<and> carries W base seg \<and>
    sg_src_port seg = snd (t_local t) \<and> sg_dst_port seg = snd (t_remote t) \<and> sg_seq seg = base + word_of_nat j \<and> sg_ack seg = ack \<and>
    sg_flags seg = flags \<and> sg_window seg = win \<and> sg_data seg = take len (drop j W)"
proof -
  have wf: "ring_wf (t_tx t)" and a: "ring_bytes (t_tx t) = drop a W" using t by (simp_all add: sending_def)
  have len: "r_len (t_tx t) = length W - a" using length_ring_bytes [OF wf] a by simp
  let ?data = "take len (drop j W)"
  have read: "ring_read_at (t_tx t) (j - a) (replicate len 0) = Some (len, ?data)"
    using ring_read_at_spec [OF wf, of len "replicate len 0" "j - a"] pos a len by simp
  let ?seg = "\<lparr>sg_src_port = snd (t_local t), sg_dst_port = snd (t_remote t), sg_seq = base + word_of_nat j, sg_ack = ack,
      sg_flags = flags, sg_window = win, sg_mss = None, sg_window_scale = None, sg_data = ?data\<rparr>"
  let ?buf = "replicate (TCP_HEADER + len) 0 :: u8 list"
  obtain h p where hp: "tcp_write_header (replicate 20 0 @ [] @ ?data) (snd (t_local t)) (snd (t_remote t)) (base + word_of_nat j) ack flags win 20 = Some h"
      "tcp_finish pl h (ip_src ip) (ip_dst ip) = Some p" "segment_parse pl ip p = segment_options ?seg []"
    using segment_write_parse [OF pl, of "[]" ?data "replicate 20 0" "snd (t_local t)" "snd (t_remote t)" "base + word_of_nat j" ack flags win ip] pos
    by auto
  let ?hdr = "tcp_header_bytes (snd (t_local t)) (snd (t_remote t)) (base + word_of_nat j) ack flags win 20 0"
  have h: "h = ?hdr @ ?data" using hp(1) tcp_write_header_spec [of "replicate 20 0 @ [] @ ?data"] by simp
  have "tcp_write_header ?buf (snd (t_local t)) (snd (t_remote t)) (base + word_of_nat j) ack flags win 20 = Some (?hdr @ replicate len 0)"
    using tcp_write_header_spec [of ?buf] by (simp add: TCP_HEADER_def replicate_add)
  then have "tcp_fill pl t (base + word_of_nat j) ack flags win TCP_HEADER (j - a) ?buf (ip_src ip) = tcp_finish pl (?hdr @ ?data) (ip_src ip) (ip_dst ip)"
    using read flags dst by (simp add: tcp_fill_def TCP_HEADER_def slice_def)
  moreover have "carries W base ?seg" using pos by (auto simp: carries_def min_def intro!: exI [of _ j])
  ultimately show ?thesis using hp(2,3) unfolding h by (intro exI [of _ p] exI [of _ ?seg]) (simp add: segment_options.simps)
qed

section \<open>Properties\<close>

text \<open>C2: What a connection hands to its reader is what the peer sent. Let segments that carry parts of the stream
  \<open>S\<close> arrive in any order, any number of times, overlapping and cut anywhere, with any allocation
  failing, between reads with buffers of any size: then nothing panics, and what was read, followed by
  what waits in the receive buffer, is the stream up to the acknowledged number, without a gap or a
  wrong byte.\<close>

theorem received_is_prefix:
  assumes "length S < 2 ^ 31" and "t_rx t = ring_new c" "t_assembler t = assembler_default" "rcv_nxt t = base"
    and "\<forall>seg now. Arrive seg now \<in> set es \<longrightarrow> carries S base seg"
  shows "\<exists>out t' k. rx_run E t es = Some (out, t') \<and> k \<le> length S \<and> out @ ring_bytes (t_rx t') = take k S \<and>
    rcv_nxt t' = base + word_of_nat k"
proof -
  have "receiving S base 0 0 t" using assms(2-4) by (simp add: receiving_def buffer_holds_def)
  then obtain out t' p k where r: "rx_run E t es = Some (out, t')" "receiving S base p k t'" "p \<le> k" "out = take p S"
    using rx_run_receives [OF assms(1) _ assms(5), of 0 0 t E] by auto
  note b = receiving_bytes [OF r(2)]
  have "take p S @ take (k - p) (drop p S) = take (p + (k - p)) S" by (simp only: take_add)
  then have "out @ ring_bytes (t_rx t') = take k S" using b r(3,4) by simp
  moreover have "rcv_nxt t' = base + word_of_nat k" using r(2) by (simp add: receiving_def)
  ultimately show ?thesis using r(1) b by blast
qed

definition example_tcb :: tcb where
  "example_tcb = tcb_new (1, 80) (2, 81) Established \<lparr>b_rx = 100, b_tx = 100\<rparr> 1460 0xfffffff0"

definition example_env :: net_env where
  "example_env = \<lparr>e_platform = \<lparr>little_endian = True, align_to = (\<lambda>b. (0, length b div 4))\<rparr>, e_mem = (\<lambda>_. True), e_tx = (\<lambda>_ _ _. True)\<rparr>"

definition example_segment :: "u32 \<Rightarrow> u8 list \<Rightarrow> segment" where
  "example_segment sq data = \<lparr>sg_src_port = 81, sg_dst_port = 80, sg_seq = sq, sg_ack = 0xfffffff1, sg_flags = ACK, sg_window = 100,
     sg_mss = None, sg_window_scale = None, sg_data = data\<rparr>"

lemma received_is_prefix_witness:
  "\<exists>out t' k. rx_run example_env (example_tcb\<lparr>rcv_nxt := 0xfffffffe\<rparr>)
      [Arrive (example_segment 1 [4, 5]) 0, Arrive (example_segment 0xfffffffe [1, 2, 3]) 1, Consume [0, 0, 0, 0], Arrive (example_segment 0 [3]) 2]
      = Some (out, t') \<and> k \<le> length [1, 2, 3, 4, 5 :: u8] \<and> out @ ring_bytes (t_rx t') = take k [1, 2, 3, 4, 5] \<and> rcv_nxt t' = 0xfffffffe + word_of_nat k"
proof -
  let ?t = "example_tcb\<lparr>rcv_nxt := 0xfffffffe\<rparr>"
  let ?es = "[Arrive (example_segment 1 [4, 5]) 0, Arrive (example_segment 0xfffffffe [1, 2, 3]) 1, Consume [0, 0, 0, 0],
    Arrive (example_segment 0 [3]) 2]"
  have "carries [1, 2, 3, 4, 5] 0xfffffffe (example_segment 1 [4, 5])" "carries [1, 2, 3, 4, 5] 0xfffffffe (example_segment 0xfffffffe [1, 2, 3])"
    "carries [1, 2, 3, 4, 5] 0xfffffffe (example_segment 0 [3])"
    unfolding carries_def example_segment_def by (rule exI [of _ 3], simp) (rule exI [of _ 0], simp, rule exI [of _ 2], simp)
  then have all: "\<forall>seg now. Arrive seg now \<in> set ?es \<longrightarrow> carries [1, 2, 3, 4, 5] 0xfffffffe seg" by auto
  have "length [1, 2, 3, 4, 5 :: u8] < 2 ^ 31" "t_rx ?t = ring_new 100" "t_assembler ?t = assembler_default" "rcv_nxt ?t = 0xfffffffe"
    by (simp_all add: example_tcb_def tcb_new_def)
  from received_is_prefix [OF this all] show ?thesis .
qed

text \<open>C6: A segment on the wire carries the bytes that were written at its position: with the bytes of the stream
  \<open>W\<close> from \<open>a\<close> on in the send buffer, the segment built for the position \<open>j\<close> is parsed by the receiver to the
  given number, flags, window and acknowledgement and to the bytes of \<open>W\<close> from \<open>j\<close> on; so it is one
  of the segments of the receiver's property.\<close>

theorem sent_segment_carries_stream:
  assumes "sending W base a t" "align_ok pl" "a \<le> j" "j + len \<le> length W" "len < 65516" "\<not> has_flag flags SYN" "fst (t_remote t) = ip_dst ip"
  shows "\<exists>p seg. tcp_fill pl t (base + word_of_nat j) ack flags win TCP_HEADER (j - a) (replicate (TCP_HEADER + len) 0) (ip_src ip) = Some p \<and>
    segment_parse pl ip p = Some (Some seg) \<and> carries W base seg \<and>
    sg_src_port seg = snd (t_local t) \<and> sg_dst_port seg = snd (t_remote t) \<and> sg_seq seg = base + word_of_nat j \<and> sg_ack seg = ack \<and>
    sg_flags seg = flags \<and> sg_window seg = win \<and> sg_data seg = take len (drop j W)"
  by (rule sent_bytes [OF assms])

lemma sent_segment_carries_stream_witness:
  "\<exists>p seg. tcp_fill (e_platform example_env) (example_tcb\<lparr>t_tx := \<lparr>r_data = [7, 8, 9], r_capacity = 100, r_head = 0, r_len = 3\<rparr>\<rparr>)
      (0xfffffff1 + word_of_nat 1) 7 ACK 9 TCP_HEADER (1 - 0) (replicate (TCP_HEADER + 2) 0)
      (ip_src \<lparr>ip_src = 1, ip_dst = 2, ip_protocol = 6, ip_ttl = 64, ip_ident = 7, ip_frag = 0\<rparr>) = Some p \<and>
    segment_parse (e_platform example_env) \<lparr>ip_src = 1, ip_dst = 2, ip_protocol = 6, ip_ttl = 64, ip_ident = 7, ip_frag = 0\<rparr> p = Some (Some seg) \<and>
    carries [7, 8, 9] 0xfffffff1 seg \<and> sg_src_port seg = 80 \<and> sg_dst_port seg = 81 \<and> sg_seq seg = 0xfffffff1 + word_of_nat 1 \<and> sg_ack seg = 7 \<and>
    sg_flags seg = ACK \<and> sg_window seg = 9 \<and> sg_data seg = [8, 9]"
proof -
  let ?t = "example_tcb\<lparr>t_tx := \<lparr>r_data = [7, 8, 9], r_capacity = 100, r_head = 0, r_len = 3\<rparr>\<rparr>"
  let ?ip = "\<lparr>ip_src = 1, ip_dst = 2, ip_protocol = 6, ip_ttl = 64, ip_ident = 7, ip_frag = 0\<rparr> :: ipv4"
  have "sending [7, 8, 9] 0xfffffff1 0 ?t" "align_ok (e_platform example_env)" "0 \<le> (1 :: nat)" "1 + 2 \<le> length [7, 8, 9 :: u8]" "2 < (65516 :: nat)"
    "\<not> has_flag ACK SYN" "fst (t_remote ?t) = ip_dst ?ip"
    by (simp_all add: sending_def ring_wf_def ring_bytes_def ring_view_def example_tcb_def tcb_new_def example_env_def align_ok_def has_flag_def tcp_flag_defs)
  from sent_segment_carries_stream [OF this, of 7 9] show ?thesis by (simp add: example_tcb_def tcb_new_def)
qed

text \<open>An acknowledgement releases the bytes it covers and no others: for an acknowledged position up to one past the end
  of what was written (the FIN has a number too), the send buffer then holds the rest of the stream, and its base is
  the number of its first byte; an old acknowledgement changes nothing.\<close>

theorem acknowledged_bytes_are_released:
  assumes "sending W base a t" "ack = base + word_of_nat b" "b \<le> Suc (length W)" "\<bar>int a - int b\<bar> < 2 ^ 31" "length W < 2 ^ 32 - 1"
  shows "sending W base (max a (min b (length W))) (tcp_acked_data t ack)"
  by (rule acked_releases [OF assms])

lemma acknowledged_bytes_are_released_witness:
  "sending [] 0xfffffff1 (max 0 (min 1 0)) (tcp_acked_data example_tcb 0xfffffff2)"
  using acknowledged_bytes_are_released [where W = "[]" and base = "0xfffffff1" and a = 0 and b = 1 and t = example_tcb and ack = "0xfffffff2"]
  by (simp add: sending_def example_tcb_def tcb_new_def)



text \<open>C40: With four ranges held ahead, the segment that is expected next is thrown away unless it reaches the first of
  them: the assembler has no slot for it, so nothing is committed and the same number is acknowledged
  again, however often the peer sends it.\<close>

theorem full_assembler_refuses_next:
  assumes "assembler_wf (t_assembler t)" "as_count (t_assembler t) = 4" "\<forall>r \<in> set (live_ranges (t_assembler t)). length (sg_data seg) < fst r"
    "ring_wf (t_rx t)" "sg_seq seg = rcv_nxt t" "sg_data seg \<noteq> []" "length (sg_data seg) \<le> ring_free (t_rx t)"
  shows "\<exists>t'. tcp_data E t seg now = Some t' \<and> rcv_nxt t' = rcv_nxt t \<and> t_assembler t' = t_assembler t \<and>
    ring_bytes (t_rx t') = ring_bytes (t_rx t) \<and> ack_now t'"
proof -
  let ?d = "sg_data seg" and ?a = "t_assembler t"
  obtain ok rx where w: "ring_write_free (e_mem E) (t_rx t) 0 ?d = Some (ok, rx)" "ring_bytes rx = ring_bytes (t_rx t)"
    using ring_write_free_spec [OF assms(4), of 0 ?d "e_mem E"] assms(7) by auto
  have live: "live_ranges ?a \<noteq> []" using assembler_count [OF assms(1)] assms(2) by auto
  have "absorb (0, length ?d) (live_ranges ?a) = (live_ranges ?a, (0, length ?d))" using assms(3) by (intro absorb_apart) simp
  then have add: "assembler_add ?a 0 (length ?d) = (False, ?a)"
    using assembler_count [OF assms(1)] assms(2) by (simp add: assembler_add_def live_ranges_def Let_def)
  then have place: "tcp_place E t 0 (length ?d) ?d = Some (t\<lparr>t_rx := rx\<rparr>)"
    using w(1) assms(6) by (cases t; cases ok) (simp_all add: tcp_place_def)
  have "assembler_take_front ?a = (0, ?a)"
    using assms(1) live by (cases rule: assembler_take_front_spec) (use assms(3,6) in auto)
  then have "tcp_take_front (t\<lparr>t_rx := rx\<rparr>) = (0, t\<lparr>t_rx := rx\<rparr>)" by (cases t) (simp add: tcp_take_front_def)
  then have "tcp_data E t seg now = Some (t\<lparr>t_rx := rx, ack_now := True\<rparr>)"
    using place assms(5-7) by (simp add: tcp_data_def tcp_data_ack_def min_absorb1)
  then show ?thesis using w(2) by simp
qed

lemma full_assembler_refuses_next_witness:
  "\<exists>t'. tcp_data example_env (example_tcb\<lparr>rcv_nxt := 7, t_assembler := \<lparr>as_ranges = [(10, 12), (20, 22), (30, 32), (40, 42)], as_count = 4\<rparr>\<rparr>)
      (example_segment 7 [1, 2, 3, 4, 5]) 0 = Some t' \<and> rcv_nxt t' = 7 \<and>
    t_assembler t' = \<lparr>as_ranges = [(10, 12), (20, 22), (30, 32), (40, 42)], as_count = 4\<rparr> \<and> ring_bytes (t_rx t') = [] \<and> ack_now t'"
  using full_assembler_refuses_next [of "example_tcb\<lparr>rcv_nxt := 7, t_assembler := \<lparr>as_ranges = [(10, 12), (20, 22), (30, 32), (40, 42)], as_count = 4\<rparr>\<rparr>"
      "example_segment 7 [1, 2, 3, 4, 5]" example_env 0]
  by (simp add: assembler_wf_def live_ranges_def example_tcb_def tcb_new_def example_segment_def ring_free_def)

end
