(* ===== verification/Tcp_States.thy ===== *)
theory Tcp_States
  imports Tcp_Stream
begin

text \<open>
  The life of a connection: the states it may go through, what closes it, the bounds of the
  retransmission timeout, and the windows the output keeps to.
\<close>

lemma bind_SomeE:
  assumes "Option.bind m f = Some y"
  obtains x where "m = Some x" "f x = Some y"
  using assms by (cases m) simp_all

lemma bind_pair_SomeE:
  assumes "Option.bind m (\<lambda>(a, b). f a b) = Some y"
  obtains a b where "m = Some (a, b)" "f a b = Some y"
  using assms by (cases m) auto

section \<open>What output leaves alone\<close>

definition same_core :: "tcb \<Rightarrow> tcb \<Rightarrow> bool" where
  "same_core t t' \<longleftrightarrow> t_state t' = t_state t \<and> rto t' = rto t \<and> rcv_nxt t' = rcv_nxt t \<and> t_rx t' = t_rx t \<and> t_tx t' = t_tx t \<and>
     t_error t' = t_error t \<and> t_assembler t' = t_assembler t \<and> tx_base t' = tx_base t \<and> snd_una t' = snd_una t \<and>
     snd_wnd t' = snd_wnd t \<and> fin_received t' = fin_received t \<and> fin_queued t' = fin_queued t"

lemma same_core_refl [simp]: "same_core t t"
  by (simp add: same_core_def)

lemma same_core_trans: "same_core s t \<Longrightarrow> same_core t u \<Longrightarrow> same_core s u"
  by (simp add: same_core_def)

lemma same_core_update [simp]:
  "same_core t (t\<lparr>ack_now := a\<rparr>)" "same_core t (t\<lparr>link_retry_at := b\<rparr>)" "same_core t (t\<lparr>persist_at := b\<rparr>)" "same_core t (t\<lparr>cwnd := c\<rparr>)"
  "same_core t (t\<lparr>rtt_sample := s\<rparr>)" "same_core t (t\<lparr>probe := a\<rparr>)" "same_core t (t\<lparr>retransmit_at := b\<rparr>)" "same_core t (t\<lparr>heard := h, keepalive_probes := c\<rparr>)"
  "same_core t (advance t to)"
  by (simp_all add: same_core_def advance_def Let_def)

lemma send_tcp_core:
  "send_tcp E st t sq flags offset len now = Some (sent, st', t') \<Longrightarrow>
   same_core t t' \<and> cwnd t' = cwnd t \<and> snd_nxt t' = snd_nxt t \<and> snd_max t' = snd_max t \<and> fin_sent t' = fin_sent t \<and> probe t' = probe t \<and>
   fin_seq t' = fin_seq t \<and> retransmit_at t' = retransmit_at t"
  by (drule send_tcp_frame) (auto simp: same_core_def)

lemma output_round_core:
  assumes "output_round E st t now = Some r"
  shows "case r of Break \<Rightarrow> True | LinkFull (st', t') \<Rightarrow> same_core t t' \<and> cwnd t' = cwnd t \<and> snd_nxt t' = snd_nxt t
    | Sent (st', t') \<Rightarrow> same_core t t' \<and> cwnd t' = cwnd t \<and> snd_nxt t' = snd_nxt t + (word_of_nat (output_len t) + of_bool (output_fin t)) \<and>
        fin_sent t' = (fin_sent t \<or> output_fin t) \<and> \<not> probe t'"
  using assms
  by (auto simp: output_round_def Let_def bind_eq_Some_conv same_core_def advance_def dest!: send_tcp_core split: if_splits)

lemma retransmit_first_core: "retransmit_first E st t now = Some (st', t') \<Longrightarrow> same_core t t'"
  by (auto simp: retransmit_first_def Let_def bind_eq_Some_conv same_core_def dest!: send_tcp_core split: if_splits)

section \<open>The windows\<close>

lemma in_flight_grows:
  "in_flight t' \<le> in_flight t + n + of_bool b" if "snd_una t' = snd_una t" "snd_nxt t' = snd_nxt t + (word_of_nat n + of_bool b)"
proof -
  have "snd_nxt t' - snd_una t' = (snd_nxt t - snd_una t) + word_of_nat (n + of_bool b)" using that by simp
  moreover have "unat (x + word_of_nat m) \<le> unat x + m" for x :: u32 and m
    by (simp add: unat_word_ariths unat_of_nat take_bit_eq_mod mod_add_right_eq)
  ultimately show ?thesis by (metis add.assoc in_flight_def)
qed

lemma output_loop_core:
  "output_loop E st t now = Some (ok, st', t') \<Longrightarrow> same_core t t' \<and> cwnd t' = cwnd t \<and>
   in_flight t' \<le> max (in_flight t + of_bool (probe t)) (min (unat (snd_wnd t)) (cwnd t)) + of_bool (fin_sent t' \<and> \<not> fin_sent t)"
proof (induction E st t now rule: output_loop.induct)
  case (1 E st t now)
  show ?case
  proof (cases "fin_sent t")
    case True
    then show ?thesis using "1.prems" by (simp add: output_loop.simps [of E st t now])
  next
    case False
    obtain r where r: "output_round E st t now = Some r"
      using "1.prems" False by (auto simp: output_loop.simps [of E st t now] split: option.splits)
    note core = output_round_core [OF r]
    show ?thesis
    proof (cases r)
      case Break
      then show ?thesis using "1.prems" False r by (simp add: output_loop.simps [of E st t now])
    next
      case (LinkFull x)
      then show ?thesis using "1.prems" False r core
        by (cases x) (auto simp: output_loop.simps [of E st t now] in_flight_def same_core_def)
    next
      case (Sent x)
      obtain st1 t1 where x: "x = (st1, t1)" by fastforce
      have c: "same_core t t1" "cwnd t1 = cwnd t" "snd_nxt t1 = snd_nxt t + (word_of_nat (output_len t) + of_bool (output_fin t))"
          "fin_sent t1 = (fin_sent t \<or> output_fin t)" "\<not> probe t1"
        using core Sent x by simp_all
      have loop: "output_loop E st1 t1 now = Some (ok, st', t')"
        using "1.prems" False r Sent x by (simp add: output_loop.simps [of E st t now])
      have IH: "same_core t1 t' \<and> cwnd t' = cwnd t1 \<and>
          in_flight t' \<le> max (in_flight t1 + of_bool (probe t1)) (min (unat (snd_wnd t1)) (cwnd t1)) + of_bool (fin_sent t' \<and> \<not> fin_sent t1)"
        using "1.IH" [OF False r] Sent x loop by blast
      have una: "snd_una t1 = snd_una t" "snd_wnd t1 = snd_wnd t" using c(1) by (simp_all add: same_core_def)
      have grow: "in_flight t1 \<le> in_flight t + output_len t + of_bool (output_fin t)"
        using in_flight_grows [OF una(1) c(3)] .
      have len: "in_flight t + output_len t \<le> max (in_flight t + of_bool (probe t)) (min (unat (snd_wnd t)) (cwnd t))"
        by (auto simp: output_len_def output_allowed_def Let_def)
      have fin: "fin_sent t' " if "fin_sent t1"
        using loop that by (simp add: output_loop.simps [of E st1 t1 now])
      have "t' = t1" if "fin_sent t1" using loop that by (simp add: output_loop.simps [of E st1 t1 now])
      then show ?thesis using IH same_core_trans [OF c(1)] c una grow len fin False by (cases "output_fin t") auto
    qed
  qed
qed

lemma output_restart_core: "same_core t (output_restart t now) \<and> cwnd (output_restart t now) \<le> cwnd t \<and>
    in_flight (output_restart t now) = in_flight t \<and> probe (output_restart t now) = probe t"
  by (simp add: output_restart_def in_flight_def)

lemma output_ack_core:
  assumes "output_ack E st t now = Some (st', t')"
  shows "same_core t t' \<and> in_flight t' = in_flight t"
proof (cases "ack_now t")
  case False
  then show ?thesis using assms by (simp add: output_ack_def)
next
  case True
  then obtain sent t1 where send: "send_tcp E st t (snd_nxt t) ACK 0 0 now = Some (sent, st', t1)"
      and t': "t' = (if sent then t1 else t1\<lparr>link_retry_at := Some (instant_add now LINK_RETRY)\<rparr>)"
    using assms by (auto simp: output_ack_def bind_eq_Some_conv)
  show ?thesis using send_tcp_core [OF send] same_core_trans [of t t1] unfolding t'
    by (cases sent) (simp_all add: in_flight_def same_core_def)
qed

lemma output_syn_core:
  assumes "output_syn E st t now = Some (st', t')"
  shows "same_core t t' \<and> snd_nxt t' \<in> {snd_nxt t, iss t + 1}"
proof (cases "snd_nxt t = iss t")
  case False
  then show ?thesis using assms by (simp add: output_syn_def)
next
  case True
  then obtain flags sent t1 where send: "send_tcp E st t (iss t) flags 0 0 now = Some (sent, st', t1)"
      and t': "same_core t1 t' \<and> (snd_nxt t' = snd_nxt t1 \<or> snd_nxt t' = iss t1 + 1)"
    using assms by (auto simp: output_syn_def bind_eq_Some_conv Let_def same_core_def advance_def split: if_splits)
  have "iss t1 = iss t" using send_tcp_frame [OF send] by auto
  then show ?thesis using send_tcp_core [OF send] t' same_core_trans by auto
qed

lemma tcp_output_core:
  assumes "tcp_output E st t now = Some (st', t')"
  shows "same_core t t'"
proof -
  let ?t = "t\<lparr>link_retry_at := None\<rparr>"
  have core: "same_core t ?t" by simp
  consider (closed) "t_state t = Closed" | (syn) "t_state t \<in> {SynSent, SynReceived}" | (data) "t_state t \<notin> {SynSent, SynReceived, Closed}"
    by auto
  then show ?thesis
  proof cases
    case closed
    then show ?thesis using assms by (auto simp: tcp_output_def)
  next
    case syn
    then have "output_syn E st ?t now = Some (st', t')" using assms by (auto simp: tcp_output_def)
    then show ?thesis using output_syn_core same_core_trans [OF core] by blast
  next
    case data
    then obtain ok st1 t1 where loop: "output_loop E st (output_restart ?t now) now = Some (ok, st1, t1)"
      and rest: "(if \<not> ok then Some (st1, t1) else do {
          (st, t) \<leftarrow> output_ack E st1 t1 now;
          Some (st, if 0 < unsent t \<and> in_flight t = 0 \<and> persist_at t = None
                    then t\<lparr>persist_at := Some (instant_add now (rto t))\<rparr> else t) }) = Some (st', t')"
      using assms by (auto simp: tcp_output_def Let_def bind_eq_Some_conv)
    have "same_core t1 t'" using rest same_core_trans [of t1 _ t']
      by (auto simp: bind_eq_Some_conv dest!: output_ack_core split: if_splits)
    then show ?thesis using output_loop_core [OF loop] output_restart_core [of ?t now] core same_core_trans by blast
  qed
qed

lemma ack_and_output_core: "ack_and_output E st t now = Some (st', t') \<Longrightarrow> same_core t t'"
  using tcp_output_core [of E st "t\<lparr>ack_now := True\<rparr>" now st' t'] same_core_trans [of t "t\<lparr>ack_now := True\<rparr>"] by (simp add: ack_and_output_def)

section \<open>The state machine\<close>

text \<open>The edges of the diagram of RFC 9293, 3.3.2; a connection may be closed in every state.\<close>

inductive tcp_edge :: "tcp_state \<Rightarrow> tcp_state \<Rightarrow> bool" where
  connect_ok: "tcp_edge SynSent Established"
| simultaneous_open: "tcp_edge SynSent SynReceived"
| accept_ok: "tcp_edge SynReceived Established"
| close_early: "tcp_edge SynReceived FinWait1"
| active_close: "tcp_edge Established FinWait1"
| peer_closed: "tcp_edge Established CloseWait"
| fin_acknowledged: "tcp_edge FinWait1 FinWait2"
| simultaneous_close: "tcp_edge FinWait1 Closing"
| fin_and_acknowledged: "tcp_edge FinWait1 TimeWait"
| peer_fin: "tcp_edge FinWait2 TimeWait"
| passive_close: "tcp_edge CloseWait LastAck"
| closing_acknowledged: "tcp_edge Closing TimeWait"
| close: "tcp_edge s Closed"

inductive_cases tcp_edge_fromE: "tcp_edge s s'"

lemmas tcp_edges = tcp_edge.intros

abbreviation tcp_path :: "tcp_state \<Rightarrow> tcp_state \<Rightarrow> bool" where
  "tcp_path \<equiv> tcp_edge\<^sup>*\<^sup>*"

lemma tcp_path_closed: "tcp_path Closed s \<Longrightarrow> s = Closed"
  by (induction rule: rtranclp_induct) (auto elim: tcp_edge_fromE)

lemma close_with_state [simp]: "t_state (close_with t e) = Closed" "rto (close_with t e) = rto t" "t_rx (close_with t e) = t_rx t"
  by (simp_all add: close_with_def Let_def)

text \<open>The retransmission timeout stays within its bounds.\<close>

definition rto_ok :: "tcb \<Rightarrow> bool" where
  "rto_ok t \<longleftrightarrow> RTO_MIN \<le> rto t \<and> rto t \<le> RTO_MAX"

lemma rto_bounds: "RTO_MIN \<le> RTO_MAX" "RTO_MIN \<le> RTO_INITIAL" "RTO_INITIAL \<le> RTO_MAX"
  by (simp_all add: RTO_MIN_def RTO_MAX_def RTO_INITIAL_def from_secs_def from_millis_def)

lemma sample_rtt_core [simp]:
  "t_state (sample_rtt t d) = t_state t" "rto_ok (sample_rtt t d)" "fin_seq (sample_rtt t d) = fin_seq t"
  using rto_bounds by (auto simp: sample_rtt_def Let_def rto_ok_def clamp_def split: option.splits)

lemma take_rtt_sample_core [simp]: "t_state (take_rtt_sample t now) = t_state t" "rto_ok t \<Longrightarrow> rto_ok (take_rtt_sample t now)"
  by (auto simp: take_rtt_sample_def split: option.splits)

text \<open>A step of a connection follows the diagram and keeps the timeout within its bounds.\<close>

definition tcp_moves :: "tcb \<Rightarrow> tcb \<Rightarrow> bool" where
  "tcp_moves t t' \<longleftrightarrow> tcp_path (t_state t) (t_state t') \<and> (rto_ok t \<longrightarrow> rto_ok t')"

lemma tcp_moves_trans: "tcp_moves s t \<Longrightarrow> tcp_moves t u \<Longrightarrow> tcp_moves s u"
  by (auto simp: tcp_moves_def)

lemma tcp_moves_same: "t_state t' = t_state t \<Longrightarrow> rto t' = rto t \<Longrightarrow> tcp_moves t t'"
  by (simp add: tcp_moves_def rto_ok_def)

lemma tcp_moves_core: "same_core t t' \<Longrightarrow> tcp_moves t t'"
  by (simp add: same_core_def tcp_moves_same)

lemma tcp_moves_edge: "tcp_edge (t_state t) (t_state t') \<Longrightarrow> rto t' = rto t \<Longrightarrow> tcp_moves t t'"
  by (auto simp: tcp_moves_def rto_ok_def)

lemma close_with_moves: "tcp_moves t (close_with u e)" if "rto u = rto t"
  using that by (intro tcp_moves_edge) (simp_all add: tcp_edge.close)

lemma on_syn_sel: "t_state (on_syn t seg) = t_state t" "rto (on_syn t seg) = rto t" "fin_seq (on_syn t seg) = fin_seq t" "iss (on_syn t seg) = iss t"
  by (auto simp: on_syn_def Let_def split: option.splits)

lemma tcp_syn_sent_moves:
  assumes "t_state t = SynSent" "tcp_syn_sent E st t seg now = Some (st', t')"
  shows "tcp_moves t t'"
proof -
  let ?u = "take_rtt_sample ((on_syn t seg)\<lparr>snd_una := sg_ack seg, t_state := Established, retransmit_at := None, retries := 0\<rparr>) now"
  have u: "t_state ?u = Established" "rto_ok t \<Longrightarrow> rto_ok ?u"
    by simp (intro take_rtt_sample_core(2), simp add: rto_ok_def on_syn_sel)
  have "t' = t \<or> t' = close_with t (Some ConnectionRefused) \<or>
      (\<exists>st1. tcp_output E st1 ((on_syn t seg)\<lparr>t_state := SynReceived, snd_nxt := iss t\<rparr>) now = Some (st', t')) \<or>
      ack_and_output E st ?u now = Some (st', t')"
    using assms(2) by (auto simp: tcp_syn_sent_def Let_def bind_eq_Some_conv split: if_splits)
  then consider (same) "t' = t" | (closed) "t' = close_with t (Some ConnectionRefused)"
    | (simult) st1 where "tcp_output E st1 ((on_syn t seg)\<lparr>t_state := SynReceived, snd_nxt := iss t\<rparr>) now = Some (st', t')"
    | (est) "ack_and_output E st ?u now = Some (st', t')" by blast
  then show ?thesis
  proof cases
    case same
    then show ?thesis by (simp add: tcp_moves_same)
  next
    case closed
    then show ?thesis by (simp add: close_with_moves)
  next
    case simult
    have "tcp_moves t ((on_syn t seg)\<lparr>t_state := SynReceived, snd_nxt := iss t\<rparr>)"
      using assms(1) by (intro tcp_moves_edge) (simp_all add: tcp_edges on_syn_sel)
    then show ?thesis using tcp_output_core [OF simult] tcp_moves_core tcp_moves_trans by blast
  next
    case est
    have "tcp_moves t ?u" using assms(1) u by (auto simp: tcp_moves_def intro: tcp_edges)
    then show ?thesis using ack_and_output_core [OF est] tcp_moves_core tcp_moves_trans by blast
  qed
qed

lemma tcp_acked_window_moves: "tcp_acked_window E st t acked ack now = Some (st', t') \<Longrightarrow> t_state t' = t_state t \<and> rto t' = rto t"
  by (auto simp: tcp_acked_window_def bind_eq_Some_conv same_core_def dest!: retransmit_first_core split: option.splits if_splits)

lemma tcp_fin_acked_moves: "tcp_moves t (tcp_fin_acked t now)"
proof -
  have "rto (tcp_fin_acked t now) = rto t" by (auto simp: tcp_fin_acked_def Let_def split: tcp_state.split)
  moreover have "t_state (tcp_fin_acked t now) = t_state t \<or> tcp_edge (t_state t) (t_state (tcp_fin_acked t now))"
    by (auto simp: tcp_fin_acked_def Let_def intro: tcp_edges split: tcp_state.split)
  ultimately show ?thesis using tcp_moves_same tcp_moves_edge by blast
qed

lemma tcp_acked_data_sel: "t_state (tcp_acked_data t ack) = t_state t \<and> rto (tcp_acked_data t ack) = rto t"
  by (simp add: tcp_acked_data_def Let_def)

lemma tcp_acked_pointers_sel: "t_state (tcp_acked_pointers t ack fin) = t_state t \<and> rto (tcp_acked_pointers t ack fin) = rto t"
  by (simp add: tcp_acked_pointers_def Let_def)

lemma tcp_acked_timers_sel: "t_state (tcp_acked_timers t now) = t_state t \<and> rto (tcp_acked_timers t now) = rto t"
  by (simp add: tcp_acked_timers_def Let_def)

lemma tcp_acked_rtt_moves: "tcp_moves t (tcp_acked_rtt t ack now)"
  using sample_rtt_core(2) by (auto simp: tcp_acked_rtt_def tcp_moves_def rto_ok_def split: option.splits)

lemma tcp_acked_moves:
  assumes "tcp_acked E st t ack now = Some (st', t')"
  shows "tcp_moves t t'"
proof -
  let ?fin = "fin_acked (tcp_acked_data t ack) ack"
  let ?p = "tcp_acked_pointers (tcp_acked_data t ack) ack ?fin"
  let ?u = "tcp_acked_timers (tcp_acked_rtt ?p ack now) now"
  obtain st1 v where w: "tcp_acked_window E st ?u (unat (ack - snd_una t)) ack now = Some (st1, v)"
    and t': "t' = (if ?fin then tcp_fin_acked v now else v)"
    using assms unfolding tcp_acked_def Let_def by (elim bind_pair_SomeE) simp
  have "tcp_moves t ?p" using tcp_acked_data_sel tcp_acked_pointers_sel by (intro tcp_moves_same) simp_all
  moreover have "tcp_moves ?p (tcp_acked_rtt ?p ack now)" by (rule tcp_acked_rtt_moves)
  moreover have "tcp_moves (tcp_acked_rtt ?p ack now) ?u" using tcp_acked_timers_sel by (intro tcp_moves_same) simp_all
  moreover have "tcp_moves ?u v" using tcp_acked_window_moves [OF w] by (intro tcp_moves_same) simp_all
  moreover have "tcp_moves v t'" unfolding t' using tcp_fin_acked_moves by (simp add: tcp_moves_same)
  ultimately show ?thesis using tcp_moves_trans by blast
qed

lemma tcp_ack_phase_moves: "tcp_ack_phase E st t seg wu now = Some (st', t') \<Longrightarrow> tcp_moves t t'"
proof -
  assume a: "tcp_ack_phase E st t seg wu now = Some (st', t')"
  show ?thesis
  proof (cases "seq_lt (snd_una t) (sg_ack seg)")
    case True
    then show ?thesis using a tcp_acked_moves by (simp add: tcp_ack_phase_def)
  next
    case False
    then have "t_state t' = t_state t \<and> rto t' = rto t" using a
      by (auto simp: tcp_ack_phase_def Let_def bind_eq_Some_conv same_core_def dest!: retransmit_first_core split: if_splits)
    then show ?thesis by (simp add: tcp_moves_same)
  qed
qed

lemma tcp_window_phase_sel: "t_state (tcp_window_phase t seg wu) = t_state t \<and> rto (tcp_window_phase t seg wu) = rto t"
  by (simp add: tcp_window_phase_def Let_def)

lemma tcp_place_sel: "tcp_place E t start stop data = Some t' \<Longrightarrow> t_state t' = t_state t \<and> rto t' = rto t"
  by (auto simp: tcp_place_def Let_def bind_eq_Some_conv split: if_splits)

lemma tcp_take_front_sel: "t_state (snd (tcp_take_front t)) = t_state t \<and> rto (snd (tcp_take_front t)) = rto t"
  by (simp add: tcp_take_front_def Let_def split: prod.split)

lemma tcp_data_ack_sel: "t_state (tcp_data_ack t offset n now) = t_state t \<and> rto (tcp_data_ack t offset n now) = rto t"
  by (simp add: tcp_data_ack_def Let_def)

lemma tcp_data_sel:
  assumes "tcp_data E t seg now = Some t'"
  shows "t_state t' = t_state t \<and> rto t' = rto t"
proof (cases "length (sg_data seg) \<le> nat (max (- sint (sg_seq seg - rcv_nxt t)) 0)")
  case True
  then show ?thesis using assms by (auto simp: tcp_data_def)
next
  case False
  obtain start stop data t1 where place: "tcp_place E t start stop data = Some t1"
    and t': "t' = tcp_data_ack (snd (tcp_take_front t1)) (sint (sg_seq seg - rcv_nxt t)) (fst (tcp_take_front t1)) now"
    using assms unfolding tcp_data_def Let_def if_not_P [OF False] by (elim bind_SomeE) (auto simp: case_prod_beta)
  show ?thesis using tcp_place_sel [OF place] tcp_take_front_sel tcp_data_ack_sel by (simp add: t')
qed

lemma tcp_fin_phase_moves: "tcp_moves t (tcp_fin_phase t seg)"
proof -
  have "rto (tcp_fin_phase t seg) = rto t" by (simp add: tcp_fin_phase_def Let_def)
  moreover have "t_state (tcp_fin_phase t seg) = t_state t \<or> tcp_edge (t_state t) (t_state (tcp_fin_phase t seg))"
    by (auto simp: tcp_fin_phase_def Let_def intro: tcp_edges split: tcp_state.split)
  ultimately show ?thesis using tcp_moves_same tcp_moves_edge by blast
qed

lemma tcp_process_ack_moves:
  assumes "tcp_process_ack E st t seg now = Some (st', t')"
  shows "tcp_moves t t'"
proof (cases "seq_lt (snd_max t) (sg_ack seg) \<or> seq_lt (sg_ack seg) (snd_una t - max_window t)")
  case True
  then show ?thesis using assms ack_and_output_core tcp_moves_core by (auto simp: tcp_process_ack_def)
next
  case False
  let ?wu = "push_bit (snd_scale t) (ucast (sg_window seg)) :: u32"
  let ?t = "if ?wu = 0 then t\<lparr>retries := 0\<rparr> else t"
  obtain st1 t1 t2 where 1: "tcp_ack_phase E st ?t seg ?wu now = Some (st1, t1)"
      and 2: "(if sg_data seg \<noteq> [] \<and> t_state (tcp_window_phase t1 seg ?wu) \<in> {Established, FinWait1, FinWait2}
             then tcp_data E (tcp_window_phase t1 seg ?wu) seg now else Some (tcp_window_phase t1 seg ?wu)) = Some t2"
      and 3: "tcp_output E st1 (if t_state (tcp_fin_phase t2 seg) = TimeWait
                 then (tcp_fin_phase t2 seg)\<lparr>close_at := Some (instant_add now TIME_WAIT), retransmit_at := None\<rparr> else tcp_fin_phase t2 seg) now = Some (st', t')"
    using assms False unfolding tcp_process_ack_def Let_def if_not_P [OF False] by (elim bind_pair_SomeE bind_SomeE) (rule that)
  have "tcp_moves t ?t" by (simp add: tcp_moves_same)
  moreover have "tcp_moves ?t t1" by (rule tcp_ack_phase_moves [OF 1])
  moreover have "tcp_moves t1 t2"
    using 2 tcp_window_phase_sel [of t1 seg ?wu] by (intro tcp_moves_same) (auto dest!: tcp_data_sel split: if_splits)
  moreover have "tcp_moves t2 (tcp_fin_phase t2 seg)" by (rule tcp_fin_phase_moves)
  moreover have "tcp_moves (tcp_fin_phase t2 seg) t'"
    using tcp_output_core [OF 3] by (intro tcp_moves_same) (auto simp: same_core_def split: if_splits)
  ultimately show ?thesis using tcp_moves_trans by blast
qed

lemma tcp_establish_moves:
  assumes "tcp_establish st i t seg now = Some (st', t')" "t_state t = SynReceived"
  shows "tcp_moves t t'"
proof -
  let ?a = "t\<lparr>t_state := Established, snd_una := sg_ack seg\<rparr>"
  let ?b = "?a\<lparr>snd_wnd := push_bit (snd_scale ?a) (ucast (sg_window seg))\<rparr>"
  let ?c = "?b\<lparr>max_window := max (max_window ?b) (snd_wnd ?b), snd_wl1 := sg_seq seg, snd_wl2 := sg_ack seg,
               retransmit_at := None, retries := 0\<rparr>"
  have "t' = take_rtt_sample ?c now"
    using assms(1) by (auto simp: tcp_establish_def Let_def split: option.splits if_splits)
  moreover have "rto_ok t \<Longrightarrow> rto_ok ?c" by (simp add: rto_ok_def)
  ultimately show ?thesis using assms(2) by (auto simp: tcp_moves_def intro: tcp_edges)
qed

end
