(* ===== verification/Tcp_Steps.thy ===== *)
theory Tcp_Steps
  imports Tcp_States
begin

text \<open>
  What happens to a connection, one event at a time: a segment, a timer, a call of the socket, an ICMP
  error, a link that can send again. Every event follows the state diagram; only a reset that is exactly
  next closes a connection for the peer; the output keeps to the windows.
\<close>

section \<open>Every operation follows the diagram\<close>

lemma tcp_reset_moves: "tcp_moves t (tcp_reset t)"
  by (auto simp: tcp_reset_def close_with_moves split: tcp_state.split)

lemma heard_moves: "tcp_moves t (t\<lparr>heard := now, keepalive_probes := 0\<rparr>)"
  by (simp add: tcp_moves_same)

definition unsyn :: "tcb \<Rightarrow> segment \<Rightarrow> segment" where
  "unsyn t seg = (if t_state t = SynReceived \<and> has_flag (sg_flags seg) SYN \<and> sg_seq seg + 1 = rcv_nxt t \<and> t_listener t = None
     then seg\<lparr>sg_seq := rcv_nxt t, sg_flags := sg_flags seg AND NOT SYN\<rparr> else seg)"

text \<open>The branches of \<open>tcp_process\<close>.\<close>

lemma tcp_process_cases:
  assumes p: "tcp_process E st i t0 seg0 now = Some (st', t')"
    and t: "t = t0\<lparr>heard := now, keepalive_probes := 0\<rparr>" and seg: "seg = unsyn t seg0"
  obtains (syn_sent) "t_state t = SynSent" "tcp_syn_sent E st t seg0 now = Some (st', t')"
  | (challenge) "t_state t \<noteq> SynSent" "\<not> (has_flag (sg_flags seg) RST \<and> tcp_acceptable t seg \<and> sg_seq seg = rcv_nxt t)"
      "ack_and_output E st t now = Some (st', t')"
  | (ignored) "t_state t \<noteq> SynSent" "\<not> (has_flag (sg_flags seg) RST \<and> tcp_acceptable t seg \<and> sg_seq seg = rcv_nxt t)" "t' = t"
  | (reset) "t_state t \<noteq> SynSent" "has_flag (sg_flags seg) RST" "tcp_acceptable t seg" "sg_seq seg = rcv_nxt t" "t' = tcp_reset t" "st' = st"
  | (establish) st1 t1 where "t_state t = SynReceived" "\<not> has_flag (sg_flags seg) RST"
      "tcp_establish st i t seg now = Some (st1, t1)" "tcp_process_ack E st1 t1 seg now = Some (st', t')"
  | (ack) "t_state t \<noteq> SynSent" "t_state t \<noteq> SynReceived" "\<not> has_flag (sg_flags seg) RST" "tcp_process_ack E st t seg now = Some (st', t')"
proof -
  have "tcp_process E st i t0 seg0 now =
     (if t_state t = SynSent then tcp_syn_sent E st t seg0 now
      else if \<not> tcp_acceptable t seg then
             (if \<not> has_flag (sg_flags seg) RST then ack_and_output E st t now else Some (st, t))
           else if has_flag (sg_flags seg) RST then
             (if sg_seq seg \<noteq> rcv_nxt t then ack_and_output E st t now else Some (st, tcp_reset t))
           else if has_flag (sg_flags seg) SYN then ack_and_output E st t now
           else if \<not> has_flag (sg_flags seg) ACK then Some (st, t)
           else if t_state t = SynReceived then
             (if \<not> (seq_lt (snd_una t) (sg_ack seg) \<and> seq_le (sg_ack seg) (snd_max t)) then do {
                st \<leftarrow> send_reset E st (t_local t) (t_remote t) seg now;
                Some (st, t)
              }
              else do {
                (st, t) \<leftarrow> tcp_establish st i t seg now;
                tcp_process_ack E st t seg now
              })
           else tcp_process_ack E st t seg now)"
    unfolding tcp_process_def Let_def seg t unsyn_def by (rule refl)
  note eq = this [unfolded p, symmetric]
  consider "t_state t = SynSent" | "t_state t \<noteq> SynSent" "\<not> tcp_acceptable t seg"
    | "t_state t \<noteq> SynSent" "tcp_acceptable t seg" "has_flag (sg_flags seg) RST"
    | "t_state t \<noteq> SynSent" "tcp_acceptable t seg" "\<not> has_flag (sg_flags seg) RST" by blast
  then show thesis
  proof cases
    case 1
    then have "tcp_syn_sent E st t seg0 now = Some (st', t')" using eq by simp
    then show thesis using 1 by (intro syn_sent)
  next
    case 2
    then have "(if \<not> has_flag (sg_flags seg) RST then ack_and_output E st t now else Some (st, t)) = Some (st', t')"
      using eq by simp
    then have "ack_and_output E st t now = Some (st', t') \<or> t' = t" by (simp split: if_splits)
    then show thesis using 2 challenge ignored by blast
  next
    case 3
    then have "(if sg_seq seg \<noteq> rcv_nxt t then ack_and_output E st t now else Some (st, tcp_reset t)) = Some (st', t')"
      using eq by simp
    then have "sg_seq seg \<noteq> rcv_nxt t \<and> ack_and_output E st t now = Some (st', t') \<or> sg_seq seg = rcv_nxt t \<and> st' = st \<and> t' = tcp_reset t"
      by (simp split: if_splits)
    then show thesis using 3 challenge reset by blast
  next
    case 4
    consider (drop) "has_flag (sg_flags seg) SYN \<or> \<not> has_flag (sg_flags seg) ACK"
      | (other) "\<not> has_flag (sg_flags seg) SYN" "has_flag (sg_flags seg) ACK" "t_state t \<noteq> SynReceived"
      | (refuse) "\<not> has_flag (sg_flags seg) SYN" "has_flag (sg_flags seg) ACK" "t_state t = SynReceived"
          "\<not> (seq_lt (snd_una t) (sg_ack seg) \<and> seq_le (sg_ack seg) (snd_max t))"
      | (accept) "\<not> has_flag (sg_flags seg) SYN" "has_flag (sg_flags seg) ACK" "t_state t = SynReceived"
          "seq_lt (snd_una t) (sg_ack seg) \<and> seq_le (sg_ack seg) (snd_max t)" by blast
    then show thesis
    proof cases
      case drop
      then have "(if has_flag (sg_flags seg) SYN then ack_and_output E st t now else Some (st, t)) = Some (st', t')"
        using eq 4 by (cases "has_flag (sg_flags seg) SYN") simp_all
      then have "ack_and_output E st t now = Some (st', t') \<or> t' = t" by (simp split: if_splits)
      then show thesis using 4 challenge ignored by blast
    next
      case other
      then have "tcp_process_ack E st t seg now = Some (st', t')" using eq 4 by simp
      then show thesis using 4 other ack by blast
    next
      case refuse
      then have "do { st \<leftarrow> send_reset E st (t_local t) (t_remote t) seg now; Some (st, t) } = Some (st', t')"
        using eq 4 by simp
      then have "t' = t" by (elim bind_SomeE) simp
      then show thesis using 4 ignored by blast
    next
      case accept
      then have "do { (st, t) \<leftarrow> tcp_establish st i t seg now; tcp_process_ack E st t seg now } = Some (st', t')"
        using eq 4 by simp
      then show thesis using 4 accept by (elim bind_pair_SomeE) (rule establish)
    qed
  qed
qed

lemma tcp_process_moves:
  assumes "tcp_process E st i t seg now = Some (st', t')"
  shows "tcp_moves t t'"
proof -
  let ?t = "t\<lparr>heard := now, keepalive_probes := 0\<rparr>"
  have "tcp_moves ?t t'" using assms refl refl
  proof (cases rule: tcp_process_cases)
    case syn_sent
    then show ?thesis by (rule tcp_syn_sent_moves)
  next
    case challenge
    then show ?thesis using ack_and_output_core tcp_moves_core by blast
  next
    case ignored
    then show ?thesis by (simp add: tcp_moves_same)
  next
    case reset
    then show ?thesis using tcp_reset_moves by simp
  next
    case (establish st1 t1)
    then show ?thesis using tcp_establish_moves tcp_process_ack_moves tcp_moves_trans by blast
  next
    case ack
    then show ?thesis using tcp_process_ack_moves by blast
  qed
  then show ?thesis using heard_moves tcp_moves_trans by blast
qed

lemma tcp_abort_moves: "tcp_abort E st t now = Some (st', t') \<Longrightarrow> tcp_moves t t'"
  unfolding tcp_abort_def
  by (elim bind_pair_SomeE) (auto simp: bind_eq_Some_conv same_core_def close_with_moves dest!: send_tcp_core split: if_splits)

text \<open>The retransmission timer doubles the timeout up to its limit, or gives the connection up.\<close>

lemma tcp_retransmit_timer_moves:
  "case tcp_retransmit_timer t now of Ok t' \<Rightarrow> tcp_moves t t' | Err t' \<Rightarrow> tcp_moves t t'"
proof -
  have "tcp_moves t (t\<lparr>retries := r, rto := min (rto t * 2) RTO_MAX, ssthresh := s, cwnd := c, dupacks := d, recover := None,
      rtt_sample := None, snd_nxt := n, fin_sent := False, retransmit_at := a\<rparr>)" for r s c d n a
    using rto_bounds by (auto simp: tcp_moves_def rto_ok_def)
  then show ?thesis
    by (auto simp: tcp_retransmit_timer_def Let_def tcp_moves_same intro!: close_with_moves)
qed

lemma tcp_due_flags_moves: "tcp_moves t (tcp_due_flags t now)"
  by (rule tcp_moves_same) (simp_all add: tcp_due_flags_def Let_def)

lemma tcp_keepalive_timer_moves:
  assumes "tcp_keepalive_timer E st t now = Some (st', t')"
  shows "tcp_moves t t'"
proof (cases "due (keepalive_at t) now")
  case False
  then show ?thesis using assms tcp_moves_core [OF tcp_output_core] by (simp add: tcp_keepalive_timer_def)
next
  case True
  show ?thesis
  proof (cases "KEEPALIVE_PROBES \<le> keepalive_probes t")
    case True
    with \<open>due (keepalive_at t) now\<close> show ?thesis using assms by (auto simp: tcp_keepalive_timer_def close_with_moves)
  next
    case False
    let ?t = "t\<lparr>keepalive_probes := keepalive_probes t + 1\<rparr>"
    obtain ok st1 u where send: "send_tcp E st ?t (snd_una ?t - 1) ACK 0 0 now = Some (ok, st1, u)"
      and out: "tcp_output E st1 u now = Some (st', t')"
      using assms unfolding tcp_keepalive_timer_def Let_def if_P [OF True] if_not_P [OF False]
      by (elim bind_pair_SomeE) (auto elim!: bind_pair_SomeE)
    have "tcp_moves t ?t" by (simp add: tcp_moves_same)
    moreover have "tcp_moves ?t u" using send_tcp_core [OF send] tcp_moves_core by blast
    moreover have "tcp_moves u t'" by (rule tcp_moves_core [OF tcp_output_core [OF out]])
    ultimately show ?thesis using tcp_moves_trans by blast
  qed
qed

lemma tcp_timers_moves:
  assumes "tcp_timers E st t now = Some (st', t')"
  shows "tcp_moves t t'"
proof (cases "due (close_at t) now")
  case True
  then show ?thesis using assms by (auto simp: tcp_timers_def close_with_moves)
next
  case False
  show ?thesis
  proof (cases "tcp_retransmit_timer t now")
    case (Err u)
    then show ?thesis using assms False tcp_retransmit_timer_moves [of t now] by (simp add: tcp_timers_def)
  next
    case (Ok u)
    then have "tcp_keepalive_timer E st (tcp_due_flags u now) now = Some (st', t')" and u: "tcp_moves t u"
      using assms False tcp_retransmit_timer_moves [of t now] by (simp_all add: tcp_timers_def)
    then have "tcp_moves (tcp_due_flags u now) t'" by (intro tcp_keepalive_timer_moves)
    then show ?thesis using u tcp_due_flags_moves [of u now] tcp_moves_trans by blast
  qed
qed

lemma output_after_moves: "tcp_moves t u \<Longrightarrow> tcp_output E st u now = Some (st', t') \<Longrightarrow> tcp_moves t t'"
  using tcp_output_core tcp_moves_core tcp_moves_trans by blast

lemma tcp_shutdown_moves: "tcp_shutdown_tcb E st t now = Some (st', t') \<Longrightarrow> tcp_moves t t'"
proof -
  assume a: "tcp_shutdown_tcb E st t now = Some (st', t')"
  have fin: "tcp_edge r s \<Longrightarrow> t_state t = r \<Longrightarrow> tcp_moves t (t\<lparr>t_state := s, fin_queued := True\<rparr>)" for r s
    by (rule tcp_moves_edge) simp_all
  show ?thesis using a
    by (auto simp: tcp_shutdown_tcb_def tcp_moves_same close_with_moves split: if_splits tcp_state.splits
      intro: output_after_moves [OF fin [OF close_early]] output_after_moves [OF fin [OF active_close]]
        output_after_moves [OF fin [OF passive_close]])
qed

lemma tcp_release_moves:
  assumes "tcp_release_tcb E now st t = Some (st', t')"
  shows "tcp_moves t t'"
proof -
  let ?t = "t\<lparr>t_released := True\<rparr>"
  have "tcp_moves t ?t" by (simp add: tcp_moves_same)
  moreover have "tcp_moves ?t t'"
  proof (cases "0 < r_len (t_rx ?t) \<or> t_state ?t = SynSent")
    case True
    then show ?thesis using assms tcp_abort_moves by (simp add: tcp_release_tcb_def)
  next
    case False
    obtain st1 u where u: "tcp_shutdown_tcb E st ?t now = Some (st1, u)"
      and t': "t' = (if t_state u = FinWait2 \<and> close_at u = None then u\<lparr>close_at := Some (instant_add now FIN_WAIT_2)\<rparr> else u)"
      using assms unfolding tcp_release_tcb_def Let_def if_not_P [OF False] by (elim bind_pair_SomeE) simp
    have "tcp_moves u t'" unfolding t' by (simp add: tcp_moves_same)
    then show ?thesis using tcp_shutdown_moves [OF u] tcp_moves_trans by blast
  qed
  ultimately show ?thesis by (rule tcp_moves_trans)
qed

lemma tcp_read_moves:
  assumes "tcp_read_tcb E buf now st t = Some (r, st', t')"
  shows "tcp_moves t t'"
proof (cases "0 < r_len (t_rx t)")
  case False
  then show ?thesis using assms by (auto simp: tcp_read_tcb_def tcp_moves_same split: if_splits)
next
  case True
  then obtain n b rx st1 u where u: "(if synchronized (t_state t) \<and> window_grew (t\<lparr>t_rx := rx\<rparr>)
        then ack_and_output E st (t\<lparr>t_rx := rx\<rparr>) now else Some (st, t\<lparr>t_rx := rx\<rparr>)) = Some (st1, u)" and t': "t' = u"
    using assms unfolding tcp_read_tcb_def Let_def if_P [OF True] by (elim bind_pair_SomeE) (auto elim!: bind_pair_SomeE)
  have "tcp_moves t (t\<lparr>t_rx := rx\<rparr>)" by (simp add: tcp_moves_same)
  moreover have "tcp_moves (t\<lparr>t_rx := rx\<rparr>) u"
    using u by (auto simp: tcp_moves_same intro: tcp_moves_core [OF ack_and_output_core] split: if_splits)
  ultimately show ?thesis unfolding t' by (rule tcp_moves_trans)
qed

lemma tcp_write_moves:
  assumes "tcp_write_tcb E data now st t = Some (r, st', t')"
  shows "tcp_moves t t'"
proof (cases "t_error t = None \<and> \<not> (fin_queued t \<or> t_state t \<notin> {Established, CloseWait})")
  case False
  then show ?thesis using assms by (auto simp: tcp_write_tcb_def tcp_moves_same split: option.splits if_splits)
next
  case True
  then have "do { (n, tx) \<leftarrow> ring_push (e_mem E) (t_tx t) data;
       if n = 0 then Some (if r_len tx = 0 then Some (Err NoMemory) else None, st, t\<lparr>t_tx := tx\<rparr>)
       else do { (st, t) \<leftarrow> tcp_output E st (t\<lparr>t_tx := tx\<rparr>) now; Some (Some (Ok n), st, t) } } = Some (r, st', t')"
    using assms by (simp add: tcp_write_tcb_def Let_def cong: if_cong)
  then obtain n tx where tx: "(if n = 0 then Some (if r_len tx = 0 then Some (Err NoMemory) else None, st, t\<lparr>t_tx := tx\<rparr>)
      else do { (st, t) \<leftarrow> tcp_output E st (t\<lparr>t_tx := tx\<rparr>) now; Some (Some (Ok n), st, t) }) = Some (r, st', t')"
    by (rule bind_pair_SomeE)
  have m: "tcp_moves t (t\<lparr>t_tx := tx\<rparr>)" by (simp add: tcp_moves_same)
  show ?thesis
  proof (cases "n = 0")
    case True
    then show ?thesis using tx m by simp
  next
    case False
    then show ?thesis using tx output_after_moves [OF m] by (auto elim!: bind_pair_SomeE)
  qed
qed

lemma tcp_icmp_error_moves: "tcp_moves t (tcp_icmp_error_tcb sq refused err t)"
  by (auto simp: tcp_icmp_error_tcb_def tcp_moves_same close_with_moves)

section \<open>Runs of a connection\<close>

text \<open>What may happen to a connection: \<open>Arrives\<close> is a segment for it, as \<open>tcp_input\<close> hands it to
  \<open>tcp_process\<close> with the slot of the connection; \<open>Polled\<close> is \<open>tcp_poll\<close>; \<open>Link_ready\<close> is
  \<open>tcp_link_ready\<close>; the rest are the calls of the sockets.\<close>

datatype tcb_event =
  Arrives nat segment | Polled | Link_ready | Reads "u8 list" | Writes "u8 list" | Shuts_down | Releases | Aborts
  | Icmp_error u32 bool net_error

fun tcb_step :: "net_env \<Rightarrow> stack \<Rightarrow> tcb \<Rightarrow> instant \<Rightarrow> tcb_event \<Rightarrow> (stack \<times> tcb) option" where
  "tcb_step E st t now (Arrives i seg) = tcp_process E st i t seg now"
| "tcb_step E st t now Polled = map_option snd (tcp_poll_tcb E now st t)"
| "tcb_step E st t now Link_ready = (if link_retry_at t \<noteq> None then tcp_output E st t now else Some (st, t))"
| "tcb_step E st t now (Reads buf) = map_option snd (tcp_read_tcb E buf now st t)"
| "tcb_step E st t now (Writes data) = map_option snd (tcp_write_tcb E data now st t)"
| "tcb_step E st t now Shuts_down = tcp_shutdown_tcb E st t now"
| "tcb_step E st t now Releases = tcp_release_tcb E now st t"
| "tcb_step E st t now Aborts = tcp_abort E st t now"
| "tcb_step E st t now (Icmp_error sq refused err) = Some (st, tcp_icmp_error_tcb sq refused err t)"

text \<open>A run: each event happens at some time, in some state of the rest of the stack.\<close>

fun tcb_run :: "net_env \<Rightarrow> tcb \<Rightarrow> (stack \<times> instant \<times> tcb_event) list \<Rightarrow> tcb option" where
  "tcb_run E t [] = Some t"
| "tcb_run E t ((st, now, ev) # evs) = do { (_, t) \<leftarrow> tcb_step E st t now ev; tcb_run E t evs }"

lemma tcp_poll_moves: "tcp_poll_tcb E now st t = Some (d, st', t') \<Longrightarrow> tcp_moves t t'"
  using tcp_timers_moves by (auto simp: tcp_poll_tcb_def tcp_moves_same bind_eq_Some_conv split: if_splits)

lemma tcb_step_moves: "tcb_step E st t now ev = Some (st', t') \<Longrightarrow> tcp_moves t t'"
  by (cases ev) (auto simp: tcp_moves_same tcp_icmp_error_moves split: if_splits
    intro: tcp_process_moves tcp_poll_moves tcp_read_moves tcp_write_moves tcp_shutdown_moves tcp_release_moves tcp_abort_moves
      tcp_moves_core [OF tcp_output_core])

lemma tcb_run_moves: "tcb_run E t evs = Some t' \<Longrightarrow> tcp_moves t t'"
proof (induction E t evs rule: tcb_run.induct)
  case (2 E t st now ev evs)
  obtain st1 u where step: "tcb_step E st t now ev = Some (st1, u)" and run: "tcb_run E u evs = Some t'"
    using "2.prems" by (auto elim!: bind_pair_SomeE)
  have "tcp_moves u t'" using "2.IH" [OF step refl run] .
  then show ?case using tcb_step_moves [OF step] tcp_moves_trans by blast
qed (simp add: tcp_moves_same)

section \<open>Resets\<close>

definition same_session :: "tcb \<Rightarrow> tcb \<Rightarrow> bool" where
  "same_session t t' \<longleftrightarrow> t_state t' = t_state t \<and> t_rx t' = t_rx t \<and> t_tx t' = t_tx t \<and> rcv_nxt t' = rcv_nxt t \<and> snd_una t' = snd_una t \<and>
     t_error t' = t_error t"

lemma same_session_core: "same_core t t' \<Longrightarrow> same_session t t'"
  by (simp add: same_core_def same_session_def)

lemma tcp_acceptable_heard [simp]: "tcp_acceptable (t\<lparr>heard := now, keepalive_probes := n\<rparr>) seg = tcp_acceptable t seg"
  by (simp add: tcp_acceptable_def in_window_def)

lemma tcp_reset_closes [simp]: "t_state (tcp_reset t) = Closed"
  by (simp add: tcp_reset_def split: tcp_state.split)

lemma tcp_process_reset:
  assumes "t_state t \<noteq> SynSent" "has_flag (sg_flags seg) RST" "\<not> has_flag (sg_flags seg) SYN" "tcp_process E st i t seg now = Some (st', t')"
  shows "if tcp_acceptable t seg \<and> sg_seq seg = rcv_nxt t then t_state t' = Closed else same_session t t'"
proof -
  let ?t = "t\<lparr>heard := now, keepalive_probes := 0\<rparr>"
  have seg: "seg = unsyn ?t seg" using assms(3) by (simp add: unsyn_def)
  have t: "same_session t ?t" by (simp add: same_session_def)
  have "if tcp_acceptable ?t seg \<and> sg_seq seg = rcv_nxt ?t then t_state t' = Closed else same_session ?t t'"
    using assms(4) refl seg
  proof (cases rule: tcp_process_cases)
    case challenge
    then have "same_session ?t t'" using ack_and_output_core same_session_core by blast
    then show ?thesis using challenge(2) assms(2) by auto
  next
    case ignored
    then show ?thesis using assms(2) by (auto simp: same_session_def)
  next
    case reset
    then show ?thesis by simp
  qed (use assms in simp_all)
  then show ?thesis by (simp add: same_session_def split: if_splits)
qed

section \<open>The windows of the output\<close>

lemma output_ack_fin:
  assumes "output_ack E st t now = Some (st', t')"
  shows "fin_sent t' = fin_sent t"
proof (cases "ack_now t")
  case True
  then obtain sent t1 where send: "send_tcp E st t (snd_nxt t) ACK 0 0 now = Some (sent, st', t1)"
      and t': "t' = (if sent then t1 else t1\<lparr>link_retry_at := Some (instant_add now LINK_RETRY)\<rparr>)"
    using assms by (auto simp: output_ack_def bind_eq_Some_conv)
  show ?thesis using send_tcp_core [OF send] by (simp add: t')
qed (use assms in \<open>simp add: output_ack_def\<close>)

lemma tcp_output_windows:
  assumes "tcp_output E st t now = Some (st', t')" "t_state t \<notin> {SynSent, SynReceived}"
  shows "in_flight t' \<le> max (in_flight t + of_bool (probe t)) (min (unat (snd_wnd t)) (cwnd t)) + of_bool (fin_sent t' \<and> \<not> fin_sent t)"
proof (cases "t_state t = Closed")
  case True
  then show ?thesis using assms(1) by (auto simp: tcp_output_def in_flight_def)
next
  case False
  let ?t = "output_restart (t\<lparr>link_retry_at := None\<rparr>) now"
  obtain ok st1 t1 where loop: "output_loop E st ?t now = Some (ok, st1, t1)"
    and rest: "(if \<not> ok then Some (st1, t1) else do {
          (st, t) \<leftarrow> output_ack E st1 t1 now;
          Some (st, if 0 < unsent t \<and> in_flight t = 0 \<and> persist_at t = None
                    then t\<lparr>persist_at := Some (instant_add now (rto t))\<rparr> else t) }) = Some (st', t')"
    using assms False by (auto simp: tcp_output_def Let_def bind_eq_Some_conv)
  have t: "in_flight ?t = in_flight t" "probe ?t = probe t" "cwnd ?t \<le> cwnd t" "snd_wnd ?t = snd_wnd t" "fin_sent ?t = fin_sent t"
    by (simp_all add: output_restart_def in_flight_def)
  have "in_flight t' = in_flight t1 \<and> fin_sent t' = fin_sent t1"
  proof (cases ok)
    case True
    then obtain u where "output_ack E st1 t1 now = Some (st', u)"
        "t' = (if 0 < unsent u \<and> in_flight u = 0 \<and> persist_at u = None then u\<lparr>persist_at := Some (instant_add now (rto u))\<rparr> else u)"
      using rest by (auto elim!: bind_pair_SomeE)
    then show ?thesis using output_ack_core output_ack_fin by (auto simp: in_flight_def)
  qed (use rest in simp)
  then show ?thesis using output_loop_core [OF loop] t by (auto simp: min_def max_def split: if_splits)
qed

section \<open>Properties\<close>


definition example_stack :: stack where
  "example_stack = \<lparr>st_ifaces = [], st_loopback = [], st_arp = [], st_ident = 0, st_frag = [], st_icmp_limit = limiter_default, st_udp = [],
     st_tcp = tcp_sockets_default, st_woken = [], st_dns_generation = 0, st_sent = []\<rparr>"




text \<open>C5: Output never has more bytes in flight than the smaller of the peer's window and the congestion window,
  beyond what was in flight before: a window probe adds one byte, the FIN one sequence number.\<close>

theorem output_keeps_to_windows:
  assumes "tcp_output E st t now = Some (st', t')" "t_state t \<notin> {SynSent, SynReceived}"
  shows "in_flight t' \<le> max (in_flight t + of_bool (probe t)) (min (unat (snd_wnd t)) (cwnd t)) + of_bool (fin_sent t' \<and> \<not> fin_sent t)"
  by (rule tcp_output_windows [OF assms])

definition sending_tcb :: tcb where
  "sending_tcb = example_tcb\<lparr>t_tx := \<lparr>r_data = [1, 2, 3, 4, 5], r_capacity = 5, r_head = 0, r_len = 5\<rparr>, snd_una := 0xfffffff1, snd_nxt := 0xfffffff1,
     snd_max := 0xfffffff1, snd_wnd := 3, max_window := 3, cwnd := 10\<rparr>"

text \<open>Without a route every segment is lost on the way, and output ends.\<close>

lemma example_send:
  assumes "fst (t_remote t) = 2"
  shows "\<exists>t'. send_tcp example_env example_stack t sq flags offset n now = Some (True, example_stack, t') \<and> fst (t_remote t') = 2"
proof -
  have route: "send_ipv4 example_env example_stack src 2 pr len at fill = Some (Err NoRoute, example_stack)" for src pr len at fill
    by (simp add: send_ipv4_def route_v4_def example_stack_def is_loopback_def first_octet_def is_own_address_def is_broadcast_def configured_def)
  obtain w t1 where w: "window t = (w, t1)" by fastforce
  then have "fst (t_remote t1) = 2" using window_frame [OF w] assms by auto
  then show ?thesis by (simp add: send_tcp_def w route Let_def)
qed

lemma example_round:
  assumes "fst (t_remote t) = 2"
  shows "output_round example_env example_stack t 0 = Some Break \<or>
    (\<exists>t'. output_round example_env example_stack t 0 = Some (Sent (example_stack, t')) \<and> fst (t_remote t') = 2)"
proof (cases "output_fin t \<or> worth_sending (output_len t) (unsent t) (snd_mss t) (unat (max_window t)) (in_flight t) (nodelay t) (probe t)")
  case False
  then show ?thesis by (simp add: output_round_def)
next
  case True
  let ?flags = "(ACK OR (if 0 < output_len t \<and> output_len t = unsent t then PSH else 0)) OR (if output_fin t then FIN else 0)"
  obtain u where "send_tcp example_env example_stack t (snd_nxt t) ?flags (unat (snd_nxt t - tx_base t)) (output_len t) 0
      = Some (True, example_stack, u)" "fst (t_remote u) = 2"
    using example_send [OF assms] by blast
  then show ?thesis using True by (simp add: output_round_def Let_def advance_def)
qed

lemma example_loop: "fst (t_remote t) = 2 \<Longrightarrow> \<exists>t'. output_loop example_env example_stack t 0 = Some (True, example_stack, t') \<and> fst (t_remote t') = 2"
proof (induction example_env example_stack t "0 :: nat" rule: output_loop.induct)
  case (1 t)
  note loop = output_loop.simps [of example_env example_stack t 0]
  consider "fin_sent t" | "output_round example_env example_stack t 0 = Some Break"
    | u where "\<not> fin_sent t" "output_round example_env example_stack t 0 = Some (Sent (example_stack, u))" "fst (t_remote u) = 2"
    using example_round [OF "1.prems"] by blast
  then show ?case
  proof cases
    case (3 u)
    then show ?thesis using "1.hyps" [OF 3(1,2) refl refl 3(3)] by (simp add: loop)
  qed (use "1.prems" in \<open>simp_all add: loop\<close>)
qed

lemma output_keeps_to_windows_witness:
  "\<exists>st' t'. tcp_output example_env example_stack sending_tcb 0 = Some (st', t') \<and> in_flight t' \<le> 4"
proof -
  let ?t = "output_restart (sending_tcb\<lparr>link_retry_at := None\<rparr>) 0"
  obtain t1 where 1: "output_loop example_env example_stack ?t 0 = Some (True, example_stack, t1)" "fst (t_remote t1) = 2"
  proof -
    have "fst (t_remote ?t) = 2" by (simp add: output_restart_def sending_tcb_def example_tcb_def tcb_new_def)
    then show thesis using example_loop that by blast
  qed
  obtain t2 where "output_ack example_env example_stack t1 0 = Some (example_stack, t2)"
    using example_send [OF 1(2), of "snd_nxt t1" ACK 0 0 0] by (cases "ack_now t1") (auto simp: output_ack_def)
  then obtain st' t' where out: "tcp_output example_env example_stack sending_tcb 0 = Some (st', t')"
    using 1 by (simp add: tcp_output_def sending_tcb_def example_tcb_def tcb_new_def)
  have t: "t_state sending_tcb = Established" "in_flight sending_tcb = 0" "\<not> probe sending_tcb" "unat (snd_wnd sending_tcb) = 3" "cwnd sending_tcb = 10"
    by (simp_all add: sending_tcb_def example_tcb_def tcb_new_def in_flight_def)
  have "in_flight t' \<le> 3 + of_bool (fin_sent t' \<and> \<not> fin_sent sending_tcb)" using output_keeps_to_windows [OF out] t by simp
  also have "\<dots> \<le> 4" by simp
  finally show ?thesis using out by blast
qed

end
