(* ===== verification/Spec2Isabelle.thy ===== *)
theory Spec2Isabelle
  imports Arp_Cache Bmp_Decoder Checksum Dhcp Dns_Cache Dns_Message Frag Gfx_Format Gif_Decoder Image_Open Inflate_Spec Lzw Net_Stack Pipeline Png_Decoder Ring Tcp_Steps Udp Wire
begin

text \<open>
  This library verifies the parts of esp-devkit that decide something in plain Rust: the network stack
  (\<open>src/libs/devkit_net\<close>), the decompressors (\<open>src/libs/devkit_compression\<close>), the image decoders and the
  row pipeline they feed (\<open>src/libs/devkit_image\<close>), and the resource format of the graphics library
  (\<open>src/libs/devkit_gfx/src/format.rs\<close>). File names below are relative to \<open>src/libs\<close>.

  \<^bold>\<open>How the parts interact.\<close> The network stack is one state (\<open>Stack\<close>, behind a mutex in the source): a link
  hands it a frame, \<open>Net_Stack\<close> parses it (\<open>Wire\<close>, \<open>Checksum\<close>), puts fragments together (\<open>Frag\<close>), learns
  neighbours (\<open>Arp_Cache\<close>), and gives the payload to ICMP, UDP or TCP; these answer through the sending
  side of \<open>Stack_State\<close>, which routes, resolves the neighbour and hands frames to the link. Time enters as
  \<open>poll\<close> with the current instant. The sockets call the operations of \<open>Udp\<close> and \<open>Tcp\<close>, whose data waits in
  rings (\<open>Ring\<close>); the DHCP client and the resolver (\<open>Dhcp\<close>, \<open>Dns_Cache\<close>, \<open>Dns_Message\<close>) are clients of UDP.
  A decoder of images reads a stream through a window (\<open>Image_Stream\<close>), hands the compressed part to a
  decompressor as a source of blocks (\<open>Image_Sources\<close>, \<open>Source_Input\<close>), and gives rows, in a pixel format
  of the caller's choice (\<open>Image_Pixel\<close>); the rows may pass to another task through the ring of \<open>Pipeline\<close>.

  \<^bold>\<open>Conventions.\<close> \<open>Base\<close> holds the machine types, results and panics: an \<open>option\<close> around a result is a
  panic (an index or a slice out of range), \<open>res\<close> is \<open>Result\<close>, \<open>usize\<close> is \<open>nat\<close>, integers whose
  wrap-around matters are words. State is passed explicitly, in records named after the structs. Loops are
  recursions with a measure; where the measure is the input of a decompressor, the recursion has fuel
  (\<open>inflate_fuel\<close>, the fuel of \<open>lzw_read\<close> and of \<open>resolve\<close>), and theorems show the fuel never runs out.

  \<^bold>\<open>Interfaces.\<close> \<open>byte_buffer\<close> (Byte_Buffer; interpreted by \<open>Ring\<close>) is what TCP relies on of a ring that can be
  written ahead. \<open>keyed_table\<close> (Table) is the bounded table that makes room by removing the entry that matters
  least (fragments, neighbours, DNS answers). \<open>source_contract\<close> (Source_Input) is what a decompressor relies on of
  a source; \<open>pulled_source\<close> (Image_Sources) is a buffer in front of a way to get blocks, from which the
  contract follows, and is interpreted on the three sources of the image decoders.

  \<^bold>\<open>Theories and sources, devkit_net.\<close>
  \<^item> \<open>Ring\<close>: \<open>ring.rs\<close>. The ring is the bytes held and the room written ahead; pushes and pops are those of a queue.
  \<^item> \<open>Bytes\<close>, \<open>Checksum\<close>, \<open>Wire\<close>: \<open>wire.rs\<close>. Parsers never panic, headers round trip, the word-wise checksum is
    that of RFC 1071 for every alignment and byte order.
  \<^item> \<open>Ranges\<close>, \<open>Frag\<close>: \<open>frag.rs\<close> (and the merging of ranges that \<open>tcp.rs\<close> repeats). Fragments of one datagram in any
    order give the datagram, fragments of others never mix in, memory is bounded.
  \<^item> \<open>Arp_Cache\<close>: \<open>arp.rs\<close>. Answers were taught, requests are bounded.
  \<^item> \<open>Dns_Message\<close>, \<open>Dns_Cache\<close>: \<open>dns/message.rs\<close>, \<open>dns/cache.rs\<close> and the decisions of \<open>dns/mod.rs\<close>. Compressed names
    decode without panics or loops, responses round trip, alias chains end.
  \<^item> \<open>Tcp_Segment\<close>, \<open>Tcp_Control\<close>, \<open>Tcp\<close>: \<open>tcp.rs\<close>, from sequence numbers and the assembler over the control block to
    input, output, timers and socket calls. \<open>Tcp_Stream\<close> is about the byte streams (what is handed to the reader is
    a prefix of what was sent), \<open>Tcp_States\<close> and \<open>Tcp_Steps\<close> about the state diagram as a step relation, resets and
    windows.
  \<^item> \<open>Stack_State\<close>, \<open>Udp\<close>, \<open>Net_Stack\<close>, \<open>Net_Error\<close>: \<open>stack.rs\<close>, \<open>link.rs\<close>, \<open>time.rs\<close>, \<open>error.rs\<close>, \<open>udp.rs\<close>, \<open>icmp.rs\<close>.
    The link is the parameter \<open>e_tx\<close>, the allocator \<open>e_mem\<close>; initial sequence numbers are keyed (
    \<open>Siphash\<close>, devkit_crypto's \<open>mac.rs\<close>).
  \<^item> \<open>Dhcp\<close>: \<open>dhcp.rs\<close>. Messages, leases and decisions; what a wait comes to is a parameter.

  \<^bold>\<open>devkit_compression.\<close> \<open>Source_Input\<close> (\<open>lib.rs\<close>, \<open>bits.rs\<close>), \<open>Bit_Stream\<close>, \<open>Lzw\<close> (\<open>lzw.rs\<close>: reads of any sizes give the text of
  the textbook decoder), \<open>Huffman\<close>, \<open>Inflate\<close> and \<open>Inflate_Spec\<close> (\<open>inflate.rs\<close>: tables decode canonical codes,
  compressed blocks are LZ77 over the last 32768 bytes, stored data comes back, no input panics). The source of a
  decompressor is its blocks and how it ends.

  \<^bold>\<open>devkit_image and devkit_gfx.\<close>
  \<^item> \<open>Gfx_Format\<close> (\<open>devkit_gfx/src/format.rs\<close>): headers and run-length encoded glyphs read back as written.
  \<^item> \<open>Image_Base\<close>, \<open>Image_Pixel\<close> (\<open>pixel.rs\<close>, the assertions of \<open>kernels.rs\<close>): row formats; the vector kernels are the
    parameter \<open>pie\<close>, with the hypothesis that they give what the code they replace gives.
  \<^item> \<open>Pipeline\<close> (\<open>pipeline.rs\<close>): the ring of rows as a step relation of two tasks, in every interleaving.
  \<^item> \<open>Image_Stream\<close>, \<open>Image_Sources\<close>, \<open>Image_Open\<close> (\<open>stream.rs\<close>, \<open>decoder.rs\<close> and the sources of \<open>png.rs\<close>, \<open>gif.rs\<close>, \<open>tiff.rs\<close>):
    the reader is a cursor in the bytes of the stream, opening keeps the stream whole.
  \<^item> \<open>Png_Decoder\<close> (\<open>png.rs\<close>): filters are undone, the image data is the concatenation of its chunks, no stream panics.
  \<^item> \<open>Gif_Decoder\<close> (\<open>gif.rs\<close>): the first frame is drawn from the text of its LZW codes, interlaced or not; no stream panics.
  \<^item> \<open>Bmp_Decoder\<close> (\<open>bmp.rs\<close>): rows read in chunks are the rows of the file, run lengths are drawing commands, no panic with masks that are runs.

  \<^bold>\<open>Not modelled.\<close> Futures, wakers and the executor (atomics under a weak memory model); a task waiting on
  a socket is only the readiness it is woken for. Drivers, FFI bindings and DMA (\<open>idf\<close>, \<open>bsp_rs\<close>, \<open>usb_host_rs\<close>). TLS
  and X.509 (their primitives are those of the hardware or of PSA). Audio codecs, JPEG and WebP lossy
  (fixed-point signal processing against floating-point standards), resizing and dithering. The user interface
  tree (closures and type-erased nodes). Tools of the build. The assembly kernels, and the C and C++ frameworks.
  Failing file systems: a failing stream reads as one that ends, as the reader takes it.
\<close>

end
